(* ===== verification/Prelude.thy ===== *)
theory Prelude
  imports Main "HOL-Library.Word" "HOL-Library.Product_Lexorder"
begin

unbundle bit_operations_syntax

section \<open>Shared vocabulary of the development\<close>

text \<open>
  What every component theory uses: the result type that makes each failing \<open>assert\<close>, each
  out-of-range access and each C++ exception a value; \<open>size_t\<close> arithmetic on \<open>nat\<close> with the
  wrap-around written out; bounds-checked copies into and out of a \<open>std::vector<char>\<close>;
  \<open>std::find\<close> and \<open>std::search\<close>; \<open>std::set\<close> as a strictly sorted list; decimal printing as
  \<open>snprintf("%d")\<close> does it.  The facts that the component proofs use are declared \<open>[simp]\<close>
  or collected in \<open>res_simps\<close> and \<open>oset_simps\<close>.
\<close>

named_theorems res_simps \<open>inversion of successful computations\<close>
named_theorems oset_simps \<open>std::set modelled as a strictly sorted list\<close>

subsection \<open>Log messages\<close>

text \<open>A message that a function writes through \<open>spdlog\<close> when the model keeps it: its text and its integer arguments.\<close>

type_synonym log_line = "string \<times> int list"

text \<open>\<open>checkNotNUll\<close> of \<open>utils/tools.h\<close> only logs a null pointer, and returns it.\<close>

definition checkNotNUll :: "'a option \<Rightarrow> 'a option \<times> log_line list" where
  "checkNotNUll p = (p, if p = None then [(''ptr is null!'', [])] else [])"

subsection \<open>Results\<close>

text \<open>
  The build sets no \<open>NDEBUG\<close>, so a failing \<open>assert\<close> ends the process: \<open>AssertFailed\<close> with the
  asserted expression.  \<open>OutOfBounds\<close> is a read or write outside a vector, \<open>DanglingPointer\<close> the
  use of an object that does not exist (any more), \<open>LengthError\<close> the \<open>std::length_error\<close> of
  \<open>vector::resize\<close>, \<open>BadFunctionCall\<close> the exception of calling an empty \<open>std::function\<close>,
  \<open>NoReturnValue\<close> the use of a function that reaches its end without the return statement it needs,
  \<open>BadAnyCast\<close> the exception of \<open>std::any_cast\<close> on an empty \<open>std::any\<close>, \<open>DivisionByZero\<close> an integer
  division by zero, \<open>Aborted\<close> a call of \<open>abort\<close>, \<open>UndefinedBehaviour\<close> a computation that the language or its library
  leaves undefined, such as the overflow of an \<open>int\<close>.
\<close>

datatype error =
    AssertFailed string
  | OutOfBounds
  | DanglingPointer
  | LengthError
  | BadFunctionCall
  | NoReturnValue
  | BadAnyCast
  | DivisionByZero
  | Aborted
  | UndefinedBehaviour
  | NeverReturns

type_synonym 'a res = "error + 'a"

definition bindR :: "'a res \<Rightarrow> ('a \<Rightarrow> 'b res) \<Rightarrow> 'b res" where
  "bindR m f = (case m of Inl e \<Rightarrow> Inl e | Inr x \<Rightarrow> f x)"

definition check :: "bool \<Rightarrow> string \<Rightarrow> 'a res \<Rightarrow> 'a res" where
  "check P msg k = (if P then k else Inl (AssertFailed msg))"

fun foldR :: "('x \<Rightarrow> 's \<Rightarrow> 's res) \<Rightarrow> 'x list \<Rightarrow> 's \<Rightarrow> 's res" where
  "foldR f [] s = Inr s"
| "foldR f (x # xs) s = bindR (f x s) (foldR f xs)"

text \<open>A loop whose turn says whether it goes on; \<open>None\<close> when it never ends.\<close>

partial_function (option) turns :: "('s \<Rightarrow> (bool \<times> 's) res) \<Rightarrow> 's \<Rightarrow> 's res option" where
  "turns turn s =
     (case turn s of
        Inl e \<Rightarrow> Some (Inl e)
      | Inr r \<Rightarrow> if fst r then turns turn (snd r) else Some (Inr (snd r)))"

lemma bindR_simps [simp]:
  "bindR (Inr x) f = f x"
  "bindR (Inl e) f = Inl e"
  by (simp_all add: bindR_def)

lemma bindR_Inr_iff [res_simps]: "bindR m f = Inr y \<longleftrightarrow> (\<exists>x. m = Inr x \<and> f x = Inr y)"
  by (cases m) simp_all

lemma bindR_Inl_iff: "bindR m f = Inl e \<longleftrightarrow> m = Inl e \<or> (\<exists>x. m = Inr x \<and> f x = Inl e)"
  by (cases m) simp_all

lemma bindR_assoc: "bindR (bindR m f) g = bindR m (\<lambda>x. bindR (f x) g)"
  by (cases m) simp_all

lemma check_True [simp]: "check True msg k = k"
  by (simp add: check_def)

lemma check_False [simp]: "check False msg k = Inl (AssertFailed msg)"
  by (simp add: check_def)

lemma check_Inr_iff [res_simps]: "check P msg k = Inr y \<longleftrightarrow> P \<and> k = Inr y"
  by (simp add: check_def)

lemma check_holds: "P \<Longrightarrow> check P msg k = k"
  by simp

text \<open>An invariant of one step is an invariant of a sequence of steps.\<close>

lemma foldR_invariant:
  assumes "\<And>x s s'. x \<in> set xs \<Longrightarrow> I s \<Longrightarrow> f x s = Inr s' \<Longrightarrow> I s'"
    and "I s" and "foldR f xs s = Inr s'"
  shows "I s'"
  using assms
proof (induction xs arbitrary: s)
  case Nil
  then show ?case by simp
next
  case (Cons x xs)
  from Cons.prems(3) obtain t where "f x s = Inr t" and t: "foldR f xs t = Inr s'"
    by (auto simp: res_simps)
  with Cons.prems(1) [of x s t] Cons.prems(2) have "I t" by simp
  moreover have "\<And>y s s'. y \<in> set xs \<Longrightarrow> I s \<Longrightarrow> f y s = Inr s' \<Longrightarrow> I s'"
    using Cons.prems(1) by (meson list.set_intros(2))
  ultimately show ?case using Cons.IH t by blast
qed

lemma foldR_append: "foldR f (xs @ ys) s = bindR (foldR f xs s) (foldR f ys)"
  by (induction xs arbitrary: s) (simp_all add: bindR_assoc bindR_def split: sum.splits)

subsection \<open>size\_t arithmetic\<close>

abbreviation SIZE_MOD :: nat where
  "SIZE_MOD \<equiv> 18446744073709551616"

definition size_add :: "nat \<Rightarrow> nat \<Rightarrow> nat" where
  "size_add a b = (a + b) mod SIZE_MOD"

definition size_sub :: "nat \<Rightarrow> nat \<Rightarrow> nat" where
  "size_sub a b = (a + (SIZE_MOD - b)) mod SIZE_MOD"

lemma size_add_small [simp]: "a + b < SIZE_MOD \<Longrightarrow> size_add a b = a + b"
  by (simp add: size_add_def)

lemma size_sub_small [simp]: "b \<le> a \<Longrightarrow> a < SIZE_MOD \<Longrightarrow> size_sub a b = a - b"
proof -
  assume "b \<le> a" "a < SIZE_MOD"
  then have "a + (SIZE_MOD - b) = (a - b) + SIZE_MOD" and "a - b < SIZE_MOD" by arith+
  then show ?thesis by (simp add: size_sub_def del: diff_add_assoc2)
qed

lemma size_sub_wraps: "a < b \<Longrightarrow> b < SIZE_MOD \<Longrightarrow> size_sub a b = SIZE_MOD - (b - a)"
  by (simp add: size_sub_def)

subsection \<open>Bounds-checked access to a vector\<close>

definition read_at :: "nat \<Rightarrow> nat \<Rightarrow> 'a list \<Rightarrow> 'a list res" where
  "read_at pos n xs = (if pos + n \<le> length xs then Inr (take n (drop pos xs)) else Inl OutOfBounds)"

definition write_at :: "nat \<Rightarrow> 'a list \<Rightarrow> 'a list \<Rightarrow> 'a list res" where
  "write_at pos ys xs =
     (if pos + length ys \<le> length xs
      then Inr (take pos xs @ ys @ drop (pos + length ys) xs) else Inl OutOfBounds)"

lemma read_at_ok: "pos + n \<le> length xs \<Longrightarrow> read_at pos n xs = Inr (take n (drop pos xs))"
  by (simp add: read_at_def)

lemma write_at_ok:
  "pos + length ys \<le> length xs \<Longrightarrow>
     write_at pos ys xs = Inr (take pos xs @ ys @ drop (pos + length ys) xs)"
  by (simp add: write_at_def)

lemma read_at_Inr_iff [res_simps]:
  "read_at pos n xs = Inr ys \<longleftrightarrow> pos + n \<le> length xs \<and> ys = take n (drop pos xs)"
  by (auto simp: read_at_def)

lemma write_at_Inr_iff [res_simps]:
  "write_at pos ys xs = Inr zs \<longleftrightarrow>
     pos + length ys \<le> length xs \<and> zs = take pos xs @ ys @ drop (pos + length ys) xs"
  by (auto simp: write_at_def)

lemma write_at_length: "write_at pos ys xs = Inr zs \<Longrightarrow> length zs = length xs"
  by (auto simp: write_at_Inr_iff)

subsection \<open>std::find and std::search\<close>

text \<open>\<open>std::find\<close>: the offset of the first match, the length of the range if there is none.\<close>

fun find_char :: "char \<Rightarrow> string \<Rightarrow> nat" where
  "find_char c [] = 0"
| "find_char c (x # xs) = (if x = c then 0 else Suc (find_char c xs))"

lemma find_char_le: "find_char c xs \<le> length xs"
  by (induction xs) auto

lemma find_char_less_iff: "find_char c xs < length xs \<longleftrightarrow> c \<in> set xs"
  by (induction xs) auto

lemma find_char_eq_length_iff: "find_char c xs = length xs \<longleftrightarrow> c \<notin> set xs"
  by (induction xs) auto

lemma find_char_append: "c \<notin> set xs \<Longrightarrow> find_char c (xs @ c # ys) = length xs"
  by (induction xs) auto

lemma find_char_app: "c \<notin> set xs \<Longrightarrow> find_char c (xs @ ys) = length xs + find_char c ys"
  by (induction xs) auto

lemma drop_past [simp]: "drop (Suc (length xs)) (xs @ y # ys) = ys"
  by (induction xs) auto

lemma find_char_split: "c \<in> set xs \<Longrightarrow>
  xs = take (find_char c xs) xs @ c # drop (Suc (find_char c xs)) xs \<and>
  c \<notin> set (take (find_char c xs) xs)"
  by (induction xs) auto

text \<open>\<open>std::search\<close> for a pattern: the offset of the first occurrence, if any.\<close>

fun search :: "'a list \<Rightarrow> 'a list \<Rightarrow> nat option" where
  "search pat [] = (if pat = [] then Some 0 else None)"
| "search pat (x # xs) =
     (if take (length pat) (x # xs) = pat then Some 0 else map_option Suc (search pat xs))"

lemma search_Some:
  "search pat xs = Some i \<Longrightarrow> take (length pat) (drop i xs) = pat \<and> i + length pat \<le> length xs"
proof (induction xs arbitrary: i)
  case Nil
  then show ?case by (auto split: if_splits)
next
  case (Cons x xs)
  show ?case
  proof (cases "take (length pat) (x # xs) = pat")
    case True
    then have "length pat \<le> length (x # xs)"
      by (metis length_take min.cobounded1)
    with True Cons.prems show ?thesis by simp
  next
    case False
    with Cons.prems obtain j where "search pat xs = Some j" "i = Suc j" by auto
    with Cons.IH show ?thesis by auto
  qed
qed

lemma search_first:
  "search pat xs = Some i \<Longrightarrow> j < i \<Longrightarrow> take (length pat) (drop j xs) \<noteq> pat"
proof (induction xs arbitrary: i j)
  case Nil
  then show ?case by (auto split: if_splits)
next
  case (Cons x xs)
  then have ne: "take (length pat) (x # xs) \<noteq> pat" by (auto split: if_splits)
  with Cons.prems obtain k where k: "search pat xs = Some k" "i = Suc k" by auto
  show ?case
  proof (cases j)
    case 0
    with ne show ?thesis by simp
  next
    case (Suc j')
    with Cons.prems k show ?thesis using Cons.IH [OF k(1), of j'] by simp
  qed
qed

lemma search_None: "search pat xs = None \<Longrightarrow> take (length pat) (drop j xs) \<noteq> pat \<or> pat = []"
proof (induction xs arbitrary: j)
  case Nil
  then show ?case by (auto split: if_splits)
next
  case (Cons x xs)
  then show ?case
    by (cases j) (auto split: if_splits)
qed

subsection \<open>std::set as a strictly sorted list\<close>

definition oset :: "'a::linorder list \<Rightarrow> bool" where
  "oset xs \<longleftrightarrow> sorted_wrt (<) xs"

fun oset_insert :: "'a::linorder \<Rightarrow> 'a list \<Rightarrow> 'a list" where
  "oset_insert x [] = [x]"
| "oset_insert x (y # ys) =
     (if x < y then x # y # ys else if x = y then y # ys else y # oset_insert x ys)"

definition oset_erase :: "'a \<Rightarrow> 'a list \<Rightarrow> 'a list" where
  "oset_erase x xs = filter (\<lambda>y. y \<noteq> x) xs"

lemma set_oset_insert [simp]: "set (oset_insert x xs) = insert x (set xs)"
  by (induction xs) auto

lemma set_oset_erase [simp]: "set (oset_erase x xs) = set xs - {x}"
  by (auto simp: oset_erase_def)

lemma oset_Nil [oset_simps]: "oset []"
  by (simp add: oset_def)

lemma oset_Cons: "oset (x # xs) \<longleftrightarrow> (\<forall>y \<in> set xs. x < y) \<and> oset xs"
  by (simp add: oset_def)

lemma oset_oset_insert [oset_simps]: "oset xs \<Longrightarrow> oset (oset_insert x xs)"
  by (induction xs) (auto simp: oset_def)

lemma oset_oset_erase [oset_simps]: "oset xs \<Longrightarrow> oset (oset_erase x xs)"
  by (simp add: oset_def oset_erase_def sorted_wrt_filter)

lemma oset_filter [oset_simps]: "oset xs \<Longrightarrow> oset (filter P xs)"
  by (simp add: oset_def sorted_wrt_filter)

lemma oset_distinct: "oset xs \<Longrightarrow> distinct xs"
  by (induction xs) (auto simp: oset_Cons)

lemma oset_card: "oset xs \<Longrightarrow> length xs = card (set xs)"
  by (simp add: oset_distinct distinct_card)

lemma oset_ext: "oset xs \<Longrightarrow> oset ys \<Longrightarrow> set xs = set ys \<Longrightarrow> xs = ys"
  unfolding oset_def by (metis strict_sorted_equal)

text \<open>
  \<open>lower_bound\<close>: what lies before it is the prefix of smaller elements.
\<close>

lemma oset_takeWhile: "oset xs \<Longrightarrow> takeWhile (\<lambda>y. y < x) xs = filter (\<lambda>y. y < x) xs"
proof (induction xs)
  case (Cons y ys)
  then show ?case
    by (auto simp: oset_Cons filter_empty_conv dest: less_trans)
       (metis filter_False less_trans not_less_iff_gr_or_eq)
qed simp

lemma oset_dropWhile: "oset xs \<Longrightarrow> dropWhile (\<lambda>y. y < x) xs = filter (\<lambda>y. \<not> y < x) xs"
proof (induction xs)
  case (Cons y ys)
  show ?case
  proof (cases "y < x")
    case True
    with Cons show ?thesis by (simp add: oset_Cons)
  next
    case False
    with Cons.prems have "\<forall>z \<in> set ys. \<not> z < x"
      by (auto simp: oset_Cons dest: less_trans)
    with False show ?thesis by simp
  qed
qed simp

lemma oset_last: "oset xs \<Longrightarrow> x \<in> set xs \<Longrightarrow> x = last xs \<longleftrightarrow> (\<forall>y \<in> set xs. y \<le> x)"
proof (induction xs)
  case (Cons y ys)
  show ?case
  proof (cases "ys = []")
    case True
    with Cons.prems show ?thesis by simp
  next
    case False
    then have lst: "last (y # ys) = last ys" "last ys \<in> set ys" by simp_all
    with Cons.prems have "y < last ys" by (simp add: oset_Cons)
    show ?thesis
    proof (cases "x = y")
      case True
      with \<open>y < last ys\<close> lst show ?thesis by (auto simp: not_le)
    next
      case False
      with Cons lst show ?thesis by (auto simp: oset_Cons less_imp_le)
    qed
  qed
qed simp

subsection \<open>Decimal digits\<close>

definition digit_char :: "nat \<Rightarrow> char" where
  "digit_char d = char_of (48 + d)"

fun show_nat :: "nat \<Rightarrow> string" where
  "show_nat n = (if n < 10 then [digit_char n] else show_nat (n div 10) @ [digit_char (n mod 10)])"

declare show_nat.simps [simp del]

definition show_int :: "int \<Rightarrow> string" where
  "show_int i = (if i < 0 then CHR ''-'' # show_nat (nat (- i)) else show_nat (nat i))"

lemma digit_char_inject: "a < 10 \<Longrightarrow> b < 10 \<Longrightarrow> digit_char a = digit_char b \<longleftrightarrow> a = b"
proof -
  assume ab: "a < 10" "b < 10"
  have "of_char (digit_char d) = 48 + d" if "d < 10" for d :: nat
    using that by (simp add: digit_char_def)
  with ab show ?thesis by (metis add_left_cancel)
qed

lemma show_nat_not_Nil [simp]: "show_nat n \<noteq> []"
  by (subst show_nat.simps) simp

lemma show_nat_inject: "show_nat m = show_nat n \<longleftrightarrow> m = n"
proof
  assume "show_nat m = show_nat n"
  then show "m = n"
  proof (induction m arbitrary: n rule: show_nat.induct)
    case (1 m)
    have len: "(k < 10) \<longleftrightarrow> length (show_nat k) = 1" for k
      by (subst show_nat.simps) (auto simp: Suc_le_eq)
    show ?case
    proof (cases "m < 10")
      case True
      with len "1.prems" have "n < 10" by metis
      with True "1.prems" show ?thesis
        by (simp add: show_nat.simps [of m] show_nat.simps [of n] digit_char_inject)
    next
      case False
      with len "1.prems" have "\<not> n < 10" by metis
      with False "1.prems" have
        "show_nat (m div 10) = show_nat (n div 10)" "digit_char (m mod 10) = digit_char (n mod 10)"
        by (simp_all add: show_nat.simps [of m] show_nat.simps [of n])
      with "1.IH" [OF False] have "m div 10 = n div 10" "m mod 10 = n mod 10"
        by (simp_all add: digit_char_inject)
      then show ?thesis by (metis div_mult_mod_eq)
    qed
  qed
qed simp

end
