(* ===== verification/Channel.thy ===== *)
theory Channel
  imports Prelude
begin

section \<open>Channel\<close>

text \<open>
  \<open>chaonet/include/Callbacks.h\<close>, \<open>Channel.h\<close> and \<open>chaonet/src/Channel.cpp\<close>.  Channels are
  objects that their owner and the poller share by pointer, so they live in an explicit store
  (\<open>chans\<close>); using a pointer that the store does not hold is \<open>DanglingPointer\<close>.  A
  \<open>std::function\<close> that the library creates with \<open>std::bind\<close> is a tag (\<open>chan_cb\<close> for the callbacks
  of a channel, \<open>loop_functor\<close> for what is queued in an event loop); \<open>None\<close> is the empty
  \<open>std::function\<close>.  What a tag does is an argument (\<open>call\<close>) of the definitions that invoke it.
  \<open>Channel::update\<close> calls back into the loop's poller: the operations take that function as the
  argument \<open>upd\<close>, and the locale \<open>poller_registry\<close> states what they rely on.
\<close>

subsection \<open>Bound functions\<close>

datatype chan_cb =
    WakeupRead
  | TimerRead
  | AcceptRead
  | ConnRead nat
  | ConnWrite nat
  | ConnClose nat
  | ConnError nat
  | ConnectorWrite
  | ConnectorError
  | UserChan nat

datatype loop_functor =
    AddTimerInLoop nat
  | CancelInLoop nat int
  | ConnSendInLoop nat string
  | ConnStartReadInLoop nat
  | ConnStopReadInLoop nat
  | ConnShutdownInLoop nat
  | ConnEstablished nat
  | ConnDestroyed nat
  | WriteComplete nat nat
  | HighWaterMark nat nat nat
  | SetCloseCallback nat
  | ConnectorStartInLoop
  | ConnectorResetChannel
  | AcceptorListen
  | RemoveConnectionInLoop nat
  | UserFn nat

subsection \<open>Event masks (values of sys/poll.h on Linux)\<close>

definition POLLIN :: "32 word" where "POLLIN = 0x001"
definition POLLPRI :: "32 word" where "POLLPRI = 0x002"
definition POLLOUT :: "32 word" where "POLLOUT = 0x004"
definition POLLERR :: "32 word" where "POLLERR = 0x008"
definition POLLHUP :: "32 word" where "POLLHUP = 0x010"
definition POLLNVAL :: "32 word" where "POLLNVAL = 0x020"
definition POLLRDHUP :: "32 word" where "POLLRDHUP = 0x2000"

definition kNoneEvent :: "32 word" where
  "kNoneEvent = 0"

definition kReadEvent :: "32 word" where
  "kReadEvent = POLLIN OR POLLPRI"

definition kWriteEvent :: "32 word" where
  "kWriteEvent = POLLOUT"

lemmas poll_consts = POLLIN_def POLLPRI_def POLLOUT_def POLLERR_def POLLHUP_def POLLNVAL_def
  POLLRDHUP_def kNoneEvent_def kReadEvent_def kWriteEvent_def

subsection \<open>The channel object and the store of channels\<close>

record channel =
  ch_loop :: nat
  ch_fd :: int
  ch_events :: "32 word"
  ch_revents :: "32 word"
  ch_index :: int
  readCallback :: "chan_cb option"
  writeCallback :: "chan_cb option"
  errorCallback :: "chan_cb option"
  closeCallback :: "chan_cb option"
  eventHandling :: bool

record chan_store =
  chans :: "nat \<Rightarrow> channel option"

definition with_chan :: "nat \<Rightarrow> ('m) chan_store_scheme \<Rightarrow> (channel \<Rightarrow> 'a res) \<Rightarrow> 'a res" where
  "with_chan p s f = (case chans s p of None \<Rightarrow> Inl DanglingPointer | Some c \<Rightarrow> f c)"

definition put_chan :: "nat \<Rightarrow> channel \<Rightarrow> ('m) chan_store_scheme \<Rightarrow> 'm chan_store_scheme" where
  "put_chan p c s = s\<lparr>chans := (chans s)(p \<mapsto> c)\<rparr>"

text \<open>
  The constructor does not initialise \<open>eventHandling\<close>: its first value is an argument.
\<close>

definition Channel_new :: "nat \<Rightarrow> int \<Rightarrow> bool \<Rightarrow> channel" where
  "Channel_new loop fd uninit =
     \<lparr>ch_loop = loop, ch_fd = fd, ch_events = 0, ch_revents = 0, ch_index = -1,
      readCallback = None, writeCallback = None, errorCallback = None, closeCallback = None,
      eventHandling = uninit\<rparr>"

definition Channel_destroy :: "channel \<Rightarrow> unit res" where
  "Channel_destroy c = check (\<not> eventHandling c) ''!eventHandling'' (Inr ())"

definition setReadCallback :: "chan_cb option \<Rightarrow> channel \<Rightarrow> channel" where
  "setReadCallback cb c = c\<lparr>readCallback := cb\<rparr>"

definition setWriteCallback :: "chan_cb option \<Rightarrow> channel \<Rightarrow> channel" where
  "setWriteCallback cb c = c\<lparr>writeCallback := cb\<rparr>"

definition setErrorCallback :: "chan_cb option \<Rightarrow> channel \<Rightarrow> channel" where
  "setErrorCallback cb c = c\<lparr>errorCallback := cb\<rparr>"

definition setCloseCallback :: "chan_cb option \<Rightarrow> channel \<Rightarrow> channel" where
  "setCloseCallback cb c = c\<lparr>closeCallback := cb\<rparr>"

definition set_revents :: "32 word \<Rightarrow> channel \<Rightarrow> channel" where
  "set_revents revt c = c\<lparr>ch_revents := revt\<rparr>"

definition set_index :: "int \<Rightarrow> channel \<Rightarrow> channel" where
  "set_index idx c = c\<lparr>ch_index := idx\<rparr>"

definition isNoneEvent :: "channel \<Rightarrow> bool" where
  "isNoneEvent c \<longleftrightarrow> ch_events c = kNoneEvent"

definition isWriting :: "channel \<Rightarrow> bool" where
  "isWriting c \<longleftrightarrow> ch_events c AND kWriteEvent \<noteq> 0"

definition isReading :: "channel \<Rightarrow> bool" where
  "isReading c \<longleftrightarrow> ch_events c AND kReadEvent \<noteq> 0"

definition set_events :: "(32 word \<Rightarrow> 32 word) \<Rightarrow> (nat \<Rightarrow> ('m) chan_store_scheme \<Rightarrow> 'm chan_store_scheme res) \<Rightarrow>
    nat \<Rightarrow> 'm chan_store_scheme \<Rightarrow> 'm chan_store_scheme res" where
  "set_events f upd p s =
     with_chan p s (\<lambda>c. upd p (put_chan p (c\<lparr>ch_events := f (ch_events c)\<rparr>) s))"

definition enableReading where
  "enableReading upd p s = set_events (\<lambda>e. e OR kReadEvent) upd p s"

definition disableReading where
  "disableReading upd p s = set_events (\<lambda>e. e AND NOT kReadEvent) upd p s"

definition enableWriting where
  "enableWriting upd p s = set_events (\<lambda>e. e OR kWriteEvent) upd p s"

definition disableWriting where
  "disableWriting upd p s = set_events (\<lambda>e. e AND NOT kWriteEvent) upd p s"

definition disableAll where
  "disableAll upd p s = set_events (\<lambda>e. kNoneEvent) upd p s"

text \<open>
  \<open>handleEvent\<close> tests \<open>revents_\<close> and the callbacks of the object anew before each call, since a
  callback may have changed them.
\<close>

definition dispatch :: "(int \<Rightarrow> chan_cb \<Rightarrow> ('m) chan_store_scheme \<Rightarrow> 'm chan_store_scheme res) \<Rightarrow> int \<Rightarrow>
    (channel \<Rightarrow> chan_cb option) \<Rightarrow> (32 word \<Rightarrow> bool) \<Rightarrow> nat \<Rightarrow> 'm chan_store_scheme \<Rightarrow>
    'm chan_store_scheme res" where
  "dispatch call receiveTime cb cond p s =
     with_chan p s (\<lambda>c.
       if cond (ch_revents c) then
         (case cb c of None \<Rightarrow> Inr s | Some f \<Rightarrow> call receiveTime f s)
       else Inr s)"

definition wantsClose :: "32 word \<Rightarrow> bool" where
  "wantsClose r \<longleftrightarrow> r AND POLLHUP \<noteq> 0 \<and> \<not> (r AND POLLIN \<noteq> 0)"

definition wantsError :: "32 word \<Rightarrow> bool" where
  "wantsError r \<longleftrightarrow> r AND (POLLERR OR POLLNVAL) \<noteq> 0"

definition wantsRead :: "32 word \<Rightarrow> bool" where
  "wantsRead r \<longleftrightarrow> r AND (POLLIN OR POLLPRI OR POLLRDHUP) \<noteq> 0"

definition wantsWrite :: "32 word \<Rightarrow> bool" where
  "wantsWrite r \<longleftrightarrow> r AND POLLOUT \<noteq> 0"

definition handleEvent where
  "handleEvent call receiveTime p s =
     with_chan p s (\<lambda>c.
     bindR (dispatch call receiveTime closeCallback wantsClose p
              (put_chan p (c\<lparr>eventHandling := True\<rparr>) s)) (\<lambda>s1.
     bindR (dispatch call receiveTime errorCallback wantsError p s1) (\<lambda>s2.
     bindR (dispatch call receiveTime readCallback wantsRead p s2) (\<lambda>s3.
     bindR (dispatch call receiveTime writeCallback wantsWrite p s3) (\<lambda>s4.
     with_chan p s4 (\<lambda>c'. Inr (put_chan p (c'\<lparr>eventHandling := False\<rparr>) s4)))))))"

subsection \<open>Lemmas\<close>

lemma with_chan_Some [simp]: "chans s p = Some c \<Longrightarrow> with_chan p s f = f c"
  by (simp add: with_chan_def)

lemma with_chan_Inr_iff [res_simps]:
  "with_chan p s f = Inr y \<longleftrightarrow> (\<exists>c. chans s p = Some c \<and> f c = Inr y)"
  by (simp add: with_chan_def split: option.splits)

lemma chans_put_chan [simp]: "chans (put_chan p c s) = (chans s)(p \<mapsto> c)"
  by (simp add: put_chan_def)

lemma put_chan_put_chan [simp]: "put_chan p c (put_chan p d s) = put_chan p c s"
  by (simp add: put_chan_def)

lemma put_chan_same: "chans s p = Some c \<Longrightarrow> put_chan p c s = s"
  by (simp add: put_chan_def fun_upd_idem)

lemma mask_generic:
  fixes e m k :: "32 word"
  shows "(e OR m) AND m = m" "(e AND NOT m) AND m = 0"
    "m AND k = 0 \<Longrightarrow> (e OR m) AND k = e AND k" "m AND k = 0 \<Longrightarrow> (e AND NOT m) AND k = e AND k"
  by (auto simp: bit_eq_iff bit_simps)

lemma masks_disjoint:
  "kWriteEvent AND kReadEvent = 0" "kReadEvent AND kWriteEvent = 0" "kWriteEvent \<noteq> 0" "kReadEvent \<noteq> 0"
  by (simp_all add: poll_consts)

lemma mask_bits [simp]:
  "(e OR kWriteEvent) AND kWriteEvent = kWriteEvent"
  "(e AND NOT kWriteEvent) AND kWriteEvent = 0"
  "(e OR kReadEvent) AND kReadEvent = kReadEvent"
  "(e AND NOT kReadEvent) AND kReadEvent = 0"
  "(e OR kWriteEvent) AND kReadEvent = e AND kReadEvent"
  "(e OR kReadEvent) AND kWriteEvent = e AND kWriteEvent"
  "(e AND NOT kWriteEvent) AND kReadEvent = e AND kReadEvent"
  "(e AND NOT kReadEvent) AND kWriteEvent = e AND kWriteEvent"
  by (simp_all add: mask_generic masks_disjoint)

subsection \<open>The contract between channels and the poller\<close>

text \<open>
  What \<open>Channel\<close> and the owners of channels rely on.  \<open>registered p s\<close>: the poller knows the
  channel object \<open>p\<close>; \<open>free_fd fd s\<close>: it knows no channel for that descriptor; \<open>removable p s\<close>:
  the last update told it that \<open>p\<close> wants no events, so that \<open>removeChannel\<close> may be called.  The
  invariant does not depend on the event masks (changing a mask before the update is harmless) nor
  on the handling flag, and no operation touches the masks or callbacks of any channel.
\<close>

definition same_but_index :: "channel \<Rightarrow> channel \<Rightarrow> bool" where
  "same_but_index c d \<longleftrightarrow> c\<lparr>ch_index := 0, ch_revents := 0\<rparr> = d\<lparr>ch_index := 0, ch_revents := 0\<rparr>"

definition same_chans :: "('m) chan_store_scheme \<Rightarrow> 'm chan_store_scheme \<Rightarrow> bool" where
  "same_chans s t \<longleftrightarrow> (\<forall>p. rel_option same_but_index (chans s p) (chans t p))"

lemma same_but_index_simps:
  "same_but_index c c"
  "same_but_index c d \<Longrightarrow> ch_events c = ch_events d \<and> ch_fd c = ch_fd d \<and> ch_loop c = ch_loop d \<and>
    readCallback c = readCallback d \<and> writeCallback c = writeCallback d \<and>
    errorCallback c = errorCallback d \<and> closeCallback c = closeCallback d \<and>
    eventHandling c = eventHandling d"
  "same_but_index c (d\<lparr>ch_index := i\<rparr>) \<longleftrightarrow> same_but_index c d"
  "same_but_index (c\<lparr>ch_index := i\<rparr>) d \<longleftrightarrow> same_but_index c d"
  "same_but_index c (d\<lparr>ch_revents := r\<rparr>) \<longleftrightarrow> same_but_index c d"
  by (cases c; cases d; auto simp: same_but_index_def)+

lemma same_but_index_trans: "same_but_index a b \<Longrightarrow> same_but_index b c \<Longrightarrow> same_but_index a c"
  by (simp add: same_but_index_def)

lemma same_chans_refl [simp]: "same_chans s s"
  by (simp add: same_chans_def same_but_index_simps option.rel_refl)

lemma same_chans_trans: "same_chans s t \<Longrightarrow> same_chans t u \<Longrightarrow> same_chans s u"
  unfolding same_chans_def
  by (metis (full_types) option.rel_cases option.rel_inject(2) option.rel_inject(1) same_but_index_trans)

lemma same_chansD:
  "same_chans s t \<Longrightarrow> chans s p = Some c \<Longrightarrow> \<exists>d. chans t p = Some d \<and> same_but_index c d"
  unfolding same_chans_def by (metis option.rel_cases option.sel option.distinct(1))

datatype chan_op = EnableReading | DisableReading | EnableWriting | DisableWriting | DisableAll

fun chan_op_mask :: "chan_op \<Rightarrow> 32 word \<Rightarrow> 32 word" where
  "chan_op_mask EnableReading e = e OR kReadEvent"
| "chan_op_mask DisableReading e = e AND NOT kReadEvent"
| "chan_op_mask EnableWriting e = e OR kWriteEvent"
| "chan_op_mask DisableWriting e = e AND NOT kWriteEvent"
| "chan_op_mask DisableAll e = kNoneEvent"

fun chan_op_run where
  "chan_op_run upd p EnableReading s = enableReading upd p s"
| "chan_op_run upd p DisableReading s = disableReading upd p s"
| "chan_op_run upd p EnableWriting s = enableWriting upd p s"
| "chan_op_run upd p DisableWriting s = disableWriting upd p s"
| "chan_op_run upd p DisableAll s = disableAll upd p s"

lemma chan_op_run_eq: "chan_op_run upd p x s = set_events (chan_op_mask x) upd p s"
  by (cases x) (simp_all add: enableReading_def disableReading_def enableWriting_def
      disableWriting_def disableAll_def set_events_def)

locale poller_registry =
  fixes inv :: "('m) chan_store_scheme \<Rightarrow> bool"
    and registered removable :: "nat \<Rightarrow> 'm chan_store_scheme \<Rightarrow> bool"
    and free_fd :: "int \<Rightarrow> 'm chan_store_scheme \<Rightarrow> bool"
    and upd rem :: "nat \<Rightarrow> 'm chan_store_scheme \<Rightarrow> 'm chan_store_scheme res"
  assumes inv_mask: "inv s \<Longrightarrow> chans s p = Some c \<Longrightarrow> inv (put_chan p (c\<lparr>ch_events := e\<rparr>) s)"
    and registered_mask:
      "chans s p = Some c \<Longrightarrow> registered q (put_chan p (c\<lparr>ch_events := e\<rparr>) s) = registered q s"
    and free_fd_mask:
      "chans s p = Some c \<Longrightarrow> free_fd fd (put_chan p (c\<lparr>ch_events := e\<rparr>) s) = free_fd fd s"
    and upd_ok: "inv s \<Longrightarrow> chans s p = Some c \<Longrightarrow>
      registered p s \<or> (ch_index c = -1 \<and> 0 \<le> ch_fd c \<and> free_fd (ch_fd c) s) \<Longrightarrow>
      \<exists>s'. upd p s = Inr s' \<and> inv s' \<and> registered p s' \<and> same_chans s s' \<and>
        (\<forall>q. q \<noteq> p \<longrightarrow> registered q s' = registered q s) \<and>
        (registered p s \<and> ch_events c = 0 \<longrightarrow> removable p s')"
    and rem_ok: "inv s \<Longrightarrow> chans s p = Some c \<Longrightarrow> registered p s \<Longrightarrow> removable p s \<Longrightarrow>
      ch_events c = 0 \<Longrightarrow>
      \<exists>s'. rem p s = Inr s' \<and> inv s' \<and> \<not> registered p s' \<and> free_fd (ch_fd c) s' \<and> same_chans s s' \<and>
        (\<forall>q. q \<noteq> p \<longrightarrow> registered q s' = registered q s)"
begin

lemma set_events_ok:
  assumes "inv s" and c: "chans s p = Some c"
    and reg: "registered p s \<or> (ch_index c = -1 \<and> 0 \<le> ch_fd c \<and> free_fd (ch_fd c) s)"
  shows "\<exists>s' d. set_events f upd p s = Inr s' \<and> inv s' \<and> registered p s' \<and> chans s' p = Some d \<and>
    ch_events d = f (ch_events c) \<and> ch_fd d = ch_fd c \<and>
    (registered p s \<and> f (ch_events c) = 0 \<longrightarrow> removable p s')"
proof -
  let ?c = "c\<lparr>ch_events := f (ch_events c)\<rparr>" let ?s = "put_chan p ?c s"
  have "inv ?s" "chans ?s p = Some ?c" using inv_mask [OF assms(1) c] by simp_all
  moreover have "registered p ?s \<or> (ch_index ?c = -1 \<and> 0 \<le> ch_fd ?c \<and> free_fd (ch_fd ?c) ?s)"
    using reg by (simp add: registered_mask [OF c] free_fd_mask [OF c])
  ultimately obtain s' where s': "upd p ?s = Inr s'" "inv s'" "registered p s'" "same_chans ?s s'"
      "registered p ?s \<and> ch_events ?c = 0 \<longrightarrow> removable p s'"
    using upd_ok [of ?s p ?c] by blast
  moreover obtain d where "chans s' p = Some d" "same_but_index ?c d"
    using same_chansD [OF s'(4), of p ?c] by auto
  ultimately show ?thesis
    using c by (fastforce simp: set_events_def registered_mask [OF c] dest: same_but_index_simps(2))
qed

lemma chan_ops_ok:
  assumes "inv s" and "chans s p = Some c" and "registered p s"
  shows "\<exists>s' d. foldR (chan_op_run upd p) xs s = Inr s' \<and> inv s' \<and> registered p s' \<and> chans s' p = Some d \<and>
    ch_events d = fold chan_op_mask xs (ch_events c) \<and> ch_fd d = ch_fd c"
  using assms
proof (induction xs arbitrary: s c)
  case (Cons x xs)
  then obtain s1 d where s1: "chan_op_run upd p x s = Inr s1" "inv s1" "registered p s1"
      "chans s1 p = Some d" "ch_events d = chan_op_mask x (ch_events c)" "ch_fd d = ch_fd c"
    using set_events_ok [of s p c "chan_op_mask x"] by (auto simp: chan_op_run_eq)
  with Cons.IH [OF s1(2) s1(4) s1(3)] show ?case by auto
qed simp

text \<open>The life of a channel: registered by its first update, changed at will, disabled, removed.\<close>

lemma lifecycle:
  assumes "inv s" and c: "chans s p = Some c"
    and new: "ch_index c = -1" "0 \<le> ch_fd c" "free_fd (ch_fd c) s"
  shows "\<exists>s1 s2 s3. foldR (chan_op_run upd p) (x # xs) s = Inr s1 \<and> disableAll upd p s1 = Inr s2 \<and>
    rem p s2 = Inr s3 \<and> inv s3 \<and> \<not> registered p s3 \<and> free_fd (ch_fd c) s3"
proof -
  obtain s0 d0 where s0: "chan_op_run upd p x s = Inr s0" "inv s0" "registered p s0"
      "chans s0 p = Some d0" "ch_fd d0 = ch_fd c"
    using set_events_ok [of s p c "chan_op_mask x"] assms by (auto simp: chan_op_run_eq)
  obtain s1 d1 where s1: "foldR (chan_op_run upd p) xs s0 = Inr s1" "inv s1" "registered p s1"
      "chans s1 p = Some d1" "ch_fd d1 = ch_fd c"
    using chan_ops_ok [OF s0(2,4,3), of xs] s0(5) by auto
  obtain s2 d2 where s2: "disableAll upd p s1 = Inr s2" "inv s2" "registered p s2"
      "chans s2 p = Some d2" "ch_events d2 = 0" "ch_fd d2 = ch_fd c" "removable p s2"
    using set_events_ok [OF s1(2,4), of "\<lambda>_. kNoneEvent"] s1 by (auto simp: disableAll_def kNoneEvent_def)
  from rem_ok [OF s2(2,4,3,7,5)] s2(6) s0(1) s1(1) s2(1) show ?thesis by auto
qed

end

text \<open>
  A poller that also watches: after an update the mask it has asked the kernel to watch on behalf
  of the channel (\<open>armed\<close>) is the channel's own.
\<close>

locale poller_watch = poller_registry +
  fixes armed :: "nat \<Rightarrow> 'a chan_store_scheme \<Rightarrow> 32 word"
  assumes armed_upd: "inv s \<Longrightarrow> chans s p = Some c \<Longrightarrow>
      registered p s \<or> (ch_index c = -1 \<and> 0 \<le> ch_fd c \<and> free_fd (ch_fd c) s) \<Longrightarrow>
      upd p s = Inr s' \<Longrightarrow> armed p s' = ch_events c"
begin

lemma chan_ops_armed:
  assumes "inv s" and "chans s p = Some c" and "registered p s"
    and "foldR (chan_op_run upd p) (xs @ [x]) s = Inr s'"
  shows "armed p s' = fold chan_op_mask (xs @ [x]) (ch_events c)"
proof -
  obtain s1 d where s1: "foldR (chan_op_run upd p) xs s = Inr s1" "inv s1" "registered p s1"
      "chans s1 p = Some d" "ch_events d = fold chan_op_mask xs (ch_events c)"
    using chan_ops_ok [OF assms(1-3), of xs] by auto
  let ?d = "d\<lparr>ch_events := chan_op_mask x (ch_events d)\<rparr>"
  have "upd p (put_chan p ?d s1) = Inr s'"
    using assms(4) s1(1,4) by (simp add: foldR_append chan_op_run_eq set_events_def res_simps)
  then have "armed p s' = ch_events ?d"
    using armed_upd [of "put_chan p ?d s1" p ?d s'] inv_mask [OF s1(2,4)] s1(3)
      registered_mask [OF s1(4)] by simp
  then show ?thesis using s1(5) by simp
qed

lemma ops_from_new:
  assumes "inv s" and c: "chans s p = Some c"
    and new: "ch_index c = -1" "0 \<le> ch_fd c" "free_fd (ch_fd c) s"
    and run: "foldR (chan_op_run upd p) (x # xs) s = Inr s'"
  shows "inv s' \<and> armed p s' = fold chan_op_mask (x # xs) (ch_events c)"
proof -
  obtain s0 d0 where s0: "chan_op_run upd p x s = Inr s0" "inv s0" "registered p s0"
      "chans s0 p = Some d0" "ch_events d0 = chan_op_mask x (ch_events c)"
    using set_events_ok [of s p c "chan_op_mask x"] assms by (auto simp: chan_op_run_eq)
  with run have rest: "foldR (chan_op_run upd p) xs s0 = Inr s'" by simp
  show ?thesis
  proof (cases xs rule: rev_cases)
    case Nil
    let ?c = "c\<lparr>ch_events := chan_op_mask x (ch_events c)\<rparr>"
    have "upd p (put_chan p ?c s) = Inr s0"
      using s0(1) c by (simp add: chan_op_run_eq set_events_def)
    then have "armed p s0 = ch_events ?c"
      using armed_upd [of "put_chan p ?c s" p ?c s0] inv_mask [OF assms(1) c] new
        free_fd_mask [OF c] by simp
    with Nil rest s0 show ?thesis by simp
  next
    case (snoc ys y)
    with chan_ops_armed [OF s0(2,4,3), of ys y s'] chan_ops_ok [OF s0(2,4,3), of xs] rest s0(5)
    show ?thesis by simp
  qed
qed

end

subsection \<open>Dispatch of events\<close>

text \<open>The callbacks that a reported mask asks for, in the order in which \<open>handleEvent\<close> calls them.\<close>

definition event_plan :: "channel \<Rightarrow> chan_cb list" where
  "event_plan c =
     (let ask = (\<lambda>cond cb. if cond (ch_revents c) then (case cb c of None \<Rightarrow> [] | Some f \<Rightarrow> [f]) else []) in
      ask wantsClose closeCallback @ ask wantsError errorCallback @ ask wantsRead readCallback @
      ask wantsWrite writeCallback)"

definition same_dispatch :: "channel \<Rightarrow> channel \<Rightarrow> bool" where
  "same_dispatch c d \<longleftrightarrow> ch_revents c = ch_revents d \<and> closeCallback c = closeCallback d \<and>
     errorCallback c = errorCallback d \<and> readCallback c = readCallback d \<and> writeCallback c = writeCallback d"

text \<open>Callbacks that neither destroy the channel nor change its returned mask and callbacks.\<close>

definition keeps_chan where
  "keeps_chan call p \<longleftrightarrow> (\<forall>t f s s' c. call t f s = Inr s' \<longrightarrow> chans s p = Some c \<longrightarrow>
     (\<exists>d. chans s' p = Some d \<and> same_dispatch c d))"

lemma dispatch_step:
  assumes "keeps_chan call p" and "chans s p = Some d" and "same_dispatch c d" and "cb d = cb c"
  shows "bindR (dispatch call t cb cond p s) k =
      bindR (foldR (call t) (if cond (ch_revents c) then (case cb c of None \<Rightarrow> [] | Some f \<Rightarrow> [f]) else []) s) k"
    and "dispatch call t cb cond p s = Inr s' \<Longrightarrow> \<exists>d'. chans s' p = Some d' \<and> same_dispatch c d'"
proof -
  show "bindR (dispatch call t cb cond p s) k =
      bindR (foldR (call t) (if cond (ch_revents c) then (case cb c of None \<Rightarrow> [] | Some f \<Rightarrow> [f]) else []) s) k"
    using assms(2-4) by (auto simp: dispatch_def same_dispatch_def bindR_def split: option.splits sum.splits)
  assume "dispatch call t cb cond p s = Inr s'"
  then have "s' = s \<or> (\<exists>f. call t f s = Inr s')"
    using assms(2) by (auto simp: dispatch_def split: if_splits option.splits)
  with assms(1-3) show "\<exists>d'. chans s' p = Some d' \<and> same_dispatch c d'"
    unfolding keeps_chan_def same_dispatch_def by metis
qed

text \<open>
  \<open>Channel::handleEvent\<close> calls, in this order and each at most once, the close callback (hang-up
  with no data to read), the error callback, the read callback (data, urgent data or a half-closed
  peer) and the write callback; it marks the channel as being handled around the calls and stops
  at the first one that fails.
\<close>

theorem handleEvent_order:
  assumes "keeps_chan call p" and "chans s p = Some c"
  shows "handleEvent call t p s =
    bindR (foldR (call t) (event_plan c) (put_chan p (c\<lparr>eventHandling := True\<rparr>) s))
      (\<lambda>s'. with_chan p s' (\<lambda>c'. Inr (put_chan p (c'\<lparr>eventHandling := False\<rparr>) s')))"
proof -
  note st = dispatch_step [OF assms(1)]
  let ?ask = "\<lambda>cond cb. if cond (ch_revents c) then (case cb c of None \<Rightarrow> [] | Some f \<Rightarrow> [f]) else []"
  let ?fin = "\<lambda>s'. with_chan p s' (\<lambda>c'. Inr (put_chan p (c'\<lparr>eventHandling := False\<rparr>) s'))"
  let ?s = "put_chan p (c\<lparr>eventHandling := True\<rparr>) s"
  have dispatch_eq: "bindR (dispatch call t cb cond p u) k = bindR (foldR (call t) (?ask cond cb) u) k'"
    if "chans u p = Some d" "same_dispatch c d" "cb d = cb c"
      "\<And>u' d'. chans u' p = Some d' \<Longrightarrow> same_dispatch c d' \<Longrightarrow> k u' = k' u'" for cb cond u d k k'
  proof (cases "dispatch call t cb cond p u")
    case (Inl e)
    then show ?thesis using st(1) [OF that(1-3), of t cond k'] by simp
  next
    case (Inr u')
    with st(2) [OF that(1-3)] that(4) have "k u' = k' u'" by blast
    then show ?thesis using st(1) [OF that(1-3), of t cond k'] Inr by simp
  qed
  have s0: "chans ?s p = Some (c\<lparr>eventHandling := True\<rparr>)" "same_dispatch c (c\<lparr>eventHandling := True\<rparr>)"
    by (simp_all add: same_dispatch_def)
  have sd: "same_dispatch c d \<Longrightarrow> errorCallback d = errorCallback c"
    "same_dispatch c d \<Longrightarrow> readCallback d = readCallback c"
    "same_dispatch c d \<Longrightarrow> writeCallback d = writeCallback c" for d
    by (simp_all add: same_dispatch_def)
  have "handleEvent call t p s = bindR (foldR (call t) (?ask wantsClose closeCallback) ?s) (\<lambda>s1.
     bindR (foldR (call t) (?ask wantsError errorCallback) s1) (\<lambda>s2.
     bindR (foldR (call t) (?ask wantsRead readCallback) s2) (\<lambda>s3.
     bindR (foldR (call t) (?ask wantsWrite writeCallback) s3) ?fin)))"
    unfolding handleEvent_def with_chan_Some [OF assms(2)]
    by (rule dispatch_eq [OF s0], simp, rule dispatch_eq, assumption, assumption, erule sd,
        rule dispatch_eq, assumption, assumption, erule sd,
        rule dispatch_eq, assumption, assumption, erule sd, rule refl)
  then show ?thesis
    by (simp only: event_plan_def Let_def foldR_append bindR_assoc)
qed

definition demo_call :: "int \<Rightarrow> chan_cb \<Rightarrow> chan_store \<Rightarrow> chan_store res" where
  "demo_call t f s = Inr s"

theorem handleEvent_order_witness:
  "handleEvent demo_call 9 1 \<lparr>chans = [1 \<mapsto> setReadCallback (Some AcceptRead) (Channel_new 0 7 False)]\<rparr> =
   Inr \<lparr>chans = [1 \<mapsto> setReadCallback (Some AcceptRead) (Channel_new 0 7 False)]\<rparr>"
proof -
  have "keeps_chan demo_call 1" by (simp add: keeps_chan_def demo_call_def same_dispatch_def)
  from handleEvent_order [OF this, of "\<lparr>chans = [1 \<mapsto> setReadCallback (Some AcceptRead) (Channel_new 0 7 False)]\<rparr>"
      "setReadCallback (Some AcceptRead) (Channel_new 0 7 False)" 9]
  show ?thesis
    by (simp add: event_plan_def setReadCallback_def Channel_new_def put_chan_def wantsClose_def
        wantsError_def wantsRead_def wantsWrite_def with_chan_def)
qed

end
