(* ===== verification/EPoller.thy ===== *)
theory EPoller
  imports Channel
begin

section \<open>EPoller: the epoll backend\<close>

text \<open>
  \<open>chaonet/src/EPoller.h\<close> and \<open>EPoller.cpp\<close>, the poller that \<open>EventLoop\<close> uses.  The kernel's
  side of an epoll instance is not modelled: \<open>ctlLog\<close> is the sequence of \<open>epoll_ctl\<close> calls the
  program has made, and what \<open>epoll_wait\<close> reports is an argument of \<open>EPoller_poll\<close>.  The
  specification functions \<open>interest\<close> and \<open>ctl_legal\<close> read the log as the manual page describes
  the calls: \<open>EPOLL_CTL_ADD\<close> needs a descriptor that is not in the interest list (else \<open>EEXIST\<close>),
  the others one that is (else \<open>ENOENT\<close>).  \<open>assertInLoopThread\<close> only writes a log message, so it
  has no effect on the state.
\<close>

datatype ctl_op = EPOLL_CTL_ADD | EPOLL_CTL_MOD | EPOLL_CTL_DEL

type_synonym ctl = "ctl_op \<times> int \<times> 32 word \<times> nat"

definition kNew :: int where "kNew = -1"
definition kAdded :: int where "kAdded = 1"
definition kDeleted :: int where "kDeleted = 2"

lemmas index_consts = kNew_def kAdded_def kDeleted_def

definition kInitEventListSize :: nat where
  "kInitEventListSize = 16"

record epoll_state = chan_store +
  epollfd :: int
  eventListSize :: nat
  channelMap :: "int \<Rightarrow> nat option"
  ctlLog :: "ctl list"

datatype wait_result = WaitFailed | WaitReady "(32 word \<times> nat) list"

text \<open>The constructor: \<open>fd\<close> is what \<open>epoll_create\<close> returned.\<close>

definition EPoller_new :: "int \<Rightarrow> ('m) epoll_state_scheme \<Rightarrow> 'm epoll_state_scheme" where
  "EPoller_new fd s = s\<lparr>epollfd := fd, eventListSize := kInitEventListSize,
     channelMap := (\<lambda>_. None), ctlLog := []\<rparr>"

definition EPoller_update :: "ctl_op \<Rightarrow> nat \<Rightarrow> ('m) epoll_state_scheme \<Rightarrow> 'm epoll_state_scheme res" where
  "EPoller_update operation p s =
     with_chan p s (\<lambda>c. Inr (s\<lparr>ctlLog := ctlLog s @ [(operation, ch_fd c, ch_events c, p)]\<rparr>))"

definition EPoller_updateChannel :: "nat \<Rightarrow> ('m) epoll_state_scheme \<Rightarrow> 'm epoll_state_scheme res" where
  "EPoller_updateChannel p s =
     with_chan p s (\<lambda>c.
       let index = ch_index c; fd = ch_fd c in
       if index = kNew \<or> index = kDeleted then
         bindR
           (if index = kNew then
              check (channelMap s fd = None) ''channels_.find(fd) == channels_.end()''
                (Inr (s\<lparr>channelMap := (channelMap s)(fd \<mapsto> p)\<rparr>))
            else
              check (channelMap s fd \<noteq> None) ''channels_.find(fd) != channels_.end()''
                (check (channelMap s fd = Some p) ''channels_[fd] == channel'' (Inr s)))
           (\<lambda>s1. EPoller_update EPOLL_CTL_ADD p (put_chan p (set_index kAdded c) s1))
       else
         check (channelMap s fd \<noteq> None) ''channels_.find(fd) != channels_.end()''
           (check (channelMap s fd = Some p) ''channels_[fd] == channel''
             (check (index = kAdded) ''index == kAdded''
               (if isNoneEvent c then
                  bindR (EPoller_update EPOLL_CTL_DEL p s)
                    (\<lambda>s1. Inr (put_chan p (set_index kDeleted c) s1))
                else EPoller_update EPOLL_CTL_MOD p s))))"

definition EPoller_removeChannel :: "nat \<Rightarrow> ('m) epoll_state_scheme \<Rightarrow> 'm epoll_state_scheme res" where
  "EPoller_removeChannel p s =
     with_chan p s (\<lambda>c.
       let index = ch_index c; fd = ch_fd c in
       check (channelMap s fd \<noteq> None) ''channels_.find(fd) != channels_.end()''
         (check (channelMap s fd = Some p) ''channels_[fd] == channel''
           (check (isNoneEvent c) ''channel->isNoneEvent()''
             (check (index = kAdded \<or> index = kDeleted) ''index == kAdded || index == kDeleted''
               (let s1 = s\<lparr>channelMap := (channelMap s)(fd := None)\<rparr> in
                bindR (if index = kAdded then EPoller_update EPOLL_CTL_DEL p s1 else Inr s1)
                  (\<lambda>s2. Inr (put_chan p (set_index kNew c) s2)))))))"

text \<open>\<open>fillActiveChannels\<close>: the loop over the reported events, appending to \<open>activeChannels\<close>.\<close>

fun EPoller_fill :: "(32 word \<times> nat) list \<Rightarrow> nat list \<times> ('m) epoll_state_scheme \<Rightarrow>
    (nat list \<times> 'm epoll_state_scheme) res" where
  "EPoller_fill [] (active, s) = Inr (active, s)"
| "EPoller_fill ((ev, p) # evs) (active, s) =
     with_chan p s (\<lambda>c.
       check (channelMap s (ch_fd c) \<noteq> None) ''it != channels_.end()''
         (check (channelMap s (ch_fd c) = Some p) ''it->second == channel''
           (EPoller_fill evs (active @ [p], put_chan p (set_revents ev c) s))))"

definition EPoller_fillActiveChannels where
  "EPoller_fillActiveChannels evs active s =
     check (length evs \<le> eventListSize s) ''static_cast<size_t>(numEvents) <= events_.size()''
       (EPoller_fill evs (active, s))"

text \<open>\<open>poll\<close>: returns the time \<open>now\<close> that it read after waiting, and the active channels.\<close>

definition EPoller_poll where
  "EPoller_poll now r active s =
     (case r of
        WaitFailed \<Rightarrow> Inr (now, active, s)
      | WaitReady evs \<Rightarrow>
          if 0 < length evs then
            bindR (EPoller_fillActiveChannels evs active s) (\<lambda>(active', s1).
              Inr (now, active',
                if length evs = eventListSize s1 then s1\<lparr>eventListSize := eventListSize s1 * 2\<rparr> else s1))
          else Inr (now, active, s))"

subsection \<open>Reading the log of epoll\_ctl calls\<close>

fun apply_ctl :: "ctl \<Rightarrow> (int \<Rightarrow> (32 word \<times> nat) option) \<Rightarrow> (int \<Rightarrow> (32 word \<times> nat) option)" where
  "apply_ctl (EPOLL_CTL_ADD, fd, e, p) m = m(fd \<mapsto> (e, p))"
| "apply_ctl (EPOLL_CTL_MOD, fd, e, p) m = m(fd \<mapsto> (e, p))"
| "apply_ctl (EPOLL_CTL_DEL, fd, e, p) m = m(fd := None)"

definition interest :: "ctl list \<Rightarrow> int \<Rightarrow> (32 word \<times> nat) option" where
  "interest log = fold apply_ctl log (\<lambda>_. None)"

fun ctl_ok :: "ctl \<Rightarrow> (int \<Rightarrow> (32 word \<times> nat) option) \<Rightarrow> bool" where
  "ctl_ok (EPOLL_CTL_ADD, fd, e, p) m \<longleftrightarrow> m fd = None"
| "ctl_ok (EPOLL_CTL_MOD, fd, e, p) m \<longleftrightarrow> m fd \<noteq> None"
| "ctl_ok (EPOLL_CTL_DEL, fd, e, p) m \<longleftrightarrow> m fd \<noteq> None"

fun ctl_legal_from :: "(int \<Rightarrow> (32 word \<times> nat) option) \<Rightarrow> ctl list \<Rightarrow> bool" where
  "ctl_legal_from m [] \<longleftrightarrow> True"
| "ctl_legal_from m (x # xs) \<longleftrightarrow> ctl_ok x m \<and> ctl_legal_from (apply_ctl x m) xs"

definition ctl_legal :: "ctl list \<Rightarrow> bool" where
  "ctl_legal log = ctl_legal_from (\<lambda>_. None) log"

lemma interest_snoc [simp]: "interest (log @ [x]) = apply_ctl x (interest log)"
  by (simp add: interest_def)

lemma ctl_legal_from_snoc:
  "ctl_legal_from m (log @ [x]) \<longleftrightarrow> ctl_legal_from m log \<and> ctl_ok x (fold apply_ctl log m)"
  by (induction log arbitrary: m) auto

lemma ctl_legal_snoc [simp]: "ctl_legal (log @ [x]) \<longleftrightarrow> ctl_legal log \<and> ctl_ok x (interest log)"
  by (simp add: ctl_legal_def interest_def ctl_legal_from_snoc)

subsection \<open>The invariant\<close>

text \<open>
  The map and the indices agree: a descriptor maps to a channel object on that descriptor that is
  added or deleted, and every such object is in the map.  A descriptor is in the kernel's interest
  list exactly when its channel is added, with that channel's pointer; and every call made so far
  was legal.
\<close>

definition epoll_chan_ok :: "('m) epoll_state_scheme \<Rightarrow> nat \<Rightarrow> channel \<Rightarrow> bool" where
  "epoll_chan_ok s p c \<longleftrightarrow>
     (if ch_index c = kAdded then
        channelMap s (ch_fd c) = Some p \<and> (\<exists>e. interest (ctlLog s) (ch_fd c) = Some (e, p))
      else if ch_index c = kDeleted then
        channelMap s (ch_fd c) = Some p \<and> interest (ctlLog s) (ch_fd c) = None
      else ch_index c = kNew)"

definition epoll_inv :: "('m) epoll_state_scheme \<Rightarrow> bool" where
  "epoll_inv s \<longleftrightarrow>
     (\<forall>fd p. channelMap s fd = Some p \<longrightarrow>
        (\<exists>c. chans s p = Some c \<and> ch_fd c = fd \<and> (ch_index c = kAdded \<or> ch_index c = kDeleted))) \<and>
     (\<forall>p c. chans s p = Some c \<longrightarrow> epoll_chan_ok s p c) \<and>
     (\<forall>fd. channelMap s fd = None \<longrightarrow> interest (ctlLog s) fd = None) \<and>
     ctl_legal (ctlLog s) \<and> 0 < eventListSize s"

definition ep_registered :: "nat \<Rightarrow> ('m) epoll_state_scheme \<Rightarrow> bool" where
  "ep_registered p s \<longleftrightarrow> (\<exists>fd. channelMap s fd = Some p)"

definition ep_free_fd :: "int \<Rightarrow> ('m) epoll_state_scheme \<Rightarrow> bool" where
  "ep_free_fd fd s \<longleftrightarrow> channelMap s fd = None"

definition ep_armed :: "nat \<Rightarrow> ('m) epoll_state_scheme \<Rightarrow> 32 word" where
  "ep_armed p s =
     (case chans s p of None \<Rightarrow> 0
      | Some c \<Rightarrow> (case interest (ctlLog s) (ch_fd c) of
                     Some (e, q) \<Rightarrow> if q = p then e else 0 | None \<Rightarrow> 0))"

lemma index_distinct [simp]:
  "kNew \<noteq> kAdded" "kNew \<noteq> kDeleted" "kAdded \<noteq> kDeleted" "kAdded \<noteq> kNew" "kDeleted \<noteq> kNew"
  "kDeleted \<noteq> kAdded"
  by (simp_all add: index_consts)

lemma epoll_invD:
  assumes "epoll_inv s"
  shows "channelMap s fd = Some p \<Longrightarrow>
      \<exists>c. chans s p = Some c \<and> ch_fd c = fd \<and> (ch_index c = kAdded \<or> ch_index c = kDeleted)"
    and "chans s p = Some c \<Longrightarrow> epoll_chan_ok s p c"
    and "channelMap s fd = None \<Longrightarrow> interest (ctlLog s) fd = None"
    and "ctl_legal (ctlLog s)" and "0 < eventListSize s"
  using assms by (simp_all add: epoll_inv_def)

lemma ep_registered_iff:
  assumes "epoll_inv s" and "chans s p = Some c"
  shows "ep_registered p s \<longleftrightarrow> ch_index c = kAdded \<or> ch_index c = kDeleted"
proof
  assume "ep_registered p s"
  then show "ch_index c = kAdded \<or> ch_index c = kDeleted"
    using epoll_invD(1) [OF assms(1)] assms(2) by (fastforce simp: ep_registered_def)
next
  assume "ch_index c = kAdded \<or> ch_index c = kDeleted"
  then show "ep_registered p s"
    using epoll_invD(2) [OF assms] by (auto simp: ep_registered_def epoll_chan_ok_def split: if_splits)
qed

lemma epoll_inv_mask:
  assumes inv: "epoll_inv s" and c: "chans s p = Some c"
  shows "epoll_inv (put_chan p (c\<lparr>ch_events := e\<rparr>) s)"
  unfolding epoll_inv_def
proof (intro conjI allI impI)
  let ?s = "put_chan p (c\<lparr>ch_events := e\<rparr>) s"
  note same = put_chan_def epoll_chan_ok_def
  fix fd q
  assume "channelMap ?s fd = Some q"
  then have "channelMap s fd = Some q" by (simp add: put_chan_def)
  from epoll_invD(1) [OF inv this] c
  show "\<exists>d. chans ?s q = Some d \<and> ch_fd d = fd \<and> (ch_index d = kAdded \<or> ch_index d = kDeleted)"
    by (cases "q = p") auto
next
  let ?s = "put_chan p (c\<lparr>ch_events := e\<rparr>) s"
  fix q d
  assume "chans ?s q = Some d"
  with epoll_invD(2) [OF inv, of q] c show "epoll_chan_ok ?s q d"
    by (cases "q = p") (auto simp: put_chan_def epoll_chan_ok_def)
qed (use epoll_invD [OF inv] in \<open>simp_all add: put_chan_def\<close>)

lemma same_chans_put:
  "chans s p = Some c \<Longrightarrow> same_but_index c d \<Longrightarrow> chans t = chans s \<Longrightarrow> same_chans s (put_chan p d t)"
  by (simp add: same_chans_def option.rel_refl same_but_index_simps)

lemma same_chans_eq: "chans t = chans s \<Longrightarrow> same_chans s t"
  by (simp add: same_chans_def option.rel_refl same_but_index_simps)

text \<open>
  The four ways an update can go, each as a state and a preservation lemma: a new descriptor, a
  deleted one added again, an added one deleted, an added one modified.
\<close>

definition ep_added :: "nat \<Rightarrow> channel \<Rightarrow> ('m) epoll_state_scheme \<Rightarrow> 'm epoll_state_scheme" where
  "ep_added p c s = put_chan p (set_index kAdded c)
     (s\<lparr>channelMap := (channelMap s)(ch_fd c \<mapsto> p),
        ctlLog := ctlLog s @ [(EPOLL_CTL_ADD, ch_fd c, ch_events c, p)]\<rparr>)"

definition ep_deleted :: "nat \<Rightarrow> channel \<Rightarrow> ('m) epoll_state_scheme \<Rightarrow> 'm epoll_state_scheme" where
  "ep_deleted p c s = put_chan p (set_index kDeleted c)
     (s\<lparr>ctlLog := ctlLog s @ [(EPOLL_CTL_DEL, ch_fd c, ch_events c, p)]\<rparr>)"

definition ep_modified :: "nat \<Rightarrow> channel \<Rightarrow> ('m) epoll_state_scheme \<Rightarrow> 'm epoll_state_scheme" where
  "ep_modified p c s = s\<lparr>ctlLog := ctlLog s @ [(EPOLL_CTL_MOD, ch_fd c, ch_events c, p)]\<rparr>"

lemma updateChannel_new:
  "chans s p = Some c \<Longrightarrow> ch_index c = kNew \<Longrightarrow> channelMap s (ch_fd c) = None \<Longrightarrow>
     EPoller_updateChannel p s = Inr (ep_added p c s)"
  by (cases s) (simp add: EPoller_updateChannel_def EPoller_update_def ep_added_def set_index_def
      put_chan_def Let_def)

lemma updateChannel_again:
  assumes "chans s p = Some c" "ch_index c = kDeleted" "channelMap s (ch_fd c) = Some p"
  shows "EPoller_updateChannel p s = Inr (ep_added p c s)"
  using assms
  by (cases s) (simp add: EPoller_updateChannel_def EPoller_update_def ep_added_def set_index_def
      put_chan_def Let_def fun_upd_idem)

lemma updateChannel_added:
  "chans s p = Some c \<Longrightarrow> ch_index c = kAdded \<Longrightarrow> channelMap s (ch_fd c) = Some p \<Longrightarrow>
     EPoller_updateChannel p s =
       Inr (if ch_events c = 0 then ep_deleted p c s else ep_modified p c s)"
  by (simp add: EPoller_updateChannel_def EPoller_update_def ep_deleted_def ep_modified_def
      isNoneEvent_def kNoneEvent_def)

text \<open>Each of the resulting states satisfies the invariant; \<open>s\<close> is only changed at \<open>p\<close> and \<open>ch_fd c\<close>.\<close>

lemma epoll_inv_at:
  assumes inv: "epoll_inv s" and c: "chans s p = Some c"
    and own: "channelMap s (ch_fd c) = Some p \<or> ch_index c = kNew \<and> channelMap s (ch_fd c) = None"
    and s': "chans s' = (chans s)(p \<mapsto> c')" "ch_fd c' = ch_fd c" "eventListSize s' = eventListSize s"
      "\<And>fd. fd \<noteq> ch_fd c \<Longrightarrow> channelMap s' fd = channelMap s fd \<and>
         interest (ctlLog s') fd = interest (ctlLog s) fd"
      "ctl_legal (ctlLog s')" "epoll_chan_ok s' p c'"
      "channelMap s' (ch_fd c) = (if ch_index c' = kNew then None else Some p)"
      "ch_index c' = kNew \<Longrightarrow> interest (ctlLog s') (ch_fd c) = None"
  shows "epoll_inv s'"
  unfolding epoll_inv_def
proof (intro conjI allI impI)
  fix fd q
  assume a: "channelMap s' fd = Some q"
  show "\<exists>d. chans s' q = Some d \<and> ch_fd d = fd \<and> (ch_index d = kAdded \<or> ch_index d = kDeleted)"
  proof (cases "fd = ch_fd c")
    case True
    with a s' show ?thesis by (auto simp: epoll_chan_ok_def split: if_splits)
  next
    case False
    with a s'(4) have "channelMap s fd = Some q" by simp
    from epoll_invD(1) [OF inv this] obtain d where "chans s q = Some d" "ch_fd d = fd"
      "ch_index d = kAdded \<or> ch_index d = kDeleted" by blast
    with False s'(1) c show ?thesis by (cases "q = p") auto
  qed
next
  fix q d
  assume a: "chans s' q = Some d"
  show "epoll_chan_ok s' q d"
  proof (cases "q = p")
    case True
    with a s' show ?thesis by simp
  next
    case False
    with a s'(1) have d: "chans s q = Some d" by simp
    then have ok: "epoll_chan_ok s q d" by (rule epoll_invD(2) [OF inv])
    show ?thesis
    proof (cases "ch_fd d = ch_fd c")
      case True
      with ok own False have "ch_index d = kNew" by (auto simp: epoll_chan_ok_def split: if_splits)
      then show ?thesis by (simp add: epoll_chan_ok_def)
    next
      case False
      with ok s'(4) show ?thesis by (simp add: epoll_chan_ok_def)
    qed
  qed
next
  fix fd
  assume "channelMap s' fd = None"
  then show "interest (ctlLog s') fd = None"
    using s'(4,7,8) epoll_invD(3) [OF inv] by (cases "fd = ch_fd c") (auto split: if_splits)
qed (use s' epoll_invD [OF inv] in auto)


lemma epoll_inv_added:
  assumes "epoll_inv s" "chans s p = Some c"
    "ch_index c = kNew \<and> channelMap s (ch_fd c) = None \<or> ch_index c = kDeleted"
  shows "epoll_inv (ep_added p c s)"
proof -
  have own: "channelMap s (ch_fd c) = Some p \<or> ch_index c = kNew \<and> channelMap s (ch_fd c) = None"
    and out: "interest (ctlLog s) (ch_fd c) = None"
    using assms epoll_invD(2,3) [OF assms(1)] by (fastforce simp: epoll_chan_ok_def split: if_splits)+
  show ?thesis
    by (rule epoll_inv_at [OF assms(1,2) own, of _ "set_index kAdded c"])
       (use out epoll_invD(4) [OF assms(1)] in
        \<open>auto simp: ep_added_def put_chan_def set_index_def epoll_chan_ok_def\<close>)
qed

lemma epoll_inv_deleted:
  assumes "epoll_inv s" "chans s p = Some c" "ch_index c = kAdded"
  shows "epoll_inv (ep_deleted p c s)"
proof -
  have "channelMap s (ch_fd c) = Some p" "\<exists>e. interest (ctlLog s) (ch_fd c) = Some (e, p)"
    using assms epoll_invD(2) [OF assms(1,2)] by (simp_all add: epoll_chan_ok_def)
  then show ?thesis
    by (intro epoll_inv_at [OF assms(1,2), of _ "set_index kDeleted c"])
       (use epoll_invD(4) [OF assms(1)] in
        \<open>auto simp: ep_deleted_def put_chan_def set_index_def epoll_chan_ok_def\<close>)
qed

lemma epoll_inv_modified:
  assumes "epoll_inv s" "chans s p = Some c" "ch_index c = kAdded"
  shows "epoll_inv (ep_modified p c s)"
proof -
  have "channelMap s (ch_fd c) = Some p" "\<exists>e. interest (ctlLog s) (ch_fd c) = Some (e, p)"
    using assms epoll_invD(2) [OF assms(1,2)] by (simp_all add: epoll_chan_ok_def)
  then show ?thesis
    by (intro epoll_inv_at [OF assms(1,2), of _ c])
       (use assms epoll_invD(4) [OF assms(1)] in
        \<open>auto simp: ep_modified_def epoll_chan_ok_def fun_upd_idem\<close>)
qed

definition ep_removed :: "nat \<Rightarrow> channel \<Rightarrow> ('m) epoll_state_scheme \<Rightarrow> 'm epoll_state_scheme" where
  "ep_removed p c s = put_chan p (set_index kNew c)
     (s\<lparr>channelMap := (channelMap s)(ch_fd c := None),
        ctlLog := ctlLog s @ (if ch_index c = kAdded then [(EPOLL_CTL_DEL, ch_fd c, ch_events c, p)] else [])\<rparr>)"

lemma removeChannel_ok:
  assumes "chans s p = Some c" "ch_index c = kAdded \<or> ch_index c = kDeleted"
    "channelMap s (ch_fd c) = Some p" "ch_events c = 0"
  shows "EPoller_removeChannel p s = Inr (ep_removed p c s)"
  using assms
  by (cases s) (auto simp: EPoller_removeChannel_def EPoller_update_def ep_removed_def set_index_def
      put_chan_def Let_def isNoneEvent_def kNoneEvent_def)

lemma epoll_inv_removed:
  assumes "epoll_inv s" "chans s p = Some c" "ch_index c = kAdded \<or> ch_index c = kDeleted"
  shows "epoll_inv (ep_removed p c s)"
proof -
  have "channelMap s (ch_fd c) = Some p"
    "if ch_index c = kAdded then \<exists>e. interest (ctlLog s) (ch_fd c) = Some (e, p)
     else interest (ctlLog s) (ch_fd c) = None"
    using assms epoll_invD(2) [OF assms(1,2)] by (auto simp: epoll_chan_ok_def)
  then show ?thesis
    by (intro epoll_inv_at [OF assms(1,2), of _ "set_index kNew c"])
       (use epoll_invD(4) [OF assms(1)] in
        \<open>auto simp: ep_removed_def put_chan_def set_index_def epoll_chan_ok_def split: if_splits\<close>)
qed

lemmas epoll_inv_steps = epoll_inv_added epoll_inv_deleted epoll_inv_modified epoll_inv_removed

text \<open>All the cases of a legal update in one lemma.\<close>

lemma updateChannel_cases:
  assumes inv: "epoll_inv s" and c: "chans s p = Some c"
    and "ep_registered p s \<or> (ch_index c = -1 \<and> 0 \<le> ch_fd c \<and> ep_free_fd (ch_fd c) s)"
  obtains "EPoller_updateChannel p s = Inr (ep_added p c s)" "epoll_inv (ep_added p c s)"
      "ch_index c = kNew \<and> channelMap s (ch_fd c) = None \<or> ch_index c = kDeleted \<and> channelMap s (ch_fd c) = Some p"
  | "EPoller_updateChannel p s = Inr (ep_deleted p c s)" "epoll_inv (ep_deleted p c s)"
      "ch_index c = kAdded" "ch_events c = 0" "channelMap s (ch_fd c) = Some p"
  | "EPoller_updateChannel p s = Inr (ep_modified p c s)" "epoll_inv (ep_modified p c s)"
      "ch_index c = kAdded" "ch_events c \<noteq> 0" "channelMap s (ch_fd c) = Some p"
proof -
  consider (new) "ch_index c = kNew" "channelMap s (ch_fd c) = None" | (del) "ch_index c = kDeleted"
    | (add) "ch_index c = kAdded"
    using assms(3) ep_registered_iff [OF inv c] by (auto simp: ep_free_fd_def kNew_def)
  then show thesis
  proof cases
    case new
    with that(1) updateChannel_new [OF c] epoll_inv_added [OF inv c] show thesis by blast
  next
    case del
    with epoll_invD(2) [OF inv c] have m: "channelMap s (ch_fd c) = Some p"
      by (simp add: epoll_chan_ok_def)
    with del that(1) updateChannel_again [OF c] epoll_inv_added [OF inv c] show thesis by blast
  next
    case add
    with epoll_invD(2) [OF inv c] have m: "channelMap s (ch_fd c) = Some p"
      by (simp add: epoll_chan_ok_def)
    with add that(2,3) updateChannel_added [OF c add m] epoll_inv_deleted [OF inv c add]
      epoll_inv_modified [OF inv c add] show thesis by (cases "ch_events c = 0") simp_all
  qed
qed

lemma ep_states_chans:
  assumes "chans s p = Some c"
  shows "same_chans s (ep_added p c s)" "same_chans s (ep_deleted p c s)"
    "same_chans s (ep_modified p c s)" "same_chans s (ep_removed p c s)"
  unfolding ep_added_def ep_deleted_def ep_modified_def ep_removed_def
  by (rule same_chans_put [OF assms] same_chans_eq; simp add: set_index_def same_but_index_simps)+

lemma ep_registered_states:
  assumes "q \<noteq> p"
  shows "channelMap s (ch_fd c) = None \<or> channelMap s (ch_fd c) = Some p \<Longrightarrow>
      ep_registered q (ep_added p c s) = ep_registered q s"
    "ep_registered q (ep_deleted p c s) = ep_registered q s"
    "ep_registered q (ep_modified p c s) = ep_registered q s"
    "channelMap s (ch_fd c) = Some p \<Longrightarrow> ep_registered q (ep_removed p c s) = ep_registered q s"
  using assms
  by (atomize (full), auto simp: ep_registered_def ep_added_def ep_deleted_def ep_modified_def ep_removed_def put_chan_def)
     (metis option.distinct(1) option.inject)+

lemma ep_registered_self:
  "ep_registered p (ep_added p c s)"
  "channelMap s (ch_fd c) = Some p \<Longrightarrow> ep_registered p (ep_deleted p c s)"
  "channelMap s (ch_fd c) = Some p \<Longrightarrow> ep_registered p (ep_modified p c s)"
  by (auto simp: ep_registered_def ep_added_def ep_deleted_def ep_modified_def put_chan_def)

lemma ep_armed_states:
  "ep_armed p (ep_added p c s) = ch_events c"
  "ep_armed p (ep_deleted p c s) = 0"
  "chans s p = Some c \<Longrightarrow> ep_armed p (ep_modified p c s) = ch_events c"
  by (simp_all add: ep_armed_def ep_added_def ep_deleted_def ep_modified_def put_chan_def set_index_def)

interpretation ep: poller_watch epoll_inv ep_registered "\<lambda>_ _. True" ep_free_fd
    EPoller_updateChannel EPoller_removeChannel ep_armed
proof unfold_locales
  fix s :: "'m epoll_state_scheme" and p c
  assume inv: "epoll_inv s" and c: "chans s p = Some c"
    and a: "ep_registered p s \<or> (ch_index c = -1 \<and> 0 \<le> ch_fd c \<and> ep_free_fd (ch_fd c) s)"
  then show "\<exists>s'. EPoller_updateChannel p s = Inr s' \<and> epoll_inv s' \<and> ep_registered p s' \<and>
      same_chans s s' \<and> (\<forall>q. q \<noteq> p \<longrightarrow> ep_registered q s' = ep_registered q s) \<and>
      (ep_registered p s \<and> ch_events c = 0 \<longrightarrow> True)"
    by (cases rule: updateChannel_cases [OF inv c a])
       (auto simp: ep_states_chans [OF c] ep_registered_states ep_registered_self)
next
  fix s :: "'m epoll_state_scheme" and p c
  assume inv: "epoll_inv s" and c: "chans s p = Some c" and r: "ep_registered p s"
    and ev: "ch_events c = 0"
  have i: "ch_index c = kAdded \<or> ch_index c = kDeleted" using ep_registered_iff [OF inv c] r by simp
  then have m: "channelMap s (ch_fd c) = Some p"
    using epoll_invD(2) [OF inv c] by (auto simp: epoll_chan_ok_def)
  have "\<not> ep_registered p (ep_removed p c s)"
    using epoll_inv_removed [OF inv c i]
    by (subst ep_registered_iff) (auto simp: ep_removed_def set_index_def)
  then show "\<exists>s'. EPoller_removeChannel p s = Inr s' \<and> epoll_inv s' \<and> \<not> ep_registered p s' \<and>
      ep_free_fd (ch_fd c) s' \<and> same_chans s s' \<and> (\<forall>q. q \<noteq> p \<longrightarrow> ep_registered q s' = ep_registered q s)"
    using removeChannel_ok [OF c i m ev] epoll_inv_removed [OF inv c i] ep_states_chans(4) [OF c]
      ep_registered_states(4) [OF _ m] by (auto simp: ep_free_fd_def ep_removed_def put_chan_def)
next
  fix s :: "'m epoll_state_scheme" and p c s'
  assume inv: "epoll_inv s" and c: "chans s p = Some c"
    and a: "ep_registered p s \<or> (ch_index c = -1 \<and> 0 \<le> ch_fd c \<and> ep_free_fd (ch_fd c) s)"
    and u: "EPoller_updateChannel p s = Inr s'"
  show "ep_armed p s' = ch_events c"
    by (cases rule: updateChannel_cases [OF inv c a]) (use u in \<open>auto simp: ep_armed_states c\<close>)
qed (rule epoll_inv_mask, simp_all add: ep_registered_def ep_free_fd_def put_chan_def)

subsection \<open>Polling\<close>

text \<open>What \<open>epoll_wait\<close> may report: at most the room given, entries of the interest list, each once.\<close>

definition wait_ok :: "('m) epoll_state_scheme \<Rightarrow> (32 word \<times> nat) list \<Rightarrow> bool" where
  "wait_ok s evs \<longleftrightarrow> length evs \<le> eventListSize s \<and> distinct (map snd evs) \<and>
     (\<forall>(ev, p) \<in> set evs. \<exists>fd e. interest (ctlLog s) fd = Some (e, p))"

lemma interest_channel:
  assumes "epoll_inv s" and "interest (ctlLog s) fd = Some (e, p)"
  shows "\<exists>c. chans s p = Some c \<and> ch_fd c = fd \<and> channelMap s fd = Some p"
proof -
  obtain q where q: "channelMap s fd = Some q"
    using epoll_invD(3) [OF assms(1), of fd] assms(2) by (cases "channelMap s fd") auto
  from epoll_invD(1) [OF assms(1) q] obtain c where c: "chans s q = Some c" "ch_fd c = fd" by blast
  from epoll_invD(2) [OF assms(1) c(1)] c assms(2) q show ?thesis
    by (auto simp: epoll_chan_ok_def split: if_splits)
       (metis epoll_invD(1) assms(1) index_distinct(1,2) option.inject)
qed

lemma epoll_inv_revents:
  assumes inv: "epoll_inv s" and c: "chans s p = Some c" and m: "channelMap s (ch_fd c) = Some p"
  shows "epoll_inv (put_chan p (set_revents ev c) s)"
  by (rule epoll_inv_at [OF inv c disjI1 [OF m], of _ "set_revents ev c"])
     (use epoll_invD(1) [OF inv m] epoll_invD(2) [OF inv c] epoll_invD(4) [OF inv] c m in
      \<open>auto simp: put_chan_def set_revents_def epoll_chan_ok_def\<close>)

definition set_all_revents :: "(32 word \<times> nat) list \<Rightarrow> (nat \<Rightarrow> channel option) \<Rightarrow> nat \<Rightarrow> channel option" where
  "set_all_revents evs m p =
     (case map_of (map (\<lambda>(ev, p). (p, ev)) evs) p of
        None \<Rightarrow> m p | Some ev \<Rightarrow> map_option (set_revents ev) (m p))"

lemma fill_ok:
  assumes "epoll_inv s" and "distinct (map snd evs)"
    and "\<forall>(ev, p) \<in> set evs. \<exists>fd e. interest (ctlLog s) fd = Some (e, p)"
  shows "\<exists>s'. EPoller_fill evs (active, s) = Inr (active @ map snd evs, s') \<and> epoll_inv s' \<and>
    chans s' = set_all_revents evs (chans s) \<and> s'\<lparr>chans := chans s\<rparr> = s"
  using assms
proof (induction evs arbitrary: active s)
  case (Cons x evs)
  obtain ev p where x: "x = (ev, p)" by force
  with Cons.prems interest_channel [OF Cons.prems(1)] obtain c where
    c: "chans s p = Some c" "channelMap s (ch_fd c) = Some p" by fastforce
  let ?s = "put_chan p (set_revents ev c) s"
  have "epoll_inv ?s" "ctlLog ?s = ctlLog s"
    using epoll_inv_revents [OF Cons.prems(1) c] by (simp_all add: put_chan_def)
  moreover have "distinct (map snd evs)"
    "\<forall>(ev, p) \<in> set evs. \<exists>fd e. interest (ctlLog s) fd = Some (e, p)"
    using Cons.prems(2,3) by simp_all
  ultimately have "\<exists>s'. EPoller_fill evs (active @ [p], ?s) = Inr ((active @ [p]) @ map snd evs, s') \<and>
      epoll_inv s' \<and> chans s' = set_all_revents evs (chans ?s) \<and> s'\<lparr>chans := chans ?s\<rparr> = ?s"
    by (intro Cons.IH) (simp_all only:)
  then obtain s' where s': "EPoller_fill evs (active @ [p], ?s) = Inr ((active @ [p]) @ map snd evs, s')"
      "epoll_inv s'" "chans s' = set_all_revents evs (chans ?s)" "s'\<lparr>chans := chans ?s\<rparr> = ?s"
    by blast
  have "p \<notin> snd ` set evs" using Cons.prems(2) x by auto
  then have "map_of (map (\<lambda>(ev, p). (p, ev)) evs) p = None"
    by (force simp: map_of_eq_None_iff)
  then have "chans s' = set_all_revents (x # evs) (chans s)"
    using s'(3) c(1) by (auto simp: x set_all_revents_def fun_eq_iff split: option.splits)
  moreover have "s'\<lparr>chans := chans s\<rparr> = s"
    using s'(4) by (cases s; cases s'; simp add: put_chan_def)
  ultimately show ?case using s'(1,2) c by (auto simp: x)
qed (auto simp: set_all_revents_def)

lemma epoll_inv_grow: "epoll_inv s \<Longrightarrow> 0 < n \<Longrightarrow> epoll_inv (s\<lparr>eventListSize := n\<rparr>)"
  by (simp add: epoll_inv_def epoll_chan_ok_def)

lemma poll_reports:
  assumes "epoll_inv s" and "wait_ok s evs"
  shows "\<exists>m s'. s' = s\<lparr>chans := set_all_revents evs (chans s), eventListSize := m\<rparr> \<and>
    EPoller_poll now (WaitReady evs) active s = Inr (now, active @ map snd evs, s') \<and> epoll_inv s' \<and>
    m = (if length evs = eventListSize s then 2 * eventListSize s else eventListSize s)"
proof (cases "evs = []")
  case True
  then show ?thesis
    using assms epoll_invD(5) [OF assms(1)]
    by (intro exI [of _ "eventListSize s"]) (auto simp: EPoller_poll_def set_all_revents_def [abs_def])
next
  case False
  from fill_ok [OF assms(1), of evs active] assms(2) obtain s' where
    s': "EPoller_fill evs (active, s) = Inr (active @ map snd evs, s')" "epoll_inv s'"
      "chans s' = set_all_revents evs (chans s)" "s'\<lparr>chans := chans s\<rparr> = s"
    by (auto simp: wait_ok_def)
  have e: "s' = s\<lparr>chans := set_all_revents evs (chans s)\<rparr>" using s'(3,4) by (cases s; cases s'; simp)
  let ?m = "if length evs = eventListSize s then 2 * eventListSize s else eventListSize s"
  have "EPoller_poll now (WaitReady evs) active s = Inr (now, active @ map snd evs, s'\<lparr>eventListSize := ?m\<rparr>)"
    using s'(1) False assms(2) by (auto simp: e EPoller_poll_def EPoller_fillActiveChannels_def wait_ok_def mult.commute)
  moreover have "epoll_inv (s'\<lparr>eventListSize := ?m\<rparr>)"
    by (rule epoll_inv_grow [OF s'(2)]) (use epoll_invD(5) [OF assms(1)] in auto)
  ultimately show ?thesis using e by (intro exI [of _ ?m]) simp
qed

subsection \<open>Properties\<close>

text \<open>
  C7: A channel that the epoll poller does not know can be put through any sequence of enable and
  disable calls: no assertion fails, every \<open>epoll_ctl\<close> call made is legal, and after the last one
  the kernel watches exactly the channel's mask; disabling it completely and removing it then
  succeeds and forgets the descriptor.
\<close>

theorem epoll_channel_lifecycle:
  assumes "epoll_inv s" and "chans s p = Some c" and "ch_index c = kNew" and "0 \<le> ch_fd c"
    and "channelMap s (ch_fd c) = None"
  shows "\<exists>s1 s2 s3. foldR (chan_op_run EPoller_updateChannel p) (x # xs) s = Inr s1 \<and>
    epoll_inv s1 \<and> ctl_legal (ctlLog s1) \<and> ep_armed p s1 = fold chan_op_mask (x # xs) (ch_events c) \<and>
    disableAll EPoller_updateChannel p s1 = Inr s2 \<and> EPoller_removeChannel p s2 = Inr s3 \<and>
    epoll_inv s3 \<and> ctl_legal (ctlLog s3) \<and> channelMap s3 (ch_fd c) = None"
proof -
  have new: "ch_index c = -1" "ep_free_fd (ch_fd c) s"
    using assms by (simp_all add: kNew_def ep_free_fd_def)
  from ep.lifecycle [OF assms(1,2) new(1) assms(4) new(2), of x xs] obtain s1 s2 s3 where
    run: "foldR (chan_op_run EPoller_updateChannel p) (x # xs) s = Inr s1"
      "disableAll EPoller_updateChannel p s1 = Inr s2" "EPoller_removeChannel p s2 = Inr s3"
      "epoll_inv s3" "ep_free_fd (ch_fd c) s3" by blast
  have "epoll_inv s1 \<and> ep_armed p s1 = fold chan_op_mask (x # xs) (ch_events c)"
    using ep.ops_from_new [OF assms(1,2) new(1) assms(4) new(2) run(1)] .
  with run epoll_invD(4) show ?thesis by (auto simp: ep_free_fd_def)
qed

text \<open>
  When \<open>epoll_wait\<close> reports entries of the interest list, \<open>EPoller::poll\<close> returns the
  channels it reported in that order after those already in the list, each with the reported mask
  in its \<open>revents_\<close> and every other channel unchanged; no assertion fails; and the event array
  doubles exactly when it was full.
\<close>

theorem epoll_poll_reports:
  assumes "epoll_inv s" and "wait_ok s evs"
  shows "\<exists>s'. EPoller_poll now (WaitReady evs) active s = Inr (now, active @ map snd evs, s') \<and>
    epoll_inv s' \<and> chans s' = set_all_revents evs (chans s) \<and> channelMap s' = channelMap s \<and>
    eventListSize s' = (if length evs = eventListSize s then 2 * eventListSize s else eventListSize s)"
  using poll_reports [OF assms, of now active] by auto

subsection \<open>Witnesses\<close>

definition ep_demo :: epoll_state where
  "ep_demo = \<lparr>chans = [1 \<mapsto> Channel_new 0 7 False, 2 \<mapsto> Channel_new 0 8 False], epollfd = 3,
     eventListSize = 1, channelMap = (\<lambda>_. None), ctlLog = []\<rparr>"

definition ep_demo2 :: epoll_state where
  "ep_demo2 = ep_added 1 ((Channel_new 0 7 False)\<lparr>ch_events := POLLIN\<rparr>)
     (put_chan 1 ((Channel_new 0 7 False)\<lparr>ch_events := POLLIN\<rparr>) ep_demo)"

lemma ep_demo_inv: "epoll_inv ep_demo"
  by (auto simp: epoll_inv_def ep_demo_def epoll_chan_ok_def interest_def ctl_legal_def Channel_new_def
      index_consts split: if_splits)

lemma ep_demo2_inv: "epoll_inv ep_demo2"
  unfolding ep_demo2_def
  by (intro epoll_inv_added epoll_inv_mask ep_demo_inv)
     (simp_all add: ep_demo_def put_chan_def Channel_new_def kNew_def)

theorem epoll_channel_lifecycle_witness:
  "\<exists>s1 s2 s3. foldR (chan_op_run EPoller_updateChannel 1) [EnableReading, DisableAll, EnableWriting] ep_demo = Inr s1 \<and>
    epoll_inv s1 \<and> ctl_legal (ctlLog s1) \<and> ep_armed 1 s1 = kWriteEvent \<and>
    disableAll EPoller_updateChannel 1 s1 = Inr s2 \<and> EPoller_removeChannel 1 s2 = Inr s3 \<and>
    epoll_inv s3 \<and> ctl_legal (ctlLog s3) \<and> channelMap s3 7 = None"
  using epoll_channel_lifecycle [OF ep_demo_inv, of 1 "Channel_new 0 7 False" EnableReading "[DisableAll, EnableWriting]"]
  by (simp add: ep_demo_def Channel_new_def kNew_def kNoneEvent_def)

theorem epoll_poll_reports_witness:
  "\<exists>s'. EPoller_poll 5 (WaitReady [(POLLIN, 1)]) [] ep_demo2 = Inr (5::int, [1], s') \<and>
    epoll_inv s' \<and> map_option ch_revents (chans s' 1) = Some POLLIN \<and> eventListSize s' = 2"
proof -
  have "wait_ok ep_demo2 [(POLLIN, 1)]"
    by (auto simp: wait_ok_def ep_demo2_def ep_added_def ep_demo_def put_chan_def interest_def
        set_index_def Channel_new_def)
  from epoll_poll_reports [OF ep_demo2_inv this, of 5 "[]"] show ?thesis
    by (auto simp: set_all_revents_def ep_demo2_def ep_added_def ep_demo_def put_chan_def
        set_index_def set_revents_def Channel_new_def)
qed

end
