(* ===== verification/Poller.thy ===== *)
theory Poller
  imports Channel
begin

section \<open>Poller: the poll(2) backend\<close>

text \<open>
  \<open>chaonet/include/Poller.h\<close> and \<open>chaonet/src/Poller.cpp\<close>: the other implementation of the
  contract \<open>poller_registry\<close>.  \<open>pollfds\<close> is the vector handed to the system call, \<open>pchannels\<close> the
  map \<open>channels_\<close>, and \<open>index_\<close> of a channel its position in the vector.  \<open>events\<close> and \<open>revents\<close>
  of a \<open>struct pollfd\<close> are \<open>short\<close>s: the masks are narrowed and sign-extended as the code does.
  The result of \<open>poll\<close> (the count and the returned masks the kernel writes into the vector) is an
  argument.
\<close>

record pollfd =
  pfd_fd :: int
  pfd_events :: "16 word"
  pfd_revents :: "16 word"

record poll_state = chan_store +
  pollfds :: "pollfd list"
  pchannels :: "int \<Rightarrow> nat option"

definition Poller_new :: "('m) poll_state_scheme \<Rightarrow> 'm poll_state_scheme" where
  "Poller_new s = s\<lparr>pollfds := [], pchannels := (\<lambda>_. None)\<rparr>"

definition Poller_updateChannel :: "nat \<Rightarrow> ('m) poll_state_scheme \<Rightarrow> 'm poll_state_scheme res" where
  "Poller_updateChannel p s =
     with_chan p s (\<lambda>c.
       let fd = ch_fd c in
       if ch_index c < 0 then
         check (pchannels s fd = None) ''channels_.find(channel->fd()) == channels_.end()''
           (let pfd = \<lparr>pfd_fd = fd, pfd_events = ucast (ch_events c), pfd_revents = 0\<rparr>;
                pfds = pollfds s @ [pfd];
                idx = int (length pfds) - 1 in
            Inr ((put_chan p (set_index idx c) s)
                   \<lparr>pollfds := pfds, pchannels := (pchannels s)(fd \<mapsto> p)\<rparr>))
       else
         check (pchannels s fd \<noteq> None) ''channels_.find(channel->fd()) != channels_.end()''
           (check (pchannels s fd = Some p) ''channels_[channel->fd()] == channel''
             (let idx = ch_index c in
              check (0 \<le> idx \<and> idx < int (length (pollfds s))) ''0 <= idx && idx < size''
                (let pfd = pollfds s ! nat idx in
                 check (pfd_fd pfd = fd \<or> pfd_fd pfd = - fd - 1) ''pfd.fd == fd || pfd.fd == -fd - 1''
                   (let pfd1 = pfd\<lparr>pfd_events := ucast (ch_events c), pfd_revents := 0\<rparr>;
                        pfd2 = (if isNoneEvent c then pfd1\<lparr>pfd_fd := - fd - 1\<rparr> else pfd1) in
                    Inr (s\<lparr>pollfds := (pollfds s)[nat idx := pfd2]\<rparr>))))))"

text \<open>
  \<open>removeChannel\<close> moves the last entry of the vector into the gap and tells that entry's channel
  its new index.
\<close>

definition Poller_removeChannel :: "nat \<Rightarrow> ('m) poll_state_scheme \<Rightarrow> 'm poll_state_scheme res" where
  "Poller_removeChannel p s =
     with_chan p s (\<lambda>c.
       let fd = ch_fd c; idx = ch_index c; n = length (pollfds s) in
       check (pchannels s fd \<noteq> None) ''channels_.find(channel->fd()) != channels_.end()''
       (check (pchannels s fd = Some p) ''channels_[channel->fd()] == channel''
       (check (isNoneEvent c) ''channel->isNoneEvent()''
       (check (0 \<le> idx \<and> idx < int n) ''0 <= idx && idx < size''
       (let pfd = pollfds s ! nat idx in
        check (pfd_fd pfd = - fd - 1 \<and> scast (pfd_events pfd) = ch_events c)
          ''pfd.fd == -channel->fd() - 1 && pfd.events == channel->events()''
          (let s1 = s\<lparr>pchannels := (pchannels s)(fd := None)\<rparr> in
           if nat idx = n - 1 then Inr (s1\<lparr>pollfds := butlast (pollfds s)\<rparr>)
           else
             (let back = last (pollfds s);
                  channelAtEnd = (if pfd_fd back < 0 then - pfd_fd back - 1 else pfd_fd back) in
              case pchannels s1 channelAtEnd of
                None \<Rightarrow> Inl DanglingPointer
              | Some q \<Rightarrow>
                  with_chan q s1 (\<lambda>d.
                    Inr ((put_chan q (set_index idx d) s1)
                           \<lparr>pollfds := (butlast (pollfds s))[nat idx := back]\<rparr>)))))))))"

text \<open>\<open>fillActiveChannels\<close>: stops when \<open>numEvents\<close> entries have been seen.\<close>

fun Poller_fill :: "pollfd list \<Rightarrow> nat \<Rightarrow> nat list \<Rightarrow> ('m) poll_state_scheme \<Rightarrow>
    (nat list \<times> 'm poll_state_scheme) res" where
  "Poller_fill [] numEvents active s = Inr (active, s)"
| "Poller_fill (pfd # pfds) numEvents active s =
     (if numEvents = 0 then Inr (active, s)
      else if 0 < sint (pfd_revents pfd) then
        check (pchannels s (pfd_fd pfd) \<noteq> None) ''ch != channels_.end()''
          (case pchannels s (pfd_fd pfd) of
             None \<Rightarrow> Inl DanglingPointer
           | Some p \<Rightarrow>
               with_chan p s (\<lambda>c.
                 check (ch_fd c = pfd_fd pfd) ''channel->fd() == pfd->fd''
                   (Poller_fill pfds (numEvents - 1) (active @ [p])
                     (put_chan p (set_revents (scast (pfd_revents pfd)) c) s))))
      else Poller_fill pfds numEvents active s)"

definition Poller_fillActiveChannels where
  "Poller_fillActiveChannels numEvents active s = Poller_fill (pollfds s) numEvents active s"

text \<open>
  \<open>poll\<close>: \<open>None\<close> is a failing call, \<open>Some (n, revs)\<close> the count and the returned masks.
\<close>

definition Poller_poll where
  "Poller_poll now r active s =
     (case r of
        None \<Rightarrow> Inr (now, active, s)
      | Some (numEvents, revs) \<Rightarrow>
          (let s1 = s\<lparr>pollfds := map2 (\<lambda>pfd r. pfd\<lparr>pfd_revents := r\<rparr>) (pollfds s) revs\<rparr> in
           if 0 < numEvents then
             bindR (Poller_fillActiveChannels numEvents active s1) (\<lambda>(active', s2). Inr (now, active', s2))
           else Inr (now, active, s1)))"

subsection \<open>The invariant\<close>

text \<open>
  The map and the vector describe the same channels: a mapped descriptor's channel has as index the
  position of an entry for that descriptor (either sign convention), and every entry belongs to a
  mapped channel with that index.
\<close>

definition pfd_key :: "pollfd \<Rightarrow> int" where
  "pfd_key pfd = (if pfd_fd pfd < 0 then - pfd_fd pfd - 1 else pfd_fd pfd)"

definition poll_inv :: "('m) poll_state_scheme \<Rightarrow> bool" where
  "poll_inv s \<longleftrightarrow>
     (\<forall>fd p. pchannels s fd = Some p \<longrightarrow> 0 \<le> fd \<and>
        (\<exists>c. chans s p = Some c \<and> ch_fd c = fd \<and> 0 \<le> ch_index c \<and>
             nat (ch_index c) < length (pollfds s) \<and> pfd_key (pollfds s ! nat (ch_index c)) = fd)) \<and>
     (\<forall>i < length (pollfds s). \<exists>p c. pchannels s (pfd_key (pollfds s ! i)) = Some p \<and>
        chans s p = Some c \<and> ch_index c = int i)"

definition poll_registered :: "nat \<Rightarrow> ('m) poll_state_scheme \<Rightarrow> bool" where
  "poll_registered p s \<longleftrightarrow> (\<exists>fd. pchannels s fd = Some p)"

definition poll_free_fd :: "int \<Rightarrow> ('m) poll_state_scheme \<Rightarrow> bool" where
  "poll_free_fd fd s \<longleftrightarrow> pchannels s fd = None"

definition poll_removable :: "nat \<Rightarrow> ('m) poll_state_scheme \<Rightarrow> bool" where
  "poll_removable p s \<longleftrightarrow>
     (\<exists>c. chans s p = Some c \<and> pfd_fd (pollfds s ! nat (ch_index c)) < 0 \<and>
          pfd_events (pollfds s ! nat (ch_index c)) = 0)"

text \<open>The mask that \<open>poll\<close> watches for a channel: a negative descriptor is ignored by the kernel.\<close>

definition poll_armed :: "nat \<Rightarrow> ('m) poll_state_scheme \<Rightarrow> 16 word" where
  "poll_armed p s =
     (case chans s p of None \<Rightarrow> 0
      | Some c \<Rightarrow> (let pfd = pollfds s ! nat (ch_index c) in if pfd_fd pfd < 0 then 0 else pfd_events pfd))"

lemma poll_invD1:
  assumes "poll_inv s" and "pchannels s fd = Some p" and "chans s p = Some c"
  shows "0 \<le> fd" "ch_fd c = fd" "0 \<le> ch_index c" "nat (ch_index c) < length (pollfds s)"
    "pfd_key (pollfds s ! nat (ch_index c)) = fd"
  using assms by (fastforce simp: poll_inv_def)+

lemma poll_invD2:
  assumes "poll_inv s" and "i < length (pollfds s)"
  obtains p c where "pchannels s (pfd_key (pollfds s ! i)) = Some p" "chans s p = Some c"
    "ch_index c = int i"
  using assms by (fastforce simp: poll_inv_def)

lemma poll_inv_mapped:
  "poll_inv s \<Longrightarrow> pchannels s fd = Some p \<Longrightarrow> \<exists>c. chans s p = Some c"
  by (fastforce simp: poll_inv_def)

lemma poll_registeredD:
  assumes "poll_inv s" and "chans s p = Some c" and "poll_registered p s"
  shows "pchannels s (ch_fd c) = Some p"
  using assms poll_invD1(2) unfolding poll_registered_def by metis

lemma pfd_key_iff: "0 \<le> fd \<Longrightarrow> pfd_key pfd = fd \<longleftrightarrow> pfd_fd pfd = fd \<or> pfd_fd pfd = - fd - 1"
  by (auto simp: pfd_key_def)

lemma poll_inv_mask:
  assumes "poll_inv s" and "chans s p = Some c"
  shows "poll_inv (put_chan p (c\<lparr>ch_events := e\<rparr>) s)"
  unfolding poll_inv_def
proof (intro conjI allI impI)
  fix fd q
  assume "pchannels (put_chan p (c\<lparr>ch_events := e\<rparr>) s) fd = Some q"
  then have q: "pchannels s fd = Some q" by (simp add: put_chan_def)
  from poll_inv_mapped [OF assms(1) q] obtain d where d: "chans s q = Some d" by blast
  note facts = poll_invD1 [OF assms(1) q d]
  show "0 \<le> fd" by (rule facts)
  show "\<exists>d. chans (put_chan p (c\<lparr>ch_events := e\<rparr>) s) q = Some d \<and> ch_fd d = fd \<and> 0 \<le> ch_index d \<and>
      nat (ch_index d) < length (pollfds (put_chan p (c\<lparr>ch_events := e\<rparr>) s)) \<and>
      pfd_key (pollfds (put_chan p (c\<lparr>ch_events := e\<rparr>) s) ! nat (ch_index d)) = fd"
    using facts d assms(2) by (cases "q = p") (auto simp: put_chan_def)
next
  fix i
  assume "i < length (pollfds (put_chan p (c\<lparr>ch_events := e\<rparr>) s))"
  then have "i < length (pollfds s)" by (simp add: put_chan_def)
  from poll_invD2 [OF assms(1) this] obtain q d where
    "pchannels s (pfd_key (pollfds s ! i)) = Some q" "chans s q = Some d" "ch_index d = int i" .
  then show "\<exists>q d. pchannels (put_chan p (c\<lparr>ch_events := e\<rparr>) s)
        (pfd_key (pollfds (put_chan p (c\<lparr>ch_events := e\<rparr>) s) ! i)) = Some q \<and>
      chans (put_chan p (c\<lparr>ch_events := e\<rparr>) s) q = Some d \<and> ch_index d = int i"
    using assms(2) by (cases "q = p") (auto simp: put_chan_def)
qed

text \<open>The states that an update and a removal lead to.\<close>

definition pl_added :: "nat \<Rightarrow> channel \<Rightarrow> ('m) poll_state_scheme \<Rightarrow> 'm poll_state_scheme" where
  "pl_added p c s = (put_chan p (set_index (int (length (pollfds s))) c) s)
     \<lparr>pollfds := pollfds s @ [\<lparr>pfd_fd = ch_fd c, pfd_events = ucast (ch_events c), pfd_revents = 0\<rparr>],
      pchannels := (pchannels s)(ch_fd c \<mapsto> p)\<rparr>"

definition pl_entry :: "channel \<Rightarrow> pollfd \<Rightarrow> pollfd" where
  "pl_entry c pfd =
     (let pfd1 = pfd\<lparr>pfd_events := ucast (ch_events c), pfd_revents := 0\<rparr> in
      if ch_events c = 0 then pfd1\<lparr>pfd_fd := - ch_fd c - 1\<rparr> else pfd1)"

definition pl_changed :: "nat \<Rightarrow> channel \<Rightarrow> ('m) poll_state_scheme \<Rightarrow> 'm poll_state_scheme" where
  "pl_changed p c s = s\<lparr>pollfds := (pollfds s)[nat (ch_index c) := pl_entry c (pollfds s ! nat (ch_index c))]\<rparr>"

definition pl_removed :: "channel \<Rightarrow> nat \<Rightarrow> channel \<Rightarrow> ('m) poll_state_scheme \<Rightarrow> 'm poll_state_scheme" where
  "pl_removed c q d s =
     (if nat (ch_index c) = length (pollfds s) - 1 then
        s\<lparr>pchannels := (pchannels s)(ch_fd c := None), pollfds := butlast (pollfds s)\<rparr>
      else (put_chan q (set_index (ch_index c) d) s)
        \<lparr>pchannels := (pchannels s)(ch_fd c := None),
         pollfds := (butlast (pollfds s))[nat (ch_index c) := last (pollfds s)]\<rparr>)"

lemma Poller_update_added:
  "chans s p = Some c \<Longrightarrow> ch_index c = -1 \<Longrightarrow> pchannels s (ch_fd c) = None \<Longrightarrow>
     Poller_updateChannel p s = Inr (pl_added p c s)"
  by (simp add: Poller_updateChannel_def pl_added_def Let_def)

lemma Poller_update_changed:
  assumes "poll_inv s" "chans s p = Some c" "pchannels s (ch_fd c) = Some p"
  shows "Poller_updateChannel p s = Inr (pl_changed p c s)"
proof -
  note facts = poll_invD1 [OF assms(1,3,2)]
  have "\<not> ch_index c < 0" "ch_index c < int (length (pollfds s))" using facts(3,4) by linarith+
  moreover have "pfd_fd (pollfds s ! nat (ch_index c)) = ch_fd c \<or>
      pfd_fd (pollfds s ! nat (ch_index c)) = - ch_fd c - 1"
    using facts(5) by (simp add: pfd_key_iff [OF facts(1)])
  ultimately show ?thesis
    using assms(2,3) by (auto simp: Poller_updateChannel_def pl_changed_def pl_entry_def Let_def
        isNoneEvent_def kNoneEvent_def)
qed

lemma poll_inv_added:
  assumes inv: "poll_inv s" and c: "chans s p = Some c" and new: "ch_index c = -1" "0 \<le> ch_fd c"
    "pchannels s (ch_fd c) = None"
  shows "poll_inv (pl_added p c s)"
  unfolding poll_inv_def
proof (intro conjI allI impI)
  have np: "pchannels s fd \<noteq> Some p" for fd
    using poll_invD1(3) [OF inv _ c] new(1) by auto
  fix fd q
  assume q: "pchannels (pl_added p c s) fd = Some q"
  show "0 \<le> fd"
    using q new(2) poll_inv_mapped [OF inv] poll_invD1(1) [OF inv]
    by (cases "fd = ch_fd c") (force simp: pl_added_def)+
  show "\<exists>d. chans (pl_added p c s) q = Some d \<and> ch_fd d = fd \<and> 0 \<le> ch_index d \<and>
      nat (ch_index d) < length (pollfds (pl_added p c s)) \<and>
      pfd_key (pollfds (pl_added p c s) ! nat (ch_index d)) = fd"
  proof (cases "fd = ch_fd c")
    case True
    with q new show ?thesis by (auto simp: pl_added_def put_chan_def set_index_def pfd_key_def)
  next
    case False
    with q have q': "pchannels s fd = Some q" by (simp add: pl_added_def)
    then obtain d where d: "chans s q = Some d" using poll_inv_mapped [OF inv] by blast
    from np q' have "q \<noteq> p" by auto
    with poll_invD1 [OF inv q' d] d show ?thesis
      by (auto simp: pl_added_def put_chan_def nth_append)
  qed
next
  have np: "pchannels s fd \<noteq> Some p" for fd
    using poll_invD1(3) [OF inv _ c] new(1) by auto
  fix i
  assume i: "i < length (pollfds (pl_added p c s))"
  show "\<exists>q d. pchannels (pl_added p c s) (pfd_key (pollfds (pl_added p c s) ! i)) = Some q \<and>
      chans (pl_added p c s) q = Some d \<and> ch_index d = int i"
  proof (cases "i = length (pollfds s)")
    case True
    then show ?thesis using new by (auto simp: pl_added_def put_chan_def set_index_def pfd_key_def)
  next
    case False
    with i have i': "i < length (pollfds s)" by (simp add: pl_added_def)
    from poll_invD2 [OF inv i'] obtain q d where qd: "pchannels s (pfd_key (pollfds s ! i)) = Some q"
      "chans s q = Some d" "ch_index d = int i" .
    with np new(3) have "q \<noteq> p" "pfd_key (pollfds s ! i) \<noteq> ch_fd c" by auto
    with qd i' show ?thesis by (simp add: pl_added_def put_chan_def nth_append)
  qed
qed

lemma poll_inv_changed:
  assumes inv: "poll_inv s" and c: "chans s p = Some c" and p: "pchannels s (ch_fd c) = Some p"
  shows "poll_inv (pl_changed p c s)"
proof -
  note facts = poll_invD1 [OF inv p c]
  have "pfd_key (pl_entry c (pollfds s ! nat (ch_index c))) = pfd_key (pollfds s ! nat (ch_index c))"
    using facts(1,5) by (auto simp: pl_entry_def pfd_key_def Let_def)
  then have key: "pfd_key (pollfds (pl_changed p c s) ! i) = pfd_key (pollfds s ! i)" for i
    by (cases "i = nat (ch_index c)") (use facts(4) in \<open>auto simp: pl_changed_def\<close>)
  have same: "chans (pl_changed p c s) = chans s" "pchannels (pl_changed p c s) = pchannels s"
    "length (pollfds (pl_changed p c s)) = length (pollfds s)"
    by (simp_all add: pl_changed_def)
  show ?thesis using inv unfolding poll_inv_def same key .
qed


text \<open>
  A removal: \<open>q\<close> is the channel of the last entry (\<open>p\<close> itself when \<open>p\<close> is the last).
\<close>

lemma Poller_remove_ok:
  assumes inv: "poll_inv s" and c: "chans s p = Some c" and p: "pchannels s (ch_fd c) = Some p"
    and rm: "poll_removable p s" and ev: "ch_events c = 0"
  obtains q d where "Poller_removeChannel p s = Inr (pl_removed c q d s)" "chans s q = Some d"
    "pchannels s (pfd_key (last (pollfds s))) = Some q" "ch_index d = int (length (pollfds s) - 1)"
proof -
  note facts = poll_invD1 [OF inv p c]
  let ?n = "length (pollfds s)" let ?pfd = "pollfds s ! nat (ch_index c)"
  have ne: "?n - 1 < ?n" "pollfds s \<noteq> []" using facts(4) by auto
  from poll_invD2 [OF inv ne(1)] obtain q d where
    q: "pchannels s (pfd_key (pollfds s ! (?n - 1))) = Some q" "chans s q = Some d" "ch_index d = int (?n - 1)" .
  then have q': "pchannels s (pfd_key (last (pollfds s))) = Some q" using ne by (simp add: last_conv_nth)
  have fd: "pfd_fd ?pfd = - ch_fd c - 1"
    using facts(1,5) rm c by (auto simp: poll_removable_def pfd_key_iff)
  have lst: "nat (ch_index c) \<noteq> ?n - 1 \<Longrightarrow> pfd_key (last (pollfds s)) \<noteq> ch_fd c"
    using q' q p c facts(3) by auto
  have "ch_index c < int ?n" using facts(3,4) by linarith
  then have "Poller_removeChannel p s = Inr (pl_removed c q d s)"
    using c p ev fd facts(3,4) rm q q' lst
    by (cases s) (auto simp: Poller_removeChannel_def pl_removed_def Let_def isNoneEvent_def
        kNoneEvent_def poll_removable_def pfd_key_def put_chan_def)
  with q q' that show thesis by blast
qed

lemma pl_removed_fields:
  assumes "nat (ch_index c) < length (pollfds s)" "i = nat (ch_index c)"
  shows "length (pollfds (pl_removed c q d s)) = length (pollfds s) - 1"
    "pchannels (pl_removed c q d s) = (pchannels s)(ch_fd c := None)"
    "j < length (pollfds s) - 1 \<Longrightarrow> pollfds (pl_removed c q d s) ! j = (if j = i then last (pollfds s) else pollfds s ! j)"
    "chans (pl_removed c q d s) r = (if r = q \<and> i \<noteq> length (pollfds s) - 1 then Some (set_index (ch_index c) d) else chans s r)"
  using assms by (auto simp: pl_removed_def put_chan_def nth_list_update nth_butlast last_conv_nth)

lemma pl_removed_mapped:
  assumes inv: "poll_inv s" and c: "chans s p = Some c" and p: "pchannels s (ch_fd c) = Some p"
    and q: "chans s q = Some d" "pchannels s (pfd_key (last (pollfds s))) = Some q"
      "ch_index d = int (length (pollfds s) - 1)"
    and r: "pchannels s f = Some r" "f \<noteq> ch_fd c"
  shows "\<exists>e. chans (pl_removed c q d s) r = Some e \<and> ch_fd e = f \<and> 0 \<le> ch_index e \<and>
    nat (ch_index e) < length (pollfds (pl_removed c q d s)) \<and> pfd_key (pollfds (pl_removed c q d s) ! nat (ch_index e)) = f"
proof -
  let ?n = "length (pollfds s)" let ?i = "nat (ch_index c)"
  note fc = poll_invD1 [OF inv p c] and fd = poll_invD1 [OF inv q(2,1)]
  note fields = pl_removed_fields [OF fc(4) refl]
  obtain e where e: "chans s r = Some e" using poll_inv_mapped [OF inv r(1)] by blast
  note fe = poll_invD1 [OF inv r(1) e]
  have "nat (ch_index e) \<noteq> ?i" using fe(5) fc(5) r(2) by auto
  show ?thesis
  proof (cases "nat (ch_index e) = ?n - 1")
    case True
    then have f: "f = pfd_key (last (pollfds s))" using fe(4,5) last_conv_nth [of "pollfds s"] by fastforce
    with r(1) q(2) have "r = q" by simp
    moreover have "?i \<noteq> ?n - 1" using True \<open>nat (ch_index e) \<noteq> ?i\<close> by simp
    moreover from this fc(4) have "?i < ?n - 1" by linarith
    ultimately show ?thesis using f fc(3) fd(2) by (simp add: fields set_index_def)
  next
    case False
    with fe(4) have "nat (ch_index e) < ?n - 1" by linarith
    moreover have "r \<noteq> q" using False e q(1,3) by auto
    ultimately show ?thesis using e fe(2,3,5) \<open>nat (ch_index e) \<noteq> ?i\<close> by (simp add: fields)
  qed
qed

lemma poll_inv_removed:
  assumes inv: "poll_inv s" and c: "chans s p = Some c" and p: "pchannels s (ch_fd c) = Some p"
    and q: "chans s q = Some d" "pchannels s (pfd_key (last (pollfds s))) = Some q"
      "ch_index d = int (length (pollfds s) - 1)"
  shows "poll_inv (pl_removed c q d s)"
proof -
  let ?s = "pl_removed c q d s" let ?n = "length (pollfds s)" let ?i = "nat (ch_index c)"
  note fc = poll_invD1 [OF inv p c]
  note fields = pl_removed_fields [OF fc(4) refl]
  show ?thesis
    unfolding poll_inv_def
  proof (intro conjI allI impI)
    fix f r
    assume "pchannels ?s f = Some r"
    then have r: "pchannels s f = Some r" "f \<noteq> ch_fd c" by (auto simp: fields split: if_splits)
    obtain e where "chans s r = Some e" using poll_inv_mapped [OF inv r(1)] by blast
    from poll_invD1(1) [OF inv r(1) this] show "0 \<le> f" .
    show "\<exists>e. chans ?s r = Some e \<and> ch_fd e = f \<and> 0 \<le> ch_index e \<and>
        nat (ch_index e) < length (pollfds ?s) \<and> pfd_key (pollfds ?s ! nat (ch_index e)) = f"
      by (rule pl_removed_mapped [OF inv c p q r])
  next
    fix j
    assume j: "j < length (pollfds ?s)"
    then have j': "j < ?n - 1" "j < ?n" by (simp_all add: fields)
    from poll_invD2 [OF inv j'(2)] obtain r e where r: "pchannels s (pfd_key (pollfds s ! j)) = Some r"
      "chans s r = Some e" "ch_index e = int j" .
    show "\<exists>r e. pchannels ?s (pfd_key (pollfds ?s ! j)) = Some r \<and> chans ?s r = Some e \<and> ch_index e = int j"
    proof (cases "j = ?i")
      case True
      have "pfd_key (last (pollfds s)) \<noteq> ch_fd c" using True j'(1) q p c fc(3) by auto
      with True j' q fc(3) show ?thesis by (auto simp: fields set_index_def)
    next
      case False
      then have "r \<noteq> q" "pfd_key (pollfds s ! j) \<noteq> ch_fd c" using r q j' p c fc(3) by auto
      with False j' r show ?thesis by (auto simp: fields)
    qed
  qed
qed

lemma pl_states_chans:
  assumes "chans s p = Some c"
  shows "same_chans s (pl_added p c s)" "same_chans s (pl_changed p c s)" "same_chans s (pl_removed d p c s)"
  using assms
  by (auto simp: pl_added_def pl_changed_def pl_removed_def put_chan_def same_chans_def set_index_def
      option.rel_refl same_but_index_simps)

lemma poll_removable_changed:
  assumes inv: "poll_inv s" and c: "chans s p = Some c" "pchannels s (ch_fd c) = Some p" "ch_events c = 0"
  shows "poll_removable p (pl_changed p c s)"
  using poll_invD1 [OF inv c(2,1)] c
  by (auto simp: poll_removable_def pl_changed_def pl_entry_def Let_def)

lemma poll_registered_states:
  "poll_registered p (pl_added p c s)"
  "q \<noteq> p \<Longrightarrow> pchannels s (ch_fd c) = None \<Longrightarrow> poll_registered q (pl_added p c s) = poll_registered q s"
  "poll_registered q (pl_changed p c s) = poll_registered q s"
  "q \<noteq> p \<Longrightarrow> pchannels s (ch_fd c) = Some p \<Longrightarrow> poll_registered q (pl_removed c r d s) = poll_registered q s"
  by (auto simp: poll_registered_def pl_added_def pl_changed_def pl_removed_def put_chan_def)
     (metis option.distinct(1) option.inject)+

lemma pl_removed_free: "pchannels (pl_removed c q d s) (ch_fd c) = None"
  by (simp add: pl_removed_def)

interpretation pl: poller_registry poll_inv poll_registered poll_removable poll_free_fd
    Poller_updateChannel Poller_removeChannel
proof unfold_locales
  fix s :: "'m poll_state_scheme" and p c
  assume inv: "poll_inv s" and c: "chans s p = Some c"
    and a: "poll_registered p s \<or> (ch_index c = -1 \<and> 0 \<le> ch_fd c \<and> poll_free_fd (ch_fd c) s)"
  show "\<exists>s'. Poller_updateChannel p s = Inr s' \<and> poll_inv s' \<and> poll_registered p s' \<and>
      same_chans s s' \<and> (\<forall>q. q \<noteq> p \<longrightarrow> poll_registered q s' = poll_registered q s) \<and>
      (poll_registered p s \<and> ch_events c = 0 \<longrightarrow> poll_removable p s')"
  proof (cases "poll_registered p s")
    case True
    note m = poll_registeredD [OF inv c True]
    show ?thesis
      using Poller_update_changed [OF inv c m] poll_inv_changed [OF inv c m] pl_states_chans(2) [OF c]
        poll_removable_changed [OF inv c m] poll_registered_states(3) True by auto
  next
    case False
    with a have new: "ch_index c = -1" "0 \<le> ch_fd c" "pchannels s (ch_fd c) = None"
      by (auto simp: poll_free_fd_def)
    show ?thesis
      using Poller_update_added [OF c new(1,3)] poll_inv_added [OF inv c new] pl_states_chans(1) [OF c]
        poll_registered_states(1) False
      by (auto simp: poll_registered_states(2) new(3))
  qed
next
  fix s :: "'m poll_state_scheme" and p c
  assume inv: "poll_inv s" and c: "chans s p = Some c" and r: "poll_registered p s"
    and rm: "poll_removable p s" and ev: "ch_events c = 0"
  note m = poll_registeredD [OF inv c r]
  obtain q d where q: "Poller_removeChannel p s = Inr (pl_removed c q d s)" "chans s q = Some d"
    "pchannels s (pfd_key (last (pollfds s))) = Some q" "ch_index d = int (length (pollfds s) - 1)"
    using Poller_remove_ok [OF inv c m rm ev] .
  have "poll_registered p (pl_removed c q d s) \<Longrightarrow> False"
    using poll_invD1(2) [OF inv _ c] by (auto simp: poll_registered_def pl_removed_def put_chan_def split: if_splits)
  then show "\<exists>s'. Poller_removeChannel p s = Inr s' \<and> poll_inv s' \<and> \<not> poll_registered p s' \<and>
      poll_free_fd (ch_fd c) s' \<and> same_chans s s' \<and>
      (\<forall>q. q \<noteq> p \<longrightarrow> poll_registered q s' = poll_registered q s)"
    using q(1) poll_inv_removed [OF inv c m q(2-4)] pl_states_chans(3) [OF q(2)]
      poll_registered_states(4) [OF _ m] by (auto simp: poll_free_fd_def pl_removed_free)
qed (rule poll_inv_mask, simp_all add: poll_registered_def poll_free_fd_def put_chan_def)

subsection \<open>Properties\<close>

text \<open>
  The poll backend keeps its vector, its map and the channels' indices consistent through any
  life of a channel: a new channel can be enabled and disabled at will, then disabled completely and
  removed, with no assertion failing; the descriptor is free again, and no other channel is lost or
  gained.
\<close>

theorem poll_channel_lifecycle:
  assumes "poll_inv s" and "chans s p = Some c" and "ch_index c = -1" and "0 \<le> ch_fd c"
    and "pchannels s (ch_fd c) = None"
  shows "\<exists>s1 s2 s3. foldR (chan_op_run Poller_updateChannel p) (x # xs) s = Inr s1 \<and>
    disableAll Poller_updateChannel p s1 = Inr s2 \<and> Poller_removeChannel p s2 = Inr s3 \<and>
    poll_inv s3 \<and> \<not> poll_registered p s3 \<and> pchannels s3 (ch_fd c) = None"
  using pl.lifecycle [OF assms(1-4), of x xs] assms(5) by (simp add: poll_free_fd_def)

text \<open>A negated descriptor stays negated through every further update.\<close>

definition poll_muted :: "nat \<Rightarrow> int \<Rightarrow> ('m) poll_state_scheme \<Rightarrow> bool" where
  "poll_muted p fd s \<longleftrightarrow> poll_inv s \<and> pchannels s fd = Some p \<and>
     (\<exists>c. chans s p = Some c \<and> ch_fd c = fd \<and> pfd_fd (pollfds s ! nat (ch_index c)) < 0)"

lemma poll_muted_op:
  assumes "poll_muted p fd s" and "chan_op_run Poller_updateChannel p x s = Inr s'"
  shows "poll_muted p fd s'"
proof -
  from assms(1) obtain c where c: "chans s p = Some c" "ch_fd c = fd" "poll_inv s" "pchannels s fd = Some p"
    "pfd_fd (pollfds s ! nat (ch_index c)) < 0" by (auto simp: poll_muted_def)
  let ?c = "c\<lparr>ch_events := chan_op_mask x (ch_events c)\<rparr>" let ?s = "put_chan p ?c s"
  have inv: "poll_inv ?s" and p: "chans ?s p = Some ?c" "pchannels ?s (ch_fd ?c) = Some p"
    using poll_inv_mask [OF c(3,1)] c by (simp_all add: put_chan_def)
  have "s' = pl_changed p ?c ?s"
    using assms(2) c(1) Poller_update_changed [OF inv p] by (simp add: chan_op_run_eq set_events_def)
  moreover have "nat (ch_index c) < length (pollfds s)" "0 \<le> fd"
    using poll_invD1 [OF c(3,4,1)] by simp_all
  ultimately show ?thesis
    using poll_inv_changed [OF inv p] c p by (auto simp: poll_muted_def pl_changed_def pl_entry_def put_chan_def Let_def)
qed

lemma poll_disableAll_mutes:
  assumes "poll_inv s" and "chans s p = Some c" and "pchannels s (ch_fd c) = Some p"
    and "disableAll Poller_updateChannel p s = Inr s'"
  shows "poll_muted p (ch_fd c) s'"
proof -
  let ?c = "c\<lparr>ch_events := 0\<rparr>" let ?s = "put_chan p ?c s"
  have inv: "poll_inv ?s" and p: "chans ?s p = Some ?c" "pchannels ?s (ch_fd ?c) = Some p"
    using poll_inv_mask [OF assms(1,2)] assms by (simp_all add: put_chan_def)
  have "s' = pl_changed p ?c ?s"
    using assms(2,4) Poller_update_changed [OF inv p] by (simp add: disableAll_def set_events_def kNoneEvent_def)
  with poll_inv_changed [OF inv p] p poll_invD1 [OF assms(1,3,2)] show ?thesis
    by (auto simp: poll_muted_def pl_changed_def pl_entry_def put_chan_def Let_def)
qed

text \<open>
  The poll backend never watches a channel again once all its events were disabled: whatever
  events are enabled afterwards, the entry keeps its negated descriptor, which \<open>poll\<close> ignores (the
  epoll backend, in contrast, arms exactly the enabled mask).
\<close>

theorem poll_never_rearms:
  assumes "poll_inv s" and "chans s p = Some c" and "pchannels s (ch_fd c) = Some p"
    and "disableAll Poller_updateChannel p s = Inr s1"
    and "foldR (chan_op_run Poller_updateChannel p) xs s1 = Inr s2"
  shows "poll_armed p s2 = 0"
proof -
  have "poll_muted p (ch_fd c) s2"
    using foldR_invariant [of xs "poll_muted p (ch_fd c)", OF poll_muted_op poll_disableAll_mutes [OF assms(1-4)] assms(5)] .
  then show ?thesis by (auto simp: poll_muted_def poll_armed_def)
qed

text \<open>What \<open>poll\<close> may report: one mask per entry, zero for ignored entries, and the number of non-zero ones.\<close>

definition poll_result_ok :: "('m) poll_state_scheme \<Rightarrow> nat \<Rightarrow> 16 word list \<Rightarrow> bool" where
  "poll_result_ok s n revs \<longleftrightarrow> length revs = length (pollfds s) \<and>
     n = length (filter (\<lambda>r. r \<noteq> 0) revs) \<and> (\<forall>r \<in> set revs. 0 \<le> sint r) \<and>
     (\<forall>(pfd, r) \<in> set (zip (pollfds s) revs). pfd_fd pfd < 0 \<longrightarrow> r = 0)"

definition poll_ready :: "('m) poll_state_scheme \<Rightarrow> (pollfd \<times> 16 word) list \<Rightarrow> nat list" where
  "poll_ready s prs = map (\<lambda>(pfd, r). the (pchannels s (pfd_fd pfd))) (filter (\<lambda>(pfd, r). r \<noteq> 0) prs)"

lemma sint_pos_iff: "0 \<le> sint r \<Longrightarrow> 0 < sint r \<longleftrightarrow> (r::16 word) \<noteq> 0"
  by (metis order_less_le signed_0 signed_word_eqI)

lemma Poller_fill_ok:
  assumes "\<forall>(pfd, r) \<in> set prs. 0 \<le> sint r \<and> (r \<noteq> 0 \<longrightarrow>
      (\<exists>p c. pchannels s (pfd_fd pfd) = Some p \<and> chans s p = Some c \<and> ch_fd c = pfd_fd pfd))"
  shows "\<exists>s'. Poller_fill (map (\<lambda>(pfd, r). pfd\<lparr>pfd_revents := r\<rparr>) prs)
      (length (filter (\<lambda>(pfd, r). r \<noteq> 0) prs)) active s = Inr (active @ poll_ready s prs, s')"
  using assms
proof (induction prs arbitrary: active s)
  case (Cons x prs)
  obtain pfd r where x: "x = (pfd, r)" by force
  show ?case
  proof (cases "r = 0")
    case True
    with Cons x obtain s' where "Poller_fill (map (\<lambda>(pfd, r). pfd\<lparr>pfd_revents := r\<rparr>) prs)
      (length (filter (\<lambda>(pfd, r). r \<noteq> 0) prs)) active s = Inr (active @ poll_ready s prs, s')" by fastforce
    with True x show ?thesis by (auto simp: poll_ready_def)
  next
    case False
    with Cons.prems x obtain p c where c: "pchannels s (pfd_fd pfd) = Some p" "chans s p = Some c"
      "ch_fd c = pfd_fd pfd" "0 \<le> sint r" by auto
    let ?s = "put_chan p (set_revents (scast r) c) s"
    have keep: "pchannels ?s = pchannels s" "poll_ready ?s prs = poll_ready s prs"
      by (simp_all add: put_chan_def poll_ready_def)
    have "\<forall>(pfd, r) \<in> set prs. 0 \<le> sint r \<and> (r \<noteq> 0 \<longrightarrow>
        (\<exists>p c. pchannels ?s (pfd_fd pfd) = Some p \<and> chans ?s p = Some c \<and> ch_fd c = pfd_fd pfd))"
    proof (intro ballI)
      fix y assume y: "y \<in> set prs"
      obtain pfd' r' where y': "y = (pfd', r')" by force
      with Cons.prems y c(2,3) show "case y of (pfd, r) \<Rightarrow> 0 \<le> sint r \<and> (r \<noteq> 0 \<longrightarrow>
        (\<exists>p c. pchannels ?s (pfd_fd pfd) = Some p \<and> chans ?s p = Some c \<and> ch_fd c = pfd_fd pfd))"
        unfolding keep by (fastforce simp: set_revents_def)
    qed
    from Cons.IH [OF this, of "active @ [p]"] obtain s' where
      "Poller_fill (map (\<lambda>(pfd, r). pfd\<lparr>pfd_revents := r\<rparr>) prs)
        (length (filter (\<lambda>(pfd, r). r \<noteq> 0) prs)) (active @ [p]) ?s = Inr ((active @ [p]) @ poll_ready s prs, s')"
      unfolding keep by blast
    with False c x show ?thesis by (auto simp: sint_pos_iff poll_ready_def)
  qed
qed (simp add: poll_ready_def)

text \<open>
  \<open>Poller::poll\<close> reports exactly the channels whose entry the kernel marked, in the order of
  the vector, and stops early without missing one; its assertions hold.
\<close>

theorem poll_poll_reports:
  assumes "poll_inv s" and "poll_result_ok s n revs"
  shows "\<exists>s'. Poller_poll now (Some (n, revs)) active s =
    Inr (now, active @ poll_ready s (zip (pollfds s) revs), s')"
proof -
  let ?prs = "zip (pollfds s) revs"
  let ?s = "s\<lparr>pollfds := map2 (\<lambda>pfd r. pfd\<lparr>pfd_revents := r\<rparr>) (pollfds s) revs\<rparr>"
  have len: "length revs = length (pollfds s)" using assms(2) by (simp add: poll_result_ok_def)
  have n: "n = length (filter (\<lambda>(pfd, r). r \<noteq> 0) ?prs)"
  proof -
    have "filter (\<lambda>r. r \<noteq> 0) revs = filter (\<lambda>r. r \<noteq> 0) (map snd ?prs)" using len by simp
    then show ?thesis using assms(2)
      by (simp add: poll_result_ok_def filter_map comp_def case_prod_unfold)
  qed
  have "\<forall>(pfd, r) \<in> set ?prs. 0 \<le> sint r \<and> (r \<noteq> 0 \<longrightarrow>
      (\<exists>p c. pchannels ?s (pfd_fd pfd) = Some p \<and> chans ?s p = Some c \<and> ch_fd c = pfd_fd pfd))"
  proof (intro ballI)
    fix y assume y: "y \<in> set ?prs"
    obtain pfd r where yr: "y = (pfd, r)" by force
    with y len obtain i where i: "i < length (pollfds s)" "pollfds s ! i = pfd" "revs ! i = r"
      by (auto simp: set_zip)
    from poll_invD2 [OF assms(1) i(1)] obtain p c where
      p: "pchannels s (pfd_key pfd) = Some p" "chans s p = Some c" using i by metis
    have "0 \<le> sint r" "r \<noteq> 0 \<longrightarrow> \<not> pfd_fd pfd < 0"
      using assms(2) y yr i len by (auto simp: poll_result_ok_def)
    with p poll_invD1(2) [OF assms(1) p] yr show "case y of (pfd, r) \<Rightarrow> 0 \<le> sint r \<and> (r \<noteq> 0 \<longrightarrow>
      (\<exists>p c. pchannels ?s (pfd_fd pfd) = Some p \<and> chans ?s p = Some c \<and> ch_fd c = pfd_fd pfd))"
      by (auto simp: pfd_key_def)
  qed
  from Poller_fill_ok [OF this, of active] n show ?thesis
    by (cases "n = 0") (auto simp: Poller_poll_def Poller_fillActiveChannels_def poll_ready_def)
qed

subsection \<open>Witnesses\<close>

definition pl_demo :: poll_state where
  "pl_demo = \<lparr>chans = [1 \<mapsto> Channel_new 0 7 False], pollfds = [], pchannels = (\<lambda>_. None)\<rparr>"

definition pl_demo_chan :: channel where
  "pl_demo_chan = (Channel_new 0 7 False)\<lparr>ch_events := POLLIN\<rparr>"

definition pl_demo2 :: poll_state where
  "pl_demo2 = pl_added 1 pl_demo_chan (put_chan 1 pl_demo_chan pl_demo)"

lemmas pl_demo_defs = pl_demo_def pl_demo2_def pl_demo_chan_def pl_added_def put_chan_def set_index_def
  Channel_new_def

lemma pl_demo_inv: "poll_inv pl_demo"
  by (simp add: poll_inv_def pl_demo_def)

lemma pl_demo2_inv: "poll_inv pl_demo2"
  unfolding pl_demo2_def
  by (rule poll_inv_added) (simp_all add: poll_inv_def pl_demo_def pl_demo_chan_def put_chan_def Channel_new_def)

theorem poll_channel_lifecycle_witness:
  "\<exists>s1 s2 s3. foldR (chan_op_run Poller_updateChannel 1) [EnableReading] pl_demo = Inr s1 \<and>
    disableAll Poller_updateChannel 1 s1 = Inr s2 \<and> Poller_removeChannel 1 s2 = Inr s3 \<and>
    poll_inv s3 \<and> \<not> poll_registered 1 s3 \<and> pchannels s3 7 = None"
  using poll_channel_lifecycle [OF pl_demo_inv, of 1 "Channel_new 0 7 False" EnableReading "[]"]
  by (simp add: pl_demo_def Channel_new_def)

theorem poll_never_rearms_witness:
  "\<exists>s1 s2. disableAll Poller_updateChannel 1 pl_demo2 = Inr s1 \<and>
     foldR (chan_op_run Poller_updateChannel 1) [EnableReading] s1 = Inr s2 \<and>
     map_option ch_events (chans s2 1) = Some kReadEvent \<and> poll_armed 1 s2 = 0"
proof -
  have c: "chans pl_demo2 1 = Some (set_index 0 pl_demo_chan)" "pchannels pl_demo2 7 = Some 1"
    "ch_fd (set_index 0 pl_demo_chan) = 7"
    by (simp_all add: pl_demo_defs)
  have r: "poll_registered 1 pl_demo2" using c(2) by (auto simp: poll_registered_def)
  obtain s1 d where s1: "disableAll Poller_updateChannel 1 pl_demo2 = Inr s1" "poll_inv s1"
      "poll_registered 1 s1" "chans s1 1 = Some d" "ch_events d = 0"
    using pl.set_events_ok [OF pl_demo2_inv c(1), of "\<lambda>_. kNoneEvent"] r
    by (auto simp: disableAll_def kNoneEvent_def)
  obtain s2 e where s2: "foldR (chan_op_run Poller_updateChannel 1) [EnableReading] s1 = Inr s2"
      "chans s2 1 = Some e" "ch_events e = kReadEvent"
    using pl.chan_ops_ok [OF s1(2,4,3), of "[EnableReading]"] s1(5) by auto
  from poll_never_rearms [OF pl_demo2_inv c(1) _ s1(1) s2(1)] c(2,3) s1 s2 show ?thesis by auto
qed

theorem poll_poll_reports_witness:
  "\<exists>s'. Poller_poll 5 (Some (1, [1])) [] pl_demo2 = Inr (5::int, [1], s')"
  using poll_poll_reports [OF pl_demo2_inv, of 1 "[1]" 5 "[]"]
  by (simp add: poll_result_ok_def poll_ready_def pl_demo_defs)

end
