(* ===== verification/Backends.thy ===== *)
theory Backends
  imports EPoller Poller
begin

section \<open>The two pollers compared\<close>

text \<open>
  \<open>EPoller\<close> and \<open>Poller\<close> are meant to be interchangeable.  They are, for a channel whose mask never becomes empty
  between two updates; a channel that was ever disabled is watched by the first only.
\<close>

text \<open>No update after the first leaves the mask empty; \<open>e\<close> is the mask before the updates \<open>xs\<close>.\<close>

fun never_empty :: "32 word \<Rightarrow> chan_op list \<Rightarrow> bool" where
  "never_empty e [] \<longleftrightarrow> True"
| "never_empty e (x # xs) \<longleftrightarrow> chan_op_mask x e \<noteq> 0 \<and> never_empty (chan_op_mask x e) xs"

text \<open>A channel whose entry in the vector was never negated: \<open>poll\<close> watches it with its mask.\<close>

definition poll_live :: "nat \<Rightarrow> channel \<Rightarrow> 'm poll_state_scheme \<Rightarrow> bool" where
  "poll_live p c s \<longleftrightarrow> poll_inv s \<and> chans s p = Some c \<and> pchannels s (ch_fd c) = Some p \<and>
     pfd_fd (pollfds s ! nat (ch_index c)) = ch_fd c \<and> pfd_events (pollfds s ! nat (ch_index c)) = ucast (ch_events c)"

lemma poll_live_armed: "poll_live p c s \<Longrightarrow> poll_armed p s = ucast (ch_events c)"
  using poll_invD1(1) [of s "ch_fd c" p c] by (simp add: poll_live_def poll_armed_def Let_def)

lemma poll_live_new:
  assumes inv: "poll_inv s" and c: "chans s p = Some c" and new: "ch_index c = -1" "0 \<le> ch_fd c" "pchannels s (ch_fd c) = None"
  obtains s' c' where "chan_op_run Poller_updateChannel p x s = Inr s'" "poll_live p c' s'" "ch_fd c' = ch_fd c"
    "ch_events c' = chan_op_mask x (ch_events c)"
proof -
  let ?c = "c\<lparr>ch_events := chan_op_mask x (ch_events c)\<rparr>" let ?s = "put_chan p ?c s"
  have inv': "poll_inv ?s" and c': "chans ?s p = Some ?c" "ch_index ?c = -1" "0 \<le> ch_fd ?c" "pchannels ?s (ch_fd ?c) = None"
    using poll_inv_mask [OF inv c] new by (simp_all add: put_chan_def)
  have "chan_op_run Poller_updateChannel p x s = Inr (pl_added p ?c ?s)"
    using Poller_update_added [OF c'(1,2,4)] c by (simp add: chan_op_run_eq set_events_def)
  moreover have "poll_live p (set_index (int (length (pollfds s))) ?c) (pl_added p ?c ?s)"
    using poll_inv_added [OF inv' c'] by (simp add: poll_live_def pl_added_def put_chan_def set_index_def)
  ultimately show thesis by (rule that) (simp_all add: set_index_def)
qed

lemma poll_live_op:
  assumes "poll_live p c s" "chan_op_mask x (ch_events c) \<noteq> 0"
  obtains s' where "chan_op_run Poller_updateChannel p x s = Inr s'" "poll_live p (c\<lparr>ch_events := chan_op_mask x (ch_events c)\<rparr>) s'"
proof -
  let ?c = "c\<lparr>ch_events := chan_op_mask x (ch_events c)\<rparr>" let ?s = "put_chan p ?c s"
  have c: "poll_inv s" "chans s p = Some c" "pchannels s (ch_fd c) = Some p" using assms(1) by (simp_all add: poll_live_def)
  have inv: "poll_inv ?s" and p: "chans ?s p = Some ?c" "pchannels ?s (ch_fd ?c) = Some p"
    using poll_inv_mask [OF c(1,2)] c by (simp_all add: put_chan_def)
  have "chan_op_run Poller_updateChannel p x s = Inr (pl_changed p ?c ?s)"
    using Poller_update_changed [OF inv p] c(2) by (simp add: chan_op_run_eq set_events_def)
  moreover have "nat (ch_index c) < length (pollfds s)" using poll_invD1(4) [OF c(1,3,2)] .
  then have "poll_live p ?c (pl_changed p ?c ?s)"
    using poll_inv_changed [OF inv p] p assms by (simp add: poll_live_def pl_changed_def pl_entry_def put_chan_def Let_def)
  ultimately show thesis by (rule that)
qed

lemma poll_live_registered: "poll_live p c s \<Longrightarrow> poll_registered p s"
  by (auto simp: poll_live_def poll_registered_def)

lemma poll_empties:
  assumes "poll_live p c s" "chan_op_mask x (ch_events c) = 0"
  obtains s' where "chan_op_run Poller_updateChannel p x s = Inr s'" "poll_muted p (ch_fd c) s'"
proof -
  have c: "poll_inv s" "chans s p = Some c" "pchannels s (ch_fd c) = Some p" using assms(1) by (simp_all add: poll_live_def)
  obtain s' where s': "chan_op_run Poller_updateChannel p x s = Inr s'"
    using pl.chan_ops_ok [OF c(1,2) poll_live_registered [OF assms(1)], of "[x]"] by (auto simp: bindR_Inr_iff)
  have "chan_op_run Poller_updateChannel p x s = disableAll Poller_updateChannel p s"
    using assms(2) c(2) by (simp add: chan_op_run_eq disableAll_def set_events_def kNoneEvent_def)
  with s' poll_disableAll_mutes [OF c, of s'] that show thesis by simp
qed

lemma poll_muted_ops:
  assumes "poll_muted p fd s"
  shows "\<exists>s'. foldR (chan_op_run Poller_updateChannel p) xs s = Inr s' \<and> poll_armed p s' = 0"
proof -
  obtain c where c: "poll_inv s" "pchannels s fd = Some p" "chans s p = Some c" using assms by (auto simp: poll_muted_def)
  then have "poll_registered p s" by (auto simp: poll_registered_def)
  then obtain s' where s': "foldR (chan_op_run Poller_updateChannel p) xs s = Inr s'" using pl.chan_ops_ok [OF c(1,3), of xs] by auto
  have "poll_muted p fd s'" using foldR_invariant [of xs "poll_muted p fd", OF poll_muted_op assms s'] .
  with s' show ?thesis by (auto simp: poll_muted_def poll_armed_def)
qed

lemma poll_live_ops:
  assumes "poll_live p c s"
  shows "\<exists>s'. foldR (chan_op_run Poller_updateChannel p) xs s = Inr s' \<and>
    poll_armed p s' = (if never_empty (ch_events c) xs then ucast (fold chan_op_mask xs (ch_events c)) else 0)"
  using assms
proof (induction xs arbitrary: c s)
  case Nil
  then show ?case using poll_live_armed by auto
next
  case (Cons x xs)
  show ?case
  proof (cases "chan_op_mask x (ch_events c) = 0")
    case True
    obtain s1 where s1: "chan_op_run Poller_updateChannel p x s = Inr s1" "poll_muted p (ch_fd c) s1"
      by (rule poll_empties [OF Cons.prems True])
    with poll_muted_ops [OF s1(2), of xs] True show ?thesis by auto
  next
    case False
    obtain s1 where s1: "chan_op_run Poller_updateChannel p x s = Inr s1" "poll_live p (c\<lparr>ch_events := chan_op_mask x (ch_events c)\<rparr>) s1"
      by (rule poll_live_op [OF Cons.prems False])
    with Cons.IH [OF s1(2)] False show ?thesis by auto
  qed
qed

text \<open>
  C27: The two pollers are equivalent up to the channels that were disabled.  A new channel that both pollers are told of, and any
  updates of it, fail no assertion in either; \<open>EPoller\<close> then watches the channel with its mask, and \<open>Poller\<close> with the same mask
  narrowed to a \<open>short\<close> if no update after the first left the mask empty, and not at all otherwise.
\<close>

theorem pollers_agree:
  assumes "epoll_inv s" and "poll_inv t" and "chans s p = Some c" and "chans t p = Some c" and "ch_index c = -1" and "0 \<le> ch_fd c"
    and "ep_free_fd (ch_fd c) s" and "poll_free_fd (ch_fd c) t"
  shows "\<exists>s' t'. foldR (chan_op_run EPoller_updateChannel p) (x # xs) s = Inr s' \<and>
    foldR (chan_op_run Poller_updateChannel p) (x # xs) t = Inr t' \<and>
    ep_armed p s' = fold chan_op_mask (x # xs) (ch_events c) \<and>
    poll_armed p t' = (if never_empty (chan_op_mask x (ch_events c)) xs then ucast (ep_armed p s') else 0)"
proof -
  obtain s' where s': "foldR (chan_op_run EPoller_updateChannel p) (x # xs) s = Inr s'"
    using ep.lifecycle [OF assms(1,3,5,6,7), of x xs] by blast
  have a: "ep_armed p s' = fold chan_op_mask (x # xs) (ch_events c)" using ep.ops_from_new [OF assms(1,3,5-7) s'] by blast
  obtain t1 d where t1: "chan_op_run Poller_updateChannel p x t = Inr t1" "poll_live p d t1" "ch_events d = chan_op_mask x (ch_events c)"
    by (rule poll_live_new [OF assms(2,4-6), where x = x]) (use assms(8) in \<open>simp_all add: poll_free_fd_def\<close>)
  from poll_live_ops [OF t1(2), of xs] t1(1,3) s' a show ?thesis by auto
qed

theorem pollers_agree_witness:
  "\<exists>s' t'. foldR (chan_op_run EPoller_updateChannel 1) [EnableReading, DisableAll, EnableReading] ep_demo = Inr s' \<and>
     foldR (chan_op_run Poller_updateChannel 1) [EnableReading, DisableAll, EnableReading] pl_demo = Inr t' \<and>
     ep_armed 1 s' = kReadEvent \<and> poll_armed 1 t' = 0"
proof -
  let ?c = "Channel_new 0 7 False"
  have h: "chans ep_demo 1 = Some ?c" "chans pl_demo 1 = Some ?c" "ch_index ?c = -1" "0 \<le> ch_fd ?c" "ep_free_fd (ch_fd ?c) ep_demo"
    "poll_free_fd (ch_fd ?c) pl_demo"
    by (simp_all add: ep_demo_def pl_demo_def Channel_new_def ep_free_fd_def poll_free_fd_def)
  from pollers_agree [OF ep_demo_inv pl_demo_inv h, of EnableReading "[DisableAll, EnableReading]"] show ?thesis
    by (simp add: kNoneEvent_def Channel_new_def)
qed

end
