(* ===== verification/EventLoop.thy ===== *)
theory EventLoop
  imports EPoller
begin

section \<open>EventLoop\<close>

text \<open>
  \<open>chaonet/include/EventLoop.h\<close> and \<open>chaonet/src/EventLoop.cpp\<close>.  The state of a loop extends that
  of its poller.  The id of the calling thread is an argument (\<open>tid\<close>).  The eventfd is modelled
  by the sequence of writes and reads the program makes on it (\<open>wakeupLog\<close>); \<open>eventfd_value\<close>
  reads that log as the kernel's counter.  \<open>Timestamp::now()\<close> reads the next value of an arbitrary
  sequence \<open>clock\<close>.  What a functor or a channel callback does is an argument (\<open>call\<close>, \<open>callC\<close>),
  and the results of \<open>epoll_wait\<close> for the iterations of \<open>loop\<close> are a list.  The second half of the
  theory interleaves the loop thread with other threads at the granularity of the accesses to the
  shared members.
\<close>

datatype wake_event = WakeWrite | WakeRead

record loop_state = epoll_state +
  lp_this :: nat
  looping :: bool
  quit_flag :: bool
  callingPendingFunctors :: bool
  threadId :: int
  pollReturnTime :: int
  wakeupFd :: int
  wakeupChannel :: nat
  wakeupLog :: "wake_event list"
  pendingFunctors :: "loop_functor list"
  clock :: "nat \<Rightarrow> int"
  ticks :: nat

definition kPollTimeMs :: int where
  "kPollTimeMs = 10000"

definition read_clock :: "('m) loop_state_scheme \<Rightarrow> int \<times> 'm loop_state_scheme" where
  "read_clock s = (clock s (ticks s), s\<lparr>ticks := Suc (ticks s)\<rparr>)"

definition isInLoopThread :: "int \<Rightarrow> ('m) loop_state_scheme \<Rightarrow> bool" where
  "isInLoopThread tid s \<longleftrightarrow> threadId s = tid"

definition wakeup :: "('m) loop_state_scheme \<Rightarrow> 'm loop_state_scheme" where
  "wakeup s = s\<lparr>wakeupLog := wakeupLog s @ [WakeWrite]\<rparr>"

definition EventLoop_handleRead :: "('m) loop_state_scheme \<Rightarrow> 'm loop_state_scheme" where
  "EventLoop_handleRead s = s\<lparr>wakeupLog := wakeupLog s @ [WakeRead]\<rparr>"

text \<open>
  \<open>assertInLoopThread\<close> does not stop a call from another thread: \<open>abortNotInLoopThread\<close> writes a message and returns.
  The operations of the model therefore leave it out.  \<open>createEventfd\<close> does end the process.
\<close>

definition abortNotInLoopThread :: "int \<Rightarrow> ('m) loop_state_scheme \<Rightarrow> log_line list" where
  "abortNotInLoopThread tid s =
     [(''EventLoop::abortNotInLoopThread - EventLoop was created in threadId_ = {}, current thread id = '', [threadId s, tid])]"

definition assertInLoopThread :: "int \<Rightarrow> ('m) loop_state_scheme \<Rightarrow> log_line list" where
  "assertInLoopThread tid s = (if \<not> isInLoopThread tid s then abortNotInLoopThread tid s else [])"

definition createEventfd :: "int \<Rightarrow> int res" where
  "createEventfd evtfd = (if evtfd < 0 then Inl Aborted else Inr evtfd)"

definition EventLoop_quit :: "int \<Rightarrow> ('m) loop_state_scheme \<Rightarrow> 'm loop_state_scheme" where
  "EventLoop_quit tid s =
     (let s1 = s\<lparr>quit_flag := True\<rparr> in if \<not> isInLoopThread tid s1 then wakeup s1 else s1)"

definition queueInLoop :: "int \<Rightarrow> loop_functor \<Rightarrow> ('m) loop_state_scheme \<Rightarrow> 'm loop_state_scheme" where
  "queueInLoop tid cb s =
     (let s1 = s\<lparr>pendingFunctors := pendingFunctors s @ [cb]\<rparr> in
      if \<not> isInLoopThread tid s1 \<or> callingPendingFunctors s1 then wakeup s1 else s1)"

definition runInLoop where
  "runInLoop call tid cb s = (if isInLoopThread tid s then call cb s else Inr (queueInLoop tid cb s))"

definition EventLoop_updateChannel :: "nat \<Rightarrow> ('m) loop_state_scheme \<Rightarrow> 'm loop_state_scheme res" where
  "EventLoop_updateChannel p s =
     with_chan p s (\<lambda>c. check (ch_loop c = lp_this s) ''channel->ownerLoop() == this''
       (EPoller_updateChannel p s))"

definition EventLoop_removeChannel :: "nat \<Rightarrow> ('m) loop_state_scheme \<Rightarrow> 'm loop_state_scheme res" where
  "EventLoop_removeChannel p s =
     with_chan p s (\<lambda>c. check (ch_loop c = lp_this s) ''channel->ownerLoop() == this''
       (EPoller_removeChannel p s))"

definition doPendingFunctors where
  "doPendingFunctors call s =
     bindR (foldR call (pendingFunctors s) (s\<lparr>callingPendingFunctors := True, pendingFunctors := []\<rparr>))
       (\<lambda>s1. Inr (s1\<lparr>callingPendingFunctors := False\<rparr>))"

text \<open>One turn of the \<open>while\<close> loop, and the loop over the turns for which inputs are given.\<close>

definition loop_iteration where
  "loop_iteration callC call now r s =
     bindR (EPoller_poll now r [] s) (\<lambda>(t, active, s1).
     bindR (foldR (handleEvent callC t) active (s1\<lparr>pollReturnTime := t\<rparr>)) (\<lambda>s2.
     doPendingFunctors call s2))"

datatype 's outcome = Returned 's | Polling 's

fun loop_while where
  "loop_while callC call inputs s =
     (if quit_flag s then Inr (Returned (s\<lparr>looping := False\<rparr>))
      else (case inputs of
              [] \<Rightarrow> Inr (Polling s)
            | (now, r) # rest \<Rightarrow>
                bindR (loop_iteration callC call now r s) (loop_while callC call rest)))"

declare loop_while.simps [simp del]

definition EventLoop_loop where
  "EventLoop_loop callC call inputs s =
     check (\<not> looping s) ''!looping_'' (loop_while callC call inputs (s\<lparr>looping := True, quit_flag := False\<rparr>))"

text \<open>
  The constructor, after the poller and the timer queue exist: \<open>fd\<close> is the eventfd, \<open>p\<close> the new
  channel object.
\<close>

definition EventLoop_new :: "nat \<Rightarrow> int \<Rightarrow> int \<Rightarrow> nat \<Rightarrow> bool \<Rightarrow> ('m) loop_state_scheme \<Rightarrow> 'm loop_state_scheme res" where
  "EventLoop_new this tid fd p uninit s =
     (let s1 = s\<lparr>lp_this := this, looping := False, quit_flag := False, callingPendingFunctors := False,
                 threadId := tid, wakeupFd := fd, wakeupChannel := p, wakeupLog := [], pendingFunctors := []\<rparr>;
          s2 = put_chan p (setReadCallback (Some WakeupRead) (Channel_new this fd uninit)) s1 in
      enableReading EventLoop_updateChannel p s2)"

definition EventLoop_destroy :: "('m) loop_state_scheme \<Rightarrow> unit res" where
  "EventLoop_destroy s = check (\<not> looping s) ''!looping_'' (Inr ())"

subsection \<open>The contract of the poller, as the loop provides it\<close>

definition own_chans :: "('m) loop_state_scheme \<Rightarrow> bool" where
  "own_chans s \<longleftrightarrow> (\<forall>p c. chans s p = Some c \<longrightarrow> ch_loop c = lp_this s)"

definition loop_inv :: "('m) loop_state_scheme \<Rightarrow> bool" where
  "loop_inv s \<longleftrightarrow> epoll_inv s \<and> own_chans s"

lemma own_chans_mask:
  "own_chans s \<Longrightarrow> chans s p = Some c \<Longrightarrow> own_chans (put_chan p (c\<lparr>ch_events := e\<rparr>) s)"
  by (auto simp: own_chans_def put_chan_def)

lemma ep_states_loop [simp]:
  "lp_this (ep_added p c s) = lp_this s" "lp_this (ep_deleted p c s) = lp_this s"
  "lp_this (ep_modified p c s) = lp_this s" "lp_this (ep_removed p c s) = lp_this s"
  by (simp_all add: ep_added_def ep_deleted_def ep_modified_def ep_removed_def put_chan_def)

lemma own_chans_same:
  assumes "own_chans s" "same_chans s t" "lp_this t = lp_this s"
  shows "own_chans t"
  unfolding own_chans_def
proof (intro allI impI)
  fix p d
  assume "chans t p = Some d"
  with assms(2) obtain c where "chans s p = Some c" "same_but_index c d"
    unfolding same_chans_def by (metis option.rel_cases option.sel option.distinct(1))
  then have "chans s p = Some c" "ch_loop c = ch_loop d" using same_but_index_simps(2) by blast+
  with assms(1,3) show "ch_loop d = lp_this t" by (simp add: own_chans_def)
qed

lemma EventLoop_updateChannel_eq:
  "own_chans s \<Longrightarrow> chans s p = Some c \<Longrightarrow> EventLoop_updateChannel p s = EPoller_updateChannel p s"
  by (simp add: EventLoop_updateChannel_def own_chans_def)

lemma EventLoop_removeChannel_eq:
  "own_chans s \<Longrightarrow> chans s p = Some c \<Longrightarrow> EventLoop_removeChannel p s = EPoller_removeChannel p s"
  by (simp add: EventLoop_removeChannel_def own_chans_def)

lemma EPoller_update_this:
  assumes "epoll_inv s" "chans s p = Some c"
    "ep_registered p s \<or> (ch_index c = -1 \<and> 0 \<le> ch_fd c \<and> ep_free_fd (ch_fd c) s)"
    "EPoller_updateChannel p s = Inr s'"
  shows "lp_this s' = lp_this (s :: 'm loop_state_scheme)"
  by (cases rule: updateChannel_cases [OF assms(1-3)]) (use assms(4) in auto)

interpretation el: poller_watch loop_inv ep_registered "\<lambda>_ _. True" ep_free_fd
    EventLoop_updateChannel EventLoop_removeChannel ep_armed
proof unfold_locales
  fix s :: "'m loop_state_scheme" and p c
  assume inv: "loop_inv s" and c: "chans s p = Some c"
    and a: "ep_registered p s \<or> (ch_index c = -1 \<and> 0 \<le> ch_fd c \<and> ep_free_fd (ch_fd c) s)"
  have e: "epoll_inv s" "own_chans s" using inv by (simp_all add: loop_inv_def)
  obtain s' where s': "EPoller_updateChannel p s = Inr s'" "epoll_inv s'" "ep_registered p s'" "same_chans s s'"
      "\<forall>q. q \<noteq> p \<longrightarrow> ep_registered q s' = ep_registered q s"
    using ep.upd_ok [OF e(1) c a] by blast
  with own_chans_same [OF e(2) s'(4) EPoller_update_this [OF e(1) c a s'(1)]]
  show "\<exists>s'. EventLoop_updateChannel p s = Inr s' \<and> loop_inv s' \<and> ep_registered p s' \<and>
      same_chans s s' \<and> (\<forall>q. q \<noteq> p \<longrightarrow> ep_registered q s' = ep_registered q s) \<and>
      (ep_registered p s \<and> ch_events c = 0 \<longrightarrow> True)"
    by (simp add: EventLoop_updateChannel_eq [OF e(2) c] loop_inv_def)
next
  fix s :: "'m loop_state_scheme" and p c
  assume inv: "loop_inv s" and c: "chans s p = Some c" and r: "ep_registered p s" and ev: "ch_events c = 0"
  have e: "epoll_inv s" "own_chans s" using inv by (simp_all add: loop_inv_def)
  obtain s' where s': "EPoller_removeChannel p s = Inr s'" "epoll_inv s'" "\<not> ep_registered p s'"
      "ep_free_fd (ch_fd c) s'" "same_chans s s'" "\<forall>q. q \<noteq> p \<longrightarrow> ep_registered q s' = ep_registered q s"
    using ep.rem_ok [OF e(1) c r TrueI ev] by blast
  have i: "ch_index c = kAdded \<or> ch_index c = kDeleted" using ep_registered_iff [OF e(1) c] r by simp
  then have "channelMap s (ch_fd c) = Some p"
    using epoll_invD(2) [OF e(1) c] by (auto simp: epoll_chan_ok_def)
  then have "lp_this s' = lp_this s" using removeChannel_ok [OF c i _ ev] s'(1) by auto
  with s' own_chans_same [OF e(2) s'(5)]
  show "\<exists>s'. EventLoop_removeChannel p s = Inr s' \<and> loop_inv s' \<and> \<not> ep_registered p s' \<and>
      ep_free_fd (ch_fd c) s' \<and> same_chans s s' \<and> (\<forall>q. q \<noteq> p \<longrightarrow> ep_registered q s' = ep_registered q s)"
    by (simp add: EventLoop_removeChannel_eq [OF e(2) c] loop_inv_def)
next
  fix s :: "'m loop_state_scheme" and p c s'
  assume inv: "loop_inv s" and c: "chans s p = Some c"
    and a: "ep_registered p s \<or> (ch_index c = -1 \<and> 0 \<le> ch_fd c \<and> ep_free_fd (ch_fd c) s)"
    and u: "EventLoop_updateChannel p s = Inr s'"
  then show "ep_armed p s' = ch_events c"
    using ep.armed_upd [of s p c s'] by (simp add: loop_inv_def EventLoop_updateChannel_eq)
next
  fix s :: "'m loop_state_scheme" and p c e
  assume "loop_inv s" "chans s p = Some c"
  then show "loop_inv (put_chan p (c\<lparr>ch_events := e\<rparr>) s)"
    using epoll_inv_mask own_chans_mask by (auto simp: loop_inv_def)
qed (simp_all add: ep_registered_def ep_free_fd_def put_chan_def)

text \<open>The poller changes nothing of the state but the channels, its map and the log of its calls.\<close>

definition poll_frame :: "('m) epoll_state_scheme \<Rightarrow> 'm epoll_state_scheme \<Rightarrow> bool" where
  "poll_frame s s' \<longleftrightarrow> s' = s\<lparr>chans := chans s', channelMap := channelMap s', ctlLog := ctlLog s'\<rparr>"

lemma poll_frame_refl [simp]: "poll_frame s s"
  by (simp add: poll_frame_def)

lemma poll_frame_trans: "poll_frame s t \<Longrightarrow> poll_frame t u \<Longrightarrow> poll_frame s u"
  by (cases s; cases t; cases u) (simp add: poll_frame_def)

lemma poll_frame_put [simp]: "poll_frame s (put_chan p c s)"
  by (cases s) (simp add: poll_frame_def put_chan_def)

lemma ep_states_frame:
  "poll_frame s (ep_added p c s)" "poll_frame s (ep_deleted p c s)" "poll_frame s (ep_modified p c s)"
  "poll_frame s (ep_removed p c s)"
  by (cases s, simp add: poll_frame_def ep_added_def ep_deleted_def ep_modified_def ep_removed_def put_chan_def)+

text \<open>What an owner of a registered channel gets from changing its mask, and from removing it.\<close>

lemma chan_set_events:
  assumes inv: "loop_inv s" and c: "chans s p = Some c"
    and reg: "ep_registered p s \<or> (ch_index c = -1 \<and> 0 \<le> ch_fd c \<and> ep_free_fd (ch_fd c) s)"
  obtains s' d where "set_events f EventLoop_updateChannel p s = Inr s'" "loop_inv s'" "ep_registered p s'"
    "chans s' p = Some d" "ch_events d = f (ch_events c)" "same_but_index (c\<lparr>ch_events := f (ch_events c)\<rparr>) d"
    "poll_frame s s'" "\<And>q. q \<noteq> p \<Longrightarrow> ep_registered q s' = ep_registered q s"
    "\<And>q. q \<noteq> p \<Longrightarrow> rel_option same_but_index (chans s q) (chans s' q)"
proof -
  let ?c = "c\<lparr>ch_events := f (ch_events c)\<rparr>" let ?s = "put_chan p ?c s"
  have inv': "loop_inv ?s" and c': "chans ?s p = Some ?c" using el.inv_mask [OF inv c] by simp_all
  have reg': "ep_registered p ?s \<or> (ch_index ?c = -1 \<and> 0 \<le> ch_fd ?c \<and> ep_free_fd (ch_fd ?c) ?s)"
    using reg by (simp add: el.registered_mask [OF c] el.free_fd_mask [OF c])
  obtain s' where s': "EventLoop_updateChannel p ?s = Inr s'" "loop_inv s'" "ep_registered p s'" "same_chans ?s s'"
      "\<forall>q. q \<noteq> p \<longrightarrow> ep_registered q s' = ep_registered q ?s"
    using el.upd_ok [OF inv' c' reg'] by blast
  have e: "epoll_inv ?s" "own_chans ?s" using inv' by (simp_all add: loop_inv_def)
  have "poll_frame ?s s'"
    using s'(1) unfolding EventLoop_updateChannel_eq [OF e(2) c']
    by (cases rule: updateChannel_cases [OF e(1) c' reg']) (auto simp: ep_states_frame)
  then have frame: "poll_frame s s'" using poll_frame_trans poll_frame_put by blast
  obtain d where "chans s' p = Some d" "same_but_index ?c d" using same_chansD [OF s'(4) c'] by blast
  moreover have "rel_option same_but_index (chans s q) (chans s' q)" if "q \<noteq> p" for q
    using s'(4) that unfolding same_chans_def by (metis chans_put_chan fun_upd_other)
  ultimately show thesis
    using s' c frame same_but_index_simps(2) [of ?c d]
    by (intro that [of s' d]) (auto simp: set_events_def el.registered_mask [OF c])
qed

lemma chan_remove:
  assumes inv: "loop_inv s" and c: "chans s p = Some c" and reg: "ep_registered p s" and ev: "ch_events c = 0"
  obtains s' where "EventLoop_removeChannel p s = Inr s'" "loop_inv s'" "\<not> ep_registered p s'"
    "ep_free_fd (ch_fd c) s'" "poll_frame s s'" "same_chans s s'"
    "\<And>q. q \<noteq> p \<Longrightarrow> ep_registered q s' = ep_registered q s"
proof -
  obtain s' where s': "EventLoop_removeChannel p s = Inr s'" "loop_inv s'" "\<not> ep_registered p s'"
      "ep_free_fd (ch_fd c) s'" "same_chans s s'" "\<forall>q. q \<noteq> p \<longrightarrow> ep_registered q s' = ep_registered q s"
    using el.rem_ok [OF inv c reg TrueI ev] by blast
  have e: "epoll_inv s" "own_chans s" using inv by (simp_all add: loop_inv_def)
  have i: "ch_index c = kAdded \<or> ch_index c = kDeleted" using ep_registered_iff [OF e(1) c] reg by simp
  then have "channelMap s (ch_fd c) = Some p"
    using epoll_invD(2) [OF e(1) c] by (auto simp: epoll_chan_ok_def)
  then have "s' = ep_removed p c s"
    using removeChannel_ok [OF c i _ ev] s'(1) EventLoop_removeChannel_eq [OF e(2) c] by auto
  with s' show thesis by (intro that [of s']) (auto simp: ep_states_frame)
qed

text \<open>Making and destroying a channel object that the poller does not know.\<close>

lemma loop_inv_new_chan:
  assumes inv: "loop_inv s" and q: "chans s q = None" and c: "ch_index c = -1" "ch_loop c = lp_this s"
  shows "loop_inv (put_chan q c s)" "ep_registered p (put_chan q c s) = ep_registered p s"
    "ep_free_fd fd (put_chan q c s) = ep_free_fd fd s"
proof -
  let ?s = "put_chan q c s"
  have e: "epoll_inv s" "own_chans s" using inv by (simp_all add: loop_inv_def)
  have "epoll_inv ?s"
    unfolding epoll_inv_def
  proof (intro conjI allI impI)
    fix fd p
    assume "channelMap ?s fd = Some p"
    then have "channelMap s fd = Some p" by (simp add: put_chan_def)
    from epoll_invD(1) [OF e(1) this] q
    show "\<exists>c. chans ?s p = Some c \<and> ch_fd c = fd \<and> (ch_index c = kAdded \<or> ch_index c = kDeleted)"
      by (cases "p = q") auto
  next
    fix p d
    assume "chans ?s p = Some d"
    with epoll_invD(2) [OF e(1), of p] c(1) show "epoll_chan_ok ?s p d"
      by (cases "p = q") (auto simp: epoll_chan_ok_def index_consts put_chan_def)
  qed (use epoll_invD [OF e(1)] in \<open>simp_all add: put_chan_def\<close>)
  moreover have "own_chans ?s" using e(2) c(2) by (auto simp: own_chans_def put_chan_def)
  ultimately show "loop_inv ?s" by (simp add: loop_inv_def)
qed (simp_all add: ep_registered_def ep_free_fd_def put_chan_def)

text \<open>A channel on a descriptor that the poller does not know starts to watch for readability.\<close>

lemma chan_first_read:
  assumes inv: "loop_inv s" and c: "chans s q = Some c" "ch_index c = -1" "ch_events c = 0"
    and fd: "0 \<le> ch_fd c" "ep_free_fd (ch_fd c) s"
  obtains s' where "enableReading EventLoop_updateChannel q s = Inr s'" "loop_inv s'" "ep_registered q s'"
    "ep_armed q s' = kReadEvent" "poll_frame s s'"
    "chans s' = (chans s)(q \<mapsto> c\<lparr>ch_events := kReadEvent, ch_index := kAdded\<rparr>)"
    "\<And>x. ep_free_fd x s' \<longleftrightarrow> x \<noteq> ch_fd c \<and> ep_free_fd x s"
    "\<And>p. p \<noteq> q \<Longrightarrow> ep_registered p s' = ep_registered p s"
proof -
  let ?c = "c\<lparr>ch_events := kReadEvent\<rparr>" let ?s = "put_chan q ?c s" let ?t = "ep_added q ?c ?s"
  have s: "loop_inv ?s" "ep_free_fd (ch_fd ?c) ?s" using el.inv_mask [OF inv c(1)] fd by (simp_all add: el.free_fd_mask [OF c(1)])
  then have e: "epoll_inv ?s" "own_chans ?s" by (simp_all add: loop_inv_def)
  have new: "chans ?s q = Some ?c" "ch_index ?c = kNew" "channelMap ?s (ch_fd ?c) = None"
    using s(2) c by (simp_all add: kNew_def ep_free_fd_def)
  have run: "EventLoop_updateChannel q ?s = Inr ?t"
    using EventLoop_updateChannel_eq [OF e(2) new(1)] updateChannel_new [OF new] by simp
  have t: "poll_frame s ?t" using poll_frame_trans [OF poll_frame_put ep_states_frame(1)] .
  show thesis
  proof (rule that [of ?t])
    show "enableReading EventLoop_updateChannel q s = Inr ?t"
      using run c by (simp add: enableReading_def set_events_def)
    have "epoll_inv ?t" by (rule epoll_inv_added [OF e(1) new(1)]) (use new in simp)
    moreover have "own_chans ?t" by (rule own_chans_same [OF e(2) ep_states_chans(1) [OF new(1)]]) simp
    ultimately show "loop_inv ?t" by (simp add: loop_inv_def)
    show "ep_registered q ?t" "ep_armed q ?t = kReadEvent" by (simp_all add: ep_registered_self ep_armed_states)
    show "ep_registered p ?t = ep_registered p s" if "p \<noteq> q" for p
      using ep_registered_states(1) [OF that, of ?s ?c] new(3) by (simp add: el.registered_mask [OF c(1)])
  qed (use t in \<open>auto simp: ep_added_def put_chan_def set_index_def ep_free_fd_def\<close>)
qed

text \<open>The same for a channel object just made.\<close>

lemma chan_start:
  assumes inv: "loop_inv s" and q: "chans s q = None" and c: "ch_index c = -1" "ch_loop c = lp_this s" "ch_events c = 0"
    and fd: "0 \<le> ch_fd c" "ep_free_fd (ch_fd c) s"
  obtains s' where "enableReading EventLoop_updateChannel q (put_chan q c s) = Inr s'" "loop_inv s'" "ep_registered q s'"
    "ep_armed q s' = kReadEvent" "poll_frame s s'"
    "chans s' = (chans s)(q \<mapsto> c\<lparr>ch_events := kReadEvent, ch_index := kAdded\<rparr>)"
    "\<And>x. ep_free_fd x s' \<longleftrightarrow> x \<noteq> ch_fd c \<and> ep_free_fd x s"
    "\<And>p. p \<noteq> q \<Longrightarrow> ep_registered p s' = ep_registered p s"
proof -
  note n = loop_inv_new_chan [OF inv q c(1,2)]
  obtain s' where s': "enableReading EventLoop_updateChannel q (put_chan q c s) = Inr s'" "loop_inv s'" "ep_registered q s'"
    "ep_armed q s' = kReadEvent" "poll_frame (put_chan q c s) s'"
    "chans s' = (chans (put_chan q c s))(q \<mapsto> c\<lparr>ch_events := kReadEvent, ch_index := kAdded\<rparr>)"
    "\<And>x. ep_free_fd x s' \<longleftrightarrow> x \<noteq> ch_fd c \<and> ep_free_fd x (put_chan q c s)"
    "\<And>p. p \<noteq> q \<Longrightarrow> ep_registered p s' = ep_registered p (put_chan q c s)"
    by (rule chan_first_read [OF n(1) _ c(1,3) fd(1), of q]) (use fd(2) n(3) in auto)
  show thesis
    by (rule that [OF s'(1-4) poll_frame_trans [OF poll_frame_put s'(5)]]) (use s'(6-8) n(2,3) in simp_all)
qed

lemma loop_inv_drop_chan:
  assumes inv: "loop_inv s" and q: "\<not> ep_registered q s"
  shows "loop_inv (s\<lparr>chans := (chans s)(q := None)\<rparr>)"
proof -
  let ?s = "s\<lparr>chans := (chans s)(q := None)\<rparr>"
  have e: "epoll_inv s" "own_chans s" using inv by (simp_all add: loop_inv_def)
  have "epoll_inv ?s"
    unfolding epoll_inv_def
  proof (intro conjI allI impI)
    fix fd p
    assume "channelMap ?s fd = Some p"
    then have p: "channelMap s fd = Some p" by simp
    with q have "p \<noteq> q" by (auto simp: ep_registered_def)
    with epoll_invD(1) [OF e(1) p]
    show "\<exists>c. chans ?s p = Some c \<and> ch_fd c = fd \<and> (ch_index c = kAdded \<or> ch_index c = kDeleted)" by simp
  next
    fix p d
    assume "chans ?s p = Some d"
    then show "epoll_chan_ok ?s p d"
      using epoll_invD(2) [OF e(1), of p d] by (auto simp: epoll_chan_ok_def split: if_splits)
  qed (use epoll_invD [OF e(1)] in simp_all)
  moreover have "own_chans ?s" using e(2) by (auto simp: own_chans_def split: if_splits)
  ultimately show ?thesis by (simp add: loop_inv_def)
qed

text \<open>The invariant only reads these members.\<close>

lemma loop_inv_cong:
  assumes "chans t = chans s" "channelMap t = channelMap s" "ctlLog t = ctlLog s"
    "eventListSize t = eventListSize s" "lp_this t = lp_this s"
  shows "loop_inv t = loop_inv s" "ep_registered p t = ep_registered p s" "ep_free_fd fd t = ep_free_fd fd s"
  using assms
  by (simp_all add: loop_inv_def epoll_inv_def epoll_chan_ok_def own_chans_def ep_registered_def ep_free_fd_def)

lemma queueInLoop_fields [simp]:
  "chans (queueInLoop tid cb s) = chans s" "channelMap (queueInLoop tid cb s) = channelMap s"
  "ctlLog (queueInLoop tid cb s) = ctlLog s" "eventListSize (queueInLoop tid cb s) = eventListSize s"
  "lp_this (queueInLoop tid cb s) = lp_this s" "threadId (queueInLoop tid cb s) = threadId s"
  "pendingFunctors (queueInLoop tid cb s) = pendingFunctors s @ [cb]"
  "quit_flag (queueInLoop tid cb s) = quit_flag s" "loop_state.more (queueInLoop tid cb s) = loop_state.more s"
  "callingPendingFunctors (queueInLoop tid cb s) = callingPendingFunctors s"
  by (simp_all add: queueInLoop_def wakeup_def Let_def)

subsection \<open>Other threads\<close>

text \<open>The counter of the eventfd, read off the log: a write adds one, a read resets it.\<close>

fun eventfd_step :: "wake_event \<Rightarrow> nat \<Rightarrow> nat" where
  "eventfd_step WakeWrite n = Suc n"
| "eventfd_step WakeRead n = 0"

definition eventfd_value :: "wake_event list \<Rightarrow> nat" where
  "eventfd_value log = fold eventfd_step log 0"

lemma eventfd_value_snoc [simp]: "eventfd_value (log @ [e]) = eventfd_step e (eventfd_value log)"
  by (simp add: eventfd_value_def)

text \<open>
  \<open>queueInLoop\<close> in the three steps another thread can be interleaved with: the push under the
  lock, the evaluation of the condition, the write.
\<close>

definition push_functor :: "loop_functor \<Rightarrow> ('m) loop_state_scheme \<Rightarrow> 'm loop_state_scheme" where
  "push_functor cb s = s\<lparr>pendingFunctors := pendingFunctors s @ [cb]\<rparr>"

definition queue_wakes :: "int \<Rightarrow> ('m) loop_state_scheme \<Rightarrow> bool" where
  "queue_wakes tid s \<longleftrightarrow> \<not> isInLoopThread tid s \<or> callingPendingFunctors s"

lemma queueInLoop_steps:
  "queueInLoop tid cb s =
     (if queue_wakes tid (push_functor cb s) then wakeup (push_functor cb s) else push_functor cb s)"
  by (simp add: queueInLoop_def queue_wakes_def push_functor_def Let_def)

datatype loop_pc = PCheck | PWait | PHandle | PSwap | PRun "loop_functor list" | PExit

datatype caller = Idle | Pushed | QuitSet | Waking

record conc =
  cst :: loop_state
  cpc :: loop_pc
  callers :: "int \<Rightarrow> caller"
  queued :: "loop_functor list"
  ran :: "loop_functor list"

text \<open>
  The steps.  A thread other than the loop's may call \<open>queueInLoop\<close> or \<open>quit\<close> at any time; the
  loop thread may do so from a callback, that is while handling events or running functors, and
  proceeds only when it has left the call.
\<close>

definition may_call :: "int \<Rightarrow> conc \<Rightarrow> bool" where
  "may_call tid c \<longleftrightarrow> callers c tid = Idle \<and>
     (isInLoopThread tid (cst c) \<longrightarrow> cpc c = PHandle \<or> (\<exists>fs. cpc c = PRun fs))"

definition loop_free :: "conc \<Rightarrow> bool" where
  "loop_free c \<longleftrightarrow> callers c (threadId (cst c)) = Idle"

inductive istep :: "conc \<Rightarrow> conc \<Rightarrow> bool" where
  Push: "may_call tid c \<Longrightarrow>
    istep c (c\<lparr>cst := push_functor cb (cst c), callers := (callers c)(tid := Pushed), queued := queued c @ [cb]\<rparr>)"
| Decide: "callers c tid = Pushed \<Longrightarrow>
    istep c (c\<lparr>callers := (callers c)(tid := if queue_wakes tid (cst c) then Waking else Idle)\<rparr>)"
| SetQuit: "may_call tid c \<Longrightarrow>
    istep c (c\<lparr>cst := (cst c)\<lparr>quit_flag := True\<rparr>, callers := (callers c)(tid := QuitSet)\<rparr>)"
| DecideQuit: "callers c tid = QuitSet \<Longrightarrow>
    istep c (c\<lparr>callers := (callers c)(tid := if \<not> isInLoopThread tid (cst c) then Waking else Idle)\<rparr>)"
| Write: "callers c tid = Waking \<Longrightarrow>
    istep c (c\<lparr>cst := wakeup (cst c), callers := (callers c)(tid := Idle)\<rparr>)"
| CheckQuit: "cpc c = PCheck \<Longrightarrow> quit_flag (cst c) \<Longrightarrow>
    istep c (c\<lparr>cst := (cst c)\<lparr>looping := False\<rparr>, cpc := PExit\<rparr>)"
| CheckGo: "cpc c = PCheck \<Longrightarrow> \<not> quit_flag (cst c) \<Longrightarrow> istep c (c\<lparr>cpc := PWait\<rparr>)"
| WaitReturns: "cpc c = PWait \<Longrightarrow> istep c (c\<lparr>cpc := PHandle\<rparr>)"
| ReadWakeup: "cpc c = PHandle \<Longrightarrow> loop_free c \<Longrightarrow> istep c (c\<lparr>cst := EventLoop_handleRead (cst c)\<rparr>)"
| Handled: "cpc c = PHandle \<Longrightarrow> loop_free c \<Longrightarrow>
    istep c (c\<lparr>cst := (cst c)\<lparr>callingPendingFunctors := True\<rparr>, cpc := PSwap\<rparr>)"
| Swap: "cpc c = PSwap \<Longrightarrow>
    istep c (c\<lparr>cst := (cst c)\<lparr>pendingFunctors := []\<rparr>, cpc := PRun (pendingFunctors (cst c))\<rparr>)"
| RunOne: "cpc c = PRun (f # fs) \<Longrightarrow> loop_free c \<Longrightarrow> istep c (c\<lparr>cpc := PRun fs, ran := ran c @ [f]\<rparr>)"
| RunDone: "cpc c = PRun [] \<Longrightarrow> loop_free c \<Longrightarrow>
    istep c (c\<lparr>cst := (cst c)\<lparr>callingPendingFunctors := False\<rparr>, cpc := PCheck\<rparr>)"

inductive_cases istepE: "istep c c'"

text \<open>The loop starts with nothing queued and no caller under way.\<close>

definition conc_init :: "conc \<Rightarrow> bool" where
  "conc_init c \<longleftrightarrow> cpc c = PCheck \<and> pendingFunctors (cst c) = [] \<and> \<not> callingPendingFunctors (cst c) \<and>
     (\<forall>tid. callers c tid = Idle) \<and> queued c = [] \<and> ran c = []"

inductive conc_reach :: "conc \<Rightarrow> bool" where
  Init: "conc_init c \<Longrightarrow> conc_reach c"
| Step: "conc_reach c \<Longrightarrow> istep c c' \<Longrightarrow> conc_reach c'"

fun running :: "loop_pc \<Rightarrow> loop_functor list" where
  "running (PRun fs) = fs"
| "running _ = []"

definition will_wake :: "conc \<Rightarrow> int \<Rightarrow> bool" where
  "will_wake c tid \<longleftrightarrow> callers c tid = Waking \<or> callers c tid = Pushed \<and> queue_wakes tid (cst c) \<or>
     callers c tid = QuitSet \<and> \<not> isInLoopThread tid (cst c)"

definition wake_due :: "conc \<Rightarrow> bool" where
  "wake_due c \<longleftrightarrow> 0 < eventfd_value (wakeupLog (cst c)) \<or> (\<exists>tid. will_wake c tid)"

definition conc_inv :: "conc \<Rightarrow> bool" where
  "conc_inv c \<longleftrightarrow>
     (callingPendingFunctors (cst c) \<longleftrightarrow> cpc c = PSwap \<or> (\<exists>fs. cpc c = PRun fs)) \<and>
     (loop_free c \<or> cpc c = PHandle \<or> (\<exists>fs. cpc c = PRun fs)) \<and>
     (pendingFunctors (cst c) \<noteq> [] \<and> (cpc c = PCheck \<or> cpc c = PWait \<or> (\<exists>fs. cpc c = PRun fs)) \<longrightarrow> wake_due c) \<and>
     (quit_flag (cst c) \<and> cpc c = PWait \<longrightarrow> wake_due c)"

lemma wake_due_keep:
  assumes "\<And>t. will_wake c t \<Longrightarrow> will_wake c' t" "wakeupLog (cst c') = wakeupLog (cst c)"
  shows "wake_due c \<longrightarrow> wake_due c'"
  using assms unfolding wake_due_def by metis

lemmas wake_defs = will_wake_def queue_wakes_def isInLoopThread_def push_functor_def may_call_def loop_free_def

lemma conc_inv_step:
  assumes "istep c c'" and "conc_inv c"
  shows "conc_inv c'"
  using assms
proof cases
  case (Push tid cb)
  have "will_wake c t \<Longrightarrow> will_wake c' t" for t
    using Push by (cases "t = tid") (auto simp: wake_defs)
  then have "wake_due c \<longrightarrow> wake_due c'"
    by (rule wake_due_keep) (simp_all add: Push(1) push_functor_def)
  moreover have "will_wake c' tid \<or> cpc c = PHandle"
    using Push assms(2)
    by (auto simp: will_wake_def may_call_def conc_inv_def queue_wakes_def push_functor_def isInLoopThread_def)
  then have "wake_due c' \<or> cpc c = PHandle" by (auto simp: wake_due_def)
  ultimately show ?thesis
    using Push assms(2) by (auto simp: conc_inv_def loop_free_def push_functor_def may_call_def isInLoopThread_def)
next
  case (Decide tid)
  have "will_wake c t \<Longrightarrow> will_wake c' t" for t
    using Decide by (cases "t = tid") (auto simp: wake_defs)
  then have "wake_due c \<longrightarrow> wake_due c'"
    by (rule wake_due_keep) (simp_all add: Decide(1))
  then show ?thesis using Decide assms(2) by (auto simp: conc_inv_def loop_free_def)
next
  case (SetQuit tid)
  have "will_wake c t \<Longrightarrow> will_wake c' t" for t
    using SetQuit by (cases "t = tid") (auto simp: wake_defs)
  then have "wake_due c \<longrightarrow> wake_due c'"
    by (rule wake_due_keep) (simp_all add: SetQuit(1))
  moreover have "cpc c = PWait \<Longrightarrow> wake_due c'"
    using SetQuit by (auto simp: wake_due_def will_wake_def may_call_def isInLoopThread_def)
  ultimately show ?thesis using SetQuit assms(2) by (auto simp: conc_inv_def loop_free_def may_call_def isInLoopThread_def)
next
  case (DecideQuit tid)
  have "will_wake c t \<Longrightarrow> will_wake c' t" for t
    using DecideQuit by (cases "t = tid") (auto simp: wake_defs)
  then have "wake_due c \<longrightarrow> wake_due c'"
    by (rule wake_due_keep) (simp_all add: DecideQuit(1))
  then show ?thesis using DecideQuit assms(2) by (auto simp: conc_inv_def loop_free_def)
next
  case (Write tid)
  then have "wake_due c'" by (simp add: wake_due_def wakeup_def)
  then show ?thesis using Write assms(2) by (auto simp: conc_inv_def loop_free_def wakeup_def)
next
  case CheckGo
  have "wake_due c \<longrightarrow> wake_due c'" using CheckGo(1) by (simp add: wake_due_def will_wake_def)
  then show ?thesis using CheckGo assms(2) by (auto simp: conc_inv_def loop_free_def)
next
  case (RunOne f fs)
  have "wake_due c \<longrightarrow> wake_due c'" using RunOne(1) by (simp add: wake_due_def will_wake_def)
  then show ?thesis using RunOne assms(2) by (auto simp: conc_inv_def loop_free_def)
next
  case RunDone
  have "wake_due c \<longrightarrow> wake_due c'"
    by (rule wake_due_keep) (use RunDone(1,3) in \<open>auto simp: wake_defs\<close>)
  then show ?thesis using RunDone assms(2) by (auto simp: conc_inv_def loop_free_def)
qed (auto simp: conc_inv_def loop_free_def EventLoop_handleRead_def)

lemma conc_inv_reach: "conc_reach c \<Longrightarrow> conc_inv c"
proof (induction rule: conc_reach.induct)
  case (Init c)
  then show ?case by (simp add: conc_init_def loop_free_def conc_inv_def)
next
  case (Step c c')
  then show ?case using conc_inv_step by blast
qed

lemma conc_fifo_step:
  "istep c c' \<Longrightarrow> conc_inv c \<Longrightarrow> queued c = ran c @ running (cpc c) @ pendingFunctors (cst c) \<Longrightarrow>
     queued c' = ran c' @ running (cpc c') @ pendingFunctors (cst c')"
  by (erule istep.cases) (auto simp: push_functor_def wakeup_def EventLoop_handleRead_def)

subsection \<open>Properties\<close>

text \<open>
  C3: No wake-up is lost.  In every interleaving of the loop thread with threads calling
  \<open>queueInLoop\<close> and \<open>quit\<close>, whenever the loop is in \<open>epoll_wait\<close> while a functor is queued or
  \<open>quit\<close> was called, the eventfd is readable, so that the wait ends at once, or another thread is
  still inside its call and about to write to it.
\<close>

theorem no_lost_wakeup:
  assumes "conc_reach c" and "cpc c = PWait" and "pendingFunctors (cst c) \<noteq> [] \<or> quit_flag (cst c)"
  shows "0 < eventfd_value (wakeupLog (cst c)) \<or>
    (\<exists>tid. tid \<noteq> threadId (cst c) \<and> callers c tid \<noteq> Idle)"
proof -
  have inv: "conc_inv c" by (rule conc_inv_reach [OF assms(1)])
  then have "wake_due c" "loop_free c" using assms(2,3) by (auto simp: conc_inv_def)
  then show ?thesis
    by (auto simp: wake_due_def will_wake_def loop_free_def) (metis caller.distinct)+
qed

text \<open>
  C23: Functors queued from any threads are run by the loop thread exactly once each and in the
  order of the pushes: at every moment the functors ever queued are those already run, followed by
  those being run, followed by those pending.
\<close>

theorem functors_fifo_once:
  assumes "conc_reach c"
  shows "queued c = ran c @ running (cpc c) @ pendingFunctors (cst c)"
  using assms
proof (induction rule: conc_reach.induct)
  case (Init c)
  then show ?case by (simp add: conc_init_def)
next
  case (Step c c')
  then show ?case using conc_fifo_step conc_inv_reach by blast
qed

subsection \<open>Witnesses\<close>

definition el_demo :: loop_state where
  "el_demo = \<lparr>chans = (\<lambda>_. None), epollfd = 3, eventListSize = 16, channelMap = (\<lambda>_. None), ctlLog = [],
     lp_this = 0, looping = True, quit_flag = False, callingPendingFunctors = False, threadId = 1,
     pollReturnTime = 0, wakeupFd = 5, wakeupChannel = 1, wakeupLog = [], pendingFunctors = [],
     clock = (\<lambda>_. 0), ticks = 0\<rparr>"

definition conc_demo :: conc where
  "conc_demo = \<lparr>cst = el_demo, cpc = PCheck, callers = (\<lambda>_. Idle), queued = [], ran = []\<rparr>"

definition conc_demo' :: conc where
  "conc_demo' = \<lparr>cst = push_functor (UserFn 7) el_demo, cpc = PWait, callers = (\<lambda>_. Idle)(2 := Pushed),
     queued = [UserFn 7], ran = []\<rparr>"

lemma conc_demo'_reach: "conc_reach conc_demo'"
proof -
  have "conc_reach conc_demo"
    by (rule conc_reach.Init) (simp add: conc_init_def conc_demo_def el_demo_def)
  moreover have "istep conc_demo (conc_demo\<lparr>cpc := PWait\<rparr>)"
    by (rule CheckGo) (simp_all add: conc_demo_def el_demo_def)
  ultimately have r: "conc_reach (conc_demo\<lparr>cpc := PWait\<rparr>)" by (rule conc_reach.Step)
  have "istep (conc_demo\<lparr>cpc := PWait\<rparr>) conc_demo'"
    using istep.Push [of 2 "conc_demo\<lparr>cpc := PWait\<rparr>" "UserFn 7"]
    by (simp add: may_call_def isInLoopThread_def conc_demo_def conc_demo'_def el_demo_def push_functor_def)
  with r show ?thesis by (rule conc_reach.Step)
qed

theorem no_lost_wakeup_witness:
  "cpc conc_demo' = PWait \<and> pendingFunctors (cst conc_demo') = [UserFn 7] \<and>
   (0 < eventfd_value (wakeupLog (cst conc_demo')) \<or>
    (\<exists>tid. tid \<noteq> threadId (cst conc_demo') \<and> callers conc_demo' tid \<noteq> Idle))"
proof -
  have facts: "cpc conc_demo' = PWait" "pendingFunctors (cst conc_demo') = [UserFn 7]"
    by (simp_all add: conc_demo'_def push_functor_def el_demo_def)
  with no_lost_wakeup [OF conc_demo'_reach facts(1)] show ?thesis by simp
qed

theorem functors_fifo_once_witness:
  "queued conc_demo' = [UserFn 7] \<and>
   queued conc_demo' = ran conc_demo' @ running (cpc conc_demo') @ pendingFunctors (cst conc_demo')"
proof
  show "queued conc_demo' = [UserFn 7]" by (simp add: conc_demo'_def)
  show "queued conc_demo' = ran conc_demo' @ running (cpc conc_demo') @ pendingFunctors (cst conc_demo')"
    by (rule functors_fifo_once [OF conc_demo'_reach])
qed

end
