(* ===== verification/Timestamp.thy ===== *)
theory Timestamp
  imports Prelude "HOL-Library.Signed_Division" "HOL-Library.Log_Nat"
begin

section \<open>Timestamp\<close>

text \<open>
  \<open>chaonet/include/utils/Timestamp.h\<close>.  A time point of \<open>std::chrono::system_clock\<close> is a number of
  nanoseconds since the epoch (an unbounded \<open>int\<close>: the 64-bit count of the library overflows in the
  year 2262).  A finite \<open>double\<close> is its exact rational value and \<open>fl\<close> rounds a result to the nearest
  number with a 53-bit significand, ties to even; overflow to infinity and subnormal numbers are not
  modelled.  \<open>duration_cast\<close> and \<open>static_cast\<close> truncate toward zero.  What \<open>put_time\<close> prints of the local time of a
  number of seconds is an argument of \<open>toFormattedString\<close>.
\<close>

type_synonym time = int
type_synonym double = rat

definition kMicroSecondsPerSecond :: int where
  "kMicroSecondsPerSecond = 1000 * 1000"

definition Timestamp_default :: time where
  "Timestamp_default = 0"

definition Timestamp_invalid :: time where
  "Timestamp_invalid = Timestamp_default"

definition Timestamp_valid :: "time \<Rightarrow> bool" where
  "Timestamp_valid t \<longleftrightarrow> Timestamp_default \<le> t"

definition Timestamp_swap :: "time \<Rightarrow> time \<Rightarrow> time \<times> time" where
  "Timestamp_swap this that = (that, this)"

definition secondsSinceEpoch :: "time \<Rightarrow> int" where
  "secondsSinceEpoch t = t sdiv 1000000000"

definition microSecondsSinceEpoch :: "time \<Rightarrow> int" where
  "microSecondsSinceEpoch t = t sdiv 1000"

text \<open>\<open>operator<\<close> and \<open>operator==\<close>, and printing: \<open>os << micro\<close> writes the number without leading zeros.\<close>

definition Timestamp_less :: "time \<Rightarrow> time \<Rightarrow> bool" where
  "Timestamp_less lhs rhs \<longleftrightarrow> lhs < rhs"

definition Timestamp_eq :: "time \<Rightarrow> time \<Rightarrow> bool" where
  "Timestamp_eq lhs rhs \<longleftrightarrow> lhs = rhs"

definition toFormattedString :: "(int \<Rightarrow> string) \<Rightarrow> bool \<Rightarrow> time \<Rightarrow> string" where
  "toFormattedString put_time showMicroseconds t =
     put_time (t sdiv 1000000000) @
     (if showMicroseconds then show_int ((t sdiv 1000) smod kMicroSecondsPerSecond) else [])"

definition Timestamp_toString :: "(int \<Rightarrow> string) \<Rightarrow> time \<Rightarrow> string" where
  "Timestamp_toString put_time t = toFormattedString put_time True t"

subsection \<open>Floating-point arithmetic\<close>

definition round_half_even :: "rat \<Rightarrow> int" where
  "round_half_even x =
     (let f = \<lfloor>x\<rfloor>; r = x - of_int f in
      if r < 1 / 2 then f else if 1 / 2 < r then f + 1 else if even f then f else f + 1)"

definition pow2 :: "int \<Rightarrow> rat" where
  "pow2 e = (if 0 \<le> e then 2 ^ nat e else 1 / 2 ^ nat (- e))"

text \<open>The exponent that brings the significand into \<open>[2\<^sup>5\<^sup>2, 2\<^sup>5\<^sup>3)\<close>.\<close>

definition fl_exponent :: "rat \<Rightarrow> int" where
  "fl_exponent x =
     (let (n, d) = quotient_of \<bar>x\<bar>;
          k = int (floorlog 2 (nat n)) - int (floorlog 2 (nat d)) in
      if \<bar>x\<bar> < pow2 k then k - 53 else k - 52)"

definition fl :: "rat \<Rightarrow> double" where
  "fl x = (if x = 0 then 0
           else let e = fl_exponent x in of_int (round_half_even (x / pow2 e)) * pow2 e)"

definition truncate :: "double \<Rightarrow> int" where
  "truncate x = (if 0 \<le> x then \<lfloor>x\<rfloor> else \<lceil>x\<rceil>)"

definition timeDifference :: "time \<Rightarrow> time \<Rightarrow> double" where
  "timeDifference high low = of_int (((high - low) sdiv 1000) sdiv kMicroSecondsPerSecond)"

definition addTime :: "time \<Rightarrow> double \<Rightarrow> time" where
  "addTime timestamp s = timestamp + truncate (fl (s * of_int kMicroSecondsPerSecond)) * 1000"

subsection \<open>Lemmas\<close>

lemma sdiv_nonneg: "0 \<le> a \<Longrightarrow> 0 < b \<Longrightarrow> a sdiv b = a div (b::int)"
  by (cases "a = 0") (simp_all add: signed_divide_int_def)

lemma pow2_pos: "0 < pow2 e"
  by (simp add: pow2_def)

lemma round_half_even_int [simp]: "round_half_even (of_int m) = m"
  by (simp add: round_half_even_def)

lemma round_half_even_nonneg: "0 \<le> x \<Longrightarrow> 0 \<le> round_half_even x"
  by (auto simp: round_half_even_def Let_def)

lemma fl_nonneg:
  assumes "0 \<le> x"
  shows "0 \<le> fl x"
proof -
  let ?e = "fl_exponent x"
  have "0 \<le> x / pow2 ?e" using assms pow2_pos [of ?e] by (rule divide_nonneg_pos)
  then have "0 \<le> (of_int (round_half_even (x / pow2 ?e)) :: rat)"
    using round_half_even_nonneg of_int_0_le_iff by blast
  then have "0 \<le> of_int (round_half_even (x / pow2 ?e)) * pow2 ?e"
    using pow2_pos [of ?e] by (intro mult_nonneg_nonneg) (simp_all only: less_imp_le)
  then show ?thesis by (simp only: fl_def Let_def) simp
qed

lemma fl_exponent_int:
  assumes "m \<noteq> 0" and "\<bar>m\<bar> < 2 ^ 53"
  shows "fl_exponent (of_int m) \<le> 0"
proof -
  let ?b = "floorlog 2 (nat \<bar>m\<bar>)"
  have q: "quotient_of \<bar>of_int m\<bar> = (\<bar>m\<bar>, 1)"
    by (simp only: of_int_abs [symmetric] quotient_of_rat_of_int)
  have one: "floorlog 2 (Suc 0) = Suc 0" by (simp add: floorlog_def)
  have m: "nat \<bar>m\<bar> \<noteq> 0" using assms(1) by simp
  have "?b \<le> 53"
    using m assms(2) by (simp add: floorlog_le_iff nat_less_iff)
  moreover have "1 \<le> ?b" using m by (simp add: floorlog_def)
  moreover have "\<not> \<bar>of_int m\<bar> < pow2 (int ?b - 1)"
  proof -
    have "2 ^ (?b - 1) \<le> nat \<bar>m\<bar>" using m floorlog_bounds [of "nat \<bar>m\<bar>" 2] by simp
    then have "int (2 ^ (?b - 1)) \<le> \<bar>m\<bar>" by linarith
    then have "(2::rat) ^ (?b - 1) \<le> of_int \<bar>m\<bar>" by (metis of_int_le_iff of_int_numeral of_int_power of_nat_numeral of_nat_power)
    then show ?thesis using \<open>1 \<le> ?b\<close> by (simp add: pow2_def nat_diff_distrib')
  qed
  ultimately show ?thesis by (simp add: fl_exponent_def q one Let_def)
qed

lemma fl_int: "\<bar>m\<bar> < 2 ^ 53 \<Longrightarrow> fl (of_int m) = of_int m"
proof (cases "m = 0")
  case False
  assume "\<bar>m\<bar> < 2 ^ 53"
  with False have "fl_exponent (of_int m) \<le> 0" by (rule fl_exponent_int)
  then obtain k where k: "fl_exponent (of_int m) = - int k" by (metis nonpos_int_cases)
  have "pow2 (- int k) = 1 / 2 ^ k" by (simp add: pow2_def)
  then have "of_int m / pow2 (- int k) = of_int (m * 2 ^ k)" by simp
  then have r: "round_half_even (of_int m / pow2 (- int k)) = m * 2 ^ k"
    by (simp only: round_half_even_int)
  have "fl (of_int m) = of_int (m * 2 ^ k) * pow2 (- int k)"
    using False by (simp only: fl_def k Let_def r) simp
  also have "\<dots> = of_int m" by (simp add: pow2_def)
  finally show ?thesis .
qed (simp add: fl_def)

lemma truncate_int [simp]: "truncate (of_int m) = m"
  by (simp add: truncate_def)

lemma truncate_nonneg: "0 \<le> x \<Longrightarrow> 0 \<le> truncate x"
  by (simp add: truncate_def)

lemma addTime_ge: "0 \<le> s \<Longrightarrow> t \<le> addTime t s"
  by (simp add: addTime_def kMicroSecondsPerSecond_def truncate_nonneg fl_nonneg)

subsection \<open>Properties\<close>

text \<open>
  A delay whose number of microseconds is a whole number below 2 to the 53 is added exactly,
  and no non-negative delay, however it is rounded, moves a time point backwards.
\<close>

theorem addTime_exact:
  assumes "s * 1000000 = of_int m" and "\<bar>m\<bar> < 2 ^ 53" and "0 \<le> d"
  shows "addTime t s = t + 1000 * m \<and> t \<le> addTime t d"
  using assms fl_int [OF assms(2)] addTime_ge [OF assms(3)] by (simp add: addTime_def kMicroSecondsPerSecond_def)

text \<open>
  \<open>timeDifference\<close> drops fractions of a second: it divides integers, so the difference of two
  time points less than a second apart is zero, and it is never more than a second short.
\<close>

theorem timeDifference_whole_seconds:
  assumes "low \<le> high"
  shows "timeDifference high low = of_int ((high - low) div 1000000000) \<and>
    (high - low < 1000000000 \<longrightarrow> timeDifference high low = 0)"
  using assms by (simp add: timeDifference_def kMicroSecondsPerSecond_def sdiv_nonneg zdiv_zmult2_eq [symmetric])

theorem addTime_exact_witness: "addTime 7 (1 / 2) = 500000007 \<and> 7 \<le> addTime 7 (1 / 10)"
  using addTime_exact [of "1 / 2" 500000 "1 / 10" 7] by simp

theorem timeDifference_whole_seconds_witness: "timeDifference 1900000000 5 = 1 \<and> timeDifference 999999999 5 = 0"
  using timeDifference_whole_seconds [of 5 1900000000] timeDifference_whole_seconds [of 5 999999999] by simp

text \<open>
  Two time points after the epoch print alike exactly when they fall into the same microsecond, provided that the calendar
  part tells their seconds apart and has the same length; but the microseconds come without leading zeros, so one
  microsecond after a full second prints as a digit 1 after the point, as a tenth of a second would be written.
\<close>

lemma show_int_inject: "0 \<le> a \<Longrightarrow> 0 \<le> b \<Longrightarrow> show_int a = show_int b \<longleftrightarrow> a = b"
  by (auto simp: show_int_def show_nat_inject nat_eq_iff)

lemma formatted:
  "0 \<le> t \<Longrightarrow> Timestamp_toString put_time t = put_time (t div 1000000000) @ show_int (t div 1000 mod 1000000)"
  by (cases "t div 1000 = 0")
    (simp_all add: Timestamp_toString_def toFormattedString_def kMicroSecondsPerSecond_def sdiv_nonneg
      signed_modulo_int_def sgn_1_pos pos_imp_zdiv_nonneg_iff order_less_le)

theorem formatted_time:
  assumes "0 \<le> t" and "0 \<le> u" and "0 \<le> sec"
    and "length (put_time (t div 1000000000)) = length (put_time (u div 1000000000))"
    and "put_time (t div 1000000000) = put_time (u div 1000000000) \<Longrightarrow> t div 1000000000 = u div 1000000000"
  shows "(Timestamp_toString put_time t = Timestamp_toString put_time u \<longleftrightarrow> t div 1000 = u div 1000) \<and>
    Timestamp_toString put_time (sec * 1000000000 + 1000) = put_time sec @ ''1''"
proof
  have "x div 1000000000 = x div 1000 div 1000000" for x :: int by (simp add: zdiv_zmult2_eq [symmetric])
  then have "t div 1000 = u div 1000 \<longleftrightarrow>
      t div 1000000000 = u div 1000000000 \<and> t div 1000 mod 1000000 = u div 1000 mod 1000000"
    by (metis div_mult_mod_eq)
  with assms show "Timestamp_toString put_time t = Timestamp_toString put_time u \<longleftrightarrow> t div 1000 = u div 1000"
    by (auto simp: formatted show_int_inject)
  have "(sec * 1000000000 + 1000) div 1000 = sec * 1000000 + 1" by simp
  then have "(sec * 1000000000 + 1000) div 1000000000 = sec" "(sec * 1000000000 + 1000) div 1000 mod 1000000 = 1"
    by simp_all
  moreover have "show_int 1 = ''1''" by code_simp
  ultimately show "Timestamp_toString put_time (sec * 1000000000 + 1000) = put_time sec @ ''1''"
    using assms(3) by (simp add: formatted)
qed

theorem formatted_time_witness:
  "Timestamp_toString (\<lambda>_. ''12:00:00.'') 500000000 \<noteq> Timestamp_toString (\<lambda>_. ''12:00:00.'') 5000 \<and>
   Timestamp_toString (\<lambda>_. ''12:00:00.'') 1000 = ''12:00:00.1''"
  using formatted_time [of 500000000 5000 0 "\<lambda>_. ''12:00:00.''"] by simp

end
