(* ===== verification/TimerQueue.thy ===== *)
theory TimerQueue
  imports EventLoop Timestamp
begin

section \<open>Timers\<close>

text \<open>
  \<open>chaonet/include/Timer.h\<close>, \<open>TimerId.h\<close>, \<open>TimerQueue.h\<close>, \<open>chaonet/src/Timer.cpp\<close>, \<open>TimerQueue.cpp\<close>
  and the timer functions of \<open>EventLoop\<close>.  Timer objects live in \<open>timerHeap\<close>; the address of the
  \<open>n\<close>-th one made is \<open>alloc n\<close>, an arbitrary injective sequence of non-null addresses (the sets are
  ordered by address), so an address is not reused.  The two sets of the queue are strictly sorted
  lists.  \<open>expiring\<close> is the local vector \<open>expired\<close> of \<open>handleRead\<close>, which keeps its timers alive
  while their callbacks run; outside \<open>handleRead\<close> it is empty.  A \<open>TimerId\<close> holds a weak pointer:
  \<open>lock_timer\<close> is null when nothing owns the timer any more.  The calls on the timer descriptor are
  logged in \<open>timerfdLog\<close>.  A log statement of \<open>cancelInLoop\<close> reads through an iterator that the
  erase before it invalidated; the value only reaches the log and the read is not modelled.
\<close>

record timer =
  tm_callback :: loop_functor
  tm_expiration :: time
  tm_interval :: double
  tm_repeat :: bool
  tm_sequence :: int

definition Timer_new :: "loop_functor \<Rightarrow> time \<Rightarrow> double \<Rightarrow> nat \<Rightarrow> timer" where
  "Timer_new cb when interval created =
     \<lparr>tm_callback = cb, tm_expiration = when, tm_interval = interval, tm_repeat = (0 < interval),
      tm_sequence = int created\<rparr>"

definition Timer_restart :: "time \<Rightarrow> timer \<Rightarrow> timer" where
  "Timer_restart now t =
     (if tm_repeat t then t\<lparr>tm_expiration := addTime now (tm_interval t)\<rparr>
      else t\<lparr>tm_expiration := Timestamp_invalid\<rparr>)"

datatype tfd_event = TfdRead | TfdSet time int int

record timer_state = loop_state +
  timerfd :: int
  timerfdChannel :: nat
  timerHeap :: "nat \<Rightarrow> timer option"
  alloc :: "nat \<Rightarrow> nat"
  numCreated :: nat
  timers :: "(time \<times> nat) list"
  activeTimers :: "(nat \<times> int) list"
  cancelingTimers :: "(nat \<times> int) list"
  callingExpiredTimers :: bool
  expiring :: "(time \<times> nat) list"
  timerfdLog :: "tfd_event list"

definition with_timer :: "nat \<Rightarrow> ('m) timer_state_scheme \<Rightarrow> (timer \<Rightarrow> 'a res) \<Rightarrow> 'a res" where
  "with_timer p s f = (case timerHeap s p of None \<Rightarrow> Inl DanglingPointer | Some t \<Rightarrow> f t)"

subsection \<open>The timer descriptor\<close>

definition howMuchTimeFromNow :: "time \<Rightarrow> time \<Rightarrow> int \<times> int" where
  "howMuchTimeFromNow when now =
     (let d = microSecondsSinceEpoch when - microSecondsSinceEpoch now;
          microseconds = (if d < 100 then 100 else d) in
      (microseconds sdiv kMicroSecondsPerSecond, (microseconds smod kMicroSecondsPerSecond) * 1000))"

definition readTimerfd :: "('m) timer_state_scheme \<Rightarrow> 'm timer_state_scheme" where
  "readTimerfd s = s\<lparr>timerfdLog := timerfdLog s @ [TfdRead]\<rparr>"

definition resetTimerfd :: "time \<Rightarrow> ('m) timer_state_scheme \<Rightarrow> 'm timer_state_scheme" where
  "resetTimerfd expiration s =
     (let (now, s1) = read_clock s; (sec, nsec) = howMuchTimeFromNow expiration now in
      s1\<lparr>timerfdLog := timerfdLog s1 @ [TfdSet now sec nsec]\<rparr>)"

subsection \<open>The queue\<close>

text \<open>\<open>createTimerfd\<close> logs a failure of \<open>timerfd_create\<close> and returns the negative result.\<close>

definition createTimerfd :: "int \<Rightarrow> int \<times> log_line list" where
  "createTimerfd fd = (fd, if fd < 0 then [(''Failed in timerfd_create'', [])] else [])"

definition TimerQueue_new :: "int \<Rightarrow> nat \<Rightarrow> bool \<Rightarrow> ('m) timer_state_scheme \<Rightarrow> 'm timer_state_scheme res" where
  "TimerQueue_new fd p uninit s =
     (let s1 = s\<lparr>timerfd := fd, timerfdChannel := p, timers := [], activeTimers := [], cancelingTimers := [],
                 callingExpiredTimers := False, expiring := []\<rparr>;
          s2 = put_chan p (setReadCallback (Some TimerRead) (Channel_new (lp_this s) fd uninit)) s1 in
      enableReading EventLoop_updateChannel p s2)"

definition sizes_agree :: "('m) timer_state_scheme \<Rightarrow> 'a res \<Rightarrow> 'a res" where
  "sizes_agree s k = check (length (timers s) = length (activeTimers s)) ''timers_.size() == activeTimers_.size()'' k"

definition TimerQueue_insert :: "nat \<Rightarrow> ('m) timer_state_scheme \<Rightarrow> (bool \<times> 'm timer_state_scheme) res" where
  "TimerQueue_insert p s =
     with_timer p s (\<lambda>t.
     sizes_agree s
       (let when = tm_expiration t;
            earliestChanged = (case timers s of [] \<Rightarrow> True | e # _ \<Rightarrow> when < fst e) in
        check ((when, p) \<notin> set (timers s)) ''result.second''
          (let s1 = s\<lparr>timers := oset_insert (when, p) (timers s)\<rparr> in
           check ((p, tm_sequence t) \<notin> set (activeTimers s1)) ''result.second''
             (let s2 = s1\<lparr>activeTimers := oset_insert (p, tm_sequence t) (activeTimers s1)\<rparr> in
              sizes_agree s2 (Inr (earliestChanged, s2))))))"

definition addTimerInLoop :: "nat \<Rightarrow> ('m) timer_state_scheme \<Rightarrow> 'm timer_state_scheme res" where
  "addTimerInLoop p s =
     bindR (TimerQueue_insert p s) (\<lambda>(earliestChanged, s1).
       if earliestChanged then with_timer p s1 (\<lambda>t. Inr (resetTimerfd (tm_expiration t) s1)) else Inr s1)"

definition timer_held :: "nat \<Rightarrow> ('m) timer_state_scheme \<Rightarrow> bool" where
  "timer_held p s \<longleftrightarrow> p \<in> snd ` set (timers s) \<or> p \<in> fst ` set (activeTimers s) \<or>
     p \<in> snd ` set (expiring s) \<or> p \<in> fst ` set (cancelingTimers s) \<or> AddTimerInLoop p \<in> set (pendingFunctors s)"

definition lock_timer :: "nat \<Rightarrow> ('m) timer_state_scheme \<Rightarrow> nat" where
  "lock_timer p s = (if timer_held p s then p else 0)"

definition cancelInLoop :: "nat \<Rightarrow> int \<Rightarrow> ('m) timer_state_scheme \<Rightarrow> 'm timer_state_scheme res" where
  "cancelInLoop p seq s =
     sizes_agree s
       (let timer = (lock_timer p s, seq) in
        bindR
          (if timer \<in> set (activeTimers s) then
             with_timer (fst timer) s (\<lambda>t.
               let entry = (tm_expiration t, fst timer) in
               check (entry \<in> set (timers s)) ''n == 1''
                 (check (timer \<noteq> last (activeTimers s)) ''itErase != activeTimers_.end()''
                   (Inr (s\<lparr>timers := oset_erase entry (timers s),
                           activeTimers := oset_erase timer (activeTimers s)\<rparr>))))
           else if callingExpiredTimers s then
             Inr (s\<lparr>cancelingTimers := oset_insert timer (cancelingTimers s)\<rparr>)
           else Inr s)
          (\<lambda>s1. sizes_agree s1 (Inr s1)))"

definition erase_active :: "time \<times> nat \<Rightarrow> ('m) timer_state_scheme \<Rightarrow> 'm timer_state_scheme res" where
  "erase_active entry s =
     with_timer (snd entry) s (\<lambda>t.
       let timer = (snd entry, tm_sequence t) in
       check (timer \<in> set (activeTimers s)) ''n == 1''
         (Inr (s\<lparr>activeTimers := oset_erase timer (activeTimers s)\<rparr>)))"

text \<open>\<open>getExpired\<close>: the sentry pairs \<open>now\<close> with the null pointer, the smallest address.\<close>

definition getExpired :: "time \<Rightarrow> ('m) timer_state_scheme \<Rightarrow> ((time \<times> nat) list \<times> 'm timer_state_scheme) res" where
  "getExpired now s =
     sizes_agree s
       (let sentry = (now, 0);
            expired = takeWhile (\<lambda>e. e < sentry) (timers s);
            rest = dropWhile (\<lambda>e. e < sentry) (timers s) in
        check (rest = [] \<or> now < fst (hd rest)) ''it == timers_.end() || now < it->first''
          (bindR (foldR erase_active expired (s\<lparr>timers := rest\<rparr>))
            (\<lambda>s1. sizes_agree s1 (Inr (expired, s1)))))"

definition reset_one :: "time \<Rightarrow> time \<times> nat \<Rightarrow> ('m) timer_state_scheme \<Rightarrow> 'm timer_state_scheme res" where
  "reset_one now entry s =
     with_timer (snd entry) s (\<lambda>t.
       if tm_repeat t \<and> (snd entry, tm_sequence t) \<notin> set (cancelingTimers s) then
         bindR (TimerQueue_insert (snd entry)
                  (s\<lparr>timerHeap := (timerHeap s)(snd entry \<mapsto> Timer_restart now t)\<rparr>))
           (\<lambda>(_, s1). Inr s1)
       else Inr s)"

definition TimerQueue_reset :: "(time \<times> nat) list \<Rightarrow> time \<Rightarrow> ('m) timer_state_scheme \<Rightarrow> 'm timer_state_scheme res" where
  "TimerQueue_reset expired now s =
     bindR (foldR (reset_one now) expired s) (\<lambda>s1.
     bindR (case timers s1 of
              [] \<Rightarrow> Inr Timestamp_default
            | e # _ \<Rightarrow> with_timer (snd e) s1 (\<lambda>t. Inr (tm_expiration t))) (\<lambda>nextExpire.
     Inr (if Timestamp_valid nextExpire then resetTimerfd nextExpire s1 else s1)))"

definition run_timer where
  "run_timer call entry s = with_timer (snd entry) s (\<lambda>t. call (tm_callback t) s)"

definition TimerQueue_handleRead where
  "TimerQueue_handleRead call s =
     (let (now, s1) = read_clock s in
      bindR (getExpired now (readTimerfd s1)) (\<lambda>(expired, s2).
      bindR (foldR (run_timer call) expired
               (s2\<lparr>callingExpiredTimers := True, cancelingTimers := [], expiring := expired\<rparr>)) (\<lambda>s3.
      bindR (TimerQueue_reset expired now (s3\<lparr>callingExpiredTimers := False\<rparr>)) (\<lambda>s4.
      Inr (s4\<lparr>expiring := []\<rparr>)))))"

text \<open>
  \<open>addTimer\<close> and \<open>cancel\<close> go through \<open>runInLoop\<close>; \<open>call\<close> runs the bound function in the loop thread.
  The returned \<open>TimerId\<close> is the address and the sequence number.
\<close>

definition addTimer where
  "addTimer call tid cb when interval s =
     (let p = alloc s (numCreated s);
          t = Timer_new cb when interval (numCreated s);
          s1 = s\<lparr>timerHeap := (timerHeap s)(p \<mapsto> t), numCreated := Suc (numCreated s)\<rparr> in
      bindR (runInLoop call tid (AddTimerInLoop p) s1) (\<lambda>s2. Inr ((p, tm_sequence t), s2)))"

definition TimerQueue_cancel where
  "TimerQueue_cancel call tid timerId s = runInLoop call tid (CancelInLoop (fst timerId) (snd timerId)) s"

definition runAt where
  "runAt call tid time cb s = addTimer call tid cb time 0 s"

definition runAfter where
  "runAfter call tid delay cb s =
     (let (now, s1) = read_clock s in runAt call tid (addTime now delay) cb s1)"

definition runEvery where
  "runEvery call tid interval cb s =
     (let (now, s1) = read_clock s in addTimer call tid cb (addTime now interval) interval s1)"

definition EventLoop_cancel where
  "EventLoop_cancel call tid timerId s = TimerQueue_cancel call tid timerId s"

text \<open>The functors of this component; the others are passed on.\<close>

definition timer_call where
  "timer_call other f s =
     (case f of AddTimerInLoop p \<Rightarrow> addTimerInLoop p s
      | CancelInLoop p seq \<Rightarrow> cancelInLoop p seq s
      | _ \<Rightarrow> other f s)"

subsection \<open>The invariant\<close>

definition active_key :: "('m) timer_state_scheme \<Rightarrow> time \<times> nat \<Rightarrow> nat \<times> int" where
  "active_key s e = (snd e, tm_sequence (the (timerHeap s (snd e))))"

definition timer_core :: "('m) timer_state_scheme \<Rightarrow> bool" where
  "timer_core s \<longleftrightarrow> oset (timers s) \<and> oset (activeTimers s) \<and>
     set (activeTimers s) = active_key s ` set (timers s) \<and>
     (\<forall>e \<in> set (timers s). \<exists>t. timerHeap s (snd e) = Some t \<and> tm_expiration t = fst e)"

definition heap_ok :: "('m) timer_state_scheme \<Rightarrow> bool" where
  "heap_ok s \<longleftrightarrow> inj (alloc s) \<and> (\<forall>i. 0 < alloc s i) \<and>
     (\<forall>p t. timerHeap s p = Some t \<longrightarrow> (\<exists>i < numCreated s. p = alloc s i))"

definition expiring_ok :: "(time \<times> nat) list \<Rightarrow> ('m) timer_state_scheme \<Rightarrow> bool" where
  "expiring_ok es s \<longleftrightarrow> distinct (map snd es) \<and>
     (\<forall>e \<in> set es. timerHeap s (snd e) \<noteq> None \<and> snd e \<notin> snd ` set (timers s))"

definition timer_inv :: "('m) timer_state_scheme \<Rightarrow> bool" where
  "timer_inv s \<longleftrightarrow> timer_core s \<and> heap_ok s \<and> expiring_ok (expiring s) s"

lemma timer_coreD:
  assumes "timer_core s"
  shows "oset (timers s)" "oset (activeTimers s)" "set (activeTimers s) = active_key s ` set (timers s)"
    "e \<in> set (timers s) \<Longrightarrow> \<exists>t. timerHeap s (snd e) = Some t \<and> tm_expiration t = fst e"
  using assms by (auto simp: timer_core_def)

lemma timer_inv_core [simp]: "timer_inv s \<Longrightarrow> timer_core s"
  by (simp add: timer_inv_def)

lemma timers_inj: "timer_core s \<Longrightarrow> inj_on snd (set (timers s))"
  by (rule inj_onI) (metis timer_coreD(4) option.inject prod_eqI)

lemma active_key_inj: "timer_core s \<Longrightarrow> inj_on (active_key s) (set (timers s))"
  using timers_inj by (fastforce simp: active_key_def inj_on_def)

lemma sizes_agree_core [simp]: "timer_core s \<Longrightarrow> sizes_agree s k = k"
proof -
  assume inv: "timer_core s"
  have "length (timers s) = length (activeTimers s)"
    using timer_coreD(1-3) [OF inv] active_key_inj [OF inv] by (simp add: oset_card card_image)
  then show ?thesis by (simp add: sizes_agree_def)
qed

lemma with_timer_Some [simp]: "timerHeap s p = Some t \<Longrightarrow> with_timer p s f = f t"
  by (simp add: with_timer_def)

lemma with_timer_Inr_iff [res_simps]:
  "with_timer p s f = Inr y \<longleftrightarrow> (\<exists>t. timerHeap s p = Some t \<and> f t = Inr y)"
  by (simp add: with_timer_def split: option.splits)

lemma active_iff:
  assumes "timer_core s" and "timerHeap s p = Some t"
  shows "(p, tm_sequence t) \<in> set (activeTimers s) \<longleftrightarrow> (tm_expiration t, p) \<in> set (timers s)"
proof
  assume "(p, tm_sequence t) \<in> set (activeTimers s)"
  then obtain e where e: "e \<in> set (timers s)" "snd e = p"
    unfolding timer_coreD(3) [OF assms(1)] by (auto simp: active_key_def)
  with timer_coreD(4) [OF assms(1) e(1)] assms(2) have "e = (tm_expiration t, p)"
    by (simp add: prod_eq_iff)
  with e(1) show "(tm_expiration t, p) \<in> set (timers s)" by simp
next
  assume "(tm_expiration t, p) \<in> set (timers s)"
  then show "(p, tm_sequence t) \<in> set (activeTimers s)"
    unfolding timer_coreD(3) [OF assms(1)] using assms(2)
    by (intro image_eqI [of _ _ "(tm_expiration t, p)"]) (simp_all add: active_key_def)
qed

lemma active_fst: "timer_core s \<Longrightarrow> fst ` set (activeTimers s) = snd ` set (timers s)"
  by (simp add: timer_coreD(3) active_key_def image_image)

subsection \<open>Insertion\<close>

definition timer_inserted :: "nat \<Rightarrow> timer \<Rightarrow> ('m) timer_state_scheme \<Rightarrow> 'm timer_state_scheme" where
  "timer_inserted p t s = s\<lparr>timers := oset_insert (tm_expiration t, p) (timers s),
     activeTimers := oset_insert (p, tm_sequence t) (activeTimers s)\<rparr>"

lemma timer_core_inserted:
  assumes "timer_core s" and "timerHeap s p = Some t"
  shows "timer_core (timer_inserted p t s)"
  using assms
  by (auto simp: timer_core_def timer_inserted_def oset_simps active_key_def)

lemma insert_ok:
  assumes core: "timer_core s" and t: "timerHeap s p = Some t" and new: "p \<notin> snd ` set (timers s)"
  shows "TimerQueue_insert p s =
    Inr (case timers s of [] \<Rightarrow> True | e # _ \<Rightarrow> tm_expiration t < fst e, timer_inserted p t s)"
proof -
  have "(tm_expiration t, p) \<notin> set (timers s)" "(p, tm_sequence t) \<notin> set (activeTimers s)"
    using new active_iff [OF core t] by force+
  then show ?thesis
    using core t timer_core_inserted [OF core t]
    by (simp add: TimerQueue_insert_def timer_inserted_def Let_def)
qed

lemma resetTimerfd_fields [simp]:
  "timers (resetTimerfd w s) = timers s" "activeTimers (resetTimerfd w s) = activeTimers s"
  "timerHeap (resetTimerfd w s) = timerHeap s" "expiring (resetTimerfd w s) = expiring s"
  "cancelingTimers (resetTimerfd w s) = cancelingTimers s" "alloc (resetTimerfd w s) = alloc s"
  "numCreated (resetTimerfd w s) = numCreated s" "callingExpiredTimers (resetTimerfd w s) = callingExpiredTimers s"
  "threadId (resetTimerfd w s) = threadId s"
  by (simp_all add: resetTimerfd_def read_clock_def split_def Let_def)

text \<open>The invariant only reads these members.\<close>

lemma timer_inv_cong:
  assumes "timers t = timers s" "activeTimers t = activeTimers s" "timerHeap t = timerHeap s"
  shows "timer_core t = timer_core s" "expiring_ok es t = expiring_ok es s"
    "alloc t = alloc s \<Longrightarrow> numCreated t = numCreated s \<Longrightarrow> heap_ok t = heap_ok s"
    "alloc t = alloc s \<Longrightarrow> numCreated t = numCreated s \<Longrightarrow> expiring t = expiring s \<Longrightarrow> timer_inv t = timer_inv s"
  using assms
  by (simp_all add: timer_core_def active_key_def expiring_ok_def heap_ok_def timer_inv_def)

lemma timer_inv_resetTimerfd [simp]: "timer_inv (resetTimerfd w s) = timer_inv s"
  by (rule timer_inv_cong) simp_all

lemma addTimerInLoop_ok:
  assumes inv: "timer_inv s" and t: "timerHeap s p = Some t"
    and new: "p \<notin> snd ` set (timers s)" "p \<notin> snd ` set (expiring s)"
  shows "\<exists>s'. addTimerInLoop p s = Inr s' \<and> timer_inv s' \<and> timers s' = oset_insert (tm_expiration t, p) (timers s) \<and>
    expiring s' = expiring s \<and> timerHeap s' = timerHeap s \<and>
    s' = (if timers s = [] \<or> tm_expiration t < fst (hd (timers s))
          then resetTimerfd (tm_expiration t) (timer_inserted p t s) else timer_inserted p t s)"
proof -
  let ?b = "case timers s of [] \<Rightarrow> True | e # _ \<Rightarrow> tm_expiration t < fst e"
  let ?s' = "if ?b then resetTimerfd (tm_expiration t) (timer_inserted p t s) else timer_inserted p t s"
  have run: "addTimerInLoop p s = Inr ?s'"
    using insert_ok [OF timer_inv_core [OF inv] t new(1)] t
    by (auto simp: addTimerInLoop_def timer_inserted_def)
  have "\<forall>e \<in> set (expiring s). snd e \<noteq> p" using new(2) by blast
  then have "expiring_ok (expiring s) (timer_inserted p t s)" "heap_ok (timer_inserted p t s)"
    using inv by (simp_all add: timer_inv_def expiring_ok_def heap_ok_def timer_inserted_def)
  then have "timer_inv (timer_inserted p t s)"
    using timer_core_inserted [OF timer_inv_core [OF inv] t]
    by (simp add: timer_inv_def timer_inserted_def)
  then have "timer_inv ?s'" by simp
  with run show ?thesis by (auto simp: timer_inserted_def split: list.splits)
qed

subsection \<open>Expiry\<close>

lemma before_sentry: "(e :: time \<times> nat) < (now, 0) \<longleftrightarrow> fst e < now"
  by (cases e) auto

definition due :: "time \<Rightarrow> ('m) timer_state_scheme \<Rightarrow> (time \<times> nat) list" where
  "due now s = filter (\<lambda>e. fst e < now) (timers s)"

definition timers_taken :: "time \<Rightarrow> ('m) timer_state_scheme \<Rightarrow> 'm timer_state_scheme" where
  "timers_taken now s = s\<lparr>timers := filter (\<lambda>e. \<not> fst e < now) (timers s),
     activeTimers := filter (\<lambda>a. a \<notin> active_key s ` set (due now s)) (activeTimers s)\<rparr>"

lemma erase_active_all:
  assumes "distinct (map snd es)" and "\<forall>e \<in> set es. timerHeap s (snd e) \<noteq> None \<and> active_key s e \<in> set (activeTimers s)"
  shows "foldR erase_active es s =
    Inr (s\<lparr>activeTimers := filter (\<lambda>a. a \<notin> active_key s ` set es) (activeTimers s)\<rparr>)"
  using assms
proof (induction es arbitrary: s)
  case (Cons e es)
  let ?s = "s\<lparr>activeTimers := oset_erase (active_key s e) (activeTimers s)\<rparr>"
  obtain t where t: "timerHeap s (snd e) = Some t" using Cons.prems(2) by auto
  then have step: "erase_active e s = Inr ?s"
    using Cons.prems(2) by (simp add: erase_active_def active_key_def Let_def)
  have key: "active_key ?s = active_key s" by (simp add: active_key_def fun_eq_iff)
  have "snd e \<notin> snd ` set es" using Cons.prems(1) by simp
  then have "\<forall>x \<in> set es. active_key s x \<noteq> active_key s e"
    by (metis imageI active_key_def prod.inject)
  then have "foldR erase_active es ?s =
      Inr (?s\<lparr>activeTimers := filter (\<lambda>a. a \<notin> active_key s ` set es) (activeTimers ?s)\<rparr>)"
    using Cons.IH [of ?s] Cons.prems by (simp add: key)
  then show ?case
    by (simp add: step oset_erase_def filter_filter conj_commute del: image_iff)
qed simp

lemma due_subset: "set (due now s) \<subseteq> set (timers s)"
  by (auto simp: due_def)

lemma due_distinct: "timer_core s \<Longrightarrow> distinct (map snd (due now s))"
  using timers_inj [of s] oset_distinct [OF timer_coreD(1), of s]
  by (auto simp: distinct_map due_def inj_on_def)

lemma timer_core_taken:
  assumes "timer_core s"
  shows "timer_core (timers_taken now s)"
proof -
  have "set (activeTimers (timers_taken now s)) = active_key s ` (set (timers s) - set (due now s))"
    using timer_coreD(3) [OF assms] inj_on_image_set_diff [OF active_key_inj [OF assms] _ due_subset]
    by (auto simp: timers_taken_def)
  moreover have "set (timers s) - set (due now s) = set (timers (timers_taken now s))"
    by (auto simp: due_def timers_taken_def)
  ultimately show ?thesis
    using timer_coreD [OF assms] by (auto simp: timer_core_def timers_taken_def oset_simps active_key_def)
qed

lemma getExpired_eq:
  assumes core: "timer_core s"
  shows "getExpired now s =
    (if \<exists>e \<in> set (timers s). fst e = now then Inl (AssertFailed ''it == timers_.end() || now < it->first'')
     else Inr (due now s, timers_taken now s))"
proof -
  note srt = oset_takeWhile [OF timer_coreD(1) [OF core]] oset_dropWhile [OF timer_coreD(1) [OF core]]
  let ?rest = "filter (\<lambda>e. \<not> fst e < now) (timers s)"
  have rest: "?rest = [] \<or> now < fst (hd ?rest) \<longleftrightarrow> \<not> (\<exists>e \<in> set (timers s). fst e = now)"
  proof (cases ?rest)
    case (Cons e es)
    have "oset ?rest" using timer_coreD(1) [OF core] by (simp add: oset_simps)
    with Cons have lt: "\<forall>x \<in> set es. e < x" by (simp add: oset_Cons)
    have mem: "set ?rest = insert e (set es)" using Cons by simp
    have "e \<in> set ?rest" using Cons by simp
    then have e: "e \<in> set (timers s)" "now \<le> fst e" by auto
    have "fst e \<le> fst x" if "x \<in> set (timers s)" "fst x = now" for x
    proof -
      from that have "x \<in> set ?rest" by simp
      with mem lt show ?thesis by (auto simp: less_prod_def)
    qed
    with e show ?thesis unfolding Cons by force
  qed (auto simp: filter_empty_conv)
  show ?thesis
  proof (cases "\<exists>e \<in> set (timers s). fst e = now")
    case True
    then show ?thesis using core rest by (simp add: getExpired_def Let_def before_sentry srt)
  next
    case False
    let ?s = "s\<lparr>timers := ?rest\<rparr>"
    have key: "active_key ?s = active_key s" by (simp add: active_key_def fun_eq_iff)
    have "foldR erase_active (due now s) ?s = Inr (timers_taken now s)"
      using erase_active_all [of "due now s" ?s] due_distinct [OF core] timer_coreD [OF core] due_subset [of now s]
      by (fastforce simp: key timers_taken_def)
    with False rest show ?thesis
      using core timer_core_taken [OF core, of now]
      by (simp add: getExpired_def Let_def before_sentry srt due_def)
  qed
qed

text \<open>Restarting the expired timers: each repeating one that was not cancelled goes back in.\<close>

definition restarts :: "('m) timer_state_scheme \<Rightarrow> time \<times> nat \<Rightarrow> bool" where
  "restarts s e \<longleftrightarrow> (\<exists>t. timerHeap s (snd e) = Some t \<and> tm_repeat t \<and>
     (snd e, tm_sequence t) \<notin> set (cancelingTimers s))"

lemma Timer_restart_simps [simp]:
  "tm_sequence (Timer_restart now t) = tm_sequence t" "tm_repeat (Timer_restart now t) = tm_repeat t"
  "tm_interval (Timer_restart now t) = tm_interval t"
  "tm_repeat t \<Longrightarrow> tm_expiration (Timer_restart now t) = addTime now (tm_interval t)"
  by (simp_all add: Timer_restart_def)

lemma reset_one_ok:
  assumes core: "timer_core s" and t: "timerHeap s (snd e) = Some t" and new: "snd e \<notin> snd ` set (timers s)"
  obtains s' where "reset_one now e s = Inr s'" "timer_core s'"
    "set (timers s') = set (timers s) \<union> (if restarts s e then {(addTime now (tm_interval t), snd e)} else {})"
    "cancelingTimers s' = cancelingTimers s" "expiring s' = expiring s" "alloc s' = alloc s"
    "numCreated s' = numCreated s" "\<And>q. q \<noteq> snd e \<Longrightarrow> timerHeap s' q = timerHeap s q" "timerHeap s' (snd e) \<noteq> None"
proof (cases "restarts s e")
  case False
  then have "reset_one now e s = Inr s" using t by (auto simp: reset_one_def restarts_def)
  with False show thesis using core t by (intro that [of s]) simp_all
next
  case True
  let ?t = "Timer_restart now t" let ?s = "s\<lparr>timerHeap := (timerHeap s)(snd e \<mapsto> ?t)\<rparr>"
  have "snd x \<noteq> snd e" if "x \<in> set (timers s)" for x using that new by (metis imageI)
  then have core': "timer_core ?s"
    using core by (auto simp: timer_core_def active_key_def)
  have t': "timerHeap ?s (snd e) = Some ?t" by simp
  have "reset_one now e s = Inr (timer_inserted (snd e) ?t ?s)"
    using True t insert_ok [OF core' t'] new by (auto simp: reset_one_def restarts_def)
  moreover have "tm_repeat t" using True t by (simp add: restarts_def)
  ultimately show thesis
    using True timer_core_inserted [OF core' t']
    by (intro that [of "timer_inserted (snd e) ?t ?s"]) (auto simp: timer_inserted_def)
qed

lemma reset_all_ok:
  assumes "timer_core s" and "distinct (map snd es)"
    and "\<forall>e \<in> set es. timerHeap s (snd e) \<noteq> None \<and> snd e \<notin> snd ` set (timers s)"
  shows "\<exists>s'. foldR (reset_one now) es s = Inr s' \<and> timer_core s' \<and>
    set (timers s') = set (timers s) \<union>
      (\<lambda>e. (addTime now (tm_interval (the (timerHeap s (snd e)))), snd e)) ` {e \<in> set es. restarts s e} \<and>
    cancelingTimers s' = cancelingTimers s \<and> expiring s' = expiring s \<and> alloc s' = alloc s \<and>
    numCreated s' = numCreated s \<and> dom (timerHeap s') = dom (timerHeap s)"
  using assms
proof (induction es arbitrary: s)
  case (Cons e es)
  obtain t where t: "timerHeap s (snd e) = Some t" using Cons.prems(3) by auto
  have new: "snd e \<notin> snd ` set (timers s)" using Cons.prems(3) by simp
  obtain s1 where s1: "reset_one now e s = Inr s1" "timer_core s1"
    "set (timers s1) = set (timers s) \<union> (if restarts s e then {(addTime now (tm_interval t), snd e)} else {})"
    "cancelingTimers s1 = cancelingTimers s" "expiring s1 = expiring s" "alloc s1 = alloc s"
    "numCreated s1 = numCreated s" "\<And>q. q \<noteq> snd e \<Longrightarrow> timerHeap s1 q = timerHeap s q" "timerHeap s1 (snd e) \<noteq> None"
    using reset_one_ok [OF Cons.prems(1) t new, where now = now] by metis
  have "snd e \<notin> snd ` set es" using Cons.prems(2) by simp
  then have ne: "snd x \<noteq> snd e" if "x \<in> set es" for x using that by (metis imageI)
  then have same: "timerHeap s1 (snd x) = timerHeap s (snd x)" "restarts s1 x = restarts s x" if "x \<in> set es" for x
    using that s1(4,8) by (simp_all add: restarts_def)
  have "\<forall>x \<in> set es. timerHeap s1 (snd x) \<noteq> None \<and> snd x \<notin> snd ` set (timers s1)"
    using Cons.prems(3) ne by (auto simp: same s1(3))
  then obtain s2 where s2: "foldR (reset_one now) es s1 = Inr s2" "timer_core s2"
    "set (timers s2) = set (timers s1) \<union>
      (\<lambda>e. (addTime now (tm_interval (the (timerHeap s1 (snd e)))), snd e)) ` {e \<in> set es. restarts s1 e}"
    "cancelingTimers s2 = cancelingTimers s1" "expiring s2 = expiring s1" "alloc s2 = alloc s1"
    "numCreated s2 = numCreated s1" "dom (timerHeap s2) = dom (timerHeap s1)"
    using Cons.IH [OF s1(2)] Cons.prems(2) by auto
  have dom: "dom (timerHeap s1) = dom (timerHeap s)"
    using s1(8,9) t by (auto simp: dom_def) (metis option.distinct(1))+
  have "(\<lambda>e. (addTime now (tm_interval (the (timerHeap s1 (snd e)))), snd e)) ` {e \<in> set es. restarts s1 e} =
      (\<lambda>e. (addTime now (tm_interval (the (timerHeap s (snd e)))), snd e)) ` {e \<in> set es. restarts s e}"
    using same by (intro image_cong) auto
  moreover have "{x \<in> set (e # es). restarts s x} =
      (if restarts s e then {e} else {}) \<union> {x \<in> set es. restarts s x}" by auto
  ultimately have "set (timers s2) = set (timers s) \<union>
      (\<lambda>e. (addTime now (tm_interval (the (timerHeap s (snd e)))), snd e)) ` {x \<in> set (e # es). restarts s x}"
    unfolding s2(3) s1(3) using t by (simp add: image_Un Un_assoc)
  with s1 s2 dom show ?case by simp
qed auto

text \<open>\<open>reset\<close> also sets the timer descriptor, always: see \<open>reset_arms\<close>.\<close>

definition next_expiry :: "('m) timer_state_scheme \<Rightarrow> time" where
  "next_expiry s = (case timers s of [] \<Rightarrow> Timestamp_default | e # _ \<Rightarrow> fst e)"

lemma reset_ok:
  assumes core: "timer_core s" and exp: "expiring_ok es s"
  shows "\<exists>s1. TimerQueue_reset es now s =
      Inr (if Timestamp_valid (next_expiry s1) then resetTimerfd (next_expiry s1) s1 else s1) \<and> timer_core s1 \<and>
    set (timers s1) = set (timers s) \<union>
      (\<lambda>e. (addTime now (tm_interval (the (timerHeap s (snd e)))), snd e)) ` {e \<in> set es. restarts s e} \<and>
    expiring s1 = expiring s \<and> alloc s1 = alloc s \<and> numCreated s1 = numCreated s \<and>
    dom (timerHeap s1) = dom (timerHeap s)"
proof -
  obtain s1 where s1: "foldR (reset_one now) es s = Inr s1" "timer_core s1"
    "set (timers s1) = set (timers s) \<union>
      (\<lambda>e. (addTime now (tm_interval (the (timerHeap s (snd e)))), snd e)) ` {e \<in> set es. restarts s e}"
    "expiring s1 = expiring s" "alloc s1 = alloc s" "numCreated s1 = numCreated s"
    "dom (timerHeap s1) = dom (timerHeap s)"
    using reset_all_ok [OF core, of es now] exp unfolding expiring_ok_def by auto
  have "(case timers s1 of [] \<Rightarrow> Inr Timestamp_default
          | e # _ \<Rightarrow> with_timer (snd e) s1 (\<lambda>t. Inr (tm_expiration t))) = Inr (next_expiry s1)"
    using timer_coreD(4) [OF s1(2)] by (fastforce simp: next_expiry_def split: list.splits)
  then have "TimerQueue_reset es now s =
      Inr (if Timestamp_valid (next_expiry s1) then resetTimerfd (next_expiry s1) s1 else s1)"
    by (simp add: TimerQueue_reset_def s1(1))
  with s1 show ?thesis by blast
qed

subsection \<open>What the queue relies on: the callbacks of timers\<close>

text \<open>The queue while the callbacks of the timers due at \<open>now\<close> run, and the handler around them.\<close>

definition firing :: "time \<Rightarrow> ('m) timer_state_scheme \<Rightarrow> 'm timer_state_scheme" where
  "firing now s = (timers_taken now (readTimerfd (s\<lparr>ticks := Suc (ticks s)\<rparr>)))
     \<lparr>callingExpiredTimers := True, cancelingTimers := [], expiring := due now s\<rparr>"

lemma firing_fields:
  "timers (firing now s) = filter (\<lambda>e. \<not> fst e < now) (timers s)" "timerHeap (firing now s) = timerHeap s"
  "expiring (firing now s) = due now s" "callingExpiredTimers (firing now s)" "cancelingTimers (firing now s) = []"
  "alloc (firing now s) = alloc s" "numCreated (firing now s) = numCreated s" "timer_state.more (firing now s) = timer_state.more s"
  "clock (firing now s) = clock s" "ticks (firing now s) = Suc (ticks s)" "threadId (firing now s) = threadId s"
  by (simp_all add: firing_def timers_taken_def readTimerfd_def)

lemma firing_inv:
  assumes inv: "timer_inv s"
  shows "timer_inv (firing now s)"
proof -
  let ?u = "readTimerfd (s\<lparr>ticks := Suc (ticks s)\<rparr>)"
  have u: "timers ?u = timers s" "activeTimers ?u = activeTimers s" "timerHeap ?u = timerHeap s"
    by (simp_all add: readTimerfd_def)
  have "timer_core ?u" using inv timer_inv_cong(1) [OF u] by simp
  then have "timer_core (timers_taken now ?u)" by (rule timer_core_taken)
  then have "timer_core (firing now s)" by (simp add: timer_core_def active_key_def firing_def)
  moreover have "heap_ok (firing now s)" using inv by (simp add: timer_inv_def heap_ok_def firing_fields)
  moreover have "expiring_ok (due now s) (firing now s)"
    unfolding expiring_ok_def
  proof (intro conjI ballI)
    show "distinct (map snd (due now s))" using due_distinct [of s now] inv by simp
    fix e assume "e \<in> set (due now s)"
    then have e: "e \<in> set (timers s)" "fst e < now" by (auto simp: due_def)
    then show "timerHeap (firing now s) (snd e) \<noteq> None"
      using timer_coreD(4) [OF timer_inv_core [OF inv], of e] by (auto simp: firing_fields)
    show "snd e \<notin> snd ` set (timers (firing now s))"
      using e timers_inj [OF timer_inv_core [OF inv]] by (auto simp: firing_fields inj_on_def)
  qed
  ultimately show ?thesis by (simp add: timer_inv_def firing_fields)
qed

lemma handleRead_eq:
  assumes inv: "timer_inv s" and now: "now = clock s (ticks s)" and ne: "\<forall>e \<in> set (timers s). fst e \<noteq> now"
  shows "TimerQueue_handleRead call s =
    bindR (foldR (run_timer call) (due now s) (firing now s)) (\<lambda>s3.
    bindR (TimerQueue_reset (due now s) now (s3\<lparr>callingExpiredTimers := False\<rparr>)) (\<lambda>s4. Inr (s4\<lparr>expiring := []\<rparr>)))"
proof -
  let ?u = "readTimerfd (s\<lparr>ticks := Suc (ticks s)\<rparr>)"
  have u: "timers ?u = timers s" "activeTimers ?u = activeTimers s" "timerHeap ?u = timerHeap s" by (simp_all add: readTimerfd_def)
  have core: "timer_core ?u" using inv timer_inv_cong(1) [OF u] by simp
  have "due now ?u = due now s" by (simp add: due_def u)
  then have "getExpired now ?u = Inr (due now s, timers_taken now ?u)" using getExpired_eq [OF core, of now] ne by (simp add: u)
  then show ?thesis by (simp add: TimerQueue_handleRead_def read_clock_def now [symmetric] firing_def)
qed

text \<open>
  A callback may fail (and then ends the process), but when it returns it has kept the queue's
  invariant, and the timers that are being run have not been touched.
\<close>

locale timer_callbacks =
  fixes call :: "loop_functor \<Rightarrow> ('m) timer_state_scheme \<Rightarrow> 'm timer_state_scheme res"
  assumes call_keeps: "timer_inv s \<Longrightarrow> call f s = Inr s' \<Longrightarrow>
    timer_inv s' \<and> expiring s' = expiring s \<and>
    (\<forall>e \<in> set (expiring s). timerHeap s' (snd e) = timerHeap s (snd e))"
begin

lemma run_all_keeps:
  assumes "timer_inv s" and "foldR (run_timer call) es s = Inr s'"
  shows "timer_inv s' \<and> expiring s' = expiring s \<and>
    (\<forall>e \<in> set (expiring s). timerHeap s' (snd e) = timerHeap s (snd e))"
  using assms
proof (induction es arbitrary: s)
  case (Cons e es)
  then obtain s1 where s1: "run_timer call e s = Inr s1" "foldR (run_timer call) es s1 = Inr s'"
    by (auto simp: res_simps)
  then have "timer_inv s1 \<and> expiring s1 = expiring s \<and>
      (\<forall>e \<in> set (expiring s). timerHeap s1 (snd e) = timerHeap s (snd e))"
    using call_keeps Cons.prems(1) by (auto simp: run_timer_def res_simps)
  with Cons.IH [of s1] s1(2) show ?case by auto
qed simp

lemma handleRead_fires:
  assumes inv: "timer_inv s" and idle: "expiring s = []"
    and now: "now = clock s (ticks s)" and ne: "\<forall>e \<in> set (timers s). fst e \<noteq> now"
  shows "\<exists>s0. timers s0 = filter (\<lambda>e. \<not> fst e < now) (timers s) \<and> timerHeap s0 = timerHeap s \<and>
    timer_inv s0 \<and> expiring s0 = due now s \<and> callingExpiredTimers s0 \<and> cancelingTimers s0 = [] \<and>
    (case foldR (run_timer call) (due now s) s0 of
       Inl err \<Rightarrow> TimerQueue_handleRead call s = Inl err
     | Inr s3 \<Rightarrow> \<exists>s4. TimerQueue_handleRead call s = Inr s4 \<and> timer_inv s4 \<and> expiring s4 = [] \<and>
         set (timers s4) = set (timers s3) \<union>
           (\<lambda>e. (addTime now (tm_interval (the (timerHeap s (snd e)))), snd e)) ` {e \<in> set (due now s). restarts s3 e})"
proof -
  let ?s0 = "firing now s"
  note inv0 = firing_inv [OF inv, of now] and run = handleRead_eq [OF inv now ne, of call]
  have fire: "\<exists>s4. TimerQueue_handleRead call s = Inr s4 \<and> timer_inv s4 \<and> expiring s4 = [] \<and>
         set (timers s4) = set (timers s3) \<union>
           (\<lambda>e. (addTime now (tm_interval (the (timerHeap s (snd e)))), snd e)) ` {e \<in> set (due now s). restarts s3 e}"
    if s3: "foldR (run_timer call) (due now s) ?s0 = Inr s3" for s3
  proof -
    from run_all_keeps [OF inv0 s3] have k: "timer_inv s3" "expiring s3 = due now s"
      "\<forall>e \<in> set (due now s). timerHeap s3 (snd e) = timerHeap s (snd e)"
      by (auto simp: firing_fields)
    let ?t = "s3\<lparr>callingExpiredTimers := False\<rparr>"
    have "timer_core ?t" "expiring_ok (due now s) ?t" "restarts ?t = restarts s3"
      using k by (simp_all add: timer_inv_def timer_core_def active_key_def expiring_ok_def restarts_def fun_eq_iff)
    with reset_ok [of ?t "due now s" now] obtain s1 where s1: "TimerQueue_reset (due now s) now ?t =
        Inr (if Timestamp_valid (next_expiry s1) then resetTimerfd (next_expiry s1) s1 else s1)" "timer_core s1"
      "set (timers s1) = set (timers s3) \<union>
        (\<lambda>e. (addTime now (tm_interval (the (timerHeap s3 (snd e)))), snd e)) ` {e \<in> set (due now s). restarts s3 e}"
      "alloc s1 = alloc s3" "numCreated s1 = numCreated s3" "dom (timerHeap s1) = dom (timerHeap s3)"
      by auto
    have "heap_ok s1" using k(1) s1(4-6) by (auto simp: timer_inv_def heap_ok_def dom_def set_eq_iff)
    then have "timer_inv (s1\<lparr>expiring := []\<rparr>)" using s1(2)
      by (simp add: timer_inv_def timer_core_def active_key_def heap_ok_def expiring_ok_def)
    moreover have "set (timers s1) = set (timers s3) \<union>
        (\<lambda>e. (addTime now (tm_interval (the (timerHeap s (snd e)))), snd e)) ` {e \<in> set (due now s). restarts s3 e}"
      unfolding s1(3) using k(3) by (auto intro!: image_eqI)
    moreover have "(if Timestamp_valid (next_expiry s1) then resetTimerfd (next_expiry s1) s1 else s1)\<lparr>expiring := []\<rparr> =
        (if Timestamp_valid (next_expiry s1) then resetTimerfd (next_expiry s1) (s1\<lparr>expiring := []\<rparr>) else s1\<lparr>expiring := []\<rparr>)"
      by (simp add: resetTimerfd_def read_clock_def split_def Let_def)
    ultimately show ?thesis by (auto simp: run s3 s1(1))
  qed
  show ?thesis
    by (rule exI [of _ ?s0], intro conjI inv0)
       (use run fire in \<open>auto simp: firing_fields split: sum.splits\<close>)
qed

end

subsection \<open>Cancellation\<close>

lemma null_not_active: "timer_inv s \<Longrightarrow> (0, seq) \<notin> set (activeTimers s)"
proof
  assume inv: "timer_inv s" and "(0, seq) \<in> set (activeTimers s)"
  then obtain e where "e \<in> set (timers s)" "snd e = 0"
    unfolding timer_coreD(3) [OF timer_inv_core [OF inv]] by (auto simp: active_key_def)
  with timer_coreD(4) [OF timer_inv_core [OF inv]] obtain t where "timerHeap s 0 = Some t" by metis
  with inv obtain i where "alloc s i = 0" by (auto simp: timer_inv_def heap_ok_def)
  with inv show False by (metis heap_ok_def less_irrefl timer_inv_def)
qed

definition timer_erased :: "nat \<Rightarrow> timer \<Rightarrow> ('m) timer_state_scheme \<Rightarrow> 'm timer_state_scheme" where
  "timer_erased p t s = s\<lparr>timers := oset_erase (tm_expiration t, p) (timers s),
     activeTimers := oset_erase (p, tm_sequence t) (activeTimers s)\<rparr>"

lemma timer_inv_erased:
  assumes inv: "timer_inv s" and t: "timerHeap s p = Some t" and a: "(tm_expiration t, p) \<in> set (timers s)"
  shows "timer_inv (timer_erased p t s)"
proof -
  note core = timer_inv_core [OF inv]
  have k: "active_key s (tm_expiration t, p) = (p, tm_sequence t)" using t by (simp add: active_key_def)
  have "set (activeTimers s) - {(p, tm_sequence t)} = active_key s ` (set (timers s) - {(tm_expiration t, p)})"
    using inj_on_image_set_diff [OF active_key_inj [OF core], of "set (timers s)" "{(tm_expiration t, p)}"] a k
    by (simp add: timer_coreD(3) [OF core])
  then have "timer_core (timer_erased p t s)"
    using timer_coreD [OF core] by (auto simp: timer_core_def timer_erased_def oset_simps active_key_def)
  with inv show ?thesis
    by (auto simp: timer_inv_def heap_ok_def expiring_ok_def timer_erased_def)
qed

text \<open>The outcome of \<open>cancelInLoop\<close> for any identifier.\<close>

definition cancel_outcome :: "nat \<Rightarrow> int \<Rightarrow> ('m) timer_state_scheme \<Rightarrow> 'm timer_state_scheme res" where
  "cancel_outcome p seq s =
     (if (p, seq) \<in> set (activeTimers s) then
        check ((p, seq) \<noteq> last (activeTimers s)) ''itErase != activeTimers_.end()''
          (Inr (timer_erased p (the (timerHeap s p)) s))
      else if callingExpiredTimers s then
        Inr (s\<lparr>cancelingTimers := oset_insert (lock_timer p s, seq) (cancelingTimers s)\<rparr>)
      else Inr s)"

lemma activeD:
  assumes "timer_inv s" and "(p, seq) \<in> set (activeTimers s)"
  obtains t where "timerHeap s p = Some t" "tm_sequence t = seq" "(tm_expiration t, p) \<in> set (timers s)"
proof -
  from assms(2) obtain e where e: "e \<in> set (timers s)" "active_key s e = (p, seq)"
    unfolding timer_coreD(3) [OF timer_inv_core [OF assms(1)]] by auto
  from timer_coreD(4) [OF timer_inv_core [OF assms(1)] e(1)] obtain t where
    t: "timerHeap s (snd e) = Some t" "tm_expiration t = fst e" by blast
  with e show thesis by (intro that [of t]) (auto simp: active_key_def)
qed

lemma cancelInLoop_eq:
  assumes inv: "timer_inv s"
  shows "cancelInLoop p seq s = cancel_outcome p seq s"
proof (cases "(p, seq) \<in> set (activeTimers s)")
  case True
  then obtain t where t: "timerHeap s p = Some t" "tm_sequence t = seq" "(tm_expiration t, p) \<in> set (timers s)"
    using activeD [OF inv] by blast
  have "lock_timer p s = p" using True by (force simp: lock_timer_def timer_held_def)
  moreover have "timer_core (timer_erased p t s)" using timer_inv_erased [OF inv t(1,3)] by simp
  ultimately show ?thesis
    using True t inv by (auto simp: cancelInLoop_def cancel_outcome_def Let_def timer_erased_def check_def)
next
  case False
  then have "(lock_timer p s, seq) \<notin> set (activeTimers s)"
    using null_not_active [OF inv] by (simp add: lock_timer_def)
  moreover have "timer_core (s\<lparr>cancelingTimers := c\<rparr>)" for c
    using inv by (simp add: timer_inv_def timer_core_def active_key_def)
  ultimately show ?thesis
    using False inv by (auto simp: cancelInLoop_def cancel_outcome_def Let_def)
qed

lemma cancelInLoop_keeps:
  assumes inv: "timer_inv s" and "cancelInLoop p seq s = Inr s'"
  shows "timer_inv s' \<and> expiring s' = expiring s \<and> timerHeap s' = timerHeap s"
proof -
  have "timer_inv (s\<lparr>cancelingTimers := c\<rparr>)" for c
    using inv by (simp add: timer_inv_def timer_core_def active_key_def heap_ok_def expiring_ok_def)
  moreover have "timer_inv (timer_erased p (the (timerHeap s p)) s)" if "(p, seq) \<in> set (activeTimers s)"
    using activeD [OF inv that] timer_inv_erased [OF inv] by (metis option.sel)
  ultimately show ?thesis
    using assms(2) inv unfolding cancelInLoop_eq [OF inv]
    by (auto simp: cancel_outcome_def res_simps timer_erased_def split: if_splits)
qed

subsection \<open>User callbacks as programs of timer operations\<close>

datatype timer_act = RunAt time loop_functor | RunAfter double loop_functor | RunEvery double loop_functor
  | Cancel nat int

definition own_call where
  "own_call f s = timer_call (\<lambda>_ s. Inr s) f s"

fun run_act where
  "run_act tid (RunAt time cb) s = bindR (runAt own_call tid time cb s) (\<lambda>(_, s'). Inr s')"
| "run_act tid (RunAfter d cb) s = bindR (runAfter own_call tid d cb s) (\<lambda>(_, s'). Inr s')"
| "run_act tid (RunEvery d cb) s = bindR (runEvery own_call tid d cb s) (\<lambda>(_, s'). Inr s')"
| "run_act tid (Cancel p seq) s = EventLoop_cancel own_call tid (p, seq) s"

definition prog_call where
  "prog_call tid prog f s = (case f of UserFn n \<Rightarrow> foldR (run_act tid) (prog n) s | _ \<Rightarrow> Inr s)"

lemma timer_inv_queue [simp]:
  "timer_inv (queueInLoop tid cb s) = timer_inv s" "expiring (queueInLoop tid cb s) = expiring s"
  "timerHeap (queueInLoop tid cb s) = timerHeap s" "timers (queueInLoop tid cb s) = timers s"
proof -
  have "timers (queueInLoop tid cb s) = timers s" "activeTimers (queueInLoop tid cb s) = activeTimers s"
    "timerHeap (queueInLoop tid cb s) = timerHeap s" "alloc (queueInLoop tid cb s) = alloc s"
    "numCreated (queueInLoop tid cb s) = numCreated s" "expiring (queueInLoop tid cb s) = expiring s"
    by (simp_all add: queueInLoop_def wakeup_def Let_def)
  note same = this
  show "timer_inv (queueInLoop tid cb s) = timer_inv s" by (rule timer_inv_cong) (fact same)+
  show "expiring (queueInLoop tid cb s) = expiring s" "timerHeap (queueInLoop tid cb s) = timerHeap s"
    "timers (queueInLoop tid cb s) = timers s" by (fact same)+
qed

text \<open>Making a timer: the object is new, so the invariant is kept and the timer is in no set.\<close>

lemma addTimer_ok:
  assumes inv: "timer_inv s"
  shows "\<exists>s'. addTimer own_call tid cb when interval s = Inr ((alloc s (numCreated s), int (numCreated s)), s') \<and>
    timer_inv s' \<and> expiring s' = expiring s \<and>
    timerHeap s' = (timerHeap s)(alloc s (numCreated s) \<mapsto> Timer_new cb when interval (numCreated s)) \<and>
    timerHeap s (alloc s (numCreated s)) = None \<and>
    (\<forall>e \<in> set (expiring s). timerHeap s' (snd e) = timerHeap s (snd e)) \<and>
    timers s' = (if isInLoopThread tid s then oset_insert (when, alloc s (numCreated s)) (timers s) else timers s) \<and>
    (isInLoopThread tid s \<and> (timers s = [] \<or> when < fst (hd (timers s))) \<longrightarrow>
      timerfdLog s' = timerfdLog (resetTimerfd when s))"
proof -
  let ?p = "alloc s (numCreated s)" let ?t = "Timer_new cb when interval (numCreated s)"
  let ?s = "s\<lparr>timerHeap := (timerHeap s)(?p \<mapsto> ?t), numCreated := Suc (numCreated s)\<rparr>"
  have fresh: "timerHeap s ?p = None"
  proof (rule ccontr)
    assume "timerHeap s ?p \<noteq> None"
    with inv obtain i where "i < numCreated s" "?p = alloc s i"
      by (auto simp: timer_inv_def heap_ok_def)
    with inv show False by (metis heap_ok_def injD nat_neq_iff timer_inv_def)
  qed
  have sep: "?p \<notin> snd ` set (timers s)" "?p \<notin> snd ` set (expiring s)"
    using fresh inv timer_coreD(4) [OF timer_inv_core [OF inv]]
    by (fastforce simp: timer_inv_def expiring_ok_def)+
  then have ne: "\<forall>e \<in> set (timers s). snd e \<noteq> ?p" "\<forall>e \<in> set (expiring s). snd e \<noteq> ?p" by (metis imageI)+
  then have "timer_core ?s" "expiring_ok (expiring ?s) ?s"
    using inv by (auto simp: timer_inv_def timer_core_def expiring_ok_def active_key_def)
  moreover have "heap_ok ?s" using inv by (fastforce simp: timer_inv_def heap_ok_def less_Suc_eq)
  ultimately have inv': "timer_inv ?s" by (simp add: timer_inv_def)
  have t: "timerHeap ?s ?p = Some ?t" by simp
  show ?thesis
  proof (cases "isInLoopThread tid s")
    case True
    have "?p \<notin> snd ` set (timers ?s)" "?p \<notin> snd ` set (expiring ?s)" using sep by simp_all
    from addTimerInLoop_ok [OF inv' t this] obtain s' where "addTimerInLoop ?p ?s = Inr s'" "timer_inv s'"
      "timers s' = oset_insert (tm_expiration ?t, ?p) (timers ?s)" "expiring s' = expiring ?s" "timerHeap s' = timerHeap ?s"
      "s' = (if timers ?s = [] \<or> tm_expiration ?t < fst (hd (timers ?s))
          then resetTimerfd (tm_expiration ?t) (timer_inserted ?p ?t ?s) else timer_inserted ?p ?t ?s)"
      by blast
    moreover have "timerfdLog (resetTimerfd when (timer_inserted ?p ?t ?s)) = timerfdLog (resetTimerfd when s)"
      by (simp add: resetTimerfd_def read_clock_def timer_inserted_def split_def Let_def)
    ultimately show ?thesis
      using True fresh ne(2)
      by (simp add: addTimer_def runInLoop_def isInLoopThread_def own_call_def timer_call_def Timer_new_def Let_def)
  next
    case False
    with inv' fresh ne(2) show ?thesis
      by (simp add: addTimer_def runInLoop_def isInLoopThread_def Let_def Timer_new_def)
  qed
qed

text \<open>Requesting a timer touches nothing but the clock and the members of the queue.\<close>

definition timer_frame :: "('m) timer_state_scheme \<Rightarrow> 'm timer_state_scheme \<Rightarrow> bool" where
  "timer_frame s s' \<longleftrightarrow> s' = s\<lparr>ticks := ticks s', timerHeap := timerHeap s', numCreated := numCreated s',
     timers := timers s', activeTimers := activeTimers s', timerfdLog := timerfdLog s'\<rparr>"

lemma addTimer_frame:
  assumes "isInLoopThread tid s" and "addTimer own_call tid cb w i s = Inr (tmid, s')"
  shows "timer_frame s s'"
proof -
  let ?s = "s\<lparr>timerHeap := (timerHeap s)(alloc s (numCreated s) \<mapsto> Timer_new cb w i (numCreated s)),
      numCreated := Suc (numCreated s)\<rparr>"
  have "addTimerInLoop (alloc s (numCreated s)) ?s = Inr s'"
    using assms by (auto simp: addTimer_def runInLoop_def isInLoopThread_def own_call_def timer_call_def Let_def res_simps)
  then obtain b s1 where ins: "TimerQueue_insert (alloc s (numCreated s)) ?s = Inr (b, s1)"
      and end': "s' = s1 \<or> (\<exists>w. s' = resetTimerfd w s1)"
    by (auto simp: addTimerInLoop_def res_simps split: if_splits)
  have "s1 = ?s\<lparr>timers := timers s1, activeTimers := activeTimers s1\<rparr>"
    using ins by (cases s) (auto simp: TimerQueue_insert_def sizes_agree_def Let_def res_simps)
  with end' show ?thesis
    by (cases s; cases s1) (auto simp: timer_frame_def resetTimerfd_def read_clock_def split_def Let_def)
qed

lemma timer_frame_tick: "timer_frame (s\<lparr>ticks := n\<rparr>) s' \<Longrightarrow> timer_frame s s'"
  by (cases s; cases s') (simp add: timer_frame_def)

lemma read_clock_timer [simp]: "timer_inv (s\<lparr>ticks := n\<rparr>) = timer_inv s"
  by (rule timer_inv_cong) simp_all

lemma run_act_keeps:
  assumes inv: "timer_inv s" and "run_act tid a s = Inr s'"
  shows "timer_inv s' \<and> expiring s' = expiring s \<and>
    (\<forall>e \<in> set (expiring s). timerHeap s' (snd e) = timerHeap s (snd e))"
proof -
  have add: "timer_inv u' \<and> expiring u' = expiring u \<and>
      (\<forall>e \<in> set (expiring u). timerHeap u' (snd e) = timerHeap u (snd e))"
    if "timer_inv u" "addTimer own_call tid cb w iv u = Inr (i, u')" for cb w iv u u' i
    using addTimer_ok [OF that(1), of tid cb w iv] that(2) by (metis Pair_inject sum.inject(2))
  show ?thesis
  proof (cases a)
    case (Cancel p seq)
    with assms cancelInLoop_keeps [OF inv, of p seq] show ?thesis
      by (auto simp: EventLoop_cancel_def TimerQueue_cancel_def runInLoop_def own_call_def timer_call_def
          split: if_splits)
  next
    case (RunAt w cb)
    with assms(2) obtain i where "addTimer own_call tid cb w 0 s = Inr (i, s')"
      by (auto simp: runAt_def res_simps)
    from add [OF inv this] show ?thesis .
  next
    case (RunAfter d cb)
    with assms(2) obtain i w where "addTimer own_call tid cb w 0 (s\<lparr>ticks := Suc (ticks s)\<rparr>) = Inr (i, s')"
      by (auto simp: runAfter_def runAt_def read_clock_def res_simps)
    from add [OF _ this] inv show ?thesis by simp
  next
    case (RunEvery d cb)
    with assms(2) obtain i w where "addTimer own_call tid cb w d (s\<lparr>ticks := Suc (ticks s)\<rparr>) = Inr (i, s')"
      by (auto simp: runEvery_def read_clock_def res_simps)
    from add [OF _ this] inv show ?thesis by simp
  qed
qed

interpretation tq: timer_callbacks "prog_call tid prog"
proof unfold_locales
  fix s s' :: "'m timer_state_scheme" and f
  assume inv: "timer_inv s" and run: "prog_call tid prog f s = Inr s'"
  let ?I = "\<lambda>u. timer_inv u \<and> expiring u = expiring s \<and>
    (\<forall>e \<in> set (expiring s). timerHeap u (snd e) = timerHeap s (snd e))"
  have "?I s'" if "foldR (run_act tid) as s = Inr s'" for as
  proof (rule foldR_invariant [where I = ?I, OF _ _ that])
    fix a u u'
    assume "?I u" "run_act tid a u = Inr u'"
    with run_act_keeps [of u tid a u'] show "?I u'" by auto
  qed (use inv in simp)
  with run inv show "?I s'" by (auto simp: prog_call_def split: loop_functor.splits)
qed

subsection \<open>Properties\<close>

text \<open>
  A timer that expires exactly at the time read in \<open>handleRead\<close> ends the process: the sentry of
  \<open>getExpired\<close> carries the smallest address, so that timer is not before it, and the assertion
  that the next one is later fails.
\<close>

theorem exact_expiry_aborts:
  assumes "timer_inv s" and "e \<in> set (timers s)" and "fst e = clock s (ticks s)"
  shows "TimerQueue_handleRead call s = Inl (AssertFailed ''it == timers_.end() || now < it->first'')"
proof -
  let ?u = "readTimerfd (s\<lparr>ticks := Suc (ticks s)\<rparr>)"
  have u: "timers ?u = timers s" "activeTimers ?u = activeTimers s" "timerHeap ?u = timerHeap s"
    by (simp_all add: readTimerfd_def)
  have "timer_core ?u" using assms(1) timer_inv_cong(1) [OF u] by simp
  from getExpired_eq [OF this, of "clock s (ticks s)"] assms(2,3) u show ?thesis
    by (auto simp: TimerQueue_handleRead_def read_clock_def)
qed

text \<open>
  C4: When the timer descriptor fires, \<open>TimerQueue::handleRead\<close> reads the clock.  If some timer expires exactly at the time
  read, the assertion of \<open>getExpired\<close> fails and the process ends.  Otherwise it takes out exactly the timers due
  before that time, runs their callbacks in the order of their expiration, and afterwards the
  queue holds what the callbacks left plus, at that time plus their interval, the repeating ones that
  no callback cancelled; a one-shot or cancelled timer is gone.  The callbacks are arbitrary programs of
  timer operations; in this second case, unless one of them fails, no assertion of the queue does and its invariant
  holds at the end.
\<close>

theorem timers_fire:
  fixes s :: "('m) timer_state_scheme"
  assumes "timer_inv s" and "expiring s = []" and "now = clock s (ticks s)"
  shows "if \<exists>e \<in> set (timers s). fst e = now
    then TimerQueue_handleRead (prog_call tid prog) s = Inl (AssertFailed ''it == timers_.end() || now < it->first'')
    else \<exists>s0 :: 'm timer_state_scheme.
      timers s0 = filter (\<lambda>e. \<not> fst e < now) (timers s) \<and> timerHeap s0 = timerHeap s \<and>
      timer_inv s0 \<and> expiring s0 = due now s \<and> callingExpiredTimers s0 \<and> cancelingTimers s0 = [] \<and>
      (case foldR (run_timer (prog_call tid prog)) (due now s) s0 of
         Inl err \<Rightarrow> TimerQueue_handleRead (prog_call tid prog) s = Inl err
       | Inr s3 \<Rightarrow> \<exists>s4. TimerQueue_handleRead (prog_call tid prog) s = Inr s4 \<and> timer_inv s4 \<and> expiring s4 = [] \<and>
           set (timers s4) = set (timers s3) \<union>
             (\<lambda>e. (addTime now (tm_interval (the (timerHeap s (snd e)))), snd e)) ` {e \<in> set (due now s). restarts s3 e})"
proof (cases "\<exists>e \<in> set (timers s). fst e = now")
  case True
  with exact_expiry_aborts [OF assms(1)] assms(3) show ?thesis by auto
next
  case False
  then have "\<forall>e \<in> set (timers s). fst e \<noteq> now" by blast
  from tq.handleRead_fires [OF assms this] False show ?thesis by simp
qed

text \<open>
  C30: Cancelling any identifier in the loop thread.  That of an active timer, which is one alive, in the queue and with
  that sequence number, is removed from both sets, except that
  the assertion on the erase's result fails when it is the last of the active set.  Any other identifier, be its timer
  expired, cancelled before, destroyed or one whose address is used again under another number, changes neither set: while expired timers are being
  run an entry for it goes into \<open>cancelingTimers_\<close>, under the null pointer when its timer is gone, which keeps a timer whose
  callback is being run from being restarted; at other times nothing changes at all.
\<close>

theorem cancelInLoop_behaviour:
  assumes "timer_inv s"
  shows "cancelInLoop p seq s =
    (if \<exists>t. timerHeap s p = Some t \<and> tm_sequence t = seq \<and> (tm_expiration t, p) \<in> set (timers s) then
       if (p, seq) = last (activeTimers s) then Inl (AssertFailed ''itErase != activeTimers_.end()'')
       else Inr (s\<lparr>timers := oset_erase (tm_expiration (the (timerHeap s p)), p) (timers s),
                   activeTimers := oset_erase (p, seq) (activeTimers s)\<rparr>)
     else if callingExpiredTimers s then
       Inr (s\<lparr>cancelingTimers := oset_insert (if timer_held p s then p else 0, seq) (cancelingTimers s)\<rparr>)
     else Inr s) \<and>
    (\<forall>s'. cancelInLoop p seq s = Inr s' \<longrightarrow> timer_inv s')"
proof (rule conjI)
  show "\<forall>s'. cancelInLoop p seq s = Inr s' \<longrightarrow> timer_inv s'"
    using cancelInLoop_keeps [OF assms] by blast
  have act: "(p, seq) \<in> set (activeTimers s) \<longleftrightarrow>
      (\<exists>t. timerHeap s p = Some t \<and> tm_sequence t = seq \<and> (tm_expiration t, p) \<in> set (timers s))"
    using activeD [OF assms, of p seq] active_iff [OF timer_inv_core [OF assms], of p] by blast
  then have "tm_sequence (the (timerHeap s p)) = seq" if "(p, seq) \<in> set (activeTimers s)" using that by auto
  then show "cancelInLoop p seq s =
    (if \<exists>t. timerHeap s p = Some t \<and> tm_sequence t = seq \<and> (tm_expiration t, p) \<in> set (timers s) then
       if (p, seq) = last (activeTimers s) then Inl (AssertFailed ''itErase != activeTimers_.end()'')
       else Inr (s\<lparr>timers := oset_erase (tm_expiration (the (timerHeap s p)), p) (timers s),
                   activeTimers := oset_erase (p, seq) (activeTimers s)\<rparr>)
     else if callingExpiredTimers s then
       Inr (s\<lparr>cancelingTimers := oset_insert (if timer_held p s then p else 0, seq) (cancelingTimers s)\<rparr>)
     else Inr s)"
    unfolding act [symmetric]
    by (auto simp: cancelInLoop_eq [OF assms] cancel_outcome_def timer_erased_def lock_timer_def check_def)
qed

text \<open>
  C36: The delay given to the timer descriptor is a normalised time of at least 100 microseconds, and
  a timer more than that away makes it fire within a microsecond of its expiration.
\<close>

theorem howMuchTimeFromNow_accurate:
  assumes "0 \<le> when" and "0 \<le> now" and "howMuchTimeFromNow when now = (sec, nsec)"
  shows "0 \<le> sec \<and> 0 \<le> nsec \<and> nsec < 1000000000 \<and> 100000 \<le> sec * 1000000000 + nsec \<and>
    (now + 101000 \<le> when \<longrightarrow> \<bar>now + (sec * 1000000000 + nsec) - when\<bar> < 1000)"
proof -
  define d where "d = when div 1000 - now div 1000"
  define m where "m = (if d < 100 then 100 else d)"
  have m: "100 \<le> m" by (simp add: m_def)
  have us: "microSecondsSinceEpoch when = when div 1000" "microSecondsSinceEpoch now = now div 1000"
    using assms(1,2) by (simp_all add: microSecondsSinceEpoch_def sdiv_nonneg)
  have mod: "m smod 1000000 = m mod 1000000"
    using m by (simp add: signed_modulo_int_def sdiv_nonneg minus_div_mult_eq_mod)
  have "sec = m div 1000000" "nsec = m mod 1000000 * 1000"
    using assms(3) m mod
    by (simp_all add: howMuchTimeFromNow_def us d_def [symmetric] m_def [symmetric]
        kMicroSecondsPerSecond_def sdiv_nonneg Let_def)
  then have tot: "sec * 1000000000 + nsec = m * 1000" "0 \<le> sec" "0 \<le> nsec" "nsec < 1000000000"
    using m by (presburger, simp_all add: pos_imp_zdiv_nonneg_iff)
  moreover have "\<bar>now + m * 1000 - when\<bar> < 1000" if "now + 101000 \<le> when"
    using that unfolding m_def d_def by (simp split: if_splits) linarith
  ultimately show ?thesis using m by simp
qed

text \<open>
  A timer requested from the loop thread with \<open>runAfter\<close> is in the queue at the time of the call
  plus the delay, under the identifier returned; if it is the earliest, the timer descriptor has been
  set for it with the next reading of the clock; and no assertion fails.
\<close>

theorem runAfter_arms:
  assumes "timer_inv s" and "isInLoopThread tid s"
    and "w = addTime (clock s (ticks s)) delay" and "p = alloc s (numCreated s)"
    and "timers s = [] \<or> w < fst (hd (timers s))"
    and "howMuchTimeFromNow w (clock s (Suc (ticks s))) = (sec, nsec)"
  shows "\<exists>s'. runAfter own_call tid delay cb s = Inr ((p, int (numCreated s)), s') \<and> timer_inv s' \<and>
    timers s' = oset_insert (w, p) (timers s) \<and>
    timerfdLog s' = timerfdLog s @ [TfdSet (clock s (Suc (ticks s))) sec nsec]"
proof -
  let ?s = "s\<lparr>ticks := Suc (ticks s)\<rparr>"
  obtain s' where s': "addTimer own_call tid cb w 0 ?s = Inr ((p, int (numCreated s)), s')" "timer_inv s'"
      "timers s' = oset_insert (w, p) (timers s)" "timerfdLog s' = timerfdLog (resetTimerfd w ?s)"
    using addTimer_ok [of ?s tid cb w 0] assms(1,2,4,5) by (auto simp: isInLoopThread_def)
  moreover have "timerfdLog (resetTimerfd w ?s) = timerfdLog s @ [TfdSet (clock s (Suc (ticks s))) sec nsec]"
    using assms(6) by (simp add: resetTimerfd_def read_clock_def)
  ultimately show ?thesis using assms(3) by (simp add: runAfter_def runAt_def read_clock_def)
qed

text \<open>
  With no timer left, \<open>handleRead\<close> sets the timer descriptor to fire again after 100 microseconds:
  the default \<open>Timestamp\<close> counts as valid, so an idle loop that ever had a timer keeps waking up.
\<close>

theorem idle_queue_rearms:
  assumes "timers s = []" and "activeTimers s = []" and "0 \<le> clock s (Suc (ticks s))"
  shows "\<exists>s'. TimerQueue_handleRead call s = Inr s' \<and> timers s' = [] \<and>
    timerfdLog s' = timerfdLog s @ [TfdRead, TfdSet (clock s (Suc (ticks s))) 0 100000]"
proof -
  have "howMuchTimeFromNow 0 (clock s (Suc (ticks s))) = (0, 100000)"
    using assms(3)
    by (simp add: howMuchTimeFromNow_def microSecondsSinceEpoch_def sdiv_nonneg signed_modulo_int_def
        kMicroSecondsPerSecond_def pos_imp_zdiv_nonneg_iff Let_def)
  with assms(1,2) show ?thesis
    by (simp add: TimerQueue_handleRead_def read_clock_def getExpired_def sizes_agree_def readTimerfd_def
        TimerQueue_reset_def Timestamp_valid_def Timestamp_default_def resetTimerfd_def Let_def)
qed

subsection \<open>Witnesses\<close>

definition tq_demo_timer :: "nat \<Rightarrow> timer" where
  "tq_demo_timer i = Timer_new (UserFn i) (5 + int i) (if i = 0 then 1 / 2 else 0) i"

text \<open>A queue with a repeating timer due at 5 and a one-shot timer due at 6; the clock reads 10.\<close>

definition tq_demo :: timer_state where
  "tq_demo = \<lparr>chans = (\<lambda>_. None), epollfd = 3, eventListSize = 16, channelMap = (\<lambda>_. None), ctlLog = [],
     lp_this = 0, looping = True, quit_flag = False, callingPendingFunctors = False, threadId = 1,
     pollReturnTime = 0, wakeupFd = 5, wakeupChannel = 1, wakeupLog = [], pendingFunctors = [],
     clock = (\<lambda>_. 10), ticks = 0, timerfd = 4, timerfdChannel = 2,
     timerHeap = [1 \<mapsto> tq_demo_timer 0, 2 \<mapsto> tq_demo_timer 1], alloc = Suc, numCreated = 2,
     timers = [(5, 1), (6, 2)], activeTimers = [(1, 0), (2, 1)], cancelingTimers = [],
     callingExpiredTimers = False, expiring = [], timerfdLog = []\<rparr>"

lemma tq_demo_inv: "timer_inv tq_demo"
proof -
  have "timer_core tq_demo" "expiring_ok [] tq_demo"
    by (simp_all add: timer_core_def expiring_ok_def tq_demo_def oset_def active_key_def tq_demo_timer_def Timer_new_def)
  moreover have "heap_ok tq_demo" by (auto simp: heap_ok_def tq_demo_def split: if_splits)
  ultimately show ?thesis by (simp add: timer_inv_def tq_demo_def)
qed

theorem timers_fire_witness:
  "\<exists>s4. TimerQueue_handleRead (prog_call 1 (\<lambda>_. [])) tq_demo = Inr s4 \<and> timer_inv s4 \<and>
     set (timers s4) = {(500000010, 1)}"
proof -
  have facts: "expiring tq_demo = []" "10 = clock tq_demo (ticks tq_demo)"
    "\<forall>e \<in> set (timers tq_demo). fst e \<noteq> 10" "due 10 tq_demo = [(5, 1), (6, 2)]"
    by (simp_all add: tq_demo_def due_def)
  have iv: "addTime 10 (1 / 2) = 500000010" by (simp add: addTime_def kMicroSecondsPerSecond_def fl_int [of 500000, simplified] truncate_int [of 500000, simplified])
  let ?call = "prog_call 1 (\<lambda>_. [])"
  have "\<not> (\<exists>e \<in> set (timers tq_demo). fst e = 10)" using facts(3) by blast
  from timers_fire [OF tq_demo_inv facts(1,2), of 1 "\<lambda>_. []", unfolded if_not_P [OF this]] obtain s0 :: timer_state where s0:
    "timers s0 = filter (\<lambda>e. \<not> fst e < 10) (timers tq_demo)" "timerHeap s0 = timerHeap tq_demo" "cancelingTimers s0 = []"
    "case foldR (run_timer ?call) (due 10 tq_demo) s0 of
       Inl err \<Rightarrow> TimerQueue_handleRead ?call tq_demo = Inl err
     | Inr s3 \<Rightarrow> \<exists>s4. TimerQueue_handleRead ?call tq_demo = Inr s4 \<and> timer_inv s4 \<and> expiring s4 = [] \<and>
         set (timers s4) = set (timers s3) \<union>
           (\<lambda>e. (addTime 10 (tm_interval (the (timerHeap tq_demo (snd e)))), snd e)) ` {e \<in> set (due 10 tq_demo). restarts s3 e}"
    by blast
  have none: "timers s0 = []" unfolding s0(1) by (simp add: tq_demo_def)
  have heap: "timerHeap tq_demo 1 = Some (tq_demo_timer 0)" "timerHeap tq_demo 2 = Some (tq_demo_timer 1)"
    by (simp_all add: tq_demo_def)
  have "foldR (run_timer ?call) (due 10 tq_demo) s0 = Inr s0"
    using s0(2) heap unfolding facts(4) by (simp add: run_timer_def prog_call_def tq_demo_timer_def Timer_new_def)
  moreover have "{e \<in> set (due 10 tq_demo). restarts s0 e} = {(5, 1)}"
    using s0(2,3) heap unfolding facts(4) by (auto simp: restarts_def tq_demo_timer_def Timer_new_def)
  ultimately show ?thesis
    using none s0(4) heap iv by (auto simp: tq_demo_timer_def Timer_new_def)
qed

theorem cancelInLoop_behaviour_witness:
  "cancelInLoop 1 0 tq_demo = Inr (tq_demo\<lparr>timers := [(6, 2)], activeTimers := [(2, 1)]\<rparr>) \<and>
   cancelInLoop 2 1 tq_demo = Inl (AssertFailed ''itErase != activeTimers_.end()'') \<and>
   cancelInLoop 2 7 tq_demo = Inr tq_demo \<and> cancelInLoop 5 0 tq_demo = Inr tq_demo"
  using cancelInLoop_behaviour [OF tq_demo_inv, of 1 0] cancelInLoop_behaviour [OF tq_demo_inv, of 2 1]
    cancelInLoop_behaviour [OF tq_demo_inv, of 2 7] cancelInLoop_behaviour [OF tq_demo_inv, of 5 0]
  by (simp add: tq_demo_def tq_demo_timer_def Timer_new_def oset_erase_def)

theorem howMuchTimeFromNow_accurate_witness: "howMuchTimeFromNow 2500000999 10 = (2, 500000000) \<and>
    \<bar>10 + (2 * 1000000000 + 500000000) - 2500000999 :: int\<bar> < 1000"
proof -
  have "howMuchTimeFromNow 2500000999 10 = (2, 500000000)"
    by (simp add: howMuchTimeFromNow_def microSecondsSinceEpoch_def kMicroSecondsPerSecond_def
        signed_divide_int_def signed_modulo_int_def)
  with howMuchTimeFromNow_accurate [of 2500000999 10 2 500000000] show ?thesis by simp
qed

theorem runAfter_arms_witness:
  "\<exists>s'. runAfter own_call 1 (-1) (UserFn 9) tq_demo = Inr ((3, 2), s') \<and> timer_inv s' \<and>
     (-999999990, 3) \<in> set (timers s')"
proof -
  have iv: "addTime 10 (-1) = -999999990"
    using fl_int [of "-1000000"] truncate_int [of "-1000000"] by (simp add: addTime_def kMicroSecondsPerSecond_def)
  obtain sec nsec where h: "howMuchTimeFromNow (-999999990) 10 = (sec, nsec)" by force
  from runAfter_arms [OF tq_demo_inv, of 1 "-999999990" "-1" 3 sec nsec "UserFn 9"] iv h show ?thesis
    by (fastforce simp: tq_demo_def isInLoopThread_def)
qed

theorem exact_expiry_aborts_witness:
  "TimerQueue_handleRead (prog_call 1 (\<lambda>_. [])) (tq_demo\<lparr>clock := (\<lambda>_. 6)\<rparr>) =
     Inl (AssertFailed ''it == timers_.end() || now < it->first'')"
proof -
  have "timer_inv (tq_demo\<lparr>clock := (\<lambda>_. 6)\<rparr>)"
    using tq_demo_inv timer_inv_cong(4) [of "tq_demo\<lparr>clock := (\<lambda>_. 6)\<rparr>" tq_demo] by simp
  from exact_expiry_aborts [OF this, of "(6, 2)"] show ?thesis by (simp add: tq_demo_def)
qed

theorem idle_queue_rearms_witness:
  "\<exists>s'. TimerQueue_handleRead (prog_call 1 (\<lambda>_. [])) (tq_demo\<lparr>timers := [], activeTimers := []\<rparr>) = Inr s' \<and>
    timers s' = [] \<and> timerfdLog s' = [TfdRead, TfdSet 10 0 100000]"
  using idle_queue_rearms [of "tq_demo\<lparr>timers := [], activeTimers := []\<rparr>" "prog_call 1 (\<lambda>_. [])"]
  by (simp add: tq_demo_def)

end
