(* ===== verification/SocketsOps.thy ===== *)
theory SocketsOps
  imports Prelude
begin

section \<open>Byte order and socket helpers (SocketsOps, InetAddress)\<close>

text \<open>
  \<open>chaonet/include/SocketsOps.h\<close>, \<open>chaonet/src/SocketsOps.cpp\<close>, \<open>InetAddress.h\<close> and
  \<open>InetAddress.cpp\<close>.  An integer in memory is its object representation, a list of bytes whose
  order is the host's: the flag \<open>le\<close> says whether the host is little-endian, and every statement
  below holds for both.  \<open>inet_ntop\<close>, \<open>inet_pton\<close>, \<open>getsockname\<close>, \<open>getpeername\<close>,
  \<open>getsockopt\<close> and \<open>gethostbyname_r\<close> belong to the operating system: their results are
  arguments of the definitions.
\<close>

subsection \<open>Object representation of unsigned integers\<close>

fun le_bytes :: "nat \<Rightarrow> nat \<Rightarrow> char list" where
  "le_bytes 0 v = []"
| "le_bytes (Suc n) v = char_of v # le_bytes n (v div 256)"

fun of_le_bytes :: "char list \<Rightarrow> nat" where
  "of_le_bytes [] = 0"
| "of_le_bytes (c # cs) = of_char c + 256 * of_le_bytes cs"

definition to_mem :: "bool \<Rightarrow> nat \<Rightarrow> 'a::len word \<Rightarrow> char list" where
  "to_mem le n w = (if le then le_bytes n (unat w) else rev (le_bytes n (unat w)))"

definition of_mem :: "bool \<Rightarrow> char list \<Rightarrow> 'a::len word" where
  "of_mem le cs = word_of_nat (of_le_bytes (if le then cs else rev cs))"

definition bswap :: "nat \<Rightarrow> 'a::len word \<Rightarrow> 'a word" where
  "bswap n w = word_of_nat (of_le_bytes (rev (le_bytes n (unat w))))"

subsection \<open>hostToNetwork and networkToHost\<close>

definition hostToNetwork64 :: "bool \<Rightarrow> 64 word \<Rightarrow> 64 word" where
  "hostToNetwork64 le host64 = (if le then bswap 8 host64 else host64)"

definition hostToNetwork32 :: "bool \<Rightarrow> 32 word \<Rightarrow> 32 word" where
  "hostToNetwork32 le host32 = (if le then bswap 4 host32 else host32)"

definition hostToNetwork16 :: "bool \<Rightarrow> 16 word \<Rightarrow> 16 word" where
  "hostToNetwork16 le host16 = (if le then bswap 2 host16 else host16)"

definition networkToHost64 :: "bool \<Rightarrow> 64 word \<Rightarrow> 64 word" where
  "networkToHost64 le net64 = (if le then bswap 8 net64 else net64)"

definition networkToHost32 :: "bool \<Rightarrow> 32 word \<Rightarrow> 32 word" where
  "networkToHost32 le net32 = (if le then bswap 4 net32 else net32)"

definition networkToHost16 :: "bool \<Rightarrow> 16 word \<Rightarrow> 16 word" where
  "networkToHost16 le net16 = (if le then bswap 2 net16 else net16)"

subsection \<open>Socket addresses\<close>

record sockaddr_in =
  sin_family :: "16 word"
  sin_port :: "16 word"
  s_addr :: "32 word"

definition AF_INET :: "16 word" where
  "AF_INET = 2"

definition zero_addr :: sockaddr_in where
  "zero_addr = \<lparr>sin_family = 0, sin_port = 0, s_addr = 0\<rparr>"

text \<open>
  \<open>snprintf(buf, sz, "%s:%u", host, port)\<close>: at most \<open>sz - 1\<close> characters are kept.  \<open>host\<close> is
  the array that \<open>inet_ntop\<close> filled, or its initial value when the call failed.
\<close>

definition sockets_toHostPort :: "bool \<Rightarrow> (32 word \<Rightarrow> string option) \<Rightarrow> nat \<Rightarrow> sockaddr_in \<Rightarrow> string" where
  "sockets_toHostPort le inet_ntop sz addr =
     (let host = (case inet_ntop (s_addr addr) of None \<Rightarrow> ''INVALID'' | Some h \<Rightarrow> h);
          port = networkToHost16 le (sin_port addr)
      in take (sz - 1) (host @ '':'' @ show_nat (unat port)))"

definition sockets_fromHostPort ::
    "bool \<Rightarrow> (string \<Rightarrow> 32 word option) \<Rightarrow> string \<Rightarrow> 16 word \<Rightarrow> sockaddr_in \<Rightarrow> sockaddr_in" where
  "sockets_fromHostPort le inet_pton ip port addr =
     (let addr' = addr\<lparr>sin_family := AF_INET, sin_port := hostToNetwork16 le port\<rparr>
      in case inet_pton ip of None \<Rightarrow> addr' | Some a \<Rightarrow> addr'\<lparr>s_addr := a\<rparr>)"

definition getLocalAddr :: "sockaddr_in option \<Rightarrow> sockaddr_in" where
  "getLocalAddr getsockname = (case getsockname of None \<Rightarrow> zero_addr | Some a \<Rightarrow> a)"

definition getPeerAddr :: "sockaddr_in option \<Rightarrow> sockaddr_in" where
  "getPeerAddr getpeername = (case getpeername of None \<Rightarrow> zero_addr | Some a \<Rightarrow> a)"

definition getSocketError :: "int + int \<Rightarrow> int" where
  "getSocketError getsockopt = (case getsockopt of Inl errno \<Rightarrow> errno | Inr optval \<Rightarrow> optval)"

definition isSelfConnect :: "sockaddr_in option \<Rightarrow> sockaddr_in option \<Rightarrow> bool" where
  "isSelfConnect getsockname getpeername =
     (let localaddr = getLocalAddr getsockname; peeraddr = getPeerAddr getpeername
      in sin_port localaddr = sin_port peeraddr \<and> s_addr localaddr = s_addr peeraddr)"

text \<open>
  The two \<open>fcntl\<close> calls that \<open>setNonBlockAndCloseOnExec\<close> makes to set flags, with the values it
  passes.  \<open>getfl\<close> and \<open>getfd\<close> are what \<open>F_GETFL\<close> and \<open>F_GETFD\<close> returned.
\<close>

datatype fcntl_call = F_SETFL "32 word" | F_SETFD "32 word"

definition FD_CLOEXEC :: "32 word" where
  "FD_CLOEXEC = 1"

definition O_NONBLOCK :: "32 word" where
  "O_NONBLOCK = 2048"

definition setNonBlockAndCloseOnExec :: "32 word \<Rightarrow> 32 word \<Rightarrow> fcntl_call list" where
  "setNonBlockAndCloseOnExec getfl getfd =
     (let flags = getfl OR O_NONBLOCK;
          call1 = F_SETFL 0;
          flags2 = getfd OR FD_CLOEXEC
      in [call1, F_SETFD flags2])"

subsection \<open>Creating, connecting and accepting\<close>

text \<open>
  The wrappers of \<open>socket\<close>, \<open>connect\<close> and \<open>accept4\<close>: the result of the system call is an argument.  None of the functions
  called \<open>\<dots>OrDie\<close> ends the process: a failure is logged and the negative result goes on.  \<open>errno\<close> after a call of the logger
  is \<open>logged e\<close> when it was \<open>e\<close> before, an arbitrary function; the numbers are those of Linux.
\<close>

definition createNonblockingOrDie :: "int \<Rightarrow> int \<times> log_line list" where
  "createNonblockingOrDie sockfd = (sockfd, if sockfd < 0 then [(''sockets::createNonblockingOrDie'', [])] else [])"

definition sockets_connect :: "(int \<Rightarrow> sockaddr_in \<Rightarrow> int) \<Rightarrow> int \<Rightarrow> sockaddr_in \<Rightarrow> int" where
  "sockets_connect osConnect sockfd addr = osConnect sockfd addr"

definition EINTR :: int where "EINTR = 4"
definition EBADF :: int where "EBADF = 9"
definition EAGAIN :: int where "EAGAIN = 11"
definition ENOMEM :: int where "ENOMEM = 12"
definition EFAULT :: int where "EFAULT = 14"
definition EINVAL :: int where "EINVAL = 22"
definition EMFILE :: int where "EMFILE = 24"
definition EPROTO :: int where "EPROTO = 71"
definition ENOTSOCK :: int where "ENOTSOCK = 88"
definition EOPNOTSUPP :: int where "EOPNOTSUPP = 95"
definition ECONNABORTED :: int where "ECONNABORTED = 103"
definition ENOBUFS :: int where "ENOBUFS = 105"

lemmas errno_consts = EINTR_def EBADF_def EAGAIN_def ENOMEM_def EFAULT_def EINVAL_def EMFILE_def EPROTO_def ENOTSOCK_def
  EOPNOTSUPP_def ECONNABORTED_def ENOBUFS_def

text \<open>\<open>accept\<close>: the descriptor, \<open>errno\<close> afterwards and what was logged; \<open>r\<close> is the result of \<open>accept4\<close> and \<open>errno\<close> after it.\<close>

definition sockets_accept :: "(int \<Rightarrow> int) \<Rightarrow> int \<times> int \<Rightarrow> int \<times> int \<times> log_line list" where
  "sockets_accept logged r =
     (let (connfd, errno) = r in
      if connfd < 0 then
        (let savedErrno = errno; errno1 = logged errno; log1 = [(''Socket::accept'', [])] in
         if savedErrno \<in> set [EAGAIN, ECONNABORTED, EINTR, EPROTO, EMFILE] then (connfd, savedErrno, log1)
         else if savedErrno \<in> set [EBADF, EFAULT, EINVAL, ENOBUFS, ENOMEM, ENOTSOCK, EOPNOTSUPP] then
           (connfd, logged errno1, log1 @ [(''unexpected error of ::accept {}'', [savedErrno])])
         else (connfd, logged errno1, log1 @ [(''unknown error of ::accept {}'', [savedErrno])]))
      else (connfd, errno, []))"

lemma sockets_accept_fd: "fst (sockets_accept logged r) = fst r"
  by (simp add: sockets_accept_def Let_def split: prod.split)

subsection \<open>InetAddress\<close>

definition INADDR_ANY :: "32 word" where
  "INADDR_ANY = 0"

definition InetAddress_port :: "bool \<Rightarrow> 64 word \<Rightarrow> sockaddr_in" where
  "InetAddress_port le port =
     zero_addr\<lparr>sin_family := AF_INET,
       s_addr := hostToNetwork32 le INADDR_ANY,
       sin_port := hostToNetwork16 le (ucast port)\<rparr>"

definition InetAddress_ip ::
    "bool \<Rightarrow> (string \<Rightarrow> 32 word option) \<Rightarrow> string \<Rightarrow> 16 word \<Rightarrow> sockaddr_in" where
  "InetAddress_ip le inet_pton ip port = sockets_fromHostPort le inet_pton ip port zero_addr"

definition InetAddress_toHostPort :: "bool \<Rightarrow> (32 word \<Rightarrow> string option) \<Rightarrow> sockaddr_in \<Rightarrow> string" where
  "InetAddress_toHostPort le inet_ntop addr = sockets_toHostPort le inet_ntop 32 addr"

text \<open>
  \<open>gethostbyname_r\<close> answers with its return value and, when \<open>he\<close> is not null, the address type,
  the address length and the first address.
\<close>

record hostent =
  h_addrtype :: "16 word"
  h_length :: nat
  h_addr :: "32 word"

definition InetAddress_resolve ::
    "int \<times> hostent option \<Rightarrow> sockaddr_in \<Rightarrow> (bool \<times> sockaddr_in) res" where
  "InetAddress_resolve gethostbyname out =
     (case gethostbyname of (ret, he) \<Rightarrow>
       (case he of
          Some h \<Rightarrow>
            if ret = 0 then
              check (h_addrtype h = AF_INET \<and> h_length h = 4)
                ''he->h_addrtype == AF_INET && he->h_length == sizeof(uint32_t)''
                (Inr (True, out\<lparr>s_addr := h_addr h\<rparr>))
            else Inr (False, out)
        | None \<Rightarrow> Inr (False, out)))"

definition ipv4NetEndian :: "sockaddr_in \<Rightarrow> 32 word res" where
  "ipv4NetEndian a = check (sin_family a = AF_INET) ''addr_.sin_family == AF_INET'' (Inr (s_addr a))"

subsection \<open>Byte-order lemmas\<close>

lemma length_le_bytes [simp]: "length (le_bytes n v) = n"
  by (induction n arbitrary: v) auto

lemma of_le_le_bytes: "of_le_bytes (le_bytes n v) = v mod 256 ^ n"
proof (induction n arbitrary: v)
  case (Suc n)
  have "of_char (char_of v :: char) = (v mod 256 :: nat)" by simp
  with Suc show ?case by (simp add: mod_mult2_eq [of v 256])
qed simp

lemma of_le_bytes_less: "of_le_bytes cs < 256 ^ length cs"
proof (induction cs)
  case (Cons c cs)
  have "of_char c < (256::nat)" by (simp add: nat_of_char_less_256)
  moreover have "of_le_bytes cs + 1 \<le> 256 ^ length cs" using Cons by simp
  ultimately have "of_char c + 256 * of_le_bytes cs < 256 * 256 ^ length cs" by linarith
  then show ?case by simp
qed simp

lemma char_of_of_char_add: "char_of (of_char c + 256 * k) = (c :: char)" for k :: nat
proof -
  have "char_of (of_char c + 256 * k) = (char_of ((of_char c + 256 * k) mod 256) :: char)"
    by (rule char_of_mod_256 [symmetric])
  also have "(of_char c + 256 * k) mod 256 = (of_char c mod 256 :: nat)"
    by simp
  finally show ?thesis
    by (simp del: of_char_mod_256)
qed

lemma le_bytes_of_le: "le_bytes (length cs) (of_le_bytes cs) = cs"
proof (induction cs)
  case (Cons c cs)
  have "of_char c < (256::nat)" by (simp add: nat_of_char_less_256)
  then have "(of_char c + 256 * of_le_bytes cs) div 256 = of_le_bytes cs" by simp
  with Cons show ?case by (simp add: char_of_of_char_add)
qed simp

text \<open>For a word of exactly \<open>n\<close> bytes, swapping reverses its object representation.\<close>

lemma unat_bswap:
  fixes w :: "'a::len word"
  assumes "LENGTH('a) = 8 * n"
  shows "unat (bswap n w) = of_le_bytes (rev (le_bytes n (unat w)))"
proof -
  have "of_le_bytes (rev (le_bytes n (unat w))) < 256 ^ n"
    using of_le_bytes_less [of "rev (le_bytes n (unat w))"] by simp
  also have "(256::nat) ^ n = 2 ^ LENGTH('a)"
    by (simp add: assms power_mult)
  finally show ?thesis
    by (simp add: bswap_def unat_of_nat take_bit_nat_eq_self)
qed

lemma le_bytes_bswap:
  fixes w :: "'a::len word"
  assumes "LENGTH('a) = 8 * n"
  shows "le_bytes n (unat (bswap n w)) = rev (le_bytes n (unat w))"
  using le_bytes_of_le [of "rev (le_bytes n (unat w))"] by (simp add: unat_bswap [OF assms])

lemma of_mem_to_mem:
  fixes w :: "'a::len word"
  assumes "LENGTH('a) = 8 * n"
  shows "of_mem le (to_mem le n w) = w"
proof -
  have "unat w < 256 ^ n"
    using unsigned_less [of w, where ?'a = nat] by (simp add: assms power_mult)
  then show ?thesis
    by (simp add: of_mem_def to_mem_def of_le_le_bytes)
qed

lemma bswap_bswap:
  fixes w :: "'a::len word"
  assumes "LENGTH('a) = 8 * n"
  shows "bswap n (bswap n w) = w"
proof -
  have "bswap n (bswap n w) = of_mem True (to_mem True n w)"
    by (simp add: bswap_def [of n "bswap n w"] le_bytes_bswap [OF assms] of_mem_def to_mem_def)
  then show ?thesis by (simp add: of_mem_to_mem [OF assms])
qed

lemma networkToHost_hostToNetwork [simp]:
  "networkToHost16 le (hostToNetwork16 le p) = p"
  "networkToHost32 le (hostToNetwork32 le x) = x"
  "networkToHost64 le (hostToNetwork64 le y) = y"
  by (simp_all add: networkToHost16_def hostToNetwork16_def networkToHost32_def hostToNetwork32_def
      networkToHost64_def hostToNetwork64_def bswap_bswap)

text \<open>
  The bytes that \<open>hostToNetwork32\<close> leaves in memory are the value's bytes, most significant
  first, whatever the host's order; and reading them back is \<open>networkToHost32\<close>.
\<close>

lemma to_mem_hostToNetwork32: "to_mem le 4 (hostToNetwork32 le x) = rev (le_bytes 4 (unat x))"
  by (simp add: to_mem_def hostToNetwork32_def le_bytes_bswap)

lemma networkToHost32_of_mem: "networkToHost32 le (of_mem le cs) = of_mem False cs" if "length cs = 4"
proof -
  have "unat (of_mem True cs :: 32 word) = of_le_bytes cs"
    using of_le_bytes_less [of cs] that
    by (simp add: of_mem_def unat_of_nat take_bit_nat_eq_self)
  then show ?thesis
    using le_bytes_of_le [of cs] that
    by (cases le) (simp_all add: networkToHost32_def bswap_def, simp_all add: of_mem_def)
qed

lemma length_to_mem [simp]: "length (to_mem le n w) = n"
  by (simp add: to_mem_def)

lemma length_show_nat: "n < 10 ^ Suc k \<Longrightarrow> length (show_nat n) \<le> Suc k"
proof (induction k arbitrary: n)
  case (Suc k)
  show ?case
  proof (cases "n < 10")
    case False
    with Suc.prems have "n div 10 < 10 ^ Suc k" by (simp add: div_less_iff_less_mult)
    with Suc.IH have "length (show_nat (n div 10)) \<le> Suc k" by blast
    with False show ?thesis by (simp add: show_nat.simps [of n])
  qed (simp add: show_nat.simps [of n])
qed (simp add: show_nat.simps)

subsection \<open>Properties\<close>

text \<open>
  A failed \<open>accept\<close> is never hidden and never fatal: the negative result is returned and logged.  The caller can rely on
  \<open>errno\<close> exactly for the transient errors, whatever the logger does to it, and only these are logged once.
\<close>

theorem accept_errors:
  assumes "connfd < 0"
  shows "\<exists>e logs. sockets_accept logged (connfd, errno) = (connfd, e, logs) \<and>
    (length logs = 1 \<longleftrightarrow> errno \<in> {EAGAIN, ECONNABORTED, EINTR, EPROTO, EMFILE}) \<and>
    (length logs = 1 \<longrightarrow> e = errno) \<and> (length logs \<noteq> 1 \<longrightarrow> e = logged (logged errno) \<and> snd (last logs) = [errno])"
proof (cases "errno \<in> set [EAGAIN, ECONNABORTED, EINTR, EPROTO, EMFILE]")
  case True
  with assms show ?thesis by (auto simp: sockets_accept_def Let_def)
next
  case False
  with assms show ?thesis
    by (cases "errno \<in> set [EBADF, EFAULT, EINVAL, ENOBUFS, ENOMEM, ENOTSOCK, EOPNOTSUPP]")
      (auto simp: sockets_accept_def Let_def)
qed

theorem accept_errors_witness:
  "sockets_accept (\<lambda>_. 0) (-1, EMFILE) = (-1, EMFILE, [(''Socket::accept'', [])]) \<and>
   (\<exists>logs. sockets_accept (\<lambda>_. 0) (-1, 1) = (-1, 0, logs) \<and> length logs \<noteq> 1)"
proof
  show "sockets_accept (\<lambda>_. 0) (-1, EMFILE) = (-1, EMFILE, [(''Socket::accept'', [])])"
    by (simp add: sockets_accept_def errno_consts)
  have "(1::int) \<notin> {EAGAIN, ECONNABORTED, EINTR, EPROTO, EMFILE}" by (simp add: errno_consts)
  then show "\<exists>logs. sockets_accept (\<lambda>_. 0) (-1, 1) = (-1, 0, logs) \<and> length logs \<noteq> 1"
    using accept_errors [of "-1" "\<lambda>_. 0" 1] by fastforce
qed

end
