(* ===== verification/Buffer.thy ===== *)
theory Buffer
  imports SocketsOps
begin

section \<open>Buffer\<close>

text \<open>
  \<open>chaonet/include/Buffer.h\<close> and \<open>chaonet/src/Buffer.cpp\<close>: a vector of bytes with a reader and a
  writer index.  A pointer into the buffer (\<open>peek()\<close>, \<open>beginWrite()\<close>, the result of
  \<open>findCRLF()\<close>) is its offset from \<open>begin()\<close>.  Every copy goes through \<open>read_at\<close> and \<open>write_at\<close>,
  so memory safety is part of each success theorem.  The abstract value of a buffer is the byte
  string between the two indices (\<open>content\<close>); the locale \<open>byte_queue\<close> is the contract that the
  connection, the HTTP code and the codec rely on, and it is interpreted on the definitions below.
\<close>

record buffer =
  storage :: "char list"
  readerIndex :: nat
  writerIndex :: nat

definition kCheapPrepend :: nat where
  "kCheapPrepend = 8"

definition kInitialSize :: nat where
  "kInitialSize = 1024"

definition kCRLF :: string where
  "kCRLF = [CHR 0x0D, CHR 0x0A]"

text \<open>\<open>std::vector<char>\<close>: \<open>max_size()\<close>, the sized constructor and \<open>resize\<close>.\<close>

abbreviation VEC_MAX :: nat where
  "VEC_MAX \<equiv> 9223372036854775807"

definition vec_new :: "nat \<Rightarrow> char list res" where
  "vec_new n = (if n \<le> VEC_MAX then Inr (replicate n (CHR 0x00)) else Inl LengthError)"

definition vec_resize :: "nat \<Rightarrow> char list \<Rightarrow> char list res" where
  "vec_resize n xs =
     (if n \<le> VEC_MAX then Inr (take n xs @ replicate (n - length xs) (CHR 0x00)) else Inl LengthError)"

definition Buffer_new :: buffer where
  "Buffer_new = \<lparr>storage = replicate (kCheapPrepend + kInitialSize) (CHR 0x00),
     readerIndex = kCheapPrepend, writerIndex = kCheapPrepend\<rparr>"

definition swap_buf :: "buffer \<Rightarrow> buffer \<Rightarrow> buffer \<times> buffer" where
  "swap_buf this rhs =
     (this\<lparr>storage := storage rhs, readerIndex := readerIndex rhs, writerIndex := writerIndex rhs\<rparr>,
      rhs\<lparr>storage := storage this, readerIndex := readerIndex this, writerIndex := writerIndex this\<rparr>)"

definition readableBytes :: "buffer \<Rightarrow> nat" where
  "readableBytes b = size_sub (writerIndex b) (readerIndex b)"

definition writableBytes :: "buffer \<Rightarrow> nat" where
  "writableBytes b = size_sub (length (storage b)) (writerIndex b)"

definition prependableBytes :: "buffer \<Rightarrow> nat" where
  "prependableBytes b = readerIndex b"

definition peek :: "buffer \<Rightarrow> nat" where
  "peek b = readerIndex b"

definition beginWrite :: "buffer \<Rightarrow> nat" where
  "beginWrite b = writerIndex b"

definition peekInt32 :: "bool \<Rightarrow> buffer \<Rightarrow> 32 word res" where
  "peekInt32 le b =
     check (4 \<le> readableBytes b) ''readableBytes() >= sizeof(int32_t)''
       (bindR (read_at (peek b) 4 (storage b)) (\<lambda>be32. Inr (networkToHost32 le (of_mem le be32))))"

definition findCRLF :: "buffer \<Rightarrow> nat option res" where
  "findCRLF b =
     bindR (read_at (peek b) (size_sub (beginWrite b) (peek b)) (storage b))
       (\<lambda>xs. Inr (map_option (\<lambda>i. peek b + i) (search kCRLF xs)))"

definition retrieve :: "nat \<Rightarrow> buffer \<Rightarrow> buffer res" where
  "retrieve len b =
     check (len \<le> readableBytes b) ''len <= readableBytes()''
       (Inr (b\<lparr>readerIndex := size_add (readerIndex b) len\<rparr>))"

definition retrieveUntil :: "nat \<Rightarrow> buffer \<Rightarrow> buffer res" where
  "retrieveUntil end_ptr b =
     check (peek b \<le> end_ptr) ''peek() <= end''
       (check (end_ptr \<le> beginWrite b) ''end <= beginWrite()''
         (retrieve (size_sub end_ptr (peek b)) b))"

definition retrieveAll :: "buffer \<Rightarrow> buffer" where
  "retrieveAll b = b\<lparr>readerIndex := kCheapPrepend, writerIndex := kCheapPrepend\<rparr>"

definition retrieveAsString :: "buffer \<Rightarrow> (string \<times> buffer) res" where
  "retrieveAsString b =
     bindR (read_at (peek b) (readableBytes b) (storage b)) (\<lambda>str. Inr (str, retrieveAll b))"

definition makeSpace :: "nat \<Rightarrow> buffer \<Rightarrow> buffer res" where
  "makeSpace len b =
     (if size_add (writableBytes b) (prependableBytes b) < size_add len kCheapPrepend then
        bindR (vec_resize (size_add (writerIndex b) len) (storage b)) (\<lambda>st. Inr (b\<lparr>storage := st\<rparr>))
      else
        check (kCheapPrepend < readerIndex b) ''kCheapPrepend < readerIndex_''
          (let readable = readableBytes b in
           bindR (read_at (readerIndex b) (size_sub (writerIndex b) (readerIndex b)) (storage b)) (\<lambda>xs.
           bindR (write_at kCheapPrepend xs (storage b)) (\<lambda>st.
             let b' = b\<lparr>storage := st, readerIndex := kCheapPrepend,
                         writerIndex := size_add kCheapPrepend readable\<rparr>
             in check (readable = readableBytes b') ''readable == readableBytes()'' (Inr b')))))"

definition ensureWritableBytes :: "nat \<Rightarrow> buffer \<Rightarrow> buffer res" where
  "ensureWritableBytes len b =
     bindR (if writableBytes b < len then makeSpace len b else Inr b)
       (\<lambda>b'. check (len \<le> writableBytes b') ''writableBytes() >= len'' (Inr b'))"

definition hasWritten :: "nat \<Rightarrow> buffer \<Rightarrow> buffer" where
  "hasWritten len b = b\<lparr>writerIndex := size_add (writerIndex b) len\<rparr>"

definition append_buf :: "char list \<Rightarrow> buffer \<Rightarrow> buffer res" where
  "append_buf data b =
     bindR (ensureWritableBytes (length data) b) (\<lambda>b1.
     bindR (write_at (beginWrite b1) data (storage b1)) (\<lambda>st.
       Inr (hasWritten (length data) (b1\<lparr>storage := st\<rparr>))))"

definition appendInt32 :: "bool \<Rightarrow> 32 word \<Rightarrow> buffer \<Rightarrow> buffer res" where
  "appendInt32 le x b = append_buf (to_mem le 4 (hostToNetwork32 le x)) b"

definition prepend :: "char list \<Rightarrow> buffer \<Rightarrow> buffer res" where
  "prepend data b =
     check (length data \<le> prependableBytes b) ''len <= prependableBytes()''
       (let r = size_sub (readerIndex b) (length data) in
        bindR (write_at r data (storage b)) (\<lambda>st. Inr (b\<lparr>storage := st, readerIndex := r\<rparr>)))"

definition shrink :: "nat \<Rightarrow> buffer \<Rightarrow> buffer res" where
  "shrink reserve b =
     bindR (vec_new (size_add (size_add kCheapPrepend (readableBytes b)) reserve)) (\<lambda>buf.
     bindR (read_at (peek b) (readableBytes b) (storage b)) (\<lambda>xs.
     bindR (write_at kCheapPrepend xs buf) (\<lambda>buf'.
       Inr (b\<lparr>storage := buf'\<rparr>))))"

text \<open>
  \<open>readv\<close> either fails with an \<open>errno\<close> or stores bytes, first into the writable part of the
  buffer and then into the 65536 bytes of \<open>extrabuf\<close>.  The result pairs the new buffer with the
  returned \<open>n\<close> and with \<open>*savedErrno\<close> when it was written.
\<close>

datatype readv_result = ReadvFailed int | ReadvGot "char list"

definition extrabufSize :: nat where
  "extrabufSize = 65536"

definition readFd :: "readv_result \<Rightarrow> buffer \<Rightarrow> (buffer \<times> int \<times> int option) res" where
  "readFd r b =
     (let writable = writableBytes b in
      case r of
        ReadvFailed e \<Rightarrow> Inr (b, -1, Some e)
      | ReadvGot bytes \<Rightarrow>
          let n = length bytes; extrabuf = take extrabufSize (drop writable bytes) in
          bindR (write_at (writerIndex b) (take writable bytes) (storage b)) (\<lambda>st.
            let b1 = b\<lparr>storage := st\<rparr> in
            if n \<le> writable then
              Inr (b1\<lparr>writerIndex := size_add (writerIndex b1) n\<rparr>, int n, None)
            else
              bindR (read_at 0 (n - writable) extrabuf) (\<lambda>xs.
              bindR (append_buf xs (b1\<lparr>writerIndex := length (storage b1)\<rparr>)) (\<lambda>b2.
                Inr (b2, int n, None)))))"

subsection \<open>The abstract value and the invariant\<close>

definition content :: "buffer \<Rightarrow> char list" where
  "content b = take (writerIndex b - readerIndex b) (drop (readerIndex b) (storage b))"

definition buffer_inv :: "buffer \<Rightarrow> bool" where
  "buffer_inv b \<longleftrightarrow> readerIndex b \<le> writerIndex b \<and> writerIndex b \<le> length (storage b) \<and>
     kCheapPrepend \<le> length (storage b) \<and> length (storage b) \<le> VEC_MAX"

lemmas buffer_consts = kCheapPrepend_def kInitialSize_def

lemma buffer_invD:
  assumes "buffer_inv b"
  shows "readerIndex b \<le> writerIndex b" "writerIndex b \<le> length (storage b)"
    "8 \<le> length (storage b)" "length (storage b) \<le> VEC_MAX"
  using assms by (simp_all add: buffer_inv_def buffer_consts)

lemma length_content [simp]: "buffer_inv b \<Longrightarrow> length (content b) = writerIndex b - readerIndex b"
  by (auto simp: content_def buffer_inv_def)

lemma readableBytes_eq [simp]: "buffer_inv b \<Longrightarrow> readableBytes b = length (content b)"
  using buffer_invD [of b] by (simp add: readableBytes_def)

lemma writableBytes_eq [simp]:
  "buffer_inv b \<Longrightarrow> writableBytes b = length (storage b) - writerIndex b"
  using buffer_invD [of b] by (simp add: writableBytes_def)

lemma buffer_inv_new: "buffer_inv Buffer_new"
  by (simp add: buffer_inv_def Buffer_new_def buffer_consts)

lemma content_new [simp]: "content Buffer_new = []"
  by (simp add: content_def Buffer_new_def)

lemma Buffer_new_simps [simp]:
  "readerIndex Buffer_new = 8" "writerIndex Buffer_new = 8" "length (storage Buffer_new) = 1032"
  by (simp_all add: Buffer_new_def buffer_consts)

lemma read_content:
  "buffer_inv b \<Longrightarrow> read_at (readerIndex b) (writerIndex b - readerIndex b) (storage b) = Inr (content b)"
  by (simp add: read_at_def content_def buffer_inv_def)

lemma retrieveAll_inv: "buffer_inv b \<Longrightarrow> buffer_inv (retrieveAll b)"
  by (simp add: buffer_inv_def retrieveAll_def)

lemma content_retrieveAll [simp]: "content (retrieveAll b) = []"
  by (simp add: content_def retrieveAll_def)

lemma retrieveAsString_ok:
  "buffer_inv b \<Longrightarrow> retrieveAsString b = Inr (content b, retrieveAll b)"
  by (simp add: retrieveAsString_def peek_def read_content)

lemma retrieve_ok:
  assumes "buffer_inv b" and "n \<le> length (content b)"
  shows "\<exists>b'. retrieve n b = Inr b' \<and> buffer_inv b' \<and> content b' = drop n (content b) \<and>
    writerIndex b' \<le> writerIndex b"
proof -
  from assms buffer_invD [OF assms(1)] have
    "retrieve n b = Inr (b\<lparr>readerIndex := readerIndex b + n\<rparr>)"
    by (simp add: retrieve_def)
  moreover from assms have "buffer_inv (b\<lparr>readerIndex := readerIndex b + n\<rparr>)"
    by (auto simp: buffer_inv_def content_def)
  moreover have "content (b\<lparr>readerIndex := readerIndex b + n\<rparr>) = drop n (content b)"
    by (simp add: content_def drop_take add.commute)
  ultimately show ?thesis by simp
qed

lemma retrieve_too_much:
  "buffer_inv b \<Longrightarrow> length (content b) < n \<Longrightarrow>
     retrieve n b = Inl (AssertFailed ''len <= readableBytes()'')"
  by (simp add: retrieve_def)

lemma retrieveUntil_eq:
  assumes "buffer_inv b" and "n \<le> length (content b)"
  shows "retrieveUntil (peek b + n) b = retrieve n b"
  using assms buffer_invD [OF assms(1)]
  by (auto simp: retrieveUntil_def peek_def beginWrite_def check_def)

text \<open>The content after writing at the writer index.\<close>

lemma content_write_end:
  assumes "readerIndex b \<le> writerIndex b" and "writerIndex b + length xs \<le> length (storage b)"
  shows "content (b\<lparr>storage := take (writerIndex b) (storage b) @ xs @ ys,
                     writerIndex := writerIndex b + length xs\<rparr>) = content b @ xs"
  using assms by (simp add: content_def drop_take)

text \<open>Growing or compacting keeps the content and makes room.\<close>

lemma makeSpace_ok:
  assumes inv: "buffer_inv b" and small: "writableBytes b < len"
    and fits: "writerIndex b + len \<le> VEC_MAX"
  shows "\<exists>b'. makeSpace len b = Inr b' \<and> buffer_inv b' \<and> content b' = content b \<and>
    len \<le> writableBytes b' \<and> writerIndex b' \<le> writerIndex b"
proof -
  note bounds = buffer_invD [OF inv]
  let ?r = "readerIndex b" and ?w = "writerIndex b" and ?st = "storage b"
  have test: "size_add (writableBytes b) (prependableBytes b) < size_add len kCheapPrepend
      \<longleftrightarrow> length ?st - ?w + ?r < len + 8"
    using bounds fits inv by (simp add: prependableBytes_def buffer_consts)
  show ?thesis
  proof (cases "length ?st - ?w + ?r < len + 8")
    case True
    let ?b = "b\<lparr>storage := ?st @ replicate (?w + len - length ?st) (CHR 0x00)\<rparr>"
    have "makeSpace len b = Inr ?b"
      using True test bounds fits small inv by (simp add: makeSpace_def vec_resize_def)
    moreover have "buffer_inv ?b"
      using bounds fits small inv by (auto simp: buffer_inv_def)
    moreover have "content ?b = content b"
      using bounds by (simp add: content_def)
    moreover have "length (storage ?b) - writerIndex ?b \<ge> len"
      using bounds small inv by auto
    ultimately show ?thesis by auto
  next
    case False
    then have r: "8 < ?r" using small bounds inv by simp
    let ?st' = "take 8 ?st @ content b @ drop (8 + length (content b)) ?st"
    let ?b = "b\<lparr>storage := ?st', readerIndex := 8, writerIndex := 8 + length (content b)\<rparr>"
    have len: "8 + length (content b) \<le> ?w" using r bounds inv by simp
    then have inv': "buffer_inv ?b" and cont: "content ?b = content b"
      using bounds by (simp_all add: buffer_inv_def buffer_consts content_def)
    have "makeSpace len b = Inr ?b"
      using False test bounds r len inv readableBytes_eq [OF inv'] cont
      by (simp add: makeSpace_def buffer_consts read_content write_at_ok Let_def del: length_content)
    moreover have "len \<le> writableBytes ?b"
      using False len bounds inv inv' by simp
    ultimately show ?thesis using inv' cont len by auto
  qed
qed

lemma ensureWritableBytes_ok:
  assumes "buffer_inv b" and "writerIndex b + len \<le> VEC_MAX"
  shows "\<exists>b'. ensureWritableBytes len b = Inr b' \<and> buffer_inv b' \<and> content b' = content b \<and>
    len \<le> writableBytes b' \<and> writerIndex b' \<le> writerIndex b"
proof (cases "writableBytes b < len")
  case True
  with makeSpace_ok [OF assms(1) _ assms(2)] obtain b' where
    "makeSpace len b = Inr b'" "buffer_inv b'" "content b' = content b" "len \<le> writableBytes b'"
    "writerIndex b' \<le> writerIndex b"
    by blast
  with True show ?thesis by (simp add: ensureWritableBytes_def check_def)
next
  case False
  with assms show ?thesis by (auto simp: ensureWritableBytes_def check_def)
qed

lemma append_buf_ok:
  assumes "buffer_inv b" and fits: "writerIndex b + length xs \<le> VEC_MAX"
  shows "\<exists>b'. append_buf xs b = Inr b' \<and> buffer_inv b' \<and> content b' = content b @ xs \<and>
    writerIndex b' \<le> writerIndex b + length xs"
proof -
  obtain b1 where b1: "ensureWritableBytes (length xs) b = Inr b1" "buffer_inv b1"
      "content b1 = content b" "length xs \<le> writableBytes b1" "writerIndex b1 \<le> writerIndex b"
    using ensureWritableBytes_ok [OF assms] by blast
  let ?w = "writerIndex b1" and ?st = "storage b1"
  let ?st' = "take ?w ?st @ xs @ drop (?w + length xs) ?st"
  let ?b = "b1\<lparr>storage := ?st', writerIndex := ?w + length xs\<rparr>"
  note bounds = buffer_invD [OF b1(2)]
  have room: "?w + length xs \<le> length ?st" using b1(2,4) bounds by simp
  then have "append_buf xs b = Inr ?b"
    using b1(1) bounds by (simp add: append_buf_def beginWrite_def write_at_ok hasWritten_def)
  moreover have "buffer_inv ?b"
    using room bounds by (simp add: buffer_inv_def buffer_consts)
  moreover have "content ?b = content b @ xs"
    using content_write_end [OF bounds(1) room] b1(3) by simp
  ultimately show ?thesis using b1(5) by auto
qed

lemma prepend_ok:
  assumes "buffer_inv b" and "length xs \<le> readerIndex b"
  shows "\<exists>b'. prepend xs b = Inr b' \<and> buffer_inv b' \<and> content b' = xs @ content b \<and>
    readerIndex b' = readerIndex b - length xs \<and> writerIndex b' = writerIndex b"
proof -
  note bounds = buffer_invD [OF assms(1)]
  let ?r = "readerIndex b - length xs" and ?st = "storage b"
  let ?b = "b\<lparr>storage := take ?r ?st @ xs @ drop (readerIndex b) ?st, readerIndex := ?r\<rparr>"
  have "prepend xs b = Inr ?b"
    using assms bounds by (simp add: prepend_def prependableBytes_def write_at_ok Let_def)
  moreover have "buffer_inv ?b" using assms bounds by (auto simp: buffer_inv_def buffer_consts)
  moreover have "content ?b = xs @ content b"
    using assms bounds by (simp add: content_def)
  ultimately show ?thesis by simp
qed

lemma findCRLF_eq:
  "buffer_inv b \<Longrightarrow> findCRLF b = Inr (map_option (\<lambda>i. peek b + i) (search kCRLF (content b)))"
  using buffer_invD [of b] by (simp add: findCRLF_def peek_def beginWrite_def read_content)

lemma take_4_content:
  assumes "buffer_inv b" and "n \<le> length (content b)"
  shows "read_at (peek b) n (storage b) = Inr (take n (content b))"
proof -
  from assms buffer_invD [OF assms(1)] have "n \<le> writerIndex b - readerIndex b"
    "readerIndex b + n \<le> length (storage b)" by auto
  then show ?thesis by (simp add: read_at_def peek_def content_def min_def)
qed

lemma peekInt32_ok:
  "buffer_inv b \<Longrightarrow> 4 \<le> length (content b) \<Longrightarrow> peekInt32 le b = Inr (of_mem False (take 4 (content b)))"
  by (simp add: peekInt32_def take_4_content networkToHost32_of_mem del: length_content)

lemma appendInt32_ok:
  assumes "buffer_inv b" and "writerIndex b + 4 \<le> VEC_MAX"
  shows "\<exists>b'. appendInt32 le x b = Inr b' \<and> buffer_inv b' \<and>
    content b' = content b @ rev (le_bytes 4 (unat x))"
  using append_buf_ok [OF assms(1), of "to_mem le 4 (hostToNetwork32 le x)"] assms(2)
  by (simp add: appendInt32_def to_mem_hostToNetwork32) blast

subsection \<open>The contract of a byte queue\<close>

text \<open>
  What the clients of \<open>Buffer\<close> rely on: appending and retrieving act on the content as on a
  queue of bytes and keep the invariant; an append succeeds as long as the space already used and
  the new bytes stay below the limit of the container.  Proved once for the contract: a sequence
  of appends concatenates, and under any interleaving of writes and reads the bytes come out in
  the order they went in.
\<close>

datatype queue_op = Put "char list" | Take nat

fun run_ops :: "(char list \<Rightarrow> 'b \<Rightarrow> 'b res) \<Rightarrow> (nat \<Rightarrow> 'b \<Rightarrow> 'b res) \<Rightarrow> ('b \<Rightarrow> char list) \<Rightarrow>
    queue_op list \<Rightarrow> 'b \<Rightarrow> ('b \<times> char list) res" where
  "run_ops put take_off val [] b = Inr (b, [])"
| "run_ops put take_off val (Put xs # ops) b =
     bindR (put xs b) (run_ops put take_off val ops)"
| "run_ops put take_off val (Take n # ops) b =
     bindR (take_off n b) (\<lambda>b1.
     bindR (run_ops put take_off val ops b1) (\<lambda>(b2, out). Inr (b2, take n (val b) @ out)))"

fun puts :: "queue_op list \<Rightarrow> char list" where
  "puts [] = []"
| "puts (Put xs # ops) = xs @ puts ops"
| "puts (Take n # ops) = puts ops"

fun legal :: "queue_op list \<Rightarrow> nat \<Rightarrow> bool" where
  "legal [] k = True"
| "legal (Put xs # ops) k = legal ops (k + length xs)"
| "legal (Take n # ops) k = (n \<le> k \<and> legal ops (k - n))"

locale byte_queue =
  fixes inv :: "'b \<Rightarrow> bool"
    and val :: "'b \<Rightarrow> char list"
    and used :: "'b \<Rightarrow> nat"
    and limit :: nat
    and put :: "char list \<Rightarrow> 'b \<Rightarrow> 'b res"
    and take_off :: "nat \<Rightarrow> 'b \<Rightarrow> 'b res"
  assumes put_ok: "inv b \<Longrightarrow> used b + length xs \<le> limit \<Longrightarrow>
      \<exists>b'. put xs b = Inr b' \<and> inv b' \<and> val b' = val b @ xs \<and> used b' \<le> used b + length xs"
    and take_off_ok: "inv b \<Longrightarrow> n \<le> length (val b) \<Longrightarrow>
      \<exists>b'. take_off n b = Inr b' \<and> inv b' \<and> val b' = drop n (val b) \<and> used b' \<le> used b"
    and take_off_fails: "inv b \<Longrightarrow> length (val b) < n \<Longrightarrow> \<exists>e. take_off n b = Inl e"
begin

lemma put_all:
  assumes "inv b" and "used b + length (concat xss) \<le> limit"
  shows "\<exists>b'. foldR put xss b = Inr b' \<and> inv b' \<and> val b' = val b @ concat xss \<and>
    used b' \<le> used b + length (concat xss)"
  using assms
proof (induction xss arbitrary: b)
  case (Cons xs xss)
  then obtain b1 where b1: "put xs b = Inr b1" "inv b1" "val b1 = val b @ xs"
      "used b1 \<le> used b + length xs"
    using put_ok [of b xs] by auto
  moreover have "used b1 + length (concat xss) \<le> limit" using Cons.prems b1(4) by simp
  ultimately show ?case using Cons.IH [of b1] by fastforce
qed simp

lemma take_off_InrD:
  assumes "inv b" and "take_off n b = Inr b'"
  shows "n \<le> length (val b) \<and> inv b' \<and> val b' = drop n (val b) \<and> used b' \<le> used b"
proof -
  have "n \<le> length (val b)"
    using take_off_fails [OF assms(1)] assms(2) by (metis not_le sum.simps(4))
  with take_off_ok [OF assms(1) this] assms(2) show ?thesis by auto
qed

lemma fifo:
  assumes "inv b" and "used b + length (puts ops) \<le> limit" and "legal ops (length (val b))"
  shows "\<exists>b' out. run_ops put take_off val ops b = Inr (b', out) \<and> inv b' \<and>
    out @ val b' = val b @ puts ops"
  using assms
proof (induction ops arbitrary: b)
  case Nil
  then show ?case by simp
next
  case (Cons op ops)
  show ?case
  proof (cases op)
    case (Put xs)
    with Cons.prems(1,2) obtain b1 where b1: "put xs b = Inr b1" "inv b1" "val b1 = val b @ xs"
        "used b1 \<le> used b + length xs"
      using put_ok [of b xs] by auto
    with Put Cons.prems have "used b1 + length (puts ops) \<le> limit" "legal ops (length (val b1))"
      by simp_all
    with Put b1 Cons.IH [of b1] show ?thesis by auto
  next
    case (Take n)
    with Cons.prems(1,3) obtain b1 where b1: "take_off n b = Inr b1" "inv b1"
        "val b1 = drop n (val b)" "used b1 \<le> used b"
      using take_off_ok [of b n] by auto
    with Take Cons.prems have "used b1 + length (puts ops) \<le> limit" "legal ops (length (val b1))"
      by simp_all
    with b1 Cons.IH [of b1] obtain b2 out where
      "run_ops put take_off val ops b1 = Inr (b2, out)" "inv b2" "out @ val b2 = drop n (val b) @ puts ops"
      by auto
    with Take b1 show ?thesis by simp
  qed
qed

end

interpretation buf: byte_queue buffer_inv content writerIndex VEC_MAX append_buf retrieve
proof
  fix b :: buffer and xs :: "char list"
  assume "buffer_inv b" "writerIndex b + length xs \<le> VEC_MAX"
  then show "\<exists>b'. append_buf xs b = Inr b' \<and> buffer_inv b' \<and> content b' = content b @ xs \<and>
      writerIndex b' \<le> writerIndex b + length xs"
    by (rule append_buf_ok)
next
  fix b :: buffer and n
  assume "buffer_inv b" "n \<le> length (content b)"
  then show "\<exists>b'. retrieve n b = Inr b' \<and> buffer_inv b' \<and> content b' = drop n (content b) \<and>
      writerIndex b' \<le> writerIndex b"
    by (rule retrieve_ok)
next
  fix b :: buffer and n
  assume "buffer_inv b" "length (content b) < n"
  then show "\<exists>e. retrieve n b = Inl e"
    by (simp add: retrieve_too_much)
qed

subsection \<open>What else the clients use\<close>

text \<open>The first line of the content.\<close>

abbreviation CR :: char where
  "CR \<equiv> CHR 0x0D"

lemma search_line: "CR \<notin> set line \<Longrightarrow> search kCRLF (line @ kCRLF @ rest) = Some (length line)"
  by (induction line) (auto simp: kCRLF_def)

lemma crlf_in_buffer:
  assumes inv: "buffer_inv b" and c: "search kCRLF (content b) = Some i"
  obtains b1 where "findCRLF b = Inr (Some (peek b + i))" "read_at (peek b) i (storage b) = Inr (take i (content b))"
    "retrieveUntil (peek b + i + 2) b = Inr b1" "buffer_inv b1" "content b1 = drop (i + 2) (content b)"
proof -
  have n: "i + 2 \<le> length (content b)" using search_Some [OF c] by (simp add: kCRLF_def)
  have "findCRLF b = Inr (Some (peek b + i))" using findCRLF_eq [OF inv] c by simp
  moreover have "read_at (peek b) i (storage b) = Inr (take i (content b))"
    using take_4_content [OF inv, of i] n by simp
  moreover obtain b1 where "retrieve (i + 2) b = Inr b1" "buffer_inv b1" "content b1 = drop (i + 2) (content b)"
    using retrieve_ok [OF inv n] by blast
  moreover have "retrieveUntil (peek b + i + 2) b = retrieve (i + 2) b"
    using retrieveUntil_eq [OF inv n] by (simp add: add.assoc)
  ultimately show thesis using that [of b1] by simp
qed

lemma line_in_buffer:
  assumes inv: "buffer_inv b" and c: "content b = line @ kCRLF @ rest" and cr: "CR \<notin> set line"
  obtains b1 where "findCRLF b = Inr (Some (peek b + length line))"
    "read_at (peek b) (length line) (storage b) = Inr line"
    "retrieveUntil (peek b + length line + 2) b = Inr b1" "buffer_inv b1" "content b1 = rest"
proof -
  have "search kCRLF (content b) = Some (length line)" unfolding c by (rule search_line [OF cr])
  then show thesis by (rule crlf_in_buffer [OF inv]) (use that c in \<open>simp add: kCRLF_def\<close>)
qed

lemma buffer_with:
  assumes "length xs \<le> 1000"
  obtains b where "buffer_inv b" "content b = xs"
  using append_buf_ok [OF buffer_inv_new, of xs] assms by auto

text \<open>Appending, with the room that is left made explicit.\<close>

definition appends :: "(buffer \<Rightarrow> buffer res) \<Rightarrow> string \<Rightarrow> bool" where
  "appends f xs \<longleftrightarrow> (\<forall>b. buffer_inv b \<and> writerIndex b + length xs \<le> VEC_MAX \<longrightarrow>
     (\<exists>b'. f b = Inr b' \<and> buffer_inv b' \<and> content b' = content b @ xs \<and> writerIndex b' \<le> writerIndex b + length xs))"

lemma appends_buf: "appends (append_buf xs) xs"
  using append_buf_ok by (auto simp: appends_def)

lemma appends_nil: "appends Inr []"
  by (simp add: appends_def)

lemma appends_bind:
  assumes "appends f xs" "appends g ys"
  shows "appends (\<lambda>b. bindR (f b) g) (xs @ ys)"
  unfolding appends_def
proof (intro allI impI)
  fix b
  assume b: "buffer_inv b \<and> writerIndex b + length (xs @ ys) \<le> VEC_MAX"
  then have "writerIndex b + length xs \<le> VEC_MAX" by simp
  with b assms(1) obtain b1 where b1: "f b = Inr b1" "buffer_inv b1" "content b1 = content b @ xs"
      "writerIndex b1 \<le> writerIndex b + length xs"
    unfolding appends_def by blast
  moreover from b b1(4) have "writerIndex b1 + length ys \<le> VEC_MAX" by simp
  ultimately obtain b2 where "g b1 = Inr b2" "buffer_inv b2" "content b2 = content b1 @ ys"
      "writerIndex b2 \<le> writerIndex b1 + length ys"
    using assms(2) unfolding appends_def by blast
  with b1 show "\<exists>b'. bindR (f b) g = Inr b' \<and> buffer_inv b' \<and> content b' = content b @ xs @ ys \<and>
      writerIndex b' \<le> writerIndex b + length (xs @ ys)" by auto
qed

text \<open>The cheap-prepend area survives any number of appends.\<close>

lemma makeSpace_readerIndex:
  "makeSpace len b = Inr b' \<Longrightarrow> kCheapPrepend \<le> readerIndex b \<Longrightarrow> kCheapPrepend \<le> readerIndex b'"
  by (auto simp: makeSpace_def Let_def res_simps split: if_splits)

lemma append_readerIndex:
  "append_buf xs b = Inr b' \<Longrightarrow> kCheapPrepend \<le> readerIndex b \<Longrightarrow> kCheapPrepend \<le> readerIndex b'"
  by (auto simp: append_buf_def ensureWritableBytes_def hasWritten_def res_simps
      split: if_splits dest: makeSpace_readerIndex)

lemma shrink_eq:
  assumes "buffer_inv b" and "8 + length (content b) + reserve \<le> VEC_MAX"
  shows "shrink reserve b =
    Inr (b\<lparr>storage := replicate 8 (CHR 0x00) @ content b @ replicate reserve (CHR 0x00)\<rparr>)"
proof -
  have "read_at (peek b) (readableBytes b) (storage b) = Inr (content b)"
    using assms(1) take_4_content [OF assms(1), of "length (content b)"] by (simp del: length_content)
  moreover have "vec_new (size_add (size_add kCheapPrepend (readableBytes b)) reserve) =
      Inr (replicate (8 + length (content b) + reserve) (CHR 0x00))"
    using assms by (simp add: vec_new_def buffer_consts del: length_content)
  ultimately show ?thesis
    by (simp add: shrink_def write_at_ok buffer_consts add.assoc del: length_content replicate.simps)
qed

subsection \<open>Properties\<close>

text \<open>
  C6: Buffer refines a FIFO byte queue.  From any buffer that satisfies the invariant, every
  sequence of \<open>append\<close> and \<open>retrieve\<close> calls that never retrieves more than is readable and stays
  below \<open>vector::max_size()\<close> runs to completion (no assertion fails, no access is out of bounds),
  and the bytes taken out followed by the bytes left are the old content followed by the bytes put
  in, in order.
\<close>

theorem buffer_fifo:
  assumes "buffer_inv b" and "writerIndex b + length (puts ops) \<le> VEC_MAX"
    and "legal ops (length (content b))"
  shows "\<exists>b' out. run_ops append_buf retrieve content ops b = Inr (b', out) \<and> buffer_inv b' \<and>
    out @ content b' = content b @ puts ops"
  using assms by (rule buf.fifo)

theorem buffer_fifo_witness:
  "\<exists>b' out. run_ops append_buf retrieve content [Put ''ab'', Take 1, Put ''c''] Buffer_new = Inr (b', out) \<and>
    buffer_inv b' \<and> out @ content b' = ''abc''"
  using buffer_fifo [OF buffer_inv_new, of "[Put ''ab'', Take 1, Put ''c'']"] by simp

text \<open>How far a buffer grows.\<close>

lemma makeSpace_storage:
  assumes "makeSpace len b = Inr b'" "writerIndex b + len \<le> VEC_MAX"
  shows "length (storage b') \<le> max (length (storage b)) (writerIndex b + len)"
  using assms write_at_length
  by (fastforce simp: makeSpace_def vec_resize_def check_def Let_def bindR_Inr_iff split: if_splits)

lemma append_buf_storage:
  assumes "append_buf xs b = Inr b'" "writerIndex b + length xs \<le> VEC_MAX"
  shows "length (storage b') \<le> max (length (storage b)) (writerIndex b + length xs)"
proof -
  obtain b1 st where b1: "ensureWritableBytes (length xs) b = Inr b1" "write_at (beginWrite b1) xs (storage b1) = Inr st"
    "b' = hasWritten (length xs) (b1\<lparr>storage := st\<rparr>)"
    using assms(1) by (auto simp: append_buf_def bindR_Inr_iff)
  then have "length (storage b') = length (storage b1)" using write_at_length [OF b1(2)] by (simp add: hasWritten_def)
  moreover have "b1 = b \<or> makeSpace (length xs) b = Inr b1"
    using b1(1) by (auto simp: ensureWritableBytes_def check_def bindR_Inr_iff split: if_splits)
  ultimately show ?thesis using makeSpace_storage [OF _ assms(2)] by auto
qed

lemma readFd_storage:
  assumes run: "readFd (ReadvGot bytes) b = Inr (b', n, e)" and inv: "buffer_inv b"
    and os: "length bytes \<le> writableBytes b + extrabufSize" and mem: "length (storage b) + extrabufSize \<le> VEC_MAX"
  shows "length (storage b') \<le> length (storage b) + extrabufSize"
proof -
  obtain st where st: "write_at (writerIndex b) (take (writableBytes b) bytes) (storage b) = Inr st"
    using run by (auto simp: readFd_def Let_def bindR_Inr_iff)
  note len = write_at_length [OF st]
  show ?thesis
  proof (cases "length bytes \<le> writableBytes b")
    case True
    with run st len show ?thesis by (auto simp: readFd_def Let_def)
  next
    case False
    let ?xs = "drop (writableBytes b) bytes"
    have xs: "length ?xs \<le> extrabufSize" using os by simp
    have "append_buf ?xs (b\<lparr>storage := st, writerIndex := length st\<rparr>) = Inr b'"
      using run st False xs by (auto simp: readFd_def Let_def bindR_Inr_iff read_at_Inr_iff simp del: writableBytes_eq)
    from append_buf_storage [OF this] len xs mem show ?thesis by simp
  qed
qed
lemma readFd_ok:
  assumes inv: "buffer_inv b" and os: "length bytes \<le> writableBytes b + extrabufSize"
    and mem: "length (storage b) + extrabufSize \<le> VEC_MAX"
  shows "\<exists>b'. readFd (ReadvGot bytes) b = Inr (b', int (length bytes), None) \<and> buffer_inv b' \<and>
    content b' = content b @ bytes"
proof -
  note bounds = buffer_invD [OF inv]
  let ?w = "writerIndex b" and ?st = "storage b"
  let ?k = "length ?st - ?w"
  have wr: "writableBytes b = ?k" using inv by simp
  show ?thesis
  proof (cases "length bytes \<le> ?k")
    case True
    let ?b = "b\<lparr>storage := take ?w ?st @ bytes @ drop (?w + length bytes) ?st,
                writerIndex := ?w + length bytes\<rparr>"
    have "readFd (ReadvGot bytes) b = Inr (?b, int (length bytes), None)"
      using True wr bounds by (simp add: readFd_def Let_def write_at_ok)
    moreover have "buffer_inv ?b" using True bounds by (auto simp: buffer_inv_def buffer_consts)
    moreover have "content ?b = content b @ bytes"
      using True bounds by (intro content_write_end) auto
    ultimately show ?thesis by blast
  next
    case False
    let ?fst = "take ?k bytes" and ?snd = "drop ?k bytes"
    let ?b = "b\<lparr>storage := take ?w ?st @ ?fst, writerIndex := length ?st\<rparr>"
    have len: "length (take ?w ?st @ ?fst) = length ?st" using False bounds by simp
    have inv': "buffer_inv ?b" using False bounds by (auto simp: buffer_inv_def buffer_consts)
    have cont: "content ?b = content b @ ?fst"
      using content_write_end [of b ?fst "[]"] False bounds by simp
    obtain b2 where b2: "append_buf ?snd ?b = Inr b2" "buffer_inv b2" "content b2 = content ?b @ ?snd"
    proof -
      have "writerIndex ?b + length ?snd \<le> VEC_MAX" using False os wr mem by simp
      from append_buf_ok [OF inv' this] that show thesis by blast
    qed
    have "readFd (ReadvGot bytes) b = Inr (b2, int (length bytes), None)"
      using False wr bounds os b2(1) len
      by (simp add: readFd_def Let_def write_at_ok read_at_ok extrabufSize_def)
    with b2 cont show ?thesis by simp
  qed
qed

text \<open>
  \<open>readFd\<close> stores exactly the bytes that \<open>readv\<close> delivered at the end of the content, whether
  or not they overflow into the stack buffer, and returns their number.
\<close>

theorem readFd_appends:
  assumes inv: "buffer_inv b" and os: "length bytes \<le> writableBytes b + extrabufSize"
    and mem: "length (storage b) + extrabufSize \<le> VEC_MAX"
  shows "\<exists>b'. readFd (ReadvGot bytes) b = Inr (b', int (length bytes), None) \<and> buffer_inv b' \<and>
    content b' = content b @ bytes"
  by (rule readFd_ok [OF assms])

theorem readFd_appends_witness:
  "\<exists>b'. readFd (ReadvGot ''hello'') Buffer_new = Inr (b', 5, None) \<and> buffer_inv b' \<and> content b' = ''hello''"
  using readFd_appends [OF buffer_inv_new, of "''hello''"]
  by (simp add: buffer_inv_new extrabufSize_def)

text \<open>
  Length prefixes survive the network.  \<open>appendInt32\<close> puts the value's four bytes, most
  significant first, at the end of the content, and \<open>peekInt32\<close> on any host, whatever its byte
  order, reads the same value from a buffer that starts with those bytes.
\<close>

theorem int32_roundtrip:
  assumes "buffer_inv b" and "writerIndex b + 4 \<le> VEC_MAX"
  shows "\<exists>b' be. appendInt32 le x b = Inr b' \<and> buffer_inv b' \<and> content b' = content b @ be \<and>
    (\<forall>le' c rest. buffer_inv c \<and> content c = be @ rest \<longrightarrow> peekInt32 le' c = Inr x)"
proof -
  let ?be = "rev (le_bytes 4 (unat x))"
  obtain b' where b': "appendInt32 le x b = Inr b'" "buffer_inv b'" "content b' = content b @ ?be"
    using appendInt32_ok [OF assms] by blast
  have "peekInt32 le' c = Inr x" if "buffer_inv c" "content c = ?be @ rest" for le' c rest
  proof -
    have "of_mem False ?be = x"
      using of_mem_to_mem [where n = 4 and w = x and le = False] by (simp add: to_mem_def)
    with that show ?thesis by (simp add: peekInt32_ok del: length_content)
  qed
  with b' show ?thesis by blast
qed

theorem int32_roundtrip_witness:
  "\<exists>b' be. appendInt32 True 258 Buffer_new = Inr b' \<and> content b' = be \<and>
    (\<forall>le' c. buffer_inv c \<and> content c = be \<longrightarrow> peekInt32 le' c = Inr 258)"
  using int32_roundtrip [OF buffer_inv_new, where x = 258 and le = True]
  by auto

text \<open>
  The reserved area.  A buffer built from a fresh one by appends accepts a header of up to
  eight bytes in front of everything appended.
\<close>

theorem header_fits:
  assumes "8 + length (concat xss) \<le> VEC_MAX" and "length hdr \<le> kCheapPrepend"
  shows "\<exists>b b'. foldR append_buf xss Buffer_new = Inr b \<and> prepend hdr b = Inr b' \<and>
    buffer_inv b' \<and> content b' = hdr @ concat xss"
proof -
  obtain b where b: "foldR append_buf xss Buffer_new = Inr b" "buffer_inv b" "content b = concat xss"
    using buf.put_all [OF buffer_inv_new, of xss] assms(1) by auto
  have "kCheapPrepend \<le> readerIndex b"
    by (rule foldR_invariant [where I = "\<lambda>b. kCheapPrepend \<le> readerIndex b", OF _ _ b(1)])
       (simp_all add: append_readerIndex, simp add: buffer_consts)
  with prepend_ok [OF b(2), of hdr] assms(2) b show ?thesis by fastforce
qed

theorem header_fits_witness:
  "\<exists>b b'. foldR append_buf [''tag'', ''body''] Buffer_new = Inr b \<and> prepend ''1234'' b = Inr b' \<and>
    buffer_inv b' \<and> content b' = ''1234tagbody''"
  using header_fits [of "[''tag'', ''body'']" "''1234''"] by (simp add: buffer_consts)

text \<open>
  \<open>shrink\<close> replaces the storage but not the indices.  It keeps the content when nothing has
  been retrieved since the indices were last reset; once the reader index has moved on, shrinking
  to the content leaves a buffer whose writer index lies outside its storage.
\<close>

theorem shrink_behaviour:
  assumes "buffer_inv b" and "8 + length (content b) + reserve \<le> VEC_MAX"
  shows "\<exists>b'. shrink reserve b = Inr b' \<and>
    (readerIndex b = kCheapPrepend \<longrightarrow> buffer_inv b' \<and> content b' = content b) \<and>
    (kCheapPrepend + reserve < readerIndex b \<longrightarrow> length (storage b') < writerIndex b')"
  using assms buffer_invD [OF assms(1)]
  by (auto simp: shrink_eq buffer_consts buffer_inv_def content_def)

theorem shrink_behaviour_witness:
  "let b = Buffer_new\<lparr>readerIndex := 9, writerIndex := 10\<rparr> in
     buffer_inv b \<and> (\<exists>b'. shrink 0 b = Inr b' \<and> length (storage b') < writerIndex b')"
  using shrink_behaviour [of "Buffer_new\<lparr>readerIndex := 9, writerIndex := 10\<rparr>" 0]
  by (simp add: buffer_inv_def buffer_consts content_def)

text \<open>
  \<open>findCRLF\<close> points at the first CRLF of the readable bytes: the content is a line without
  CRLF, the CRLF, and the rest; it returns the null pointer exactly when there is no CRLF.
\<close>

theorem findCRLF_first:
  assumes "buffer_inv b"
  shows "(\<exists>line rest. content b = line @ kCRLF @ rest \<and> (\<forall>j < length line. take 2 (drop j (content b)) \<noteq> kCRLF) \<and>
            findCRLF b = Inr (Some (peek b + length line))) \<or>
         ((\<forall>j. take 2 (drop j (content b)) \<noteq> kCRLF) \<and> findCRLF b = Inr None)"
proof (cases "search kCRLF (content b)")
  case None
  have "take 2 (drop j (content b)) \<noteq> kCRLF" for j
    using search_None [OF None, of j] by (simp add: kCRLF_def numeral_2_eq_2)
  with None assms show ?thesis by (simp add: findCRLF_eq)
next
  case (Some i)
  let ?c = "content b"
  have i: "take 2 (drop i ?c) = kCRLF" "i + 2 \<le> length ?c"
    using search_Some [OF Some] by (simp_all add: kCRLF_def numeral_2_eq_2 del: length_content)
  have "?c = take i ?c @ take 2 (drop i ?c) @ drop 2 (drop i ?c)"
    by (metis append_take_drop_id)
  with i have "?c = take i ?c @ kCRLF @ drop (i + 2) ?c"
    by (simp add: add.commute del: length_content)
  moreover have "\<forall>j < i. take 2 (drop j ?c) \<noteq> kCRLF"
    using search_first [OF Some] by (simp add: kCRLF_def numeral_2_eq_2)
  ultimately show ?thesis
    using i assms Some by (intro disjI1 exI [of _ "take i ?c"] exI [of _ "drop (i + 2) ?c"])
      (simp add: findCRLF_eq del: length_content)
qed

theorem findCRLF_first_witness:
  "let b = Buffer_new in (\<forall>j. take 2 (drop j (content b)) \<noteq> kCRLF) \<and> findCRLF b = Inr None"
  using findCRLF_first [OF buffer_inv_new] by (simp add: kCRLF_def)

end
