(* ===== verification/TcpConnection.thy ===== *)
theory TcpConnection
  imports TimerQueue Buffer
begin

section \<open>TcpConnection\<close>

text \<open>
  \<open>chaonet/include/TcpConnection.h\<close>, \<open>chaonet/src/TcpConnection.cpp\<close> and \<open>Socket.cpp\<close>.  Connection
  objects live in the store \<open>conns\<close>.  The results of the \<open>i\<close>-th \<open>write\<close> and \<open>readv\<close> are given by
  arbitrary functions \<open>osWrite\<close> and \<open>osRead\<close>; what the program does to sockets is logged in \<open>netLog\<close>,
  a write with the bytes the kernel accepted.  User callbacks are tags that the argument \<open>ucall\<close>
  interprets (callback, connection, receive time or length); an empty \<open>std::function\<close> is \<open>None\<close> and
  calling it is \<open>BadFunctionCall\<close>.  The functors that the code binds to \<open>this\<close> or to a shared pointer are
  the tags of \<open>loop_functor\<close>; \<open>conn_functor\<close> runs them.
\<close>

datatype StateE = kConnecting | kConnected | kDisconnecting | kDisconnected

datatype conn_cb =
    DefaultConnection
  | DefaultMessage
  | UserCb nat
  | ServerRemoveConnection
  | ClientRemoveConnection
  | DetachedRemoveConnection

record connection =
  conn_name :: string
  conn_state :: StateE
  conn_reading :: bool
  conn_sockfd :: int
  conn_channel :: nat
  localAddr :: sockaddr_in
  peerAddr :: sockaddr_in
  connectionCallback :: "conn_cb option"
  messageCallback :: "conn_cb option"
  writeCompleteCallback :: "nat option"
  highWaterMarkCallback :: "nat option"
  conn_closeCallback :: "conn_cb option"
  highWaterMark :: nat
  inputBuffer :: buffer
  outputBuffer :: buffer

datatype net_event =
    NetWrite int string
  | NetShutdown int
  | NetNoDelay int bool
  | NetReuseAddr int bool
  | NetBind int sockaddr_in
  | NetListen int
  | NetClose int

record conn_state_t = timer_state +
  conns :: "nat \<Rightarrow> connection option"
  osWrite :: "nat \<Rightarrow> int \<Rightarrow> string \<Rightarrow> int"
  osRead :: "nat \<Rightarrow> int \<Rightarrow> readv_result"
  osCalls :: nat
  netLog :: "net_event list"

definition with_conn :: "nat \<Rightarrow> ('m) conn_state_t_scheme \<Rightarrow> (connection \<Rightarrow> 'a res) \<Rightarrow> 'a res" where
  "with_conn p s f = (case conns s p of None \<Rightarrow> Inl DanglingPointer | Some k \<Rightarrow> f k)"

definition put_conn :: "nat \<Rightarrow> connection \<Rightarrow> ('m) conn_state_t_scheme \<Rightarrow> 'm conn_state_t_scheme" where
  "put_conn p k s = s\<lparr>conns := (conns s)(p \<mapsto> k)\<rparr>"

subsection \<open>Socket\<close>

definition net :: "net_event \<Rightarrow> ('m) conn_state_t_scheme \<Rightarrow> 'm conn_state_t_scheme" where
  "net e s = s\<lparr>netLog := netLog s @ [e]\<rparr>"

text \<open>The wrappers of \<open>SocketsOps.cpp\<close> only log a failure of the system call.\<close>

definition sockets_close where
  "sockets_close fd s = net (NetClose fd) s"

definition sockets_bindOrDie where
  "sockets_bindOrDie fd addr s = net (NetBind fd addr) s"

definition sockets_listenOrDie where
  "sockets_listenOrDie fd s = net (NetListen fd) s"

definition sockets_shutdownWrite where
  "sockets_shutdownWrite fd s = net (NetShutdown fd) s"

definition Socket_destroy where
  "Socket_destroy fd s = sockets_close fd s"

definition Socket_bindAddress where
  "Socket_bindAddress fd addr s = sockets_bindOrDie fd addr s"

definition Socket_listen where
  "Socket_listen fd s = sockets_listenOrDie fd s"

text \<open>\<open>accept\<close>: \<open>r\<close> is what the system call returned, the descriptor and the peer's address.\<close>

definition Socket_accept :: "int \<times> sockaddr_in \<Rightarrow> sockaddr_in \<Rightarrow> int \<times> sockaddr_in" where
  "Socket_accept r peeraddr = (if 0 \<le> fst r then r else (fst r, peeraddr))"

definition Socket_setReuseAddr where
  "Socket_setReuseAddr fd on s = net (NetReuseAddr fd on) s"

definition Socket_shutdownWrite where
  "Socket_shutdownWrite fd s = sockets_shutdownWrite fd s"

definition Socket_setTcpNoDelay where
  "Socket_setTcpNoDelay fd on s = net (NetNoDelay fd on) s"

text \<open>
  \<open>write\<close>: a result that is not negative is the number of bytes accepted, which the log records.
\<close>

definition sys_write :: "int \<Rightarrow> string \<Rightarrow> ('m) conn_state_t_scheme \<Rightarrow> int \<times> 'm conn_state_t_scheme" where
  "sys_write fd data s =
     (let n = osWrite s (osCalls s) fd data; s1 = s\<lparr>osCalls := Suc (osCalls s)\<rparr> in
      (n, if 0 \<le> n then net (NetWrite fd (take (nat n) data)) s1 else s1))"

definition sys_readv :: "int \<Rightarrow> ('m) conn_state_t_scheme \<Rightarrow> readv_result \<times> 'm conn_state_t_scheme" where
  "sys_readv fd s = (osRead s (osCalls s) fd, s\<lparr>osCalls := Suc (osCalls s)\<rparr>)"

subsection \<open>The operations\<close>

definition defaultHighWaterMark :: nat where
  "defaultHighWaterMark = 64 * 1024 * 1024"

text \<open>The constructor: \<open>p\<close> is the new object, \<open>q\<close> its new channel.\<close>

definition TcpConnection_new where
  "TcpConnection_new p q name sockfd local peer uninit s =
     put_conn p
       \<lparr>conn_name = name, conn_state = kConnecting, conn_reading = True, conn_sockfd = sockfd, conn_channel = q,
        localAddr = local, peerAddr = peer, connectionCallback = Some DefaultConnection,
        messageCallback = Some DefaultMessage, writeCompleteCallback = None, highWaterMarkCallback = None,
        conn_closeCallback = None, highWaterMark = defaultHighWaterMark, inputBuffer = Buffer_new,
        outputBuffer = Buffer_new\<rparr>
       (put_chan q
         (setErrorCallback (Some (ConnError p)) (setCloseCallback (Some (ConnClose p))
           (setWriteCallback (Some (ConnWrite p)) (setReadCallback (Some (ConnRead p))
             (Channel_new (lp_this s) sockfd uninit))))) s)"

definition connected :: "connection \<Rightarrow> bool" where
  "connected k \<longleftrightarrow> conn_state k = kConnected"

definition setConnectionCallback :: "conn_cb option \<Rightarrow> connection \<Rightarrow> connection" where
  "setConnectionCallback cb k = k\<lparr>connectionCallback := cb\<rparr>"

definition setMessageCallback :: "conn_cb option \<Rightarrow> connection \<Rightarrow> connection" where
  "setMessageCallback cb k = k\<lparr>messageCallback := cb\<rparr>"

definition setWriteCompleteCallback :: "nat option \<Rightarrow> connection \<Rightarrow> connection" where
  "setWriteCompleteCallback cb k = k\<lparr>writeCompleteCallback := cb\<rparr>"

definition setHighWaterMarkCallback :: "nat option \<Rightarrow> nat \<Rightarrow> connection \<Rightarrow> connection" where
  "setHighWaterMarkCallback cb mark k = k\<lparr>highWaterMarkCallback := cb, highWaterMark := mark\<rparr>"

definition conn_setCloseCallback :: "conn_cb option \<Rightarrow> connection \<Rightarrow> connection" where
  "conn_setCloseCallback cb k = k\<lparr>conn_closeCallback := cb\<rparr>"

definition setState :: "StateE \<Rightarrow> connection \<Rightarrow> connection" where
  "setState st k = k\<lparr>conn_state := st\<rparr>"

text \<open>\<open>sendInLoop\<close>: the direct write, then what is left goes to the output buffer.\<close>

definition send_direct where
  "send_direct tid p k c message s =
     (if \<not> isWriting c \<and> readableBytes (outputBuffer k) = 0 then
        (let (nwrote, s1) = sys_write (ch_fd c) message s in
         if 0 \<le> nwrote then
           if nat nwrote < length message then (nwrote, s1)
           else (case writeCompleteCallback k of
                   None \<Rightarrow> (nwrote, s1)
                 | Some cb \<Rightarrow> (nwrote, queueInLoop tid (WriteComplete cb p) s1))
         else (0, s1))
      else (0, s))"

definition sendInLoop where
  "sendInLoop tid p message s =
     with_conn p s (\<lambda>k. with_chan (conn_channel k) s (\<lambda>c.
       let (nwrote, s1) = send_direct tid p k c message s in
       check (0 \<le> nwrote) ''nwrote >= 0''
         (if nat nwrote < length message then
            (let oldLen = readableBytes (outputBuffer k);
                 newLen = size_add oldLen (size_sub (length message) (nat nwrote));
                 s2 = (case highWaterMarkCallback k of
                         Some cb \<Rightarrow> if highWaterMark k \<le> newLen \<and> oldLen < highWaterMark k
                                     then queueInLoop tid (HighWaterMark cb p newLen) s1 else s1
                       | None \<Rightarrow> s1) in
             bindR (append_buf (drop (nat nwrote) message) (outputBuffer k)) (\<lambda>out.
               let s3 = put_conn p (k\<lparr>outputBuffer := out\<rparr>) s2 in
               if \<not> isWriting c then enableWriting EventLoop_updateChannel (conn_channel k) s3 else Inr s3))
          else Inr s1)))"

definition TcpConnection_send where
  "TcpConnection_send tid p message s =
     with_conn p s (\<lambda>k.
       if conn_state k = kConnected then
         if isInLoopThread tid s then sendInLoop tid p message s
         else runInLoop (\<lambda>_. sendInLoop tid p message) tid (ConnSendInLoop p message) s
       else Inr s)"

text \<open>\<open>send(Buffer*)\<close> with a buffer of the caller's: the buffer comes back drained or unchanged.\<close>

definition TcpConnection_sendBuffer where
  "TcpConnection_sendBuffer tid p b s =
     with_conn p s (\<lambda>k.
       if conn_state k = kConnected then
         bindR (retrieveAsString b) (\<lambda>(msg, b1).
         bindR (if isInLoopThread tid s then sendInLoop tid p msg s
                else runInLoop (\<lambda>_. sendInLoop tid p msg) tid (ConnSendInLoop p msg) s) (\<lambda>s1. Inr (b1, s1)))
       else Inr (b, s))"

definition startReadInLoop where
  "startReadInLoop p s =
     with_conn p s (\<lambda>k. with_chan (conn_channel k) s (\<lambda>c.
       if \<not> conn_reading k \<or> \<not> isReading c then
         bindR (enableReading EventLoop_updateChannel (conn_channel k) s) (\<lambda>s1.
           Inr (put_conn p (k\<lparr>conn_reading := True\<rparr>) s1))
       else Inr s))"

definition startRead where
  "startRead tid p s = runInLoop (\<lambda>_. startReadInLoop p) tid (ConnStartReadInLoop p) s"

definition stopReadInLoop where
  "stopReadInLoop p s =
     with_conn p s (\<lambda>k. with_chan (conn_channel k) s (\<lambda>c.
       if conn_reading k \<or> isReading c then
         bindR (disableReading EventLoop_updateChannel (conn_channel k) s) (\<lambda>s1.
           Inr (put_conn p (k\<lparr>conn_reading := False\<rparr>) s1))
       else Inr s))"

definition stopRead where
  "stopRead tid p s = runInLoop (\<lambda>_. stopReadInLoop p) tid (ConnStopReadInLoop p) s"

text \<open>Calling a user callback; \<open>default\<close>s are the library's own two functions.\<close>

definition call_cb where
  "call_cb ucall cb p arg s =
     (case cb of
        None \<Rightarrow> Inl BadFunctionCall
      | Some DefaultConnection \<Rightarrow> Inr s
      | Some DefaultMessage \<Rightarrow>
          with_conn p s (\<lambda>k. Inr (put_conn p (k\<lparr>inputBuffer := retrieveAll (inputBuffer k)\<rparr>) s))
      | Some f \<Rightarrow> ucall f p arg s)"

definition connectionEstablished where
  "connectionEstablished ucall p s =
     with_conn p s (\<lambda>k.
       check (conn_state k = kConnecting) ''state_ == StateE::kConnecting''
         (bindR (enableReading EventLoop_updateChannel (conn_channel k) (put_conn p (setState kConnected k) s)) (\<lambda>s1.
           with_conn p s1 (\<lambda>k1. call_cb ucall (connectionCallback k1) p (0::int) s1))))"

definition connectionDestroyed where
  "connectionDestroyed ucall p s =
     with_conn p s (\<lambda>k.
       bindR
         (if conn_state k = kConnected then
            bindR (disableAll EventLoop_updateChannel (conn_channel k) (put_conn p (setState kDisconnected k) s)) (\<lambda>s1.
              with_conn p s1 (\<lambda>k1. call_cb ucall (connectionCallback k1) p (0::int) s1))
          else Inr s)
         (\<lambda>s2. with_conn p s2 (\<lambda>k2. EventLoop_removeChannel (conn_channel k2) s2)))"

definition shutdownInLoop where
  "shutdownInLoop p s =
     with_conn p s (\<lambda>k. with_chan (conn_channel k) s (\<lambda>c.
       if \<not> isWriting c then Inr (Socket_shutdownWrite (conn_sockfd k) s) else Inr s))"

definition TcpConnection_shutdown where
  "TcpConnection_shutdown tid p s =
     with_conn p s (\<lambda>k.
       if conn_state k = kConnected then
         runInLoop (\<lambda>_. shutdownInLoop p) tid (ConnShutdownInLoop p) (put_conn p (setState kDisconnecting k) s)
       else Inr s)"

definition TcpConnection_setTcpNoDelay where
  "TcpConnection_setTcpNoDelay p on s = with_conn p s (\<lambda>k. Inr (Socket_setTcpNoDelay (conn_sockfd k) on s))"

definition handleClose where
  "handleClose ucall p s =
     with_conn p s (\<lambda>k.
       check (conn_state k = kConnected \<or> conn_state k = kDisconnecting)
         ''state_ == StateE::kConnected || state_ == StateE::kDisconnecting''
         (bindR (disableAll EventLoop_updateChannel (conn_channel k) (put_conn p (setState kDisconnected k) s)) (\<lambda>s1.
          with_conn p s1 (\<lambda>k1. bindR (call_cb ucall (connectionCallback k1) p (0::int) s1) (\<lambda>s2.
          with_conn p s2 (\<lambda>k2. call_cb ucall (conn_closeCallback k2) p (0::int) s2))))))"

text \<open>\<open>handleError\<close> reads and logs the socket's error.\<close>

definition handleError where
  "handleError p s = with_conn p s (\<lambda>k. with_chan (conn_channel k) s (\<lambda>c. Inr s))"

definition TcpConnection_handleRead where
  "TcpConnection_handleRead ucall receiveTime p s =
     with_conn p s (\<lambda>k. with_chan (conn_channel k) s (\<lambda>c.
       let (r, s1) = sys_readv (ch_fd c) s in
       bindR (readFd r (inputBuffer k)) (\<lambda>(b, n, _).
         let s2 = put_conn p (k\<lparr>inputBuffer := b\<rparr>) s1 in
         if 0 < n then call_cb ucall (messageCallback k) p receiveTime s2
         else if n = 0 then handleClose ucall p s2
         else handleError p s2)))"

definition handleWrite where
  "handleWrite tid p s =
     with_conn p s (\<lambda>k. with_chan (conn_channel k) s (\<lambda>c.
       if isWriting c then
         bindR (read_at (peek (outputBuffer k)) (readableBytes (outputBuffer k)) (storage (outputBuffer k))) (\<lambda>data.
         let (n, s1) = sys_write (ch_fd c) data s in
         if 0 < n then
           bindR (retrieve (nat n) (outputBuffer k)) (\<lambda>out.
           let s2 = put_conn p (k\<lparr>outputBuffer := out\<rparr>) s1 in
           if readableBytes out = 0 then
             bindR (disableWriting EventLoop_updateChannel (conn_channel k) s2) (\<lambda>s3.
             let s4 = (case writeCompleteCallback k of
                         None \<Rightarrow> s3 | Some cb \<Rightarrow> queueInLoop tid (WriteComplete cb p) s3) in
             if conn_state k = kDisconnecting then shutdownInLoop p s4 else Inr s4)
           else Inr s2)
         else Inr s1)
       else Inr s))"

text \<open>What the bound functions of this component do.\<close>

definition conn_functor where
  "conn_functor ucall tid other f s =
     (case f of
        ConnSendInLoop p msg \<Rightarrow> sendInLoop tid p msg s
      | ConnStartReadInLoop p \<Rightarrow> startReadInLoop p s
      | ConnStopReadInLoop p \<Rightarrow> stopReadInLoop p s
      | ConnShutdownInLoop p \<Rightarrow> shutdownInLoop p s
      | ConnEstablished p \<Rightarrow> connectionEstablished ucall p s
      | ConnDestroyed p \<Rightarrow> connectionDestroyed ucall p s
      | WriteComplete cb p \<Rightarrow> ucall (UserCb cb) p 0 s
      | HighWaterMark cb p len \<Rightarrow> ucall (UserCb cb) p (int len) s
      | _ \<Rightarrow> other f s)"

definition conn_channel_cb where
  "conn_channel_cb ucall tid other receiveTime cb s =
     (case cb of
        ConnRead p \<Rightarrow> TcpConnection_handleRead ucall receiveTime p s
      | ConnWrite p \<Rightarrow> handleWrite tid p s
      | ConnClose p \<Rightarrow> handleClose ucall p s
      | ConnError p \<Rightarrow> handleError p s
      | _ \<Rightarrow> other receiveTime cb s)"

subsection \<open>Reading the log of socket calls\<close>

fun wire_of :: "int \<Rightarrow> net_event \<Rightarrow> string" where
  "wire_of fd (NetWrite fd' data) = (if fd' = fd then data else [])"
| "wire_of fd _ = []"

definition wire :: "int \<Rightarrow> net_event list \<Rightarrow> string" where
  "wire fd evs = concat (map (wire_of fd) evs)"

definition shutdowns :: "int \<Rightarrow> net_event list \<Rightarrow> nat" where
  "shutdowns fd evs = length (filter (\<lambda>e. e = NetShutdown fd) evs)"

lemma wire_simps [simp]:
  "wire fd [] = []" "wire fd (e # evs) = wire_of fd e @ wire fd evs" "wire fd (evs @ evs') = wire fd evs @ wire fd evs'"
  by (simp_all add: wire_def)

lemma shutdowns_simps [simp]:
  "shutdowns fd [] = 0" "shutdowns fd (e # evs) = (if e = NetShutdown fd then 1 else 0) + shutdowns fd evs"
  "shutdowns fd (evs @ evs') = shutdowns fd evs + shutdowns fd evs'"
  by (simp_all add: shutdowns_def)

subsection \<open>The invariant\<close>

text \<open>
  The channel of a connection is registered and watches for writability exactly while the output
  buffer holds bytes.
\<close>

definition conn_inv :: "nat \<Rightarrow> connection \<Rightarrow> channel \<Rightarrow> ('m) conn_state_t_scheme \<Rightarrow> bool" where
  "conn_inv p k c s \<longleftrightarrow> loop_inv s \<and> conns s p = Some k \<and> chans s (conn_channel k) = Some c \<and>
     ep_registered (conn_channel k) s \<and> ch_fd c = conn_sockfd k \<and> buffer_inv (outputBuffer k) \<and>
     (isWriting c \<longleftrightarrow> content (outputBuffer k) \<noteq> [])"

definition os_write_ok :: "('m) conn_state_t_scheme \<Rightarrow> bool" where
  "os_write_ok s \<longleftrightarrow> (\<forall>i fd data. osWrite s i fd data \<le> int (length data))"

lemma with_conn_Some [simp]: "conns s p = Some k \<Longrightarrow> with_conn p s f = f k"
  by (simp add: with_conn_def)

lemma with_conn_Inr_iff [res_simps]:
  "with_conn p s f = Inr y \<longleftrightarrow> (\<exists>k. conns s p = Some k \<and> f k = Inr y)"
  by (simp add: with_conn_def split: option.splits)

lemma poll_frame_conn:
  assumes "poll_frame s s'"
  shows "conns s' = conns s" "netLog s' = netLog s" "osWrite s' = osWrite s" "osRead s' = osRead s"
    "osCalls s' = osCalls s" "threadId s' = threadId s" "pendingFunctors s' = pendingFunctors s"
  using assms by (cases s; cases s'; simp add: poll_frame_def)+

lemma put_conn_fields [simp]:
  "chans (put_conn p k s) = chans s" "conns (put_conn p k s) = (conns s)(p \<mapsto> k)"
  "netLog (put_conn p k s) = netLog s" "osWrite (put_conn p k s) = osWrite s" "threadId (put_conn p k s) = threadId s"
  "osRead (put_conn p k s) = osRead s" "osCalls (put_conn p k s) = osCalls s"
  "pendingFunctors (put_conn p k s) = pendingFunctors s" "channelMap (put_conn p k s) = channelMap s"
  "ctlLog (put_conn p k s) = ctlLog s" "eventListSize (put_conn p k s) = eventListSize s" "lp_this (put_conn p k s) = lp_this s"
  by (simp_all add: put_conn_def)

lemma net_fields [simp]:
  "chans (net e s) = chans s" "conns (net e s) = conns s" "netLog (net e s) = netLog s @ [e]"
  "osWrite (net e s) = osWrite s" "threadId (net e s) = threadId s" "osCalls (net e s) = osCalls s"
  "osRead (net e s) = osRead s" "pendingFunctors (net e s) = pendingFunctors s" "channelMap (net e s) = channelMap s"
  "ctlLog (net e s) = ctlLog s" "eventListSize (net e s) = eventListSize s" "lp_this (net e s) = lp_this s"
  by (simp_all add: net_def)

lemma queue_conn_fields [simp]:
  "conns (queueInLoop tid cb s) = conns s" "netLog (queueInLoop tid cb s) = netLog s"
  "osWrite (queueInLoop tid cb s) = osWrite s" "osRead (queueInLoop tid cb s) = osRead s"
  "osCalls (queueInLoop tid cb s) = osCalls s"
  by (simp_all add: queueInLoop_def wakeup_def Let_def)

lemma loop_inv_conn_ops [simp]:
  "loop_inv (put_conn p k s) = loop_inv s" "ep_registered q (put_conn p k s) = ep_registered q s"
  "loop_inv (net e s) = loop_inv s" "ep_registered q (net e s) = ep_registered q s"
  "loop_inv (queueInLoop tid cb s) = loop_inv s" "ep_registered q (queueInLoop tid cb s) = ep_registered q s"
  "loop_inv (s\<lparr>osCalls := n\<rparr>) = loop_inv s" "ep_registered q (s\<lparr>osCalls := n\<rparr>) = ep_registered q s"
  by (rule loop_inv_cong; simp)+

lemma sys_write_fields:
  assumes "sys_write fd data s = (n, s')"
  shows "n = osWrite s (osCalls s) fd data" "chans s' = chans s" "conns s' = conns s" "osWrite s' = osWrite s"
    "threadId s' = threadId s" "loop_inv s' = loop_inv s" "ep_registered q s' = ep_registered q s"
    "netLog s' = netLog s @ (if 0 \<le> n then [NetWrite fd (take (nat n) data)] else [])"
    "pendingFunctors s' = pendingFunctors s"
  using assms by (auto simp: sys_write_def Let_def split: if_splits)

text \<open>The channel that the constructor makes for connection \<open>p\<close>.\<close>

definition conn_chan :: "nat \<Rightarrow> nat \<Rightarrow> int \<Rightarrow> bool \<Rightarrow> channel" where
  "conn_chan p l fd uninit =
     setErrorCallback (Some (ConnError p)) (setCloseCallback (Some (ConnClose p))
       (setWriteCallback (Some (ConnWrite p)) (setReadCallback (Some (ConnRead p)) (Channel_new l fd uninit))))"

lemma conn_chan_simps [simp]:
  "ch_index (conn_chan p l fd u) = -1" "ch_loop (conn_chan p l fd u) = l" "ch_fd (conn_chan p l fd u) = fd"
  "ch_events (conn_chan p l fd u) = 0" "readCallback (conn_chan p l fd u) = Some (ConnRead p)"
  "writeCallback (conn_chan p l fd u) = Some (ConnWrite p)" "closeCallback (conn_chan p l fd u) = Some (ConnClose p)"
  "errorCallback (conn_chan p l fd u) = Some (ConnError p)"
  by (simp_all add: conn_chan_def setErrorCallback_def setCloseCallback_def setWriteCallback_def setReadCallback_def Channel_new_def)

text \<open>\<open>connectionEstablished\<close> on a new object: the channel joins the poller, the connection is up, the callback is called.\<close>

lemma established_ok:
  assumes c: "c = conn_chan p (lp_this s) (conn_sockfd k) u"
    and inv: "loop_inv s" and q: "chans s (conn_channel k) = None" and fd: "0 \<le> conn_sockfd k" "ep_free_fd (conn_sockfd k) s"
    and k: "conn_state k = kConnecting"
  obtains s1 where "connectionEstablished ucall p (put_conn p k (put_chan (conn_channel k) c s)) =
      call_cb ucall (connectionCallback k) p 0 s1"
    "poll_frame (put_conn p (k\<lparr>conn_state := kConnected\<rparr>) s) s1" "loop_inv s1"
    "ep_registered (conn_channel k) s1" "ep_armed (conn_channel k) s1 = kReadEvent"
    "chans s1 = (chans s)(conn_channel k \<mapsto> c\<lparr>ch_events := kReadEvent, ch_index := kAdded\<rparr>)"
    "\<And>x. ep_free_fd x s1 \<longleftrightarrow> x \<noteq> conn_sockfd k \<and> ep_free_fd x s"
    "\<And>r. r \<noteq> conn_channel k \<Longrightarrow> ep_registered r s1 = ep_registered r s"
proof -
  let ?q = "conn_channel k" let ?k = "k\<lparr>conn_state := kConnected\<rparr>" let ?s = "put_conn p ?k s"
  have s: "loop_inv ?s" "chans ?s ?q = None" "ch_loop c = lp_this ?s" "ep_free_fd (ch_fd c) ?s" and free: "ep_free_fd x ?s = ep_free_fd x s" for x
    using inv q fd by (simp_all add: c ep_free_fd_def)
  obtain s1 where s1: "enableReading EventLoop_updateChannel ?q (put_chan ?q c ?s) = Inr s1" "loop_inv s1" "ep_registered ?q s1"
    "ep_armed ?q s1 = kReadEvent" "poll_frame ?s s1"
    "chans s1 = (chans ?s)(?q \<mapsto> c\<lparr>ch_events := kReadEvent, ch_index := kAdded\<rparr>)"
    "\<And>x. ep_free_fd x s1 \<longleftrightarrow> x \<noteq> ch_fd c \<and> ep_free_fd x ?s" "\<And>r. r \<noteq> ?q \<Longrightarrow> ep_registered r s1 = ep_registered r ?s"
    by (rule chan_start [OF s(1,2) _ s(3) _ _ s(4)]) (simp_all add: c fd)
  have "put_conn p ?k (put_conn p k (put_chan ?q c s)) = put_chan ?q c ?s"
    by (cases s) (simp add: put_conn_def put_chan_def)
  moreover have "conns s1 p = Some ?k" using poll_frame_conn(1) [OF s1(5)] by simp
  ultimately have "connectionEstablished ucall p (put_conn p k (put_chan ?q c s)) = call_cb ucall (connectionCallback k) p 0 s1"
    using s1(1) k by (simp add: connectionEstablished_def setState_def)
  with s1 show thesis by (intro that [of s1]) (simp_all add: free c)
qed

text \<open>The direct write of \<open>sendInLoop\<close>: it is tried only with an empty buffer, so order is kept.\<close>

lemma send_direct_ok:
  assumes inv: "conn_inv p k c s" and os: "os_write_ok s" and d: "send_direct tid p k c message s = (n, s1)"
  shows "0 \<le> n" "nat n \<le> length message" "conn_inv p k c s1" "os_write_ok s1" "threadId s1 = threadId s"
    "wire (conn_sockfd k) (netLog s1) = wire (conn_sockfd k) (netLog s) @ take (nat n) message"
    "shutdowns (conn_sockfd k) (netLog s1) = shutdowns (conn_sockfd k) (netLog s)"
    "0 < n \<Longrightarrow> content (outputBuffer k) = []"
    "content (outputBuffer k) = [] \<Longrightarrow> n = max 0 (osWrite s (osCalls s) (conn_sockfd k) message)"
proof -
  have fd: "ch_fd c = conn_sockfd k" and b: "buffer_inv (outputBuffer k)" using inv by (simp_all add: conn_inv_def)
  obtain m s' where w: "sys_write (ch_fd c) message s = (m, s')" by force
  note f = sys_write_fields [OF w]
  have m: "m \<le> int (length message)" using os f(1) by (simp add: os_write_ok_def)
  have nm: "nat (osWrite s (osCalls s) (conn_sockfd k) message) \<le> length message"
    using os by (simp add: os_write_ok_def nat_le_iff)
  show "0 \<le> n" "nat n \<le> length message" "conn_inv p k c s1" "os_write_ok s1" "threadId s1 = threadId s"
    "wire (conn_sockfd k) (netLog s1) = wire (conn_sockfd k) (netLog s) @ take (nat n) message"
    "shutdowns (conn_sockfd k) (netLog s1) = shutdowns (conn_sockfd k) (netLog s)"
    "0 < n \<Longrightarrow> content (outputBuffer k) = []"
    "content (outputBuffer k) = [] \<Longrightarrow> n = max 0 (osWrite s (osCalls s) (conn_sockfd k) message)"
    using d w f m nm fd b inv os
    by (auto simp: send_direct_def conn_inv_def os_write_ok_def split: if_splits option.splits)
qed

text \<open>One call of \<open>sendInLoop\<close>: nothing fails, no byte is lost or reordered.\<close>

definition conn_same :: "connection \<Rightarrow> connection \<Rightarrow> bool" where
  "conn_same k k' \<longleftrightarrow> k'\<lparr>outputBuffer := outputBuffer k\<rparr> = k"

lemma conn_sameD:
  "conn_same k k' \<Longrightarrow> conn_state k' = conn_state k \<and> conn_sockfd k' = conn_sockfd k \<and> conn_channel k' = conn_channel k"
  by (cases k; cases k'; simp add: conn_same_def)

text \<open>A new content of the output buffer, with the channel watching for writability exactly when there is some.\<close>

lemma conn_out_events:
  fixes s :: "('m) conn_state_t_scheme"
  assumes ch: "loop_inv s" "chans s (conn_channel k) = Some c" "ep_registered (conn_channel k) s" "ch_fd c = conn_sockfd k"
    and out: "buffer_inv out" and f: "f (ch_events c) AND kWriteEvent \<noteq> 0 \<longleftrightarrow> content out \<noteq> []" and k': "k' = k\<lparr>outputBuffer := out\<rparr>"
  obtains s' c' where "set_events f EventLoop_updateChannel (conn_channel k) (put_conn p k' s) = Inr s'" "conn_inv p k' c' s'"
    "poll_frame (put_conn p k' s) s'"
proof -
  have s: "loop_inv (put_conn p k' s)" "chans (put_conn p k' s) (conn_channel k) = Some c" "ep_registered (conn_channel k) (put_conn p k' s)"
    using ch by simp_all
  obtain s' c' where s': "set_events f EventLoop_updateChannel (conn_channel k) (put_conn p k' s) = Inr s'" "loop_inv s'"
    "ep_registered (conn_channel k) s'" "chans s' (conn_channel k) = Some c'" "ch_events c' = f (ch_events c)"
    "same_but_index (c\<lparr>ch_events := f (ch_events c)\<rparr>) c'" "poll_frame (put_conn p k' s) s'"
    by (rule chan_set_events [OF s(1,2) disjI1 [OF s(3)], where f = f]) blast
  have "conns s' p = Some k'" using poll_frame_conn(1) [OF s'(7)] by simp
  moreover have "ch_fd c' = conn_sockfd k" using same_but_index_simps(2) [OF s'(6)] ch(4) by simp
  ultimately have "conn_inv p k' c' s'" using s'(2-5) out f by (simp add: conn_inv_def k' isWriting_def)
  with s'(1,7) show thesis by (intro that)
qed

lemma conn_out_filled:
  fixes s :: "('m) conn_state_t_scheme"
  assumes ch: "loop_inv s" "chans s (conn_channel k) = Some c" "ep_registered (conn_channel k) s" "ch_fd c = conn_sockfd k"
    and out: "buffer_inv out" "content out \<noteq> []" and k': "k' = k\<lparr>outputBuffer := out\<rparr>"
  obtains s' c' where "(if \<not> isWriting c then enableWriting EventLoop_updateChannel (conn_channel k) (put_conn p k' s)
      else Inr (put_conn p k' s)) = Inr s'" "conn_inv p k' c' s'" "poll_frame (put_conn p k' s) s'"
proof (cases "isWriting c")
  case True
  then have "conn_inv p k' c (put_conn p k' s)" using ch out by (simp add: conn_inv_def k')
  with True show thesis by (intro that [of "put_conn p k' s" c]) simp_all
next
  case False
  have f: "(ch_events c OR kWriteEvent) AND kWriteEvent \<noteq> 0 \<longleftrightarrow> content out \<noteq> []" using out(2) masks_disjoint(3) by simp
  obtain s' c' where "set_events (\<lambda>e. e OR kWriteEvent) EventLoop_updateChannel (conn_channel k) (put_conn p k' s) = Inr s'"
    "conn_inv p k' c' s'" "poll_frame (put_conn p k' s) s'"
    by (rule conn_out_events [OF ch out(1), where f = "\<lambda>e. e OR kWriteEvent", OF f k'])
  with False show thesis by (intro that) (simp_all add: enableWriting_def)
qed

lemma conn_out_empty:
  fixes s :: "('m) conn_state_t_scheme"
  assumes ch: "loop_inv s" "chans s (conn_channel k) = Some c" "ep_registered (conn_channel k) s" "ch_fd c = conn_sockfd k"
    and out: "buffer_inv out" "content out = []" and k': "k' = k\<lparr>outputBuffer := out\<rparr>"
  obtains s' c' where "disableWriting EventLoop_updateChannel (conn_channel k) (put_conn p k' s) = Inr s'" "conn_inv p k' c' s'"
    "poll_frame (put_conn p k' s) s'"
proof -
  have f: "(ch_events c AND NOT kWriteEvent) AND kWriteEvent \<noteq> 0 \<longleftrightarrow> content out \<noteq> []" using out(2) by simp
  show thesis
    by (rule conn_out_events [OF ch out(1), where f = "\<lambda>e. e AND NOT kWriteEvent", OF f k']) (intro that, simp_all add: disableWriting_def)
qed


lemma sendInLoop_ok:
  assumes inv: "conn_inv p k c s" and os: "os_write_ok s"
    and room: "writerIndex (outputBuffer k) + length message \<le> VEC_MAX"
  shows "\<exists>s' k' c'. sendInLoop tid p message s = Inr s' \<and> conn_inv p k' c' s' \<and> os_write_ok s' \<and>
    threadId s' = threadId s \<and> conn_same k k' \<and>
    wire (conn_sockfd k) (netLog s') @ content (outputBuffer k') =
      wire (conn_sockfd k) (netLog s) @ content (outputBuffer k) @ message \<and>
    shutdowns (conn_sockfd k) (netLog s') = shutdowns (conn_sockfd k) (netLog s) \<and>
    writerIndex (outputBuffer k') \<le> writerIndex (outputBuffer k) + length message \<and>
    (content (outputBuffer k) = [] \<and> message \<noteq> [] \<and> osWrite s (osCalls s) (conn_sockfd k) message < int (length message) \<longrightarrow>
      content (outputBuffer k') \<noteq> [])"
proof -
  have k: "conns s p = Some k" "chans s (conn_channel k) = Some c" "buffer_inv (outputBuffer k)"
    using inv by (simp_all add: conn_inv_def)
  obtain n s1 where d: "send_direct tid p k c message s = (n, s1)" by force
  note f = send_direct_ok [OF inv os d]
  let ?rest = "drop (nat n) message"
  show ?thesis
  proof (cases "nat n < length message")
    case False
    with f(2) have n: "nat n = length message" by simp
    have "content (outputBuffer k) = [] \<or> message = []" using f(8) n by (cases message) auto
    moreover have "\<not> (content (outputBuffer k) = [] \<and> message \<noteq> [] \<and>
        osWrite s (osCalls s) (conn_sockfd k) message < int (length message))"
      using f(9) n by (cases message) auto
    ultimately show ?thesis using f(1-7) k d False n
      by (intro exI [of _ s1] exI [of _ k] exI [of _ c]) (auto simp: sendInLoop_def conn_same_def)
  next
    case True
    have "writerIndex (outputBuffer k) + length ?rest \<le> VEC_MAX" using room by simp
    then obtain out where out: "append_buf ?rest (outputBuffer k) = Inr out" "buffer_inv out"
        "content out = content (outputBuffer k) @ ?rest" "writerIndex out \<le> writerIndex (outputBuffer k) + length ?rest"
      using append_buf_ok [OF k(3), of ?rest] by blast
    define s2 where "s2 = (case highWaterMarkCallback k of
        Some cb \<Rightarrow> if highWaterMark k \<le> size_add (readableBytes (outputBuffer k)) (size_sub (length message) (nat n)) \<and>
                       readableBytes (outputBuffer k) < highWaterMark k
                   then queueInLoop tid (HighWaterMark cb p
                     (size_add (readableBytes (outputBuffer k)) (size_sub (length message) (nat n)))) s1 else s1
      | None \<Rightarrow> s1)"
    have s2: "chans s2 = chans s1" "conns s2 = conns s1" "netLog s2 = netLog s1" "osWrite s2 = osWrite s1"
      "threadId s2 = threadId s1" "loop_inv s2 = loop_inv s1" "ep_registered q s2 = ep_registered q s1" for q
      by (auto simp: s2_def split: option.splits)
    let ?k = "k\<lparr>outputBuffer := out\<rparr>" let ?s3 = "put_conn p ?k s2"
    have run: "sendInLoop tid p message s =
        (if \<not> isWriting c then enableWriting EventLoop_updateChannel (conn_channel k) ?s3 else Inr ?s3)"
      using k(1,2) d f(1) True out(1) by (simp add: sendInLoop_def Let_def s2_def)
    have ne: "content out \<noteq> []" using out(3) True by simp
    have s1: "loop_inv s2" "chans s2 (conn_channel k) = Some c" "ep_registered (conn_channel k) s2" "ch_fd c = conn_sockfd k"
      using f(3) s2 by (simp_all add: conn_inv_def)
    obtain s' c' where s': "sendInLoop tid p message s = Inr s'" "conn_inv p ?k c' s'" "poll_frame ?s3 s'"
      by (rule conn_out_filled [OF s1 out(2) ne refl, of p, folded run])
    note fr = poll_frame_conn [OF s'(3)]
    have "wire (conn_sockfd k) (netLog s2) @ content out = wire (conn_sockfd k) (netLog s) @ content (outputBuffer k) @ message"
      using f(6,8) out(3) s2(3) by (cases "0 < n") simp_all
    then show ?thesis using s'(1,2) fr s2 f(4,5,7) out(4) ne
      by (intro exI [of _ s'] exI [of _ ?k] exI [of _ c']) (simp add: os_write_ok_def conn_same_def)
  qed
qed

text \<open>One call of \<open>handleWrite\<close> on a writable socket.\<close>

lemma shutdownInLoop_idle:
  "conn_inv p k c s \<Longrightarrow> shutdownInLoop p s =
     Inr (if content (outputBuffer k) = [] then net (NetShutdown (conn_sockfd k)) s else s)"
  by (auto simp: shutdownInLoop_def conn_inv_def Socket_shutdownWrite_def sockets_shutdownWrite_def)

lemma conn_inv_net [simp]: "conn_inv p k c (net e s) = conn_inv p k c s"
  by (simp add: conn_inv_def)

lemma conn_inv_queue [simp]: "conn_inv p k c (queueInLoop tid cb s) = conn_inv p k c s"
  by (simp add: conn_inv_def)

lemma handleWrite_drains:
  fixes s :: "('m) conn_state_t_scheme"
  assumes inv: "conn_inv p k c s" and data: "content (outputBuffer k) \<noteq> []"
    and w: "sys_write (conn_sockfd k) (content (outputBuffer k)) s = (n, s1)" "0 < n"
    and out: "retrieve (nat n) (outputBuffer k) = Inr out" "buffer_inv out" "content out = []"
  obtains s' c' where "handleWrite tid p s = Inr s'" "conn_inv p (k\<lparr>outputBuffer := out\<rparr>) c' s'" "osWrite s' = osWrite s1"
    "threadId s' = threadId s1"
    "netLog s' = netLog s1 @ (if conn_state k = kDisconnecting then [NetShutdown (conn_sockfd k)] else [])"
proof -
  have k: "conns s p = Some k" "chans s (conn_channel k) = Some c" "isWriting c" "buffer_inv (outputBuffer k)"
      "ch_fd c = conn_sockfd k" "loop_inv s" "ep_registered (conn_channel k) s"
    using inv data by (simp_all add: conn_inv_def)
  note f = sys_write_fields [OF w(1)]
  have rd: "read_at (peek (outputBuffer k)) (readableBytes (outputBuffer k)) (storage (outputBuffer k)) = Inr (content (outputBuffer k))"
    using read_content [OF k(4)] k(4) by (simp add: peek_def)
  have ro: "readableBytes out = 0" using out(2,3) by (simp del: length_content)
  let ?k = "k\<lparr>outputBuffer := out\<rparr>" let ?s2 = "put_conn p ?k s1" let ?fd = "conn_sockfd k"
  obtain s3 c' where s3: "disableWriting EventLoop_updateChannel (conn_channel k) ?s2 = Inr s3" "conn_inv p ?k c' s3" "poll_frame ?s2 s3"
    by (rule conn_out_empty [OF _ _ _ k(5) out(2,3) refl, of s1 p]) (use f k in simp_all)
  note fr = poll_frame_conn [OF s3(3)]
  define s4 where "s4 = (case writeCompleteCallback k of None \<Rightarrow> s3 | Some cb \<Rightarrow> queueInLoop tid (WriteComplete cb p) s3)"
  from s3(2) have i4: "conn_inv p ?k c' s4" by (simp add: s4_def split: option.splits)
  have s4: "netLog s4 = netLog s1" "osWrite s4 = osWrite s1" "threadId s4 = threadId s1"
    by (auto simp: s4_def fr split: option.splits)
  have "handleWrite tid p s = (if conn_state k = kDisconnecting then shutdownInLoop p s4 else Inr s4)"
    using k(1-3,5) w rd out(1) ro s3(1) by (simp add: handleWrite_def s4_def Let_def)
  also have "\<dots> = Inr (if conn_state k = kDisconnecting then net (NetShutdown ?fd) s4 else s4)"
    using shutdownInLoop_idle [OF i4] out(3) by simp
  finally show thesis
    using i4 s4 by (intro that [of "if conn_state k = kDisconnecting then net (NetShutdown ?fd) s4 else s4" c']) simp_all
qed

lemma handleWrite_ok:
  assumes inv: "conn_inv p k c s" and os: "os_write_ok s"
  shows "\<exists>s' k' c'. handleWrite tid p s = Inr s' \<and> conn_inv p k' c' s' \<and> os_write_ok s' \<and>
    threadId s' = threadId s \<and> conn_same k k' \<and>
    wire (conn_sockfd k) (netLog s') @ content (outputBuffer k') =
      wire (conn_sockfd k) (netLog s) @ content (outputBuffer k) \<and>
    shutdowns (conn_sockfd k) (netLog s') = shutdowns (conn_sockfd k) (netLog s) +
      (if content (outputBuffer k) \<noteq> [] \<and> content (outputBuffer k') = [] \<and> conn_state k = kDisconnecting then 1 else 0) \<and>
    writerIndex (outputBuffer k') \<le> writerIndex (outputBuffer k)"
proof (cases "content (outputBuffer k) = []")
  case True
  then have "handleWrite tid p s = Inr s" using inv by (simp add: handleWrite_def conn_inv_def)
  with True inv os show ?thesis by (auto simp: conn_same_def)
next
  case False
  have k: "conns s p = Some k" "chans s (conn_channel k) = Some c" "isWriting c" "buffer_inv (outputBuffer k)"
      "ch_fd c = conn_sockfd k" "loop_inv s" "ep_registered (conn_channel k) s"
    using inv False by (simp_all add: conn_inv_def)
  let ?data = "content (outputBuffer k)" let ?fd = "conn_sockfd k"
  obtain n s1 where w: "sys_write ?fd ?data s = (n, s1)" by force
  note f = sys_write_fields [OF w]
  have rd: "read_at (peek (outputBuffer k)) (readableBytes (outputBuffer k)) (storage (outputBuffer k)) = Inr ?data"
    using read_content [OF k(4)] k(4) by (simp add: peek_def)
  have os1: "os_write_ok s1" using os f(4) by (simp add: os_write_ok_def)
  show ?thesis
  proof (cases "0 < n")
    case neg: False
    then have "handleWrite tid p s = Inr s1" using k w rd by (simp add: handleWrite_def)
    moreover have "conn_inv p k c s1" using inv f by (simp add: conn_inv_def)
    ultimately show ?thesis using neg False f os1
      by (intro exI [of _ s1] exI [of _ k] exI [of _ c]) (auto simp: conn_same_def)
  next
    case pos: True
    have nle: "nat n \<le> length ?data" using os f(1) by (simp add: os_write_ok_def nat_le_iff)
    obtain out where out: "retrieve (nat n) (outputBuffer k) = Inr out" "buffer_inv out"
        "content out = drop (nat n) ?data" "writerIndex out \<le> writerIndex (outputBuffer k)"
      using retrieve_ok [OF k(4) nle] by blast
    let ?k = "k\<lparr>outputBuffer := out\<rparr>" let ?s2 = "put_conn p ?k s1"
    have same: "conn_same k ?k" by (simp add: conn_same_def)
    have ro: "readableBytes out = 0 \<longleftrightarrow> content out = []" using out(2) by (simp del: length_content)
    have lg: "netLog ?s2 = netLog s @ [NetWrite ?fd (take (nat n) ?data)]" using f(8) pos by simp
    have s2: "loop_inv ?s2" "chans ?s2 (conn_channel k) = Some c" "ep_registered (conn_channel k) ?s2"
      using f k by simp_all
    show ?thesis
    proof (cases "content out = []")
      case more: False
      then have "handleWrite tid p s = Inr ?s2"
        using k(1-3,5) w rd pos out(1) ro by (simp add: handleWrite_def Let_def)
      moreover have "conn_inv p ?k c ?s2" using s2 k more out by (simp add: conn_inv_def)
      ultimately show ?thesis using os1 same lg more out f(5)
        by (intro exI [of _ ?s2] exI [of _ ?k] exI [of _ c]) (simp add: os_write_ok_def)
    next
      case fin: True
      obtain s' c' where s': "handleWrite tid p s = Inr s'" "conn_inv p ?k c' s'" "osWrite s' = osWrite s1" "threadId s' = threadId s1"
        "netLog s' = netLog s1 @ (if conn_state k = kDisconnecting then [NetShutdown ?fd] else [])"
        by (rule handleWrite_drains [OF inv False w pos out(1,2) fin])
      have "take (nat n) ?data = ?data" using fin out(3) by simp
      with s' same os1 fin out lg f(5) False show ?thesis
        by (intro exI [of _ s'] exI [of _ ?k] exI [of _ c']) (simp add: os_write_ok_def)
    qed
  qed
qed

subsection \<open>The state of a loop without what a program adds to it\<close>

lemma view_loop [simp]:
  "chans (conn_state_t.extend t m) = chans t" "channelMap (conn_state_t.extend t m) = channelMap t"
  "ctlLog (conn_state_t.extend t m) = ctlLog t" "eventListSize (conn_state_t.extend t m) = eventListSize t"
  "lp_this (conn_state_t.extend t m) = lp_this t" "threadId (conn_state_t.extend t m) = threadId t"
  "pendingFunctors (conn_state_t.extend t m) = pendingFunctors t" "wakeupLog (conn_state_t.extend t m) = wakeupLog t"
  "callingPendingFunctors (conn_state_t.extend t m) = callingPendingFunctors t"
  "conns (conn_state_t.extend t m) = conns t" "netLog (conn_state_t.extend t m) = netLog t"
  "osWrite (conn_state_t.extend t m) = osWrite t"
  "conn_state_t.more (conn_state_t.extend t m) = m" "conn_state_t.truncate (conn_state_t.extend t m) = t"
  by (simp_all add: conn_state_t.defs)

lemma truncate_loop [simp]:
  "chans (conn_state_t.truncate s) = chans s" "channelMap (conn_state_t.truncate s) = channelMap s"
  "ctlLog (conn_state_t.truncate s) = ctlLog s" "eventListSize (conn_state_t.truncate s) = eventListSize s"
  "lp_this (conn_state_t.truncate s) = lp_this s" "threadId (conn_state_t.truncate s) = threadId s"
  "pendingFunctors (conn_state_t.truncate s) = pendingFunctors s" "wakeupLog (conn_state_t.truncate s) = wakeupLog s"
  "callingPendingFunctors (conn_state_t.truncate s) = callingPendingFunctors s"
  "conns (conn_state_t.truncate s) = conns s" "netLog (conn_state_t.truncate s) = netLog s"
  "osWrite (conn_state_t.truncate s) = osWrite s"
  "conn_state_t.extend (conn_state_t.truncate s) (conn_state_t.more s) = s"
  by (simp_all add: conn_state_t.defs)

lemma truncate_queue [simp]:
  "conn_state_t.truncate (queueInLoop tid cb s) = queueInLoop tid cb (conn_state_t.truncate s)"
  "conn_state_t.more (queueInLoop tid cb s) = conn_state_t.more s"
  "conn_state_t.extend (queueInLoop tid cb t) m = queueInLoop tid cb (conn_state_t.extend t m)"
  by (simp_all add: queueInLoop_def wakeup_def isInLoopThread_def Let_def conn_state_t.defs)

lemma poll_frame_more: "poll_frame s s' \<Longrightarrow> conn_state_t.more s' = conn_state_t.more s"
  by (cases s; cases s') (simp add: poll_frame_def)

subsection \<open>A connection as a byte stream\<close>

text \<open>
  What the owner of a connection and the loop do with it while it is up: \<open>send\<close> and \<open>shutdown\<close> in the
  loop thread, and write events.
\<close>

datatype conn_op = Send string | Shutdown | Writable

fun conn_run where
  "conn_run p (Send msg) s = TcpConnection_send (threadId s) p msg s"
| "conn_run p Shutdown s = TcpConnection_shutdown (threadId s) p s"
| "conn_run p Writable s = handleWrite (threadId s) p s"

text \<open>The bytes such a sequence of calls hands over: those sent before the first \<open>shutdown\<close>.\<close>

fun accepted :: "conn_op list \<Rightarrow> string" where
  "accepted [] = []"
| "accepted (Send msg # ops) = msg @ accepted ops"
| "accepted (Shutdown # ops) = []"
| "accepted (Writable # ops) = accepted ops"

definition stream_inv :: "nat \<Rightarrow> connection \<Rightarrow> channel \<Rightarrow> string \<Rightarrow> ('m) conn_state_t_scheme \<Rightarrow> bool" where
  "stream_inv p k c all s \<longleftrightarrow> conn_inv p k c s \<and> os_write_ok s \<and>
     wire (conn_sockfd k) (netLog s) @ content (outputBuffer k) = all \<and>
     (conn_state k = kConnected \<and> shutdowns (conn_sockfd k) (netLog s) = 0 \<or>
      conn_state k = kDisconnecting \<and>
        shutdowns (conn_sockfd k) (netLog s) = (if content (outputBuffer k) = [] then 1 else 0))"

lemma stream_Writable:
  assumes "stream_inv p k c all s"
  shows "\<exists>s' k' c'. conn_run p Writable s = Inr s' \<and> stream_inv p k' c' all s' \<and> conn_same k k' \<and>
    writerIndex (outputBuffer k') \<le> writerIndex (outputBuffer k)"
proof -
  have inv: "conn_inv p k c s" "os_write_ok s" using assms by (simp_all add: stream_inv_def)
  from handleWrite_ok [OF inv, of "threadId s"] obtain s' k' c' where s': "conn_run p Writable s = Inr s'"
    "conn_inv p k' c' s'" "os_write_ok s'" "conn_same k k'"
    "wire (conn_sockfd k) (netLog s') @ content (outputBuffer k') =
      wire (conn_sockfd k) (netLog s) @ content (outputBuffer k)"
    "shutdowns (conn_sockfd k) (netLog s') = shutdowns (conn_sockfd k) (netLog s) +
      (if content (outputBuffer k) \<noteq> [] \<and> content (outputBuffer k') = [] \<and> conn_state k = kDisconnecting then 1 else 0)"
    "writerIndex (outputBuffer k') \<le> writerIndex (outputBuffer k)" by auto
  have "content (outputBuffer k) = [] \<Longrightarrow> content (outputBuffer k') = []"
  proof -
    assume "content (outputBuffer k) = []"
    then have "handleWrite (threadId s) p s = Inr s" using inv(1) by (simp add: handleWrite_def conn_inv_def)
    with s'(1,2) inv(1) \<open>content (outputBuffer k) = []\<close> show ?thesis by (auto simp: conn_inv_def)
  qed
  with s' assms conn_sameD [OF s'(4)] show ?thesis
    by (intro exI [of _ s'] exI [of _ k'] exI [of _ c']) (auto simp: stream_inv_def)
qed

lemma stream_Send:
  assumes "stream_inv p k c all s" and "conn_state k = kConnected"
    and "writerIndex (outputBuffer k) + length msg \<le> VEC_MAX"
  shows "\<exists>s' k' c'. conn_run p (Send msg) s = Inr s' \<and> stream_inv p k' c' (all @ msg) s' \<and> conn_same k k' \<and>
    writerIndex (outputBuffer k') \<le> writerIndex (outputBuffer k) + length msg"
proof -
  have inv: "conn_inv p k c s" "os_write_ok s" using assms(1) by (simp_all add: stream_inv_def)
  from sendInLoop_ok [OF inv assms(3), of "threadId s"] obtain s' k' c' where s': "sendInLoop (threadId s) p msg s = Inr s'"
    "conn_inv p k' c' s'" "os_write_ok s'" "conn_same k k'"
    "wire (conn_sockfd k) (netLog s') @ content (outputBuffer k') =
      wire (conn_sockfd k) (netLog s) @ content (outputBuffer k) @ msg"
    "shutdowns (conn_sockfd k) (netLog s') = shutdowns (conn_sockfd k) (netLog s)"
    "writerIndex (outputBuffer k') \<le> writerIndex (outputBuffer k) + length msg" by auto
  have "conn_run p (Send msg) s = Inr s'"
    using s'(1) inv(1) assms(2) by (simp add: TcpConnection_send_def conn_inv_def isInLoopThread_def)
  with s' assms(1,2) conn_sameD [OF s'(4)] show ?thesis
    by (intro exI [of _ s'] exI [of _ k'] exI [of _ c']) (auto simp: stream_inv_def)
qed

lemma stream_Shutdown:
  assumes "stream_inv p k c all s"
  shows "\<exists>s'. conn_run p Shutdown s = Inr s' \<and> stream_inv p (setState kDisconnecting k) c all s'"
proof (cases "conn_state k = kConnected")
  case False
  then have "conn_run p Shutdown s = Inr s" "setState kDisconnecting k = k"
    using assms by (auto simp: TcpConnection_shutdown_def stream_inv_def conn_inv_def setState_def)
  with assms show ?thesis by simp
next
  case True
  let ?k = "setState kDisconnecting k" let ?s = "put_conn p ?k s"
  have c: "conn_inv p ?k c ?s" using assms by (simp add: stream_inv_def conn_inv_def setState_def)
  have "conn_run p Shutdown s = shutdownInLoop p ?s"
    using assms True by (simp add: TcpConnection_shutdown_def stream_inv_def conn_inv_def runInLoop_def isInLoopThread_def)
  also have "\<dots> = Inr (if content (outputBuffer k) = [] then net (NetShutdown (conn_sockfd k)) ?s else ?s)"
    using shutdownInLoop_idle [OF c] by (simp add: setState_def)
  finally show ?thesis
    using assms True c by (auto simp: stream_inv_def os_write_ok_def setState_def)
qed

lemma stream_after_shutdown:
  assumes "stream_inv p k c all s" and "conn_state k = kDisconnecting"
  shows "\<exists>s' k' c'. conn_run p x s = Inr s' \<and> stream_inv p k' c' all s' \<and> conn_state k' = kDisconnecting \<and>
    conn_sockfd k' = conn_sockfd k"
proof (cases x)
  case (Send msg)
  then have "conn_run p x s = Inr s"
    using assms by (simp add: TcpConnection_send_def stream_inv_def conn_inv_def)
  with assms show ?thesis by blast
next
  case Shutdown
  with stream_Shutdown [OF assms(1)] show ?thesis
    by (auto simp: setState_def intro!: exI [of _ "k\<lparr>conn_state := kDisconnecting\<rparr>"])
next
  case Writable
  with stream_Writable [OF assms(1)] assms(2) show ?thesis using conn_sameD by metis
qed

lemma stream_drains:
  assumes "stream_inv p k c all s" and "conn_state k = kDisconnecting"
  shows "\<exists>s' k' c'. foldR (conn_run p) ops s = Inr s' \<and> stream_inv p k' c' all s' \<and>
    conn_state k' = kDisconnecting \<and> conn_sockfd k' = conn_sockfd k"
  using assms
proof (induction ops arbitrary: s k c)
  case (Cons x ops)
  from stream_after_shutdown [OF Cons.prems, of x] obtain s1 k1 c1 where s1: "conn_run p x s = Inr s1"
    "stream_inv p k1 c1 all s1" "conn_state k1 = kDisconnecting" "conn_sockfd k1 = conn_sockfd k" by blast
  from Cons.IH [OF s1(2,3)] s1(1,4) show ?case by auto
qed auto

lemma stream_run:
  assumes "stream_inv p k c all s" and "conn_state k = kConnected"
    and "writerIndex (outputBuffer k) + length (accepted ops) \<le> VEC_MAX"
  shows "\<exists>s' k' c'. foldR (conn_run p) ops s = Inr s' \<and> stream_inv p k' c' (all @ accepted ops) s' \<and>
    conn_state k' = (if Shutdown \<in> set ops then kDisconnecting else kConnected) \<and> conn_sockfd k' = conn_sockfd k"
  using assms
proof (induction ops arbitrary: s k c all)
  case (Cons x ops)
  show ?case
  proof (cases x)
    case (Send msg)
    with Cons.prems have "writerIndex (outputBuffer k) + length msg \<le> VEC_MAX" by simp
    from stream_Send [OF Cons.prems(1,2) this] obtain s1 k1 c1 where s1: "conn_run p x s = Inr s1"
      "stream_inv p k1 c1 (all @ msg) s1" "conn_same k k1"
      "writerIndex (outputBuffer k1) \<le> writerIndex (outputBuffer k) + length msg" using Send by auto
    moreover have "conn_state k1 = kConnected" "conn_sockfd k1 = conn_sockfd k"
      using conn_sameD [OF s1(3)] Cons.prems(2) by simp_all
    moreover have "writerIndex (outputBuffer k1) + length (accepted ops) \<le> VEC_MAX"
      using s1(4) Cons.prems(3) Send by simp
    ultimately show ?thesis using Cons.IH [of k1 c1 "all @ msg" s1] Send by auto
  next
    case Shutdown
    from stream_Shutdown [OF Cons.prems(1)] obtain s1 where "conn_run p x s = Inr s1"
      "stream_inv p (setState kDisconnecting k) c all s1" using Shutdown by auto
    with stream_drains [of p "setState kDisconnecting k" c all s1 ops] Shutdown show ?thesis
      by (auto simp: setState_def)
  next
    case Writable
    from stream_Writable [OF Cons.prems(1)] obtain s1 k1 c1 where s1: "conn_run p x s = Inr s1"
      "stream_inv p k1 c1 all s1" "conn_same k k1" "writerIndex (outputBuffer k1) \<le> writerIndex (outputBuffer k)"
      using Writable by auto
    moreover have "conn_state k1 = kConnected" "conn_sockfd k1 = conn_sockfd k"
      using conn_sameD [OF s1(3)] Cons.prems(2) by simp_all
    moreover have "writerIndex (outputBuffer k1) + length (accepted ops) \<le> VEC_MAX"
      using s1(4) Cons.prems(3) Writable by simp
    ultimately show ?thesis using Cons.IH [of k1 c1 all s1] Writable by auto
  qed
qed auto

subsection \<open>Reading and closing\<close>

lemma armed_disabled:
  assumes "loop_inv s" "chans s q = Some c" "ep_registered q s"
    and "disableAll EventLoop_updateChannel q s = Inr s'"
  shows "ep_armed q s' = 0"
  using el.chan_ops_armed [OF assms(1-3), of "[]" DisableAll s'] assms(4)
  by (simp add: kNoneEvent_def)

lemma disableAll_ok:
  assumes inv: "loop_inv s" and c: "chans s q = Some c" and reg: "ep_registered q s"
  obtains s' d where "disableAll EventLoop_updateChannel q s = Inr s'" "loop_inv s'" "ep_registered q s'"
    "chans s' q = Some d" "ch_events d = 0" "ch_fd d = ch_fd c" "ep_armed q s' = 0" "poll_frame s s'"
proof -
  obtain s' d where s': "set_events (\<lambda>_. kNoneEvent) EventLoop_updateChannel q s = Inr s'" "loop_inv s'"
    "ep_registered q s'" "chans s' q = Some d" "ch_events d = kNoneEvent"
    "same_but_index (c\<lparr>ch_events := kNoneEvent\<rparr>) d" "poll_frame s s'"
    by (rule chan_set_events [OF inv c disjI1 [OF reg], where f = "\<lambda>_. kNoneEvent"]) blast
  then have "disableAll EventLoop_updateChannel q s = Inr s'" by (simp add: disableAll_def)
  with s' armed_disabled [OF inv c reg this] same_but_index_simps(2) [OF s'(6)] show thesis
    by (intro that [of s' d]) (simp_all add: kNoneEvent_def)
qed

text \<open>Closing, up to the calls of the two callbacks, and the destruction of a closed connection.\<close>

lemma handleClose_ok:
  assumes inv: "conn_inv p k c s" and st: "conn_state k = kConnected \<or> conn_state k = kDisconnecting"
  obtains u d where "handleClose ucall p s =
      bindR (call_cb ucall (connectionCallback k) p 0 u) (\<lambda>s2.
        with_conn p s2 (\<lambda>k2. call_cb ucall (conn_closeCallback k2) p 0 s2))"
    "conns u p = Some (k\<lparr>conn_state := kDisconnected\<rparr>)" "loop_inv u" "ep_registered (conn_channel k) u"
    "chans u (conn_channel k) = Some d" "ch_events d = 0" "ch_fd d = ch_fd c" "ch_loop d = lp_this u"
    "ep_armed (conn_channel k) u = 0" "poll_frame (put_conn p (k\<lparr>conn_state := kDisconnected\<rparr>) s) u"
proof -
  let ?s = "put_conn p (k\<lparr>conn_state := kDisconnected\<rparr>) s"
  have s: "loop_inv ?s" "chans ?s (conn_channel k) = Some c" "ep_registered (conn_channel k) ?s" "conns s p = Some k"
    using inv by (simp_all add: conn_inv_def)
  obtain u d where u: "disableAll EventLoop_updateChannel (conn_channel k) ?s = Inr u" "loop_inv u"
    "ep_registered (conn_channel k) u" "chans u (conn_channel k) = Some d" "ch_events d = 0" "ch_fd d = ch_fd c"
    "ep_armed (conn_channel k) u = 0" "poll_frame ?s u"
    by (rule disableAll_ok [OF s(1-3)]) blast
  have "ch_loop d = lp_this u" using u(2,4) by (simp add: loop_inv_def own_chans_def)
  with u st s(4) poll_frame_conn(1) [OF u(8)] show thesis
    by (intro that [of u d]) (simp_all add: handleClose_def setState_def)
qed

text \<open>
  What a connection callback may do when it runs inside \<open>handleClose\<close>: anything but to the connection, to its channel
  and the kernel's interest in it, and to the identity of the loop.  \<open>callback_lets_close\<close> is the contract of a callback that
  does not fail there; \<open>keeps\<close> is what else the owner of the connection relies on.
\<close>

definition lets_close :: "nat \<Rightarrow> nat \<Rightarrow> ('m) conn_state_t_scheme \<Rightarrow> 'm conn_state_t_scheme \<Rightarrow> bool" where
  "lets_close p q u v \<longleftrightarrow> loop_inv v \<and> conns v p = conns u p \<and> chans v q = chans u q \<and>
     ep_registered q v = ep_registered q u \<and> ep_armed q v = ep_armed q u \<and> lp_this v = lp_this u \<and> threadId v = threadId u"

definition callback_lets_close where
  "callback_lets_close keeps ucall p k \<longleftrightarrow> (\<forall>u. loop_inv u \<and> conns u p = Some k \<longrightarrow>
     (\<exists>v. call_cb ucall (connectionCallback k) p 0 u = Inr v \<and> lets_close p (conn_channel k) u v \<and> keeps u v))"

lemma lets_close_refl: "loop_inv u \<Longrightarrow> lets_close p q u u"
  by (simp add: lets_close_def)

lemma queueInLoop_lets_close:
  "loop_inv u \<Longrightarrow> lets_close p q u (queueInLoop tid f u)"
  using loop_inv_cong [of "queueInLoop tid f u" u]
  by (simp add: lets_close_def ep_armed_def queueInLoop_def wakeup_def Let_def cong: option.case_cong)

lemma quit_lets_close:
  "loop_inv u \<Longrightarrow> lets_close p q u (EventLoop_quit tid u)"
  using loop_inv_cong [of "EventLoop_quit tid u" u]
  by (simp add: lets_close_def ep_armed_def ep_registered_def EventLoop_quit_def wakeup_def Let_def cong: option.case_cong)

lemma default_lets_close:
  "connectionCallback k = Some DefaultConnection \<Longrightarrow> (\<And>u. keeps u u) \<Longrightarrow> callback_lets_close keeps ucall p k"
  by (simp add: callback_lets_close_def call_cb_def lets_close_refl)

lemma callback_lets_closeD:
  assumes "callback_lets_close keeps ucall p k" "loop_inv u" "conns u p = Some k"
  obtains v where "call_cb ucall (connectionCallback k) p 0 u = Inr v" "lets_close p (conn_channel k) u v" "keeps u v"
  using assms unfolding callback_lets_close_def by blast

lemma connectionDestroyed_ok:
  assumes "loop_inv s" "conns s p = Some k" "conn_state k = kDisconnected" "chans s (conn_channel k) = Some d"
    "ch_events d = 0" "ep_registered (conn_channel k) s"
  obtains s' where "connectionDestroyed ucall p s = Inr s'" "loop_inv s'" "\<not> ep_registered (conn_channel k) s'"
    "ep_free_fd (ch_fd d) s'" "poll_frame s s'"
proof -
  obtain s' where s': "EventLoop_removeChannel (conn_channel k) s = Inr s'" "loop_inv s'"
    "\<not> ep_registered (conn_channel k) s'" "ep_free_fd (ch_fd d) s'" "poll_frame s s'"
    by (rule chan_remove [OF assms(1,4,6,5)]) blast
  with assms(2,3) show thesis by (intro that [of s']) (simp_all add: connectionDestroyed_def)
qed

subsection \<open>Properties\<close>

text \<open>
  C1: A connection is a reliable byte stream towards the kernel.  Whatever the kernel accepts of each
  write, and however \<open>send\<close>, \<open>shutdown\<close> and write events follow each other in the loop thread, no call
  fails, and the bytes written to the socket followed by those in the output buffer are all the bytes
  handed over before the first \<open>shutdown\<close>, in order; the channel watches for writability exactly while
  the buffer holds bytes; and the writing side of the socket is shut down exactly once, after \<open>shutdown\<close>
  was called and the last byte has been written.
\<close>

theorem stream_integrity:
  assumes "conn_inv p k c s" and "os_write_ok s" and "conn_state k = kConnected"
    and "shutdowns (conn_sockfd k) (netLog s) = 0"
    and "writerIndex (outputBuffer k) + length (accepted ops) \<le> VEC_MAX"
  shows "\<exists>s' k' c'. foldR (conn_run p) ops s = Inr s' \<and> conn_inv p k' c' s' \<and>
    wire (conn_sockfd k) (netLog s') @ content (outputBuffer k') =
      wire (conn_sockfd k) (netLog s) @ content (outputBuffer k) @ accepted ops \<and>
    (isWriting c' \<longleftrightarrow> content (outputBuffer k') \<noteq> []) \<and>
    shutdowns (conn_sockfd k) (netLog s') = (if Shutdown \<in> set ops \<and> content (outputBuffer k') = [] then 1 else 0)"
proof -
  let ?all = "wire (conn_sockfd k) (netLog s) @ content (outputBuffer k)"
  have "stream_inv p k c ?all s" using assms(1-4) by (simp add: stream_inv_def)
  from stream_run [OF this assms(3,5)] obtain s' k' c' where s': "foldR (conn_run p) ops s = Inr s'"
    "stream_inv p k' c' (?all @ accepted ops) s'"
    "conn_state k' = (if Shutdown \<in> set ops then kDisconnecting else kConnected)" "conn_sockfd k' = conn_sockfd k"
    by blast
  then show ?thesis
    by (intro exI [of _ s'] exI [of _ k'] exI [of _ c']) (auto simp: stream_inv_def conn_inv_def)
qed

text \<open>
  A read event on a connection appends exactly the bytes the kernel delivered to the input buffer and
  then calls the message callback once; an end of file closes the connection; an error leaves the state
  of the connection as it was.
\<close>

theorem handleRead_delivers:
  assumes "conns s p = Some k" and "chans s (conn_channel k) = Some c" and "buffer_inv (inputBuffer k)"
    and "length (storage (inputBuffer k)) + extrabufSize \<le> VEC_MAX"
    and "osRead s (osCalls s) (ch_fd c) = r"
  shows "(\<forall>bytes. r = ReadvGot bytes \<and> bytes \<noteq> [] \<and> length bytes \<le> writableBytes (inputBuffer k) + extrabufSize \<longrightarrow>
      (\<exists>b. TcpConnection_handleRead ucall t p s =
          call_cb ucall (messageCallback k) p t (put_conn p (k\<lparr>inputBuffer := b\<rparr>) (s\<lparr>osCalls := Suc (osCalls s)\<rparr>)) \<and>
        buffer_inv b \<and> content b = content (inputBuffer k) @ bytes)) \<and>
    (r = ReadvGot [] \<longrightarrow> (\<exists>b. TcpConnection_handleRead ucall t p s =
        handleClose ucall p (put_conn p (k\<lparr>inputBuffer := b\<rparr>) (s\<lparr>osCalls := Suc (osCalls s)\<rparr>)) \<and>
        content b = content (inputBuffer k))) \<and>
    (\<forall>e. r = ReadvFailed e \<longrightarrow> TcpConnection_handleRead ucall t p s = Inr (s\<lparr>osCalls := Suc (osCalls s)\<rparr>))"
proof (intro conjI allI impI)
  note run = TcpConnection_handleRead_def sys_readv_def
  { fix bytes
    assume r: "r = ReadvGot bytes \<and> bytes \<noteq> [] \<and> length bytes \<le> writableBytes (inputBuffer k) + extrabufSize"
    then obtain b where b: "readFd r (inputBuffer k) = Inr (b, int (length bytes), None)" "buffer_inv b"
        "content b = content (inputBuffer k) @ bytes" using readFd_ok [OF assms(3) _ assms(4)] by blast
    with r assms(1,2,5) show "\<exists>b. TcpConnection_handleRead ucall t p s =
          call_cb ucall (messageCallback k) p t (put_conn p (k\<lparr>inputBuffer := b\<rparr>) (s\<lparr>osCalls := Suc (osCalls s)\<rparr>)) \<and>
        buffer_inv b \<and> content b = content (inputBuffer k) @ bytes"
      by (intro exI [of _ b]) (simp add: run) }
  { assume r: "r = ReadvGot []"
    then obtain b where b: "readFd r (inputBuffer k) = Inr (b, 0, None)" "content b = content (inputBuffer k)"
      using readFd_ok [OF assms(3) _ assms(4), of "[]"] by auto
    with assms(1,2,5) show "\<exists>b. TcpConnection_handleRead ucall t p s =
        handleClose ucall p (put_conn p (k\<lparr>inputBuffer := b\<rparr>) (s\<lparr>osCalls := Suc (osCalls s)\<rparr>)) \<and>
        content b = content (inputBuffer k)"
      by (intro exI [of _ b]) (simp add: run) }
  { fix e
    assume "r = ReadvFailed e"
    then show "TcpConnection_handleRead ucall t p s = Inr (s\<lparr>osCalls := Suc (osCalls s)\<rparr>)"
      using assms(1,2,5) by (simp add: run readFd_def handleError_def put_conn_def fun_upd_idem) }
qed

text \<open>
  Closing a connection marks it disconnected and stops watching its socket before the connection
  callback and then the close callback are called; a second close event on the closed connection
  fails the assertion on the state.
\<close>

theorem handleClose_once:
  assumes "conn_inv p k c s" and "conn_state k = kConnected \<or> conn_state k = kDisconnecting"
  shows "\<exists>s1. handleClose ucall p s =
      bindR (call_cb ucall (connectionCallback k) p 0 s1) (\<lambda>s2.
        with_conn p s2 (\<lambda>k2. call_cb ucall (conn_closeCallback k2) p 0 s2)) \<and>
    conns s1 p = Some (k\<lparr>conn_state := kDisconnected\<rparr>) \<and> loop_inv s1 \<and>
    ep_registered (conn_channel k) s1 \<and> ep_armed (conn_channel k) s1 = 0 \<and> netLog s1 = netLog s \<and>
    handleClose ucall p s1 = Inl (AssertFailed ''state_ == StateE::kConnected || state_ == StateE::kDisconnecting'')"
proof -
  obtain s1 d where s1: "handleClose ucall p s =
      bindR (call_cb ucall (connectionCallback k) p 0 s1) (\<lambda>s2.
        with_conn p s2 (\<lambda>k2. call_cb ucall (conn_closeCallback k2) p 0 s2))"
    "conns s1 p = Some (k\<lparr>conn_state := kDisconnected\<rparr>)" "loop_inv s1" "ep_registered (conn_channel k) s1"
    "ep_armed (conn_channel k) s1 = 0" "poll_frame (put_conn p (k\<lparr>conn_state := kDisconnected\<rparr>) s) s1"
    by (rule handleClose_ok [OF assms]) blast
  moreover have "netLog s1 = netLog s" using poll_frame_conn(2) [OF s1(6)] by simp
  moreover have "handleClose ucall p s1 =
      Inl (AssertFailed ''state_ == StateE::kConnected || state_ == StateE::kDisconnecting'')"
    using s1(2) by (simp add: handleClose_def)
  ultimately show ?thesis by blast
qed

text \<open>
  While bytes are waiting in the output buffer, \<open>sendInLoop\<close> queues the high-water-mark callback
  exactly when this message takes the buffer from below the mark to the mark or above it, with the
  new length, and never otherwise.
\<close>

theorem highWaterMark_on_crossing:
  assumes "conn_inv p k c s" and "content (outputBuffer k) \<noteq> []" and "message \<noteq> []"
    and "writerIndex (outputBuffer k) + length message \<le> VEC_MAX"
  shows "\<exists>s'. sendInLoop tid p message s = Inr s' \<and>
    pendingFunctors s' = pendingFunctors s @
      (case highWaterMarkCallback k of
         None \<Rightarrow> []
       | Some cb \<Rightarrow> if length (content (outputBuffer k)) < highWaterMark k \<and>
                      highWaterMark k \<le> length (content (outputBuffer k)) + length message
                    then [HighWaterMark cb p (length (content (outputBuffer k)) + length message)] else [])"
proof -
  have k: "conns s p = Some k" "chans s (conn_channel k) = Some c" "buffer_inv (outputBuffer k)" "isWriting c"
    using assms(1,2) by (simp_all add: conn_inv_def)
  have "send_direct tid p k c message s = (0, s)" using k(4) by (simp add: send_direct_def)
  moreover obtain out where "append_buf message (outputBuffer k) = Inr out"
    using append_buf_ok [OF k(3) assms(4)] by blast
  moreover have "readableBytes (outputBuffer k) = length (content (outputBuffer k))"
    using k(3) by (simp only: readableBytes_eq)
  moreover have "length (content (outputBuffer k)) + length message < SIZE_MOD"
    using assms(4) k(3) by simp
  ultimately show ?thesis
    using k(1,2,4) assms(3) by (auto simp: sendInLoop_def Let_def split: option.splits)
qed

text \<open>
  C35: \<open>sendInLoop\<close> does not look at the state of the connection: run from the queue after the
  connection was closed, with a kernel that does not accept the whole message, it makes the disabled
  channel of the disconnected connection watch for writability again.
\<close>

theorem late_send_rearms:
  assumes "conn_inv p k c s" and "os_write_ok s" and "conn_state k = kDisconnected" and "content (outputBuffer k) = []"
    and "message \<noteq> []" and "osWrite s (osCalls s) (conn_sockfd k) message < int (length message)"
    and "writerIndex (outputBuffer k) + length message \<le> VEC_MAX"
  shows "\<exists>s' k' c'. sendInLoop tid p message s = Inr s' \<and> conns s' p = Some k' \<and> conn_state k' = kDisconnected \<and>
    chans s' (conn_channel k) = Some c' \<and> isWriting c' \<and> ep_registered (conn_channel k) s'"
proof -
  from sendInLoop_ok [OF assms(1,2,7), of tid] assms(4-6) obtain s' k' c' where
    s': "sendInLoop tid p message s = Inr s'" "conn_inv p k' c' s'" "conn_same k k'" "content (outputBuffer k') \<noteq> []"
    by auto
  with conn_sameD [OF s'(3)] assms(3) show ?thesis
    by (intro exI [of _ s'] exI [of _ k'] exI [of _ c']) (simp add: conn_inv_def)
qed

subsection \<open>Witnesses\<close>

text \<open>A connection on descriptor 7 that is up; the kernel accepts at most one byte per write.\<close>

definition cn_demo_chan :: channel where
  "cn_demo_chan = (Channel_new 0 7 False)\<lparr>ch_events := kReadEvent, ch_index := kAdded\<rparr>"

definition cn_demo_conn :: "StateE \<Rightarrow> buffer \<Rightarrow> connection" where
  "cn_demo_conn st out =
     \<lparr>conn_name = ''c'', conn_state = st, conn_reading = True, conn_sockfd = 7, conn_channel = 1,
      localAddr = \<lparr>sin_family = 2, sin_port = 0, s_addr = 0\<rparr>, peerAddr = \<lparr>sin_family = 2, sin_port = 0, s_addr = 0\<rparr>,
      connectionCallback = Some DefaultConnection, messageCallback = Some DefaultMessage,
      writeCompleteCallback = None, highWaterMarkCallback = Some 4, conn_closeCallback = Some ServerRemoveConnection,
      highWaterMark = 5, inputBuffer = Buffer_new, outputBuffer = out\<rparr>"

definition cn_demo :: "StateE \<Rightarrow> conn_state_t" where
  "cn_demo st = timer_state.extend (tq_demo\<lparr>chans := [1 \<mapsto> cn_demo_chan], channelMap := [7 \<mapsto> 1],
       ctlLog := [(EPOLL_CTL_ADD, 7, kReadEvent, 1)]\<rparr>)
     \<lparr>conns = [1 \<mapsto> cn_demo_conn st Buffer_new], osWrite = (\<lambda>_ _ data. min 1 (int (length data))),
      osRead = (\<lambda>_ _. ReadvGot ''hi''), osCalls = 0, netLog = []\<rparr>"

lemmas cn_demo_defs = cn_demo_def cn_demo_conn_def cn_demo_chan_def tq_demo_def timer_state.defs Channel_new_def

lemma demo_loop:
  fixes s :: "'m loop_state_scheme"
  assumes "chans s = [1 \<mapsto> cn_demo_chan]" "channelMap s = [7 \<mapsto> 1]" "ctlLog s = [(EPOLL_CTL_ADD, 7, kReadEvent, 1)]"
    "0 < eventListSize s" "lp_this s = 0"
  shows "loop_inv s" "ep_registered 1 s"
proof -
  have "epoll_inv s"
    unfolding epoll_inv_def
    by (auto simp: assms(1-3) assms(4) [simplified] cn_demo_chan_def Channel_new_def epoll_chan_ok_def interest_def ctl_legal_def
        index_consts split: if_splits)
  with assms show "loop_inv s" "ep_registered 1 s"
    by (auto simp: loop_inv_def own_chans_def ep_registered_def cn_demo_chan_def Channel_new_def split: if_splits)
qed

lemma cn_demo_loop: "loop_inv (cn_demo st)"
  by (rule demo_loop) (simp_all add: cn_demo_defs)

lemma cn_demo_inv: "conn_inv 1 (cn_demo_conn st Buffer_new) cn_demo_chan (cn_demo st)"
proof -
  have "ep_registered 1 (cn_demo st)" "\<not> isWriting cn_demo_chan"
    by (auto simp: ep_registered_def cn_demo_defs isWriting_def masks_disjoint)
  with cn_demo_loop show ?thesis by (simp add: conn_inv_def cn_demo_defs buffer_inv_new)
qed

lemma cn_demo_os: "os_write_ok (cn_demo st)"
  by (simp add: os_write_ok_def cn_demo_defs)

theorem stream_integrity_witness:
  "\<exists>s' k' c'. foldR (conn_run 1) [Send ''abc'', Writable, Shutdown, Send ''x'', Writable] (cn_demo kConnected) = Inr s' \<and>
    conn_inv 1 k' c' s' \<and> wire 7 (netLog s') @ content (outputBuffer k') = ''abc''"
  using stream_integrity [OF cn_demo_inv cn_demo_os, of kConnected "[Send ''abc'', Writable, Shutdown, Send ''x'', Writable]"]
  by (auto simp: cn_demo_defs)

theorem handleRead_delivers_witness:
  "\<exists>b. TcpConnection_handleRead (\<lambda>_ _ _. Inr) 5 1 (cn_demo kConnected) =
      call_cb (\<lambda>_ _ _. Inr) (Some DefaultMessage) 1 (5::int)
        (put_conn 1 ((cn_demo_conn kConnected Buffer_new)\<lparr>inputBuffer := b\<rparr>) ((cn_demo kConnected)\<lparr>osCalls := 1\<rparr>)) \<and>
    buffer_inv b \<and> content b = ''hi''"
proof -
  let ?k = "cn_demo_conn kConnected Buffer_new" let ?s = "cn_demo kConnected"
  have f: "conns ?s 1 = Some ?k" "chans ?s (conn_channel ?k) = Some cn_demo_chan" "inputBuffer ?k = Buffer_new"
    "osRead ?s (osCalls ?s) (ch_fd cn_demo_chan) = ReadvGot ''hi''" "messageCallback ?k = Some DefaultMessage"
    "osCalls ?s = 0"
    by (simp_all add: cn_demo_defs)
  have "length (storage (inputBuffer ?k)) + extrabufSize \<le> VEC_MAX"
    unfolding f(3) by (simp add: extrabufSize_def)
  from handleRead_delivers [OF f(1,2) _ this f(4), of "\<lambda>_ _ _. Inr" 5] show ?thesis
    unfolding f(3,5,6) by (simp add: buffer_inv_new extrabufSize_def)
qed

theorem handleClose_once_witness:
  "\<exists>s1. conns s1 1 = Some (cn_demo_conn kDisconnected Buffer_new) \<and> ep_armed 1 s1 = 0 \<and>
     handleClose (\<lambda>_ _ _. Inr) 1 (cn_demo kConnected) = Inr s1"
  using handleClose_once [OF cn_demo_inv, of kConnected "\<lambda>_ _ _. Inr"]
  by (auto simp: cn_demo_conn_def call_cb_def)

theorem highWaterMark_on_crossing_witness:
  "\<exists>(s :: conn_state_t) b c out. conn_inv 1 (cn_demo_conn kConnected out) c s \<and> content out = ''abc'' \<and>
     pendingFunctors s = [] \<and> sendInLoop 1 1 ''de'' s = Inr b \<and> pendingFunctors b = [HighWaterMark 4 1 5]"
proof -
  obtain out where out: "append_buf ''abc'' Buffer_new = Inr out" "buffer_inv out" "content out = ''abc''"
      "writerIndex out \<le> 8 + 3"
    using append_buf_ok [OF buffer_inv_new, of "''abc''"] by (auto simp: buffer_consts)
  let ?c = "cn_demo_chan\<lparr>ch_events := kReadEvent OR kWriteEvent\<rparr>"
  let ?s = "put_conn 1 (cn_demo_conn kConnected out) (put_chan 1 ?c (cn_demo kConnected))"
  have ch: "chans (cn_demo kConnected) 1 = Some cn_demo_chan" by (simp add: cn_demo_defs)
  have "loop_inv (put_chan 1 ?c (cn_demo kConnected))" using el.inv_mask [OF cn_demo_loop ch] .
  moreover have "ep_registered 1 (put_chan 1 ?c (cn_demo kConnected))"
    by (auto simp: ep_registered_def put_chan_def cn_demo_defs)
  moreover have "isWriting ?c" by (simp add: isWriting_def masks_disjoint)
  ultimately have inv: "conn_inv 1 (cn_demo_conn kConnected out) ?c ?s"
    using out by (simp add: conn_inv_def cn_demo_conn_def cn_demo_chan_def Channel_new_def)
  have none: "pendingFunctors ?s = []" by (simp add: put_chan_def cn_demo_defs)
  have k: "outputBuffer (cn_demo_conn kConnected out) = out" "highWaterMark (cn_demo_conn kConnected out) = 5"
    "highWaterMarkCallback (cn_demo_conn kConnected out) = Some 4"
    by (simp_all add: cn_demo_conn_def)
  obtain b where "sendInLoop 1 1 ''de'' ?s = Inr b" "pendingFunctors b = [HighWaterMark 4 1 5]"
    using highWaterMark_on_crossing [OF inv, of "''de''" 1] out(3,4) none unfolding k by auto
  with inv none out(3) show ?thesis by blast
qed

theorem late_send_rearms_witness:
  "\<exists>s' k' c'. sendInLoop 1 1 ''xy'' (cn_demo kDisconnected) = Inr s' \<and> conns s' 1 = Some k' \<and>
     conn_state k' = kDisconnected \<and> chans s' 1 = Some c' \<and> isWriting c' \<and> ep_registered 1 s'"
  using late_send_rearms [OF cn_demo_inv cn_demo_os, of kDisconnected "''xy''" 1] by (simp add: cn_demo_defs)

end
