(* ===== verification/Streams.thy ===== *)
theory Streams
  imports TcpConnection
begin

section \<open>What a connection sends\<close>

text \<open>
  The view of a connection that the example programs have: while it is up, every operation that succeeds
  adds bytes to its stream, the bytes written to the socket followed by the output buffer.  The
  combinator \<open>sends\<close> states this of an operation, and its rules compose operations.
\<close>

subsection \<open>Sending a sequence of strings\<close>

definition up :: "int \<Rightarrow> nat \<Rightarrow> connection \<Rightarrow> channel \<Rightarrow> ('m) conn_state_t_scheme \<Rightarrow> bool" where
  "up tid p k c s \<longleftrightarrow> conn_inv p k c s \<and> os_write_ok s \<and> conn_state k = kConnected \<and> threadId s = tid"

definition stream :: "connection \<Rightarrow> ('m) conn_state_t_scheme \<Rightarrow> string" where
  "stream k s = wire (conn_sockfd k) (netLog s) @ content (outputBuffer k)"

text \<open>\<open>sends f xs\<close>: on a connection that is up, \<open>f\<close> succeeds and the bytes \<open>xs\<close> join its stream.\<close>

definition sends :: "int \<Rightarrow> nat \<Rightarrow> (('m) conn_state_t_scheme \<Rightarrow> 'm conn_state_t_scheme res) \<Rightarrow> string \<Rightarrow> bool" where
  "sends tid p f xs \<longleftrightarrow> (\<forall>k c s. up tid p k c s \<and> writerIndex (outputBuffer k) + length xs \<le> VEC_MAX \<longrightarrow>
     (\<exists>k' c' s'. f s = Inr s' \<and> up tid p k' c' s' \<and> conn_same k k' \<and> stream k' s' = stream k s @ xs \<and>
        writerIndex (outputBuffer k') \<le> writerIndex (outputBuffer k) + length xs))"

lemma sends_send: "sends tid p (TcpConnection_send tid p msg) msg"
  unfolding sends_def
proof (intro allI impI)
  fix k c s
  assume a: "up tid p k c s \<and> writerIndex (outputBuffer k) + length msg \<le> VEC_MAX"
  then have inv: "conn_inv p k c s" "os_write_ok s" "conn_state k = kConnected" "threadId s = tid"
    by (simp_all add: up_def)
  from sendInLoop_ok [OF inv(1,2), of msg tid] a obtain s' k' c' where s': "sendInLoop tid p msg s = Inr s'"
    "conn_inv p k' c' s'" "os_write_ok s'" "threadId s' = threadId s" "conn_same k k'"
    "wire (conn_sockfd k) (netLog s') @ content (outputBuffer k') =
      wire (conn_sockfd k) (netLog s) @ content (outputBuffer k) @ msg"
    "writerIndex (outputBuffer k') \<le> writerIndex (outputBuffer k) + length msg" by auto
  moreover have "TcpConnection_send tid p msg s = sendInLoop tid p msg s"
    using inv by (simp add: TcpConnection_send_def conn_inv_def isInLoopThread_def)
  ultimately show "\<exists>k' c' s'. TcpConnection_send tid p msg s = Inr s' \<and> up tid p k' c' s' \<and> conn_same k k' \<and>
      stream k' s' = stream k s @ msg \<and> writerIndex (outputBuffer k') \<le> writerIndex (outputBuffer k) + length msg"
    using inv conn_sameD [OF s'(5)] by (intro exI [of _ k'] exI [of _ c'] exI [of _ s']) (simp add: up_def stream_def)
qed

lemma conn_same_trans: "conn_same k k1 \<Longrightarrow> conn_same k1 k2 \<Longrightarrow> conn_same k k2"
  by (cases k; cases k1; cases k2; simp add: conn_same_def)

lemma sends_bind:
  fixes f g :: "'m conn_state_t_scheme \<Rightarrow> 'm conn_state_t_scheme res"
  assumes "sends tid p f xs" "sends tid p g ys"
  shows "sends tid p (\<lambda>s. bindR (f s) g) (xs @ ys)"
  unfolding sends_def
proof (intro allI impI)
  fix k c and s :: "'m conn_state_t_scheme"
  assume a: "up tid p k c s \<and> writerIndex (outputBuffer k) + length (xs @ ys) \<le> VEC_MAX"
  then have "writerIndex (outputBuffer k) + length xs \<le> VEC_MAX" by simp
  with a assms(1) obtain k1 c1 s1 where 1: "f s = Inr s1" "up tid p k1 c1 s1" "conn_same k k1" "stream k1 s1 = stream k s @ xs"
      "writerIndex (outputBuffer k1) \<le> writerIndex (outputBuffer k) + length xs"
    unfolding sends_def by blast
  moreover from a 1(5) have "writerIndex (outputBuffer k1) + length ys \<le> VEC_MAX" by simp
  ultimately obtain k2 c2 s2 where 2: "g s1 = Inr s2" "up tid p k2 c2 s2" "conn_same k1 k2" "stream k2 s2 = stream k1 s1 @ ys"
      "writerIndex (outputBuffer k2) \<le> writerIndex (outputBuffer k1) + length ys"
    using assms(2) unfolding sends_def by blast
  then show "\<exists>k' c' s'. bindR (f s) g = Inr s' \<and> up tid p k' c' s' \<and> conn_same k k' \<and>
      stream k' s' = stream k s @ xs @ ys \<and> writerIndex (outputBuffer k') \<le> writerIndex (outputBuffer k) + length (xs @ ys)"
    using 1 conn_same_trans [OF 1(3) 2(3)] by (intro exI [of _ k2] exI [of _ c2] exI [of _ s2]) simp
qed

lemma sends_Inr: "sends tid p Inr []"
  by (auto simp: sends_def conn_same_def)

lemma sends_buffer:
  assumes "buffer_inv buf"
  shows "sends tid p (\<lambda>s :: 'm conn_state_t_scheme. bindR (TcpConnection_sendBuffer tid p buf s) (\<lambda>(_, s1). Inr s1))
    (content buf)"
proof -
  have "bindR (TcpConnection_sendBuffer tid p buf s) (\<lambda>(_, s1). Inr s1) = TcpConnection_send tid p (content buf) s"
    for s :: "'m conn_state_t_scheme"
    using retrieveAsString_ok [OF assms]
    by (auto simp: TcpConnection_sendBuffer_def TcpConnection_send_def with_conn_def bindR_assoc bindR_def
        split: option.split sum.split)
  with sends_send show ?thesis by simp
qed

lemma shutdown_up:
  assumes "up tid p k c s"
  shows "\<exists>k' s'. TcpConnection_shutdown tid p s = Inr s' \<and> conn_inv p k' c s' \<and> conn_state k' = kDisconnecting \<and>
    k'\<lparr>conn_state := kConnected\<rparr> = k \<and> stream k' s' = stream k s"
proof -
  let ?k = "setState kDisconnecting k" let ?s = "put_conn p ?k s"
  have c: "conn_inv p ?k c ?s" using assms by (simp add: up_def conn_inv_def setState_def)
  have "TcpConnection_shutdown tid p s = shutdownInLoop p ?s"
    using assms by (simp add: TcpConnection_shutdown_def up_def conn_inv_def runInLoop_def isInLoopThread_def)
  also have "\<dots> = Inr (if content (outputBuffer ?k) = [] then net (NetShutdown (conn_sockfd ?k)) ?s else ?s)"
    by (rule shutdownInLoop_idle [OF c])
  finally show ?thesis
    using c assms
    by (intro exI [of _ ?k] exI [of _ "if content (outputBuffer ?k) = [] then net (NetShutdown (conn_sockfd ?k)) ?s else ?s"])
      (auto simp: setState_def stream_def up_def)
qed

lemma cn_demo_up: "up 1 1 (cn_demo_conn kConnected Buffer_new) cn_demo_chan (cn_demo kConnected)"
  using cn_demo_inv cn_demo_os by (simp add: up_def cn_demo_defs)

lemma up_input:
  assumes "up tid p k c s"
  shows "up tid p (k\<lparr>inputBuffer := b\<rparr>) c (put_conn p (k\<lparr>inputBuffer := b\<rparr>) s)"
    "stream (k\<lparr>inputBuffer := b\<rparr>) (put_conn p (k\<lparr>inputBuffer := b\<rparr>) s) = stream k s"
  using assms by (simp_all add: up_def conn_inv_def os_write_ok_def stream_def)

text \<open>Reading.\<close>

lemma handleRead_got:
  assumes up: "up tid p k c s" and buf: "buffer_inv (inputBuffer k)" "length (storage (inputBuffer k)) + extrabufSize \<le> VEC_MAX"
    and got: "osRead s (osCalls s) (conn_sockfd k) = ReadvGot bytes" "bytes \<noteq> []"
      "length bytes \<le> writableBytes (inputBuffer k) + extrabufSize"
  obtains b where "TcpConnection_handleRead ucall t p s =
      call_cb ucall (messageCallback k) p t (put_conn p (k\<lparr>inputBuffer := b\<rparr>) (s\<lparr>osCalls := Suc (osCalls s)\<rparr>))"
    "buffer_inv b" "content b = content (inputBuffer k) @ bytes"
    "length (storage b) \<le> length (storage (inputBuffer k)) + extrabufSize"
proof -
  obtain b where b: "readFd (ReadvGot bytes) (inputBuffer k) = Inr (b, int (length bytes), None)" "buffer_inv b"
    "content b = content (inputBuffer k) @ bytes"
    using readFd_ok [OF buf(1) got(3) buf(2)] by blast
  have "conns s p = Some k" "chans s (conn_channel k) = Some c" "ch_fd c = conn_sockfd k"
    using up by (simp_all add: up_def conn_inv_def)
  with b readFd_storage [OF b(1) buf(1) got(3) buf(2)] got that show thesis by (simp add: TcpConnection_handleRead_def sys_readv_def)
qed

subsection \<open>Two connections of one loop\<close>

text \<open>
  \<open>apart q ch fd s t\<close>: what happened between \<open>s\<close> and \<open>t\<close> left alone the connection \<open>q\<close> with channel \<open>ch\<close> and
  socket \<open>fd\<close>, and the fields that a program adds to the loop's state.
\<close>

definition apart :: "nat \<Rightarrow> nat \<Rightarrow> int \<Rightarrow> ('m) conn_state_t_scheme \<Rightarrow> 'm conn_state_t_scheme \<Rightarrow> bool" where
  "apart q ch fd s t \<longleftrightarrow> conns t q = conns s q \<and> rel_option same_but_index (chans s ch) (chans t ch) \<and>
     ep_registered ch t = ep_registered ch s \<and> wire fd (netLog t) = wire fd (netLog s) \<and>
     conn_state_t.more t = conn_state_t.more s"

lemma apart_trans: "apart q ch fd s t \<Longrightarrow> apart q ch fd t u \<Longrightarrow> apart q ch fd s u"
  unfolding apart_def
  by (cases "chans s ch"; cases "chans t ch"; cases "chans u ch") (auto intro: same_but_index_trans)

lemma rel_chan_refl [simp]: "rel_option same_but_index x x"
  by (simp add: option.rel_refl same_but_index_simps(1))

lemma conn_more [simp]:
  "conn_state_t.more (put_conn p k s) = conn_state_t.more s" "conn_state_t.more (queueInLoop tid cb s) = conn_state_t.more s"
  "conn_state_t.more (net e s) = conn_state_t.more s"
  by (simp_all add: put_conn_def queueInLoop_def wakeup_def net_def Let_def)

lemma sys_write_more: "sys_write fd data s = (n, s') \<Longrightarrow> conn_state_t.more s' = conn_state_t.more s"
  by (auto simp: sys_write_def Let_def)

lemma apart_put_conn [simp]: "q \<noteq> p \<Longrightarrow> apart q ch fd s (put_conn p k s)"
  by (simp add: apart_def)

lemma apart_queue [simp]: "apart q ch fd s (queueInLoop tid cb s)"
  by (simp add: apart_def)

lemma conn_inv_apart:
  assumes "conn_inv q k c s" "apart q (conn_channel k) (conn_sockfd k) s t" "loop_inv t"
  obtains c' where "conn_inv q k c' t" "same_but_index c c'" "stream k t = stream k s"
proof -
  have "rel_option same_but_index (Some c) (chans t (conn_channel k))"
    using assms(1,2) by (simp add: conn_inv_def apart_def)
  then obtain c' where c': "chans t (conn_channel k) = Some c'" "same_but_index c c'"
    by (cases "chans t (conn_channel k)") auto
  with same_but_index_simps(2) [OF c'(2)] assms have "conn_inv q k c' t"
    by (simp add: conn_inv_def apart_def isWriting_def)
  with c'(2) assms(2) that show thesis by (simp add: stream_def apart_def)
qed

lemma apart_set_events:
  assumes "loop_inv s" "chans s ch' = Some c" "ep_registered ch' s" "ch \<noteq> ch'"
    and run: "set_events f EventLoop_updateChannel ch' s = Inr s'"
  shows "apart q ch fd s s'"
proof -
  obtain t where t: "set_events f EventLoop_updateChannel ch' s = Inr t" "poll_frame s t"
    "\<And>q. q \<noteq> ch' \<Longrightarrow> ep_registered q t = ep_registered q s"
    "\<And>q. q \<noteq> ch' \<Longrightarrow> rel_option same_but_index (chans s q) (chans t q)"
    by (rule chan_set_events [OF assms(1,2) disjI1 [OF assms(3)], where f = f]) blast
  with run assms(4) poll_frame_conn [OF t(2)] poll_frame_more [OF t(2)] show ?thesis by (simp add: apart_def)
qed

lemma apart_send_direct:
  assumes "send_direct tid p k c msg s = (n, s1)" "fd \<noteq> ch_fd c"
  shows "apart q ch fd s s1"
proof -
  obtain m s' where w: "sys_write (ch_fd c) msg s = (m, s')" by force
  note f = sys_write_fields [OF w]
  have "apart q ch fd s s'" using f sys_write_more [OF w] assms(2) by (simp add: apart_def)
  moreover have "s1 = s \<or> s1 = s' \<or> (\<exists>cb. s1 = queueInLoop tid cb s')"
    using assms(1) w by (auto simp: send_direct_def split: if_splits option.splits)
  ultimately show ?thesis using apart_trans [OF _ apart_queue] by (auto simp: apart_def)
qed

lemma apart_send:
  assumes up: "up tid p k c s" and room: "writerIndex (outputBuffer k) + length msg \<le> VEC_MAX"
    and "q \<noteq> p" "ch \<noteq> conn_channel k" "fd \<noteq> conn_sockfd k"
    and run: "TcpConnection_send tid p msg s = Inr s'"
  shows "apart q ch fd s s'"
proof -
  have inv: "conn_inv p k c s" "os_write_ok s" "conn_state k = kConnected" "threadId s = tid"
    using up by (simp_all add: up_def)
  then have k: "conns s p = Some k" "chans s (conn_channel k) = Some c" "ch_fd c = conn_sockfd k"
    by (simp_all add: conn_inv_def)
  obtain n s1 where d: "send_direct tid p k c msg s = (n, s1)" by force
  note f = send_direct_ok [OF inv(1,2) d]
  have 1: "apart q ch fd s s1" by (rule apart_send_direct [OF d]) (use k(3) assms(5) in simp)
  have run': "sendInLoop tid p msg s = Inr s'"
    using run inv k by (simp add: TcpConnection_send_def isInLoopThread_def)
  show ?thesis
  proof (cases "nat n < length msg")
    case False
    with run' k d f(1) have "s' = s1" by (simp add: sendInLoop_def)
    with 1 show ?thesis by simp
  next
    case True
    define s2 where "s2 = (case highWaterMarkCallback k of
        Some cb \<Rightarrow> if highWaterMark k \<le> size_add (readableBytes (outputBuffer k)) (size_sub (length msg) (nat n)) \<and>
                       readableBytes (outputBuffer k) < highWaterMark k
                   then queueInLoop tid (HighWaterMark cb p
                     (size_add (readableBytes (outputBuffer k)) (size_sub (length msg) (nat n)))) s1 else s1
      | None \<Rightarrow> s1)"
    have 2: "apart q ch fd s1 s2" "loop_inv s2 = loop_inv s1" "chans s2 = chans s1"
        "ep_registered (conn_channel k) s2 = ep_registered (conn_channel k) s1"
      by (auto simp: s2_def apart_def split: option.splits)
    have "sendInLoop tid p msg s = bindR (append_buf (drop (nat n) msg) (outputBuffer k)) (\<lambda>out.
        if \<not> isWriting c then enableWriting EventLoop_updateChannel (conn_channel k)
          (put_conn p (k\<lparr>outputBuffer := out\<rparr>) s2) else Inr (put_conn p (k\<lparr>outputBuffer := out\<rparr>) s2))"
      using k d f(1) True unfolding s2_def by (simp add: sendInLoop_def Let_def)
    from run' [unfolded this bindR_Inr_iff] obtain out where out: "append_buf (drop (nat n) msg) (outputBuffer k) = Inr out"
        "(if \<not> isWriting c then enableWriting EventLoop_updateChannel (conn_channel k)
            (put_conn p (k\<lparr>outputBuffer := out\<rparr>) s2) else Inr (put_conn p (k\<lparr>outputBuffer := out\<rparr>) s2)) = Inr s'"
      by blast
    let ?s3 = "put_conn p (k\<lparr>outputBuffer := out\<rparr>) s2"
    have 3: "apart q ch fd s2 ?s3" using assms(3) by simp
    have "loop_inv ?s3" "chans ?s3 (conn_channel k) = Some c" "ep_registered (conn_channel k) ?s3"
      using f(3) 2 by (simp_all add: conn_inv_def)
    then have "apart q ch fd ?s3 s'"
      using out(2) apart_set_events [of ?s3 "conn_channel k" c ch _ s' q fd] assms(4)
      by (auto simp: enableWriting_def apart_def split: if_splits)
    from apart_trans [OF apart_trans [OF apart_trans [OF 1 2(1)] 3] this] show ?thesis .
  qed
qed

text \<open>Starting and stopping to read.\<close>

lemma set_reading_ok:
  assumes inv: "conn_inv p k c s" and f: "f (ch_events c) AND kWriteEvent = ch_events c AND kWriteEvent"
  obtains s' c' where "set_events f EventLoop_updateChannel (conn_channel k) s = Inr s'"
    "conn_inv p (k\<lparr>conn_reading := v\<rparr>) c' (put_conn p (k\<lparr>conn_reading := v\<rparr>) s')" "ch_events c' = f (ch_events c)"
    "\<And>q ch fd. q \<noteq> p \<Longrightarrow> ch \<noteq> conn_channel k \<Longrightarrow> apart q ch fd s (put_conn p (k\<lparr>conn_reading := v\<rparr>) s')"
    "netLog s' = netLog s" "osWrite s' = osWrite s" "threadId s' = threadId s" "conn_state_t.more s' = conn_state_t.more s"
proof -
  have k: "loop_inv s" "chans s (conn_channel k) = Some c" "ep_registered (conn_channel k) s"
    using inv by (simp_all add: conn_inv_def)
  obtain s' c' where s': "set_events f EventLoop_updateChannel (conn_channel k) s = Inr s'" "loop_inv s'"
    "ep_registered (conn_channel k) s'" "chans s' (conn_channel k) = Some c'" "ch_events c' = f (ch_events c)"
    "same_but_index (c\<lparr>ch_events := f (ch_events c)\<rparr>) c'" "poll_frame s s'"
    by (rule chan_set_events [OF k(1,2) disjI1 [OF k(3)], where f = f]) blast
  note fr = poll_frame_conn [OF s'(7)] poll_frame_more [OF s'(7)]
  have "isWriting c' = isWriting c" using s'(5) f by (simp add: isWriting_def)
  moreover have "ch_fd c' = ch_fd c" using same_but_index_simps(2) [OF s'(6)] by simp
  ultimately have "conn_inv p (k\<lparr>conn_reading := v\<rparr>) c' (put_conn p (k\<lparr>conn_reading := v\<rparr>) s')"
    using inv s' fr by (simp add: conn_inv_def)
  moreover have "apart q ch fd s (put_conn p (k\<lparr>conn_reading := v\<rparr>) s')" if "q \<noteq> p" "ch \<noteq> conn_channel k" for q ch fd
    using apart_trans [OF apart_set_events [OF k that(2) s'(1)] apart_put_conn [OF that(1)]] .
  ultimately show thesis using that [of s' c'] s'(1,5) fr by blast
qed

lemma stopRead_ok:
  assumes inv: "conn_inv p k c s" and "threadId s = tid"
  obtains s' c' where "stopRead tid p s = Inr s'" "conn_inv p (k\<lparr>conn_reading := False\<rparr>) c' s'" "\<not> isReading c'"
    "\<And>q ch fd. q \<noteq> p \<Longrightarrow> ch \<noteq> conn_channel k \<Longrightarrow> apart q ch fd s s'"
    "netLog s' = netLog s" "osWrite s' = osWrite s" "threadId s' = threadId s" "conn_state_t.more s' = conn_state_t.more s"
proof (cases "conn_reading k \<or> isReading c")
  case True
  have k: "conns s p = Some k" "chans s (conn_channel k) = Some c" using inv by (simp_all add: conn_inv_def)
  obtain s' c' where s': "set_events (\<lambda>e. e AND NOT kReadEvent) EventLoop_updateChannel (conn_channel k) s = Inr s'"
    "conn_inv p (k\<lparr>conn_reading := False\<rparr>) c' (put_conn p (k\<lparr>conn_reading := False\<rparr>) s')"
    "ch_events c' = ch_events c AND NOT kReadEvent"
    "\<And>q ch fd. q \<noteq> p \<Longrightarrow> ch \<noteq> conn_channel k \<Longrightarrow> apart q ch fd s (put_conn p (k\<lparr>conn_reading := False\<rparr>) s')"
    "netLog s' = netLog s" "osWrite s' = osWrite s" "threadId s' = threadId s" "conn_state_t.more s' = conn_state_t.more s"
    by (rule set_reading_ok [OF inv, of "\<lambda>e. e AND NOT kReadEvent" False]) (simp, blast)
  have "stopRead tid p s = Inr (put_conn p (k\<lparr>conn_reading := False\<rparr>) s')"
    using True k assms(2) s'(1) by (simp add: stopRead_def stopReadInLoop_def runInLoop_def isInLoopThread_def disableReading_def)
  with s' that [of "put_conn p (k\<lparr>conn_reading := False\<rparr>) s'" c'] show thesis by (simp add: isReading_def)
next
  case False
  then have same: "k\<lparr>conn_reading := False\<rparr> = k" by (cases k) simp
  have "stopRead tid p s = Inr s"
    using False assms by (simp add: stopRead_def stopReadInLoop_def runInLoop_def isInLoopThread_def conn_inv_def)
  with False show thesis using that [of s c, unfolded same] inv by (simp add: apart_def)
qed

lemma startRead_ok:
  assumes inv: "conn_inv p k c s" and "threadId s = tid"
  obtains s' c' where "startRead tid p s = Inr s'" "conn_inv p (k\<lparr>conn_reading := True\<rparr>) c' s'" "isReading c'"
    "\<And>q ch fd. q \<noteq> p \<Longrightarrow> ch \<noteq> conn_channel k \<Longrightarrow> apart q ch fd s s'"
    "netLog s' = netLog s" "osWrite s' = osWrite s" "threadId s' = threadId s" "conn_state_t.more s' = conn_state_t.more s"
proof (cases "\<not> conn_reading k \<or> \<not> isReading c")
  case True
  have k: "conns s p = Some k" "chans s (conn_channel k) = Some c" using inv by (simp_all add: conn_inv_def)
  obtain s' c' where s': "set_events (\<lambda>e. e OR kReadEvent) EventLoop_updateChannel (conn_channel k) s = Inr s'"
    "conn_inv p (k\<lparr>conn_reading := True\<rparr>) c' (put_conn p (k\<lparr>conn_reading := True\<rparr>) s')"
    "ch_events c' = ch_events c OR kReadEvent"
    "\<And>q ch fd. q \<noteq> p \<Longrightarrow> ch \<noteq> conn_channel k \<Longrightarrow> apart q ch fd s (put_conn p (k\<lparr>conn_reading := True\<rparr>) s')"
    "netLog s' = netLog s" "osWrite s' = osWrite s" "threadId s' = threadId s" "conn_state_t.more s' = conn_state_t.more s"
    by (rule set_reading_ok [OF inv, of "\<lambda>e. e OR kReadEvent" True]) (simp, blast)
  have "startRead tid p s = Inr (put_conn p (k\<lparr>conn_reading := True\<rparr>) s')"
    using True k assms(2) s'(1) by (simp add: startRead_def startReadInLoop_def runInLoop_def isInLoopThread_def enableReading_def)
  with s' masks_disjoint(4) that [of "put_conn p (k\<lparr>conn_reading := True\<rparr>) s'" c'] show thesis by (simp add: isReading_def)
next
  case False
  then have same: "k\<lparr>conn_reading := True\<rparr> = k" by (cases k) simp
  have "startRead tid p s = Inr s"
    using False assms by (simp add: startRead_def startReadInLoop_def runInLoop_def isInLoopThread_def conn_inv_def)
  with False show thesis using that [of s c, unfolded same] inv by (simp add: apart_def)
qed

end
