(* ===== verification/ConnLife.thy ===== *)
theory ConnLife
  imports Streams
begin

section \<open>The life of a connection\<close>

text \<open>
  Everything that can happen to a connection in the thread of its loop between \<open>connectionEstablished\<close> and
  \<open>connectionDestroyed\<close>: calls of its interface, the events of its channel, and the callbacks that the loop runs from its queue.
  The callbacks of the user may call the interface of the connection again: a callback is a script of such calls.
  A connection has a type, which depends on its state, and no step leads out of it.
\<close>

subsection \<open>The order of the states\<close>

fun state_rank :: "StateE \<Rightarrow> nat" where
  "state_rank kConnecting = 0"
| "state_rank kConnected = 1"
| "state_rank kDisconnecting = 2"
| "state_rank kDisconnected = 3"

lemma state_rank_inj: "state_rank a = state_rank b \<Longrightarrow> a = b"
  by (cases a; cases b) simp_all

instantiation StateE :: linorder
begin

definition less_eq_StateE :: "StateE \<Rightarrow> StateE \<Rightarrow> bool" where
  "a \<le> b \<longleftrightarrow> state_rank a \<le> state_rank b"

definition less_StateE :: "StateE \<Rightarrow> StateE \<Rightarrow> bool" where
  "a < b \<longleftrightarrow> state_rank a < state_rank b"

instance
  by standard (auto simp: less_eq_StateE_def less_StateE_def dest: state_rank_inj)

end

lemma state_top [simp]: "a \<le> kDisconnected" "kDisconnected \<le> a \<longleftrightarrow> a = kDisconnected" "kConnected \<le> kDisconnecting"
  by (cases a; simp add: less_eq_StateE_def)+

subsection \<open>The steps\<close>

datatype api_call =
    ASend string
  | AShutdown
  | AStartRead
  | AStopRead
  | ANoDelay bool
  | ATake
  | ARemove

text \<open>\<open>ATake\<close> empties the input buffer; \<open>ARemove\<close> queues the destruction, as the server's and the client's close callbacks do.\<close>

fun api_run where
  "api_run tid p (ASend msg) s = TcpConnection_send tid p msg s"
| "api_run tid p AShutdown s = TcpConnection_shutdown tid p s"
| "api_run tid p AStartRead s = startRead tid p s"
| "api_run tid p AStopRead s = stopRead tid p s"
| "api_run tid p (ANoDelay on) s = TcpConnection_setTcpNoDelay p on s"
| "api_run tid p ATake s = with_conn p s (\<lambda>k. Inr (put_conn p (k\<lparr>inputBuffer := retrieveAll (inputBuffer k)\<rparr>) s))"
| "api_run tid p ARemove s = Inr (queueInLoop tid (ConnDestroyed p) s)"

definition script :: "(conn_cb \<Rightarrow> api_call list) \<Rightarrow> int \<Rightarrow> conn_cb \<Rightarrow> nat \<Rightarrow> int \<Rightarrow> 'm conn_state_t_scheme \<Rightarrow> 'm conn_state_t_scheme res" where
  "script prog tid cb p arg s = foldR (api_run tid p) (prog cb) s"

datatype life_step =
    Api api_call
  | EvRead
  | EvWrite
  | EvClose
  | EvError
  | EvUser nat

text \<open>The handlers that the channel calls, and a user callback that the loop runs from its queue.\<close>

fun life_run where
  "life_run prog tid p (Api a) s = api_run tid p a s"
| "life_run prog tid p EvRead s = TcpConnection_handleRead (script prog tid) 0 p s"
| "life_run prog tid p EvWrite s = handleWrite tid p s"
| "life_run prog tid p EvClose s = handleClose (script prog tid) p s"
| "life_run prog tid p EvError s = handleError p s"
| "life_run prog tid p (EvUser i) s = script prog tid (UserCb i) p 0 s"

text \<open>
  When a step can happen: the kernel reports events only for a channel that watches some, and brings at most 64 KiB;
  the user does not call \<open>startRead\<close> on a closed connection.
\<close>

definition life_legal :: "nat \<Rightarrow> life_step \<Rightarrow> 'm conn_state_t_scheme \<Rightarrow> bool" where
  "life_legal p e s \<longleftrightarrow> (case conns s p of None \<Rightarrow> False | Some k \<Rightarrow>
     (case e of
        Api a \<Rightarrow> a = AStartRead \<longrightarrow> conn_state k \<noteq> kDisconnected
      | EvUser i \<Rightarrow> True
      | _ \<Rightarrow> ep_armed (conn_channel k) s \<noteq> 0 \<and>
          (\<forall>bytes. osRead s (osCalls s) (conn_sockfd k) = ReadvGot bytes \<longrightarrow> length bytes \<le> extrabufSize)))"

text \<open>What a step may add to a buffer, when the callbacks send at most \<open>b\<close> bytes.\<close>

fun api_cost :: "api_call \<Rightarrow> nat" where
  "api_cost (ASend msg) = length msg"
| "api_cost _ = 0"

fun life_cost :: "nat \<Rightarrow> life_step \<Rightarrow> nat" where
  "life_cost b (Api a) = api_cost a"
| "life_cost b EvRead = extrabufSize + 2 * b"
| "life_cost b EvClose = 2 * b"
| "life_cost b (EvUser i) = b"
| "life_cost b _ = 0"

definition scripts_ok :: "nat \<Rightarrow> (conn_cb \<Rightarrow> api_call list) \<Rightarrow> bool" where
  "scripts_ok b prog \<longleftrightarrow> (\<forall>cb. sum_list (map api_cost (prog cb)) \<le> b \<and> AStartRead \<notin> set (prog cb))"

inductive life_reach :: "(conn_cb \<Rightarrow> api_call list) \<Rightarrow> nat \<Rightarrow> int \<Rightarrow> nat \<Rightarrow> 'm conn_state_t_scheme \<Rightarrow> nat \<Rightarrow> 'm conn_state_t_scheme \<Rightarrow> bool"
  for prog b tid p s where
  start: "life_reach prog b tid p s 0 s"
| step: "life_reach prog b tid p s m s1 \<Longrightarrow> life_legal p e s1 \<Longrightarrow> life_run prog tid p e s1 = Inr s2 \<Longrightarrow>
    life_reach prog b tid p s (m + life_cost b e) s2"

subsection \<open>The type of a connection\<close>

text \<open>The buffers of a connection and its callbacks, with room for \<open>n\<close> more bytes.\<close>

definition room :: "nat \<Rightarrow> connection \<Rightarrow> bool" where
  "room n k \<longleftrightarrow> buffer_inv (inputBuffer k) \<and> buffer_inv (outputBuffer k) \<and> writerIndex (outputBuffer k) + n \<le> VEC_MAX \<and>
     length (storage (inputBuffer k)) + n \<le> VEC_MAX \<and>
     connectionCallback k \<noteq> None \<and> messageCallback k \<noteq> None \<and> conn_closeCallback k \<noteq> None"

text \<open>A connection that is closed: its channel is still registered, but watches nothing.\<close>

definition closed :: "nat \<Rightarrow> connection \<Rightarrow> channel \<Rightarrow> 'm conn_state_t_scheme \<Rightarrow> bool" where
  "closed p k c s \<longleftrightarrow> loop_inv s \<and> conns s p = Some k \<and> chans s (conn_channel k) = Some c \<and> ep_registered (conn_channel k) s \<and>
     ch_fd c = conn_sockfd k \<and> conn_state k = kDisconnected \<and> ch_events c = 0 \<and> ep_armed (conn_channel k) s = 0"

definition conn_typed :: "int \<Rightarrow> nat \<Rightarrow> nat \<Rightarrow> connection \<Rightarrow> channel \<Rightarrow> 'm conn_state_t_scheme \<Rightarrow> bool" where
  "conn_typed tid p n k c s \<longleftrightarrow> room n k \<and> os_write_ok s \<and> threadId s = tid \<and>
     (conn_state k \<in> {kConnected, kDisconnecting} \<and> conn_inv p k c s \<or> closed p k c s)"

definition kept :: "connection \<Rightarrow> connection \<Rightarrow> bool" where
  "kept k k' \<longleftrightarrow> conn_sockfd k' = conn_sockfd k \<and> conn_channel k' = conn_channel k \<and> conn_state k \<le> conn_state k'"

lemma kept_simps: "kept k k" "kept k k1 \<Longrightarrow> kept k1 k2 \<Longrightarrow> kept k k2"
  by (auto simp: kept_def)

lemma conn_typedD:
  assumes "conn_typed tid p n k c s"
  shows "conns s p = Some k" "chans s (conn_channel k) = Some c" "loop_inv s" "ep_registered (conn_channel k) s"
    "ch_fd c = conn_sockfd k" "threadId s = tid" "os_write_ok s" "room n k"
    "conn_state k \<noteq> kDisconnected \<Longrightarrow> conn_inv p k c s" "conn_state k = kDisconnected \<Longrightarrow> closed p k c s"
  using assms by (auto simp: conn_typed_def conn_inv_def closed_def)

lemma room_less: "room n k \<Longrightarrow> m \<le> n \<Longrightarrow> room m k"
  by (simp add: room_def)

lemma conn_typed_less: "conn_typed tid p n k c s \<Longrightarrow> m \<le> n \<Longrightarrow> conn_typed tid p m k c s"
  using room_less by (auto simp: conn_typed_def)

lemma room_same:
  assumes "room n k" "conn_same k k'" "buffer_inv (outputBuffer k')" "writerIndex (outputBuffer k') + m \<le> VEC_MAX" "m \<le> n"
  shows "room m k'"
  using assms by (cases k; cases k') (simp add: room_def conn_same_def)

text \<open>Steps that change only what the type does not look at.\<close>

lemma ep_armed_conn [simp]:
  "ep_armed q (put_conn p k s) = ep_armed q s" "ep_armed q (net e s) = ep_armed q s"
  "ep_armed q (queueInLoop t f s) = ep_armed q s" "ep_armed q (s\<lparr>osCalls := i\<rparr>) = ep_armed q s"
  by (simp_all add: ep_armed_def split: option.split)

lemma conn_typed_quiet [simp]:
  "conn_typed tid p n k c (net e s) = conn_typed tid p n k c s"
  "conn_typed tid p n k c (queueInLoop t f s) = conn_typed tid p n k c s"
  "conn_typed tid p n k c (s\<lparr>osCalls := i\<rparr>) = conn_typed tid p n k c s"
  by (simp_all add: conn_typed_def closed_def conn_inv_def os_write_ok_def)

lemma conn_typed_input:
  assumes "conn_typed tid p n k c s" "buffer_inv b" "length (storage b) + m \<le> VEC_MAX" "m \<le> n"
  shows "conn_typed tid p m (k\<lparr>inputBuffer := b\<rparr>) c (put_conn p (k\<lparr>inputBuffer := b\<rparr>) s)" "kept k (k\<lparr>inputBuffer := b\<rparr>)"
  using assms by (auto simp: conn_typed_def closed_def conn_inv_def os_write_ok_def room_def kept_def)

subsection \<open>Calls of the interface keep the type\<close>

lemma typed_open:
  assumes "conn_inv p k' c' s'" "os_write_ok s'" "threadId s' = tid" "room n k'" "conn_state k' \<in> {kConnected, kDisconnecting}" "kept k k'"
  shows "\<exists>k' c'. conn_typed tid p n k' c' s' \<and> kept k k'"
  using assms by (auto simp: conn_typed_def)

lemma typed_send:
  assumes t: "conn_typed tid p (length msg + n) k c s"
  shows "\<exists>s' k' c'. TcpConnection_send tid p msg s = Inr s' \<and> conn_typed tid p n k' c' s' \<and> kept k k'"
proof (cases "conn_state k = kConnected")
  case False
  then have "TcpConnection_send tid p msg s = Inr s" using conn_typedD(1) [OF t] by (simp add: TcpConnection_send_def)
  moreover have "conn_typed tid p n k c s" by (rule conn_typed_less [OF t]) simp
  ultimately show ?thesis using kept_simps(1) by blast
next
  case True
  note d = conn_typedD [OF t]
  have inv: "conn_inv p k c s" using d(9) True by simp
  have "writerIndex (outputBuffer k) + length msg \<le> VEC_MAX" using d(8) by (simp add: room_def)
  from sendInLoop_ok [OF inv d(7) this, of tid] obtain s' k' c' where s': "sendInLoop tid p msg s = Inr s'" "conn_inv p k' c' s'"
    "os_write_ok s'" "threadId s' = threadId s" "conn_same k k'" "writerIndex (outputBuffer k') \<le> writerIndex (outputBuffer k) + length msg"
    by auto
  have "TcpConnection_send tid p msg s = Inr s'"
    using s'(1) True d(1,6) by (simp add: TcpConnection_send_def isInLoopThread_def)
  moreover have "room n k'"
    by (rule room_same [OF d(8) s'(5)]) (use s'(2,6) d(8) in \<open>simp_all add: conn_inv_def room_def\<close>)
  moreover have "threadId s' = tid" "conn_state k' = kConnected" "kept k k'"
    using s'(4) d(6) conn_sameD [OF s'(5)] True by (simp_all add: kept_def)
  ultimately show ?thesis using typed_open [OF s'(2,3)] by (intro exI [of _ s']) simp
qed

lemma typed_shutdown:
  assumes t: "conn_typed tid p n k c s"
  shows "\<exists>s' k' c'. TcpConnection_shutdown tid p s = Inr s' \<and> conn_typed tid p n k' c' s' \<and> kept k k'"
proof (cases "conn_state k = kConnected")
  case False
  then have "TcpConnection_shutdown tid p s = Inr s" using conn_typedD(1) [OF t] by (simp add: TcpConnection_shutdown_def)
  with t show ?thesis using kept_simps(1) by blast
next
  case True
  note d = conn_typedD [OF t]
  let ?k = "setState kDisconnecting k" let ?s = "put_conn p ?k s"
  have c: "conn_inv p ?k c ?s" using d(9) True by (simp add: conn_inv_def setState_def)
  have "TcpConnection_shutdown tid p s = shutdownInLoop p ?s"
    using True d(1,6) by (simp add: TcpConnection_shutdown_def runInLoop_def isInLoopThread_def)
  also have "\<dots> = Inr (if content (outputBuffer ?k) = [] then net (NetShutdown (conn_sockfd ?k)) ?s else ?s)"
    by (rule shutdownInLoop_idle [OF c])
  finally have run: "TcpConnection_shutdown tid p s =
    Inr (if content (outputBuffer ?k) = [] then net (NetShutdown (conn_sockfd ?k)) ?s else ?s)" .
  have "conn_typed tid p n ?k c ?s"
    using c d(6-8) by (simp add: conn_typed_def os_write_ok_def room_def setState_def)
  moreover have "kept k ?k" using True by (simp add: kept_def setState_def)
  ultimately show ?thesis
    unfolding run by (intro exI [of _ "if content (outputBuffer ?k) = [] then net (NetShutdown (conn_sockfd ?k)) ?s else ?s"] exI [of _ ?k] exI [of _ c]) simp
qed

text \<open>\<open>stopRead\<close> on a closed connection disables reading once more, which has no effect.\<close>

lemma closed_stopRead:
  assumes c: "closed p k c s" and tid: "threadId s = tid"
  obtains s' k' c' where "stopRead tid p s = Inr s'" "closed p k' c' s'" "k' = k \<or> k' = k\<lparr>conn_reading := False\<rparr>"
    "osWrite s' = osWrite s" "threadId s' = threadId s"
proof (cases "conn_reading k")
  case False
  then have "stopRead tid p s = Inr s" using c tid
    by (simp add: stopRead_def stopReadInLoop_def runInLoop_def isInLoopThread_def closed_def isReading_def)
  with c show thesis by (intro that [of s k c]) simp_all
next
  case True
  have k: "loop_inv s" "conns s p = Some k" "chans s (conn_channel k) = Some c" "ep_registered (conn_channel k) s" "ch_events c = 0"
    using c by (simp_all add: closed_def)
  obtain u d where u: "set_events (\<lambda>e. e AND NOT kReadEvent) EventLoop_updateChannel (conn_channel k) s = Inr u" "loop_inv u"
    "ep_registered (conn_channel k) u" "chans u (conn_channel k) = Some d" "ch_events d = ch_events c AND NOT kReadEvent"
    "same_but_index (c\<lparr>ch_events := ch_events c AND NOT kReadEvent\<rparr>) d" "poll_frame s u"
    by (rule chan_set_events [OF k(1,3) disjI1 [OF k(4)], where f = "\<lambda>e. e AND NOT kReadEvent"]) blast
  have "foldR (chan_op_run EventLoop_updateChannel (conn_channel k)) ([] @ [DisableReading]) s = Inr u"
    using u(1) by (simp add: disableReading_def)
  from el.chan_ops_armed [OF k(1,3,4) this] have a: "ep_armed (conn_channel k) u = 0" using k(5) by simp
  let ?k = "k\<lparr>conn_reading := False\<rparr>"
  have "closed p ?k d (put_conn p ?k u)"
    using u(2-5) a k(5) same_but_index_simps(2) [OF u(6)] c by (simp add: closed_def)
  moreover have "stopRead tid p s = Inr (put_conn p ?k u)"
    using True k tid u(1) by (simp add: stopRead_def stopReadInLoop_def runInLoop_def isInLoopThread_def disableReading_def)
  ultimately show thesis using poll_frame_conn [OF u(7)] by (intro that [of "put_conn p ?k u" ?k d]) simp_all
qed

lemma room_reading [simp]: "room n (k\<lparr>conn_reading := v\<rparr>) = room n k"
  by (simp add: room_def)

lemma typed_stopRead:
  assumes t: "conn_typed tid p n k c s"
  shows "\<exists>s' k' c'. stopRead tid p s = Inr s' \<and> conn_typed tid p n k' c' s' \<and> kept k k'"
proof (cases "conn_state k = kDisconnected")
  case True
  note d = conn_typedD [OF t]
  obtain s' k' c' where s': "stopRead tid p s = Inr s'" "closed p k' c' s'" "k' = k \<or> k' = k\<lparr>conn_reading := False\<rparr>"
    "osWrite s' = osWrite s" "threadId s' = threadId s"
    by (rule closed_stopRead [OF d(10) [OF True] d(6)]) blast
  have "conn_typed tid p n k' c' s'" "kept k k'"
    using s' d(6-8) by (auto simp: conn_typed_def os_write_ok_def kept_def)
  with s'(1) show ?thesis by blast
next
  case False
  note d = conn_typedD [OF t]
  obtain s' c' where "stopRead tid p s = Inr s'" "conn_inv p (k\<lparr>conn_reading := False\<rparr>) c' s'" "osWrite s' = osWrite s" "threadId s' = threadId s"
    by (rule stopRead_ok [OF d(9) [OF False] d(6)]) blast
  moreover have "conn_state k \<in> {kConnected, kDisconnecting}" using t False by (auto simp: conn_typed_def closed_def)
  ultimately show ?thesis using d(6-8)
    by (intro exI [of _ s'] exI [of _ "k\<lparr>conn_reading := False\<rparr>"] exI [of _ c']) (simp add: conn_typed_def os_write_ok_def kept_def)
qed

lemma typed_startRead:
  assumes t: "conn_typed tid p n k c s" and "conn_state k \<noteq> kDisconnected"
  shows "\<exists>s' k' c'. startRead tid p s = Inr s' \<and> conn_typed tid p n k' c' s' \<and> kept k k'"
proof -
  note d = conn_typedD [OF t]
  obtain s' c' where "startRead tid p s = Inr s'" "conn_inv p (k\<lparr>conn_reading := True\<rparr>) c' s'" "osWrite s' = osWrite s" "threadId s' = threadId s"
    by (rule startRead_ok [OF d(9) [OF assms(2)] d(6)]) blast
  moreover have "conn_state k \<in> {kConnected, kDisconnecting}" using t assms(2) by (auto simp: conn_typed_def closed_def)
  ultimately show ?thesis using d(6-8)
    by (intro exI [of _ s'] exI [of _ "k\<lparr>conn_reading := True\<rparr>"] exI [of _ c']) (simp add: conn_typed_def os_write_ok_def kept_def)
qed

lemma typed_take:
  assumes "conn_typed tid p n k c s"
  shows "\<exists>k'. with_conn p s (\<lambda>k. Inr (put_conn p (k\<lparr>inputBuffer := retrieveAll (inputBuffer k)\<rparr>) s)) = Inr (put_conn p k' s) \<and>
    conn_typed tid p n k' c (put_conn p k' s) \<and> kept k k'"
proof -
  note d = conn_typedD [OF assms]
  have "buffer_inv (retrieveAll (inputBuffer k))" "length (storage (retrieveAll (inputBuffer k))) + n \<le> VEC_MAX"
    using d(8) retrieveAll_inv by (simp_all add: room_def retrieveAll_def)
  from conn_typed_input [OF assms this] show ?thesis using d(1) by auto
qed

lemma api_ok:
  assumes t: "conn_typed tid p (api_cost a + n) k c s" and "a = AStartRead \<longrightarrow> conn_state k \<noteq> kDisconnected"
  shows "\<exists>s' k' c'. api_run tid p a s = Inr s' \<and> conn_typed tid p n k' c' s' \<and> kept k k'"
proof (cases a)
  case ATake
  then show ?thesis using typed_take [of tid p n k c s] t by fastforce
next
  case (ANoDelay on)
  have "api_run tid p a s = Inr (net (NetNoDelay (conn_sockfd k) on) s)"
    using conn_typedD(1) [OF t] ANoDelay by (simp add: TcpConnection_setTcpNoDelay_def Socket_setTcpNoDelay_def)
  with t ANoDelay kept_simps(1) show ?thesis by (metis api_cost.simps(5) add_0 conn_typed_quiet(1))
next
  case ARemove
  with t kept_simps(1) show ?thesis by (metis api_cost.simps(7) add_0 api_run.simps(7) conn_typed_quiet(2))
qed (use t assms(2) typed_send typed_shutdown typed_startRead typed_stopRead in \<open>simp_all\<close>)

lemma scripts_run:
  assumes "conn_typed tid p (sum_list (map api_cost as) + n) k c s" "AStartRead \<notin> set as"
  shows "\<exists>s' k' c'. foldR (api_run tid p) as s = Inr s' \<and> conn_typed tid p n k' c' s' \<and> kept k k'"
  using assms
proof (induction as arbitrary: s k c)
  case Nil
  then show ?case using kept_simps(1) by fastforce
next
  case (Cons a as)
  have "conn_typed tid p (api_cost a + (sum_list (map api_cost as) + n)) k c s" using Cons.prems(1) by (simp add: add.assoc)
  from api_ok [OF this] Cons.prems(2) obtain s1 k1 c1 where s1: "api_run tid p a s = Inr s1"
    "conn_typed tid p (sum_list (map api_cost as) + n) k1 c1 s1" "kept k k1" by auto
  from Cons.IH [OF s1(2)] Cons.prems(2) obtain s' k' c' where "foldR (api_run tid p) as s1 = Inr s'" "conn_typed tid p n k' c' s'" "kept k1 k'"
    by auto
  with s1(1,3) kept_simps(2) [of k k1 k'] show ?case by auto
qed

lemma script_ok:
  assumes "scripts_ok b prog" "conn_typed tid p (b + n) k c s"
  shows "\<exists>s' k' c'. script prog tid cb p arg s = Inr s' \<and> conn_typed tid p n k' c' s' \<and> kept k k'"
proof -
  have cost: "sum_list (map api_cost (prog cb)) \<le> b" "AStartRead \<notin> set (prog cb)" using assms(1) by (simp_all add: scripts_ok_def)
  have "conn_typed tid p (sum_list (map api_cost (prog cb)) + n) k c s" by (rule conn_typed_less [OF assms(2)]) (use cost in simp)
  from scripts_run [OF this cost(2)] show ?thesis by (simp add: script_def)
qed

lemma callback_ok:
  assumes prog: "scripts_ok b prog" and t: "conn_typed tid p (b + n) k c s" and cb: "cb \<noteq> None"
  shows "\<exists>s' k' c'. call_cb (script prog tid) cb p arg s = Inr s' \<and> conn_typed tid p n k' c' s' \<and> kept k k'"
proof (cases "cb = Some DefaultConnection \<or> cb = Some DefaultMessage")
  case True
  have t': "conn_typed tid p n k c s" by (rule conn_typed_less [OF t]) simp
  from True show ?thesis
  proof
    assume "cb = Some DefaultConnection"
    then show ?thesis using t' kept_simps(1) by (intro exI [of _ s]) (auto simp: call_cb_def)
  next
    assume "cb = Some DefaultMessage"
    with typed_take [OF t'] show ?thesis by (auto simp: call_cb_def)
  qed
next
  case False
  with cb obtain f where f: "cb = Some f" "f \<noteq> DefaultConnection" "f \<noteq> DefaultMessage" by auto
  then have "call_cb (script prog tid) cb p arg s = script prog tid f p arg s" by (cases f) (simp_all add: call_cb_def)
  with script_ok [OF prog t] show ?thesis by simp
qed

subsection \<open>Events keep the type\<close>

lemma typed_write:
  assumes t: "conn_typed tid p n k c s"
  shows "\<exists>s' k' c'. handleWrite tid p s = Inr s' \<and> conn_typed tid p n k' c' s' \<and> kept k k'"
proof (cases "conn_state k = kDisconnected")
  case True
  note d = conn_typedD [OF t]
  have "handleWrite tid p s = Inr s" using d(1,2) d(10) [OF True] by (simp add: handleWrite_def closed_def isWriting_def)
  with t show ?thesis using kept_simps(1) by blast
next
  case False
  note d = conn_typedD [OF t]
  from handleWrite_ok [OF d(9) [OF False] d(7), of tid] obtain s' k' c' where s': "handleWrite tid p s = Inr s'" "conn_inv p k' c' s'"
    "os_write_ok s'" "threadId s' = threadId s" "conn_same k k'" "writerIndex (outputBuffer k') \<le> writerIndex (outputBuffer k)" by blast
  note same = conn_sameD [OF s'(5)]
  have "room n k'" by (rule room_same [OF d(8) s'(5)]) (use s'(2,6) d(8) in \<open>simp_all add: conn_inv_def room_def\<close>)
  moreover have "conn_state k \<in> {kConnected, kDisconnecting}" using t False by (auto simp: conn_typed_def closed_def)
  ultimately have "\<exists>k' c'. conn_typed tid p n k' c' s' \<and> kept k k'"
    by (intro typed_open [OF s'(2,3)]) (use s'(4) d(6) same in \<open>simp_all add: kept_def\<close>)
  with s'(1) show ?thesis by blast
qed

lemma typed_close:
  assumes prog: "scripts_ok b prog" and t: "conn_typed tid p (2 * b + n) k c s" and st: "conn_state k \<noteq> kDisconnected"
  shows "\<exists>s' k' c'. handleClose (script prog tid) p s = Inr s' \<and> conn_typed tid p n k' c' s' \<and> kept k k'"
proof -
  note d = conn_typedD [OF t]
  have open_: "conn_state k = kConnected \<or> conn_state k = kDisconnecting" using t st by (auto simp: conn_typed_def closed_def)
  let ?k = "k\<lparr>conn_state := kDisconnected\<rparr>"
  obtain u e where u: "handleClose (script prog tid) p s = bindR (call_cb (script prog tid) (connectionCallback k) p 0 u) (\<lambda>s2.
        with_conn p s2 (\<lambda>k2. call_cb (script prog tid) (conn_closeCallback k2) p 0 s2))"
    "conns u p = Some ?k" "loop_inv u" "ep_registered (conn_channel k) u" "chans u (conn_channel k) = Some e" "ch_events e = 0"
    "ch_fd e = ch_fd c" "ep_armed (conn_channel k) u = 0" "poll_frame (put_conn p ?k s) u"
    by (rule handleClose_ok [OF d(9) [OF st] open_]) blast
  note fr = poll_frame_conn [OF u(9)]
  have "closed p ?k e u" using u(2-8) d(5) by (simp add: closed_def)
  moreover have r: "room (2 * b + n) ?k" "connectionCallback k \<noteq> None" using d(8) by (simp_all add: room_def)
  ultimately have "conn_typed tid p (b + (b + n)) ?k e u" using fr d(6,7) by (simp add: conn_typed_def os_write_ok_def mult_2 add.assoc)
  from callback_ok [OF prog this r(2), of 0] obtain s2 k2 c2 where s2: "call_cb (script prog tid) (connectionCallback k) p 0 u = Inr s2"
    "conn_typed tid p (b + n) k2 c2 s2" "kept ?k k2" by blast
  have "conn_closeCallback k2 \<noteq> None" using conn_typedD(8) [OF s2(2)] by (simp add: room_def)
  from callback_ok [OF prog s2(2) this, of 0] obtain s3 k3 c3 where s3: "call_cb (script prog tid) (conn_closeCallback k2) p 0 s2 = Inr s3"
    "conn_typed tid p n k3 c3 s3" "kept k2 k3" by blast
  have "handleClose (script prog tid) p s = Inr s3" using u(1) s2(1) s3(1) conn_typedD(1) [OF s2(2)] by simp
  moreover have "kept k k3" using kept_simps(2) [OF s2(3) s3(3)] by (simp add: kept_def)
  ultimately show ?thesis using s3(2) by blast
qed

lemma typed_read:
  assumes prog: "scripts_ok b prog" and t: "conn_typed tid p (extrabufSize + 2 * b + n) k c s" and st: "conn_state k \<noteq> kDisconnected"
    and got: "\<And>bytes. osRead s (osCalls s) (conn_sockfd k) = ReadvGot bytes \<Longrightarrow> length bytes \<le> extrabufSize"
  shows "\<exists>s' k' c'. TcpConnection_handleRead (script prog tid) t0 p s = Inr s' \<and> conn_typed tid p n k' c' s' \<and> kept k k'"
proof -
  note d = conn_typedD [OF t]
  let ?s1 = "s\<lparr>osCalls := Suc (osCalls s)\<rparr>"
  have b: "buffer_inv (inputBuffer k)" "length (storage (inputBuffer k)) + extrabufSize \<le> VEC_MAX" using d(8) by (simp_all add: room_def)
  show ?thesis
  proof (cases "osRead s (osCalls s) (conn_sockfd k)")
    case (ReadvFailed e)
    have "TcpConnection_handleRead (script prog tid) t0 p s = Inr ?s1"
      using ReadvFailed d(1,2,5)
      by (simp add: TcpConnection_handleRead_def sys_readv_def readFd_def handleError_def put_conn_def fun_upd_idem)
    moreover have "conn_typed tid p n k c ?s1" using conn_typed_less [OF t] by simp
    ultimately show ?thesis using kept_simps(1) by blast
  next
    case (ReadvGot bytes)
    have len: "length bytes \<le> writableBytes (inputBuffer k) + extrabufSize" using got [OF ReadvGot] by simp
    obtain buf where buf: "readFd (ReadvGot bytes) (inputBuffer k) = Inr (buf, int (length bytes), None)" "buffer_inv buf"
      using readFd_ok [OF b(1) len b(2)] by blast
    note stg = readFd_storage [OF buf(1) b(1) len b(2)]
    let ?k = "k\<lparr>inputBuffer := buf\<rparr>" let ?s2 = "put_conn p ?k ?s1"
    have "length (storage buf) + (2 * b + n) \<le> VEC_MAX" using stg d(8) by (simp add: room_def)
    from conn_typed_input [of tid p "extrabufSize + 2 * b + n" k c ?s1, OF _ buf(2) this] t
    have k: "conn_typed tid p (2 * b + n) ?k c ?s2" "kept k ?k" by simp_all
    have run: "TcpConnection_handleRead (script prog tid) t0 p s =
        (if bytes = [] then handleClose (script prog tid) p ?s2 else call_cb (script prog tid) (messageCallback k) p t0 ?s2)"
      using ReadvGot d(1,2,5) buf(1) by (simp add: TcpConnection_handleRead_def sys_readv_def)
    have "\<exists>s' k' c'. TcpConnection_handleRead (script prog tid) t0 p s = Inr s' \<and> conn_typed tid p n k' c' s' \<and> kept ?k k'"
    proof (cases "bytes = []")
      case True
      with typed_close [OF prog k(1)] st run show ?thesis by simp
    next
      case False
      have "conn_typed tid p (b + n) ?k c ?s2" by (rule conn_typed_less [OF k(1)]) simp
      moreover have "messageCallback k \<noteq> None" using d(8) by (simp add: room_def)
      ultimately show ?thesis using callback_ok [OF prog, of tid p n ?k c ?s2 "messageCallback k" t0] False run by simp
    qed
    with kept_simps(2) [OF k(2)] show ?thesis by blast
  qed
qed

lemma legal_open:
  assumes "conn_typed tid p n k c s" "life_legal p e s" "e \<in> {EvRead, EvWrite, EvClose, EvError}"
  shows "conn_state k \<noteq> kDisconnected"
    "osRead s (osCalls s) (conn_sockfd k) = ReadvGot bytes \<Longrightarrow> length bytes \<le> extrabufSize"
  using conn_typedD(1,10) [OF assms(1)] assms(2,3) by (auto simp: life_legal_def closed_def)

lemma life_step_ok:
  assumes prog: "scripts_ok b prog" and t: "conn_typed tid p (life_cost b e + n) k c s" and legal: "life_legal p e s"
  shows "\<exists>s' k' c'. life_run prog tid p e s = Inr s' \<and> conn_typed tid p n k' c' s' \<and> kept k k'"
proof (cases e)
  case (Api a)
  with api_ok [of tid p a n k c s] t legal conn_typedD(1) [OF t] show ?thesis by (simp add: life_legal_def)
next
  case EvRead
  with typed_read [OF prog _ legal_open [OF t legal]] t show ?thesis by simp
next
  case EvWrite
  with typed_write [of tid p n k c s] t show ?thesis by simp
next
  case EvClose
  with typed_close [OF prog _ legal_open(1) [OF t legal]] t show ?thesis by simp
next
  case EvError
  have "handleError p s = Inr s" using conn_typedD(1,2) [OF t] by (simp add: handleError_def)
  with EvError t show ?thesis using kept_simps(1) by auto
next
  case (EvUser i)
  with script_ok [OF prog, of tid p n k c s] t show ?thesis by simp
qed

lemma life_reach_typed:
  assumes prog: "scripts_ok b prog" and t: "conn_typed tid p n k c s" and r: "life_reach prog b tid p s m s'" and m: "m \<le> n"
  shows "\<exists>k' c'. conn_typed tid p (n - m) k' c' s' \<and> kept k k'"
  using r m
proof induction
  case start
  with t kept_simps(1) show ?case by auto
next
  case (step m s1 e s2)
  then obtain k1 c1 where s1: "conn_typed tid p (n - m) k1 c1 s1" "kept k k1" by auto
  have "n - m = life_cost b e + (n - (m + life_cost b e))" using step.prems by simp
  with s1(1) have "conn_typed tid p (life_cost b e + (n - (m + life_cost b e))) k1 c1 s1" by simp
  from life_step_ok [OF prog this step.hyps(2)] step.hyps(3) obtain k2 c2 where
    "conn_typed tid p (n - (m + life_cost b e)) k2 c2 s2" "kept k1 k2" by auto
  with kept_simps(2) [OF s1(2)] show ?case by blast
qed

subsection \<open>From establishment to destruction\<close>

text \<open>A new connection, with the callbacks of its owner.\<close>

definition new_conn :: "nat \<Rightarrow> int \<Rightarrow> connection \<Rightarrow> bool" where
  "new_conn q fd k \<longleftrightarrow> conn_state k = kConnecting \<and> conn_sockfd k = fd \<and> conn_channel k = q \<and> inputBuffer k = Buffer_new \<and>
     outputBuffer k = Buffer_new \<and> connectionCallback k \<noteq> None \<and> messageCallback k \<noteq> None \<and> conn_closeCallback k \<noteq> None"

lemma room_new: "new_conn q fd k \<Longrightarrow> 1032 + n \<le> VEC_MAX \<Longrightarrow> room n (k\<lparr>conn_state := st\<rparr>)"
  by (simp add: new_conn_def room_def buffer_inv_new)

lemma established_typed:
  fixes s :: "'m conn_state_t_scheme"
  assumes prog: "scripts_ok b prog" and s: "loop_inv s" "os_write_ok s" "threadId s = tid" "chans s q = None" "ep_free_fd fd s"
    and fd: "0 \<le> fd" and k: "new_conn q fd k" and n: "1032 + (b + n) \<le> VEC_MAX"
  obtains s1 k1 c1 where "connectionEstablished (script prog tid) p (put_conn p k (put_chan q (conn_chan p (lp_this s) fd u) s)) = Inr s1"
    "conn_typed tid p n k1 c1 s1" "conn_sockfd k1 = fd" "conn_channel k1 = q" "kConnected \<le> conn_state k1"
proof -
  let ?c = "conn_chan p (lp_this s) (conn_sockfd k) u" let ?k = "k\<lparr>conn_state := kConnected\<rparr>"
  have f: "conn_sockfd k = fd" "conn_channel k = q" "conn_state k = kConnecting" "connectionCallback k \<noteq> None" "outputBuffer k = Buffer_new"
    using k by (simp_all add: new_conn_def)
  have pre: "chans s (conn_channel k) = None" "0 \<le> conn_sockfd k" "ep_free_fd (conn_sockfd k) s" using s fd f by simp_all
  obtain e where e: "connectionEstablished (script prog tid) p (put_conn p k (put_chan (conn_channel k) ?c s)) =
      call_cb (script prog tid) (connectionCallback k) p 0 e" "poll_frame (put_conn p ?k s) e" "loop_inv e" "ep_registered (conn_channel k) e"
    "chans e = (chans s)(conn_channel k \<mapsto> ?c\<lparr>ch_events := kReadEvent, ch_index := kAdded\<rparr>)"
    by (rule established_ok [OF refl s(1) pre f(3)]) blast
  note fr = poll_frame_conn [OF e(2)]
  have "conn_inv p ?k (?c\<lparr>ch_events := kReadEvent, ch_index := kAdded\<rparr>) e"
    using e(3-5) fr f(5) by (simp add: conn_inv_def buffer_inv_new isWriting_def masks_disjoint)
  then have "conn_typed tid p (b + n) ?k (?c\<lparr>ch_events := kReadEvent, ch_index := kAdded\<rparr>) e"
    using room_new [OF k n] s(2,3) fr by (simp add: conn_typed_def os_write_ok_def)
  from callback_ok [OF prog this f(4), of 0] obtain s1 k1 c1 where
    "call_cb (script prog tid) (connectionCallback k) p 0 e = Inr s1" "conn_typed tid p n k1 c1 s1" "kept ?k k1" by blast
  with e(1) f show thesis by (intro that [of s1 k1 c1]) (simp_all add: kept_def)
qed

lemma closed_destroyed:
  assumes "conn_typed tid p n k c s" "conn_state k = kDisconnected"
  shows "\<exists>s'. connectionDestroyed ucall p s = Inr s' \<and> \<not> ep_registered (conn_channel k) s' \<and> ep_free_fd (conn_sockfd k) s'"
proof -
  note d = conn_typedD [OF assms(1)]
  obtain s' where "connectionDestroyed ucall p s = Inr s'" "\<not> ep_registered (conn_channel k) s'" "ep_free_fd (ch_fd c) s'"
    by (rule connectionDestroyed_ok [OF d(3,1) assms(2) d(2) _ d(4)]) (use d(10) [OF assms(2)] in \<open>auto simp: closed_def\<close>)
  with d(5) show ?thesis by auto
qed

subsection \<open>Properties\<close>

text \<open>
  C2: The connection is type safe.  A new connection is established, and then, in the thread of its loop, anything happens to
  it: calls of its interface, events of its channel, callbacks that call the interface again.  However these
  follow each other, the connection is well formed as its state demands, it keeps its socket, every step that the kernel and the user
  may take next runs to its end without a failed assertion or an access out of bounds and never takes the state back, and
  once it is closed its destruction succeeds and the descriptor is free in the poller.
\<close>

theorem connection_type_safe:
  fixes s :: "'m conn_state_t_scheme"
  assumes "scripts_ok b prog" and "loop_inv s" and "os_write_ok s" and "threadId s = tid" and "chans s q = None" and "ep_free_fd fd s"
    and "0 \<le> fd" and "new_conn q fd k" and "1032 + (b + n) \<le> VEC_MAX"
  shows "\<exists>s1. connectionEstablished (script prog tid) p (put_conn p k (put_chan q (conn_chan p (lp_this s) fd u) s)) = Inr s1 \<and>
    (\<forall>m s'. life_reach prog b tid p s1 m s' \<longrightarrow> m \<le> n \<longrightarrow>
      (\<exists>k' c'. conn_typed tid p (n - m) k' c' s' \<and> conn_sockfd k' = fd \<and> conn_channel k' = q \<and>
        (\<forall>e. life_legal p e s' \<and> m + life_cost b e \<le> n \<longrightarrow>
          (\<exists>s'' k''. life_run prog tid p e s' = Inr s'' \<and> conns s'' p = Some k'' \<and> conn_state k' \<le> conn_state k'')) \<and>
        (conn_state k' = kDisconnected \<longrightarrow>
          (\<exists>s''. connectionDestroyed (script prog tid) p s' = Inr s'' \<and> \<not> ep_registered q s'' \<and> ep_free_fd fd s''))))"
proof -
  obtain s1 k1 c1 where s1: "connectionEstablished (script prog tid) p (put_conn p k (put_chan q (conn_chan p (lp_this s) fd u) s)) = Inr s1"
    "conn_typed tid p n k1 c1 s1" "conn_sockfd k1 = fd" "conn_channel k1 = q"
    by (rule established_typed [OF assms, where p = p and u = u]) blast
  have "\<exists>k' c'. conn_typed tid p (n - m) k' c' s' \<and> conn_sockfd k' = fd \<and> conn_channel k' = q \<and>
        (\<forall>e. life_legal p e s' \<and> m + life_cost b e \<le> n \<longrightarrow>
          (\<exists>s'' k''. life_run prog tid p e s' = Inr s'' \<and> conns s'' p = Some k'' \<and> conn_state k' \<le> conn_state k'')) \<and>
        (conn_state k' = kDisconnected \<longrightarrow>
          (\<exists>s''. connectionDestroyed (script prog tid) p s' = Inr s'' \<and> \<not> ep_registered q s'' \<and> ep_free_fd fd s''))"
    if r: "life_reach prog b tid p s1 m s'" and m: "m \<le> n" for m s'
  proof -
    from life_reach_typed [OF assms(1) s1(2) r m] obtain k' c' where k': "conn_typed tid p (n - m) k' c' s'" "kept k1 k'" by blast
    have same: "conn_sockfd k' = fd" "conn_channel k' = q" using k'(2) s1(3,4) by (simp_all add: kept_def)
    have "\<exists>s'' k''. life_run prog tid p e s' = Inr s'' \<and> conns s'' p = Some k'' \<and> conn_state k' \<le> conn_state k''"
      if "life_legal p e s'" "m + life_cost b e \<le> n" for e
    proof -
      have "conn_typed tid p (life_cost b e + 0) k' c' s'" by (rule conn_typed_less [OF k'(1)]) (use that(2) in simp)
      from life_step_ok [OF assms(1) this that(1)] obtain s'' k'' c'' where "life_run prog tid p e s' = Inr s''"
        "conn_typed tid p 0 k'' c'' s''" "kept k' k''" by blast
      with conn_typedD(1) [OF this(2)] show ?thesis by (auto simp: kept_def)
    qed
    with k'(1) same closed_destroyed [OF k'(1), of "script prog tid"] show ?thesis by blast
  qed
  with s1(1) show ?thesis by blast
qed

text \<open>
  C34: \<open>startRead\<close> does not look at the state of the connection.  Called on a closed connection, whose owner may still hold a
  pointer to it, it makes the channel watch again; the end of file that closed the connection is still
  there to be read, and the handler fails its assertion.
\<close>

theorem startRead_revives_closed:
  assumes "closed p k c s" and "threadId s = tid" and "buffer_inv (inputBuffer k)"
    and "length (storage (inputBuffer k)) + extrabufSize \<le> VEC_MAX" and "osRead s (osCalls s) (conn_sockfd k) = ReadvGot []"
  shows "\<exists>s'. startRead tid p s = Inr s' \<and> ep_armed (conn_channel k) s' = kReadEvent \<and>
    TcpConnection_handleRead ucall t p s' = Inl (AssertFailed ''state_ == StateE::kConnected || state_ == StateE::kDisconnecting'')"
proof -
  have k: "loop_inv s" "conns s p = Some k" "chans s (conn_channel k) = Some c" "ep_registered (conn_channel k) s" "ch_events c = 0"
    "ch_fd c = conn_sockfd k" "conn_state k = kDisconnected" using assms(1) by (simp_all add: closed_def)
  obtain u d where u: "set_events (\<lambda>e. e OR kReadEvent) EventLoop_updateChannel (conn_channel k) s = Inr u" "loop_inv u"
    "ep_registered (conn_channel k) u" "chans u (conn_channel k) = Some d" "same_but_index (c\<lparr>ch_events := ch_events c OR kReadEvent\<rparr>) d"
    "poll_frame s u"
    by (rule chan_set_events [OF k(1,3) disjI1 [OF k(4)], where f = "\<lambda>e. e OR kReadEvent"]) blast
  note fr = poll_frame_conn [OF u(6)]
  have "foldR (chan_op_run EventLoop_updateChannel (conn_channel k)) ([] @ [EnableReading]) s = Inr u" using u(1) by (simp add: enableReading_def)
  from el.chan_ops_armed [OF k(1,3,4) this] have a: "ep_armed (conn_channel k) u = kReadEvent" using k(5) by simp
  let ?k = "k\<lparr>conn_reading := True\<rparr>" let ?s = "put_conn p ?k u"
  have "startRead tid p s = Inr ?s"
    using k assms(2) u(1) by (simp add: startRead_def startReadInLoop_def runInLoop_def isInLoopThread_def isReading_def enableReading_def)
  moreover obtain b where "readFd (ReadvGot []) (inputBuffer k) = Inr (b, 0, None)"
    using readFd_ok [OF assms(3) _ assms(4), of "[]"] by auto
  then have "TcpConnection_handleRead ucall t p ?s =
      Inl (AssertFailed ''state_ == StateE::kConnected || state_ == StateE::kDisconnecting'')"
    using u(4) same_but_index_simps(2) [OF u(5)] k(6,7) fr assms(5) by (simp add: TcpConnection_handleRead_def sys_readv_def handleClose_def)
  ultimately show ?thesis using a by (intro exI [of _ ?s]) simp
qed

subsection \<open>Witnesses\<close>

definition life_prog :: "conn_cb \<Rightarrow> api_call list" where
  "life_prog cb = (if cb = ServerRemoveConnection then [ARemove] else if cb = UserCb 0 then [ASend ''hi'', AStopRead] else [])"

definition life_conn :: connection where
  "life_conn = (cn_demo_conn kConnecting Buffer_new)\<lparr>conn_sockfd := 9, conn_channel := 2, connectionCallback := Some (UserCb 0)\<rparr>"

theorem connection_type_safe_witness:
  "\<exists>s1 s2 s3. connectionEstablished (script life_prog 1) 5 (put_conn 5 life_conn (put_chan 2 (conn_chan 5 0 9 False) (cn_demo kConnected))) = Inr s1 \<and>
     life_run life_prog 1 5 (Api (ASend ''abc'')) s1 = Inr s2 \<and> life_run life_prog 1 5 (Api AShutdown) s2 = Inr s3"
proof -
  have p: "scripts_ok 2 life_prog" by (simp add: scripts_ok_def life_prog_def)
  have s: "threadId (cn_demo kConnected) = 1" "chans (cn_demo kConnected) 2 = None" "ep_free_fd 9 (cn_demo kConnected)"
    "lp_this (cn_demo kConnected) = 0" by (simp_all add: cn_demo_defs ep_free_fd_def)
  have k: "(0::int) \<le> 9" "new_conn 2 9 life_conn" "1032 + (2 + 3) \<le> VEC_MAX"
    by (simp_all add: new_conn_def life_conn_def cn_demo_conn_def)
  note w = connection_type_safe [OF p cn_demo_loop cn_demo_os s(1-3) k, where p = 5 and u = False, unfolded s(4)]
  then obtain s1 where s1: "connectionEstablished (script life_prog 1) 5
      (put_conn 5 life_conn (put_chan 2 (conn_chan 5 0 9 False) (cn_demo kConnected))) = Inr s1"
    "\<And>m s' e. life_reach life_prog 2 1 5 s1 m s' \<Longrightarrow> m \<le> 3 \<Longrightarrow> (\<exists>k c. conn_typed 1 5 (3 - m) k c s') \<and>
       (life_legal 5 e s' \<and> m + life_cost 2 e \<le> 3 \<longrightarrow> (\<exists>s''. life_run life_prog 1 5 e s' = Inr s''))" by blast
  have legal: "life_legal 5 (Api a) s'" if "conn_typed 1 5 n k c s'" "a \<noteq> AStartRead" for n k c s' a
    using conn_typedD(1) [OF that(1)] that(2) by (simp add: life_legal_def)
  have r0: "life_reach life_prog 2 1 5 s1 0 s1" by (rule life_reach.start)
  from s1(2) [OF r0, of "Api (ASend ''abc'')"] legal obtain s2 where s2: "life_run life_prog 1 5 (Api (ASend ''abc'')) s1 = Inr s2"
    "life_legal 5 (Api (ASend ''abc'')) s1" by fastforce
  have r1: "life_reach life_prog 2 1 5 s1 3 s2" using life_reach.step [OF r0 s2(2,1)] by (simp add: eval_nat_numeral)
  from s1(2) [OF r1, of "Api AShutdown"] legal obtain s3 where "life_run life_prog 1 5 (Api AShutdown) s2 = Inr s3" by fastforce
  with s1(1) s2(1) show ?thesis by blast
qed

lemma demo_closed:
  "closed 1 (cn_demo_conn kDisconnected Buffer_new) (cn_demo_chan\<lparr>ch_events := 0, ch_index := kDeleted\<rparr>)
     ((cn_demo kDisconnected)\<lparr>chans := [1 \<mapsto> cn_demo_chan\<lparr>ch_events := 0, ch_index := kDeleted\<rparr>],
        ctlLog := [(EPOLL_CTL_ADD, 7, kReadEvent, 1), (EPOLL_CTL_DEL, 7, 0, 1)], osRead := \<lambda>_ _. ReadvGot []\<rparr>)"
  (is "closed 1 ?k ?c ?s")
proof -
  have "epoll_inv ?s"
    unfolding epoll_inv_def by (auto simp: cn_demo_defs epoll_chan_ok_def interest_def ctl_legal_def index_consts split: if_splits)
  then have "loop_inv ?s" by (auto simp: loop_inv_def own_chans_def cn_demo_defs split: if_splits)
  then show ?thesis by (auto simp: closed_def cn_demo_defs ep_registered_def ep_armed_def interest_def)
qed

theorem startRead_revives_closed_witness:
  "\<exists>s (s' :: conn_state_t). closed 1 (cn_demo_conn kDisconnected Buffer_new) (cn_demo_chan\<lparr>ch_events := 0, ch_index := kDeleted\<rparr>) s \<and>
     startRead 1 1 s = Inr s' \<and> ep_armed 1 s' = kReadEvent"
proof -
  note c = demo_closed
  let ?k = "cn_demo_conn kDisconnected Buffer_new"
  have b: "buffer_inv (inputBuffer ?k)" "length (storage (inputBuffer ?k)) + extrabufSize \<le> VEC_MAX"
    by (simp_all add: cn_demo_conn_def buffer_inv_new extrabufSize_def)
  from startRead_revives_closed [OF c _ b, of 1 "\<lambda>_ _ _. Inr" 0] c show ?thesis by (auto simp: cn_demo_defs)
qed

end
