(* ===== verification/Http.thy ===== *)
theory Http
  imports Buffer Timestamp "HOL-Library.List_Lexorder" "HOL-Library.Char_ord"
begin

section \<open>HTTP requests and responses\<close>

text \<open>
  \<open>examples/http/HttpRequest.h\<close>, \<open>HttpContext.h\<close>, \<open>HttpContext.cpp\<close>, \<open>HttpResponse.h\<close> and
  \<open>HttpResponse.cpp\<close>.  A pair of pointers into the buffer is the string between them.  A
  \<open>std::map<string, string>\<close> is an association list in the order of its keys, which is the order in
  which the response prints it.  The parser's loop may run forever, so it is a partial function:
  \<open>None\<close> is that it does not return.
\<close>

subsection \<open>HttpRequest\<close>

datatype Method = kInvalid | kGet | kPost | kHead | kPut | kDelete

datatype Version = kUnknown | kHttp10 | kHttp11

record http_request =
  req_method :: Method
  req_version :: Version
  req_path :: string
  req_query :: string
  req_receiveTime :: int
  req_headers :: "(string \<times> string) list"

definition HttpRequest_new :: http_request where
  "HttpRequest_new = \<lparr>req_method = kInvalid, req_version = kUnknown, req_path = [], req_query = [],
     req_receiveTime = Timestamp_default, req_headers = []\<rparr>"

text \<open>\<open>operator[]\<close> followed by an assignment.\<close>

fun map_set :: "'a::linorder \<Rightarrow> 'b \<Rightarrow> ('a \<times> 'b) list \<Rightarrow> ('a \<times> 'b) list" where
  "map_set k v [] = [(k, v)]"
| "map_set k v ((k', v') # xs) =
     (if k < k' then (k, v) # (k', v') # xs else if k = k' then (k, v) # xs else (k', v') # map_set k v xs)"

definition setVersion :: "Version \<Rightarrow> http_request \<Rightarrow> http_request" where
  "setVersion v r = r\<lparr>req_version := v\<rparr>"

definition setMethod :: "string \<Rightarrow> http_request \<Rightarrow> (bool \<times> http_request) res" where
  "setMethod m r =
     check (req_method r = kInvalid) ''method_ == Method::kInvalid''
       (let method =
          (if m = ''GET'' then kGet else if m = ''POST'' then kPost else if m = ''HEAD'' then kHead
           else if m = ''PUT'' then kPut else if m = ''DELETE'' then kDelete else kInvalid)
        in Inr (method \<noteq> kInvalid, r\<lparr>req_method := method\<rparr>))"

definition methodString :: "http_request \<Rightarrow> string" where
  "methodString r =
     (case req_method r of kGet \<Rightarrow> ''GET'' | kPost \<Rightarrow> ''POST'' | kHead \<Rightarrow> ''HEAD'' | kPut \<Rightarrow> ''PUT''
      | kDelete \<Rightarrow> ''DELETE'' | kInvalid \<Rightarrow> ''UNKNOWN'')"

definition setPath :: "string \<Rightarrow> http_request \<Rightarrow> http_request" where
  "setPath p r = r\<lparr>req_path := p\<rparr>"

definition setQuery :: "string \<Rightarrow> http_request \<Rightarrow> http_request" where
  "setQuery q r = r\<lparr>req_query := q\<rparr>"

definition setReceiveTime :: "int \<Rightarrow> http_request \<Rightarrow> http_request" where
  "setReceiveTime t r = r\<lparr>req_receiveTime := t\<rparr>"

text \<open>\<open>std::isspace\<close> in the C locale.\<close>

definition isspace :: "char \<Rightarrow> bool" where
  "isspace c \<longleftrightarrow> c \<in> {CHR '' '', CHR 0x09, CHR 0x0A, CHR 0x0B, CHR 0x0C, CHR 0x0D}"

text \<open>\<open>addHeader\<close>: the line is the string between \<open>start\<close> and \<open>end\<close>, \<open>colon\<close> an offset in it.\<close>

definition addHeader :: "string \<Rightarrow> nat \<Rightarrow> http_request \<Rightarrow> http_request" where
  "addHeader line colon r =
     (let field = take colon line;
          val = dropWhile isspace (drop (Suc colon) line);
          val = rev (dropWhile isspace (rev val)) in
      r\<lparr>req_headers := map_set field val (req_headers r)\<rparr>)"

definition getHeader :: "string \<Rightarrow> http_request \<Rightarrow> string" where
  "getHeader field r = (case map_of (req_headers r) field of None \<Rightarrow> [] | Some v \<Rightarrow> v)"

definition swap_request :: "http_request \<Rightarrow> http_request \<Rightarrow> http_request \<times> http_request" where
  "swap_request this that =
     (this\<lparr>req_method := req_method that, req_version := req_version that, req_path := req_path that,
        req_query := req_query that, req_receiveTime := req_receiveTime that, req_headers := req_headers that\<rparr>,
      that\<lparr>req_method := req_method this, req_version := req_version this, req_path := req_path this,
        req_query := req_query this, req_receiveTime := req_receiveTime this, req_headers := req_headers this\<rparr>)"

definition fileType :: "(string \<times> string) list" where
  "fileType =
     [(''txt'', ''text/plain''), (''c'', ''text/plain''), (''h'', ''text/plain''), (''html'', ''text/html''),
      (''htm'', ''text/htm''), (''css'', ''text/css''), (''gif'', ''image/gif''), (''jpg'', ''image/jpeg''),
      (''jpeg'', ''image/jpeg''), (''png'', ''image/png''), (''pdf'', ''application/pdf''),
      (''ps'', ''application/postscript'')]"

text \<open>The index of the last dot, -1 if there is none.\<close>

fun last_dot :: "string \<Rightarrow> nat \<Rightarrow> int" where
  "last_dot p 0 = -1"
| "last_dot p (Suc n) = (if p ! n = CHR ''.'' then int n else last_dot p n)"

definition getFileType :: "http_request \<Rightarrow> string" where
  "getFileType r =
     (let ty = (\<lambda>k. the (map_of fileType k)) in
      if req_path r = ''/'' then ty ''html''
      else
        let i = last_dot (req_path r) (length (req_path r));
            suffix = drop (nat (i + 1)) (req_path r)
        in if map_of fileType suffix = None \<or> i = 0 then ty ''txt'' else ty suffix)"

subsection \<open>HttpContext\<close>

datatype HttpRequestParseState = kExpectRequestLine | kExpectHeaders | kExpectBody | kGotAll

record http_context =
  parse_state :: HttpRequestParseState
  ctx_request :: http_request

definition HttpContext_new :: http_context where
  "HttpContext_new = \<lparr>parse_state = kExpectRequestLine, ctx_request = HttpRequest_new\<rparr>"

definition gotAll :: "http_context \<Rightarrow> bool" where
  "gotAll c \<longleftrightarrow> parse_state c = kGotAll"

definition ctx_reset :: "http_context \<Rightarrow> http_context" where
  "ctx_reset c = c\<lparr>parse_state := kExpectRequestLine, ctx_request := fst (swap_request (ctx_request c) HttpRequest_new)\<rparr>"

text \<open>The rest of a request line after the method and the path.\<close>

definition processVersion :: "string \<Rightarrow> http_request \<Rightarrow> bool \<times> http_request" where
  "processVersion v r =
     (if length v = 8 \<and> take 7 v = ''HTTP/1.'' then
        (if last v = CHR ''1'' then (True, setVersion kHttp11 r)
         else if last v = CHR ''0'' then (True, setVersion kHttp10 r)
         else (False, r))
      else (False, r))"

definition processTarget :: "string \<Rightarrow> http_request \<Rightarrow> bool \<times> http_request" where
  "processTarget rest r =
     (let space = find_char (CHR '' '') rest in
      if space = length rest then (False, r)
      else
        let target = take space rest; question = find_char (CHR ''?'') target;
            r = (if question \<noteq> space then setQuery (drop question target) (setPath (take question target) r)
                 else setPath target r)
        in processVersion (drop (Suc space) rest) r)"

definition processRequestLine :: "string \<Rightarrow> http_request \<Rightarrow> (bool \<times> http_request) res" where
  "processRequestLine line r =
     (let space = find_char (CHR '' '') line in
      if space = length line then Inr (False, r)
      else bindR (setMethod (take space line) r) (\<lambda>(isMethod, r).
        if \<not> isMethod then Inr (False, r) else Inr (processTarget (drop (Suc space) line) r)))"

text \<open>One turn of the loop of \<open>parseRequest\<close>: the new \<open>hasMore\<close> and \<open>ok\<close>, the context and the buffer.\<close>

definition parse_turn :: "int \<Rightarrow> bool \<Rightarrow> http_context \<Rightarrow> buffer \<Rightarrow> (bool \<times> bool \<times> http_context \<times> buffer) res" where
  "parse_turn receiveTime ok c b =
     (case parse_state c of
        kExpectRequestLine \<Rightarrow>
          bindR (findCRLF b) (\<lambda>found. case found of
            None \<Rightarrow> Inr (False, ok, c, b)
          | Some crlf \<Rightarrow>
              bindR (read_at (peek b) (crlf - peek b) (storage b)) (\<lambda>line.
              bindR (processRequestLine line (ctx_request c)) (\<lambda>(ok, r).
                if ok then
                  bindR (retrieveUntil (crlf + 2) b) (\<lambda>b1.
                    Inr (True, ok, \<lparr>parse_state = kExpectHeaders, ctx_request = setReceiveTime receiveTime r\<rparr>, b1))
                else Inr (False, ok, c\<lparr>ctx_request := r\<rparr>, b))))
      | kExpectHeaders \<Rightarrow>
          bindR (findCRLF b) (\<lambda>found. case found of
            None \<Rightarrow> Inr (True, ok, c, b)
          | Some crlf \<Rightarrow>
              bindR (read_at (peek b) (crlf - peek b) (storage b)) (\<lambda>line.
                let colon = find_char (CHR '':'') line;
                    (hasMore, c1) = (if colon \<noteq> length line
                                     then (True, c\<lparr>ctx_request := addHeader line colon (ctx_request c)\<rparr>)
                                     else (False, c\<lparr>parse_state := kGotAll\<rparr>))
                in bindR (retrieveUntil (crlf + 2) b) (\<lambda>b1. Inr (hasMore, ok, c1, b1))))
      | _ \<Rightarrow> Inr (True, ok, c, b))"

partial_function (option) parse_loop ::
    "int \<Rightarrow> bool \<Rightarrow> http_context \<Rightarrow> buffer \<Rightarrow> (bool \<times> http_context \<times> buffer) res option" where
  "parse_loop receiveTime ok c b =
     (case parse_turn receiveTime ok c b of
        Inl e \<Rightarrow> Some (Inl e)
      | Inr (hasMore, ok1, c1, b1) \<Rightarrow>
          if hasMore then parse_loop receiveTime ok1 c1 b1 else Some (Inr (ok1, c1, b1)))"

definition parseRequest :: "int \<Rightarrow> http_context \<Rightarrow> buffer \<Rightarrow> (bool \<times> http_context \<times> buffer) res option" where
  "parseRequest receiveTime c b = parse_loop receiveTime True c b"

subsection \<open>HttpResponse\<close>

datatype HttpStatusCode = kStatusUnknown | k200k | k301MovedPermanently | k400BadRequest | k404NotFound

fun status_number :: "HttpStatusCode \<Rightarrow> int" where
  "status_number kStatusUnknown = 0"
| "status_number k200k = 200"
| "status_number k301MovedPermanently = 301"
| "status_number k400BadRequest = 400"
| "status_number k404NotFound = 404"

record http_response =
  resp_headers :: "(string \<times> string) list"
  statusCode :: HttpStatusCode
  statusMessage :: string
  closeConnection :: bool
  resp_body :: string

definition HttpResponse_new :: "bool \<Rightarrow> http_response" where
  "HttpResponse_new close = \<lparr>resp_headers = [], statusCode = kStatusUnknown, statusMessage = [],
     closeConnection = close, resp_body = []\<rparr>"

definition setStatusCode :: "HttpStatusCode \<Rightarrow> http_response \<Rightarrow> http_response" where
  "setStatusCode code r = r\<lparr>statusCode := code\<rparr>"

definition setStatusMessage :: "string \<Rightarrow> http_response \<Rightarrow> http_response" where
  "setStatusMessage m r = r\<lparr>statusMessage := m\<rparr>"

definition setCloseConnection :: "bool \<Rightarrow> http_response \<Rightarrow> http_response" where
  "setCloseConnection on r = r\<lparr>closeConnection := on\<rparr>"

definition resp_addHeader :: "string \<Rightarrow> string \<Rightarrow> http_response \<Rightarrow> http_response" where
  "resp_addHeader key v r = r\<lparr>resp_headers := map_set key v (resp_headers r)\<rparr>"

definition setContentType :: "string \<Rightarrow> http_response \<Rightarrow> http_response" where
  "setContentType ty r = resp_addHeader ''Content-Type'' ty r"

definition setBody :: "string \<Rightarrow> http_response \<Rightarrow> http_response" where
  "setBody b r = r\<lparr>resp_body := b\<rparr>"

definition append_header :: "string \<times> string \<Rightarrow> buffer \<Rightarrow> buffer res" where
  "append_header h out =
     bindR (append_buf (fst h) out) (\<lambda>out.
     bindR (append_buf '': '' out) (\<lambda>out.
     bindR (append_buf (snd h) out) (\<lambda>out. append_buf kCRLF out)))"

definition appendToBuffer :: "http_response \<Rightarrow> buffer \<Rightarrow> buffer res" where
  "appendToBuffer r out =
     bindR (append_buf (take 31 (''HTTP/1.1 '' @ show_int (status_number (statusCode r)) @ '' '')) out) (\<lambda>out.
     bindR (append_buf (statusMessage r) out) (\<lambda>out.
     bindR (append_buf kCRLF out) (\<lambda>out.
     bindR (if closeConnection r then append_buf (''Connection: close'' @ kCRLF) out
            else bindR (append_buf (take 31 (''Content-Length: '' @ show_nat (length (resp_body r)) @ kCRLF)) out) (\<lambda>out.
              append_buf (''Connection: Keep-Alive'' @ kCRLF) out)) (\<lambda>out.
     bindR (foldR append_header (resp_headers r) out) (\<lambda>out.
     bindR (append_buf kCRLF out) (\<lambda>out. append_buf (resp_body r) out))))))"

subsection \<open>Lines in the buffer\<close>

subsection \<open>Printing a request\<close>

fun method_name :: "Method \<Rightarrow> string" where
  "method_name kGet = ''GET''"
| "method_name kPost = ''POST''"
| "method_name kHead = ''HEAD''"
| "method_name kPut = ''PUT''"
| "method_name kDelete = ''DELETE''"
| "method_name kInvalid = []"

definition version_name :: "Version \<Rightarrow> string" where
  "version_name v = (if v = kHttp11 then ''HTTP/1.1'' else ''HTTP/1.0'')"

definition request_line :: "http_request \<Rightarrow> string" where
  "request_line r = method_name (req_method r) @ '' '' @ (req_path r @ req_query r) @ '' '' @ version_name (req_version r)"

definition header_line :: "string \<times> string \<Rightarrow> string" where
  "header_line h = fst h @ '': '' @ snd h"

definition print_headers :: "(string \<times> string) list \<Rightarrow> string" where
  "print_headers hs = concat (map (\<lambda>h. header_line h @ kCRLF) hs)"

text \<open>What a client may send: the parts of a request line and of a header that can be told apart.\<close>

definition request_line_ok :: "http_request \<Rightarrow> bool" where
  "request_line_ok r \<longleftrightarrow> req_method r \<noteq> kInvalid \<and> req_version r \<noteq> kUnknown \<and>
     set (req_path r) \<inter> {CHR '' '', CHR ''?'', CR} = {} \<and>
     (req_query r = [] \<or> hd (req_query r) = CHR ''?'') \<and> set (req_query r) \<inter> {CHR '' '', CR} = {}"

definition trimmed :: "string \<Rightarrow> bool" where
  "trimmed v \<longleftrightarrow> v = [] \<or> \<not> isspace (hd v) \<and> \<not> isspace (last v)"

definition header_ok :: "string \<times> string \<Rightarrow> bool" where
  "header_ok h \<longleftrightarrow> CHR '':'' \<notin> set (fst h) \<and> CR \<notin> set (fst h) \<and> CR \<notin> set (snd h) \<and> trimmed (snd h)"

definition with_headers :: "(string \<times> string) list \<Rightarrow> http_request \<Rightarrow> http_request" where
  "with_headers hs r = fold (\<lambda>(f, v) r. r\<lparr>req_headers := map_set f v (req_headers r)\<rparr>) hs r"

lemma processRequestLine_split:
  "CHR '' '' \<notin> set m \<Longrightarrow> processRequestLine (m @ '' '' @ rest) r =
     bindR (setMethod m r) (\<lambda>(isMethod, r). if \<not> isMethod then Inr (False, r) else Inr (processTarget rest r))"
  by (simp add: processRequestLine_def find_char_app Let_def cong del: if_weak_cong)

lemma processTarget_no_space: "CHR '' '' \<notin> set t \<Longrightarrow> processTarget t r = (False, r)"
  by (simp add: processTarget_def find_char_eq_length_iff)

lemma processTarget_split:
  "CHR '' '' \<notin> set t \<Longrightarrow> find_char (CHR ''?'') t = q \<Longrightarrow> processTarget (t @ '' '' @ v) r =
     processVersion v (if q \<noteq> length t then setQuery (drop q t) (setPath (take q t) r) else setPath t r)"
  by (simp add: processTarget_def find_char_app Let_def)

lemma method_name_plain: "CHR '' '' \<notin> set (method_name m)" "CR \<notin> set (method_name m)"
  by (cases m; simp)+

lemma setMethod_name:
  "m \<noteq> kInvalid \<Longrightarrow> req_method r = kInvalid \<Longrightarrow> setMethod (method_name m) r = Inr (True, r\<lparr>req_method := m\<rparr>)"
  by (cases m) (simp_all add: setMethod_def)

lemma processRequestLine_ok:
  assumes ok: "request_line_ok r" and fresh: "req_method r0 = kInvalid"
    and q0: "req_query r0 = []"
  shows "processRequestLine (request_line r) r0 =
    Inr (True, r0\<lparr>req_method := req_method r, req_path := req_path r, req_query := req_query r, req_version := req_version r\<rparr>)"
proof -
  let ?t = "req_path r @ req_query r" let ?v = "version_name (req_version r)" let ?r = "r0\<lparr>req_method := req_method r\<rparr>"
  have t: "CHR '' '' \<notin> set ?t" using ok by (auto simp: request_line_ok_def)
  have qu: "find_char (CHR ''?'') ?t = length (req_path r)"
    using ok by (cases "req_query r") (auto simp: find_char_app find_char_eq_length_iff request_line_ok_def)
  have ver: "processVersion ?v x = (True, setVersion (req_version r) x)" for x
    using ok by (cases "req_version r") (simp_all add: processVersion_def version_name_def request_line_ok_def)
  have "processRequestLine (request_line r) r0 = Inr (processTarget (?t @ '' '' @ ?v) ?r)"
    using ok fresh unfolding request_line_def processRequestLine_split [OF method_name_plain(1)]
    by (simp add: request_line_ok_def setMethod_name)
  also have "\<dots> = Inr (True, r0\<lparr>req_method := req_method r, req_path := req_path r, req_query := req_query r, req_version := req_version r\<rparr>)"
    unfolding processTarget_split [OF t qu]
    using q0 by (cases r0; cases "req_query r") (simp_all add: ver setVersion_def setPath_def setQuery_def)
  finally show ?thesis .
qed

lemma addHeader_line:
  assumes "header_ok h"
  shows "find_char (CHR '':'') (header_line h) = length (fst h)"
    "addHeader (header_line h) (length (fst h)) r = r\<lparr>req_headers := map_set (fst h) (snd h) (req_headers r)\<rparr>"
proof -
  show "find_char (CHR '':'') (header_line h) = length (fst h)"
    using assms by (simp add: header_line_def header_ok_def find_char_app)
  have "dropWhile isspace (CHR '' '' # snd h) = snd h"
    using assms by (cases "snd h") (simp_all add: header_ok_def trimmed_def isspace_def)
  moreover have "rev (dropWhile isspace (rev (snd h))) = snd h"
  proof (cases "snd h" rule: rev_cases)
    case (snoc ys y)
    with assms show ?thesis by (simp add: header_ok_def trimmed_def)
  qed simp
  ultimately show "addHeader (header_line h) (length (fst h)) r = r\<lparr>req_headers := map_set (fst h) (snd h) (req_headers r)\<rparr>"
    by (simp add: addHeader_def header_line_def)
qed

subsection \<open>Runs of the parser\<close>

lemma loop_turn:
  "parse_turn t ok c b = Inr (True, ok1, c1, b1) \<Longrightarrow> parse_loop t ok c b = parse_loop t ok1 c1 b1"
  "parse_turn t ok c b = Inr (False, ok1, c1, b1) \<Longrightarrow> parse_loop t ok c b = Some (Inr (ok1, c1, b1))"
  "parse_turn t ok c b = Inl e \<Longrightarrow> parse_loop t ok c b = Some (Inl e)"
  by (simp_all add: parse_loop.simps [of t ok c b])

lemma request_line_no_CR: "request_line_ok r \<Longrightarrow> CR \<notin> set (request_line r)"
  by (cases "req_method r") (auto simp: request_line_def request_line_ok_def version_name_def)

lemma turn_request_line:
  assumes inv: "buffer_inv b" and c: "content b = request_line r @ kCRLF @ rest" and ok: "request_line_ok r"
  obtains b1 where "parse_turn t True HttpContext_new b =
      Inr (True, True, \<lparr>parse_state = kExpectHeaders, ctx_request = r\<lparr>req_receiveTime := t, req_headers := []\<rparr>\<rparr>, b1)"
    "buffer_inv b1" "content b1 = rest"
proof -
  obtain b1 where b1: "findCRLF b = Inr (Some (peek b + length (request_line r)))"
    "read_at (peek b) (length (request_line r)) (storage b) = Inr (request_line r)"
    "retrieveUntil (peek b + length (request_line r) + 2) b = Inr b1" "buffer_inv b1" "content b1 = rest"
    by (rule line_in_buffer [OF inv c request_line_no_CR [OF ok]])
  have "processRequestLine (request_line r) HttpRequest_new =
      Inr (True, HttpRequest_new\<lparr>req_method := req_method r, req_path := req_path r, req_query := req_query r, req_version := req_version r\<rparr>)"
    by (rule processRequestLine_ok [OF ok]) (simp_all add: HttpRequest_new_def)
  with b1 have "parse_turn t True HttpContext_new b =
      Inr (True, True, \<lparr>parse_state = kExpectHeaders, ctx_request = r\<lparr>req_receiveTime := t, req_headers := []\<rparr>\<rparr>, b1)"
    by (cases r) (simp add: parse_turn_def HttpContext_new_def HttpRequest_new_def setReceiveTime_def)
  with b1 show thesis by (intro that)
qed

lemma turn_refused:
  assumes inv: "buffer_inv b" and c: "content b = line @ kCRLF @ rest" and cr: "CR \<notin> set line"
  shows "processRequestLine line r = Inr (False, r') \<Longrightarrow>
      parse_turn t k \<lparr>parse_state = kExpectRequestLine, ctx_request = r\<rparr> b =
        Inr (False, False, \<lparr>parse_state = kExpectRequestLine, ctx_request = r'\<rparr>, b)"
    and "processRequestLine line r = Inl e \<Longrightarrow>
      parse_turn t k \<lparr>parse_state = kExpectRequestLine, ctx_request = r\<rparr> b = Inl e"
  by (rule line_in_buffer [OF assms], simp add: parse_turn_def)+

lemma turn_header:
  assumes inv: "buffer_inv b" and c: "content b = header_line h @ kCRLF @ rest" and ok: "header_ok h"
  obtains b1 where "parse_turn t k \<lparr>parse_state = kExpectHeaders, ctx_request = r\<rparr> b =
      Inr (True, k, \<lparr>parse_state = kExpectHeaders, ctx_request = with_headers [h] r\<rparr>, b1)"
    "buffer_inv b1" "content b1 = rest"
proof -
  have "CR \<notin> set (header_line h)" using ok by (simp add: header_line_def header_ok_def)
  then obtain b1 where b1: "findCRLF b = Inr (Some (peek b + length (header_line h)))"
    "read_at (peek b) (length (header_line h)) (storage b) = Inr (header_line h)"
    "retrieveUntil (peek b + length (header_line h) + 2) b = Inr b1" "buffer_inv b1" "content b1 = rest"
    by (rule line_in_buffer [OF inv c])
  have "length (fst h) \<noteq> length (header_line h)" by (simp add: header_line_def)
  with b1 addHeader_line [OF ok] show thesis
    by (intro that [of b1]) (simp_all add: parse_turn_def with_headers_def split_beta)
qed

lemma turn_last_line:
  assumes inv: "buffer_inv b" and c: "content b = kCRLF @ rest"
  obtains b1 where "parse_turn t k \<lparr>parse_state = kExpectHeaders, ctx_request = r\<rparr> b =
      Inr (False, k, \<lparr>parse_state = kGotAll, ctx_request = r\<rparr>, b1)"
    "buffer_inv b1" "content b1 = rest"
proof -
  obtain b1 where b1: "findCRLF b = Inr (Some (peek b + length []))"
    "read_at (peek b) (length []) (storage b) = Inr []"
    "retrieveUntil (peek b + length [] + 2) b = Inr b1" "buffer_inv b1" "content b1 = rest"
    by (rule line_in_buffer [OF inv, of "[]" rest]) (simp_all add: c)
  then show thesis by (intro that [of b1]) (simp_all add: parse_turn_def)
qed

lemma loop_headers:
  assumes "buffer_inv b" and "content b = print_headers hs @ rest" and "list_all header_ok hs"
  shows "\<exists>b1. parse_loop t k \<lparr>parse_state = kExpectHeaders, ctx_request = r\<rparr> b =
      parse_loop t k \<lparr>parse_state = kExpectHeaders, ctx_request = with_headers hs r\<rparr> b1 \<and>
      buffer_inv b1 \<and> content b1 = rest"
  using assms
proof (induction hs arbitrary: b r)
  case Nil
  then show ?case by (auto simp: print_headers_def with_headers_def)
next
  case (Cons h hs)
  from Cons.prems(2) have "content b = header_line h @ kCRLF @ print_headers hs @ rest" by (simp add: print_headers_def)
  then obtain b1 where "parse_turn t k \<lparr>parse_state = kExpectHeaders, ctx_request = r\<rparr> b =
      Inr (True, k, \<lparr>parse_state = kExpectHeaders, ctx_request = with_headers [h] r\<rparr>, b1)"
    "buffer_inv b1" "content b1 = print_headers hs @ rest"
    by (rule turn_header [OF Cons.prems(1)]) (use Cons.prems(3) in auto)
  with Cons.IH [of b1 "with_headers [h] r"] Cons.prems(3) loop_turn(1) show ?case by (simp add: with_headers_def)
qed

text \<open>A turn that changes nothing is repeated forever.\<close>

lemma loop_stuck:
  assumes "parse_turn t k c b = Inr (True, k, c, b)"
  shows "parse_loop t k c b = None"
proof (rule ccontr)
  assume "parse_loop t k c b \<noteq> None"
  then obtain x where ret: "parse_loop t k c b = Some x" by blast
  have "parse_turn t k c b \<noteq> Inr (True, k, c, b)"
  proof (rule parse_loop.raw_induct [where P = "\<lambda>t k c b _. parse_turn t k c b \<noteq> Inr (True, k, c, b)", OF _ ret])
    fix f t k c b x
    assume IH: "\<And>t k c b x. f t k c b = Some x \<Longrightarrow> parse_turn t k c b \<noteq> Inr (True, k, c, b)"
      and eq: "(case parse_turn t k c b of Inl e \<Rightarrow> Some (Inl e)
        | Inr (hasMore, ok1, c1, b1) \<Rightarrow> if hasMore then f t ok1 c1 b1 else Some (Inr (ok1, c1, b1))) = Some x"
    show "parse_turn t k c b \<noteq> Inr (True, k, c, b)"
    proof
      assume s: "parse_turn t k c b = Inr (True, k, c, b)"
      with eq have "f t k c b = Some x" by simp
      with IH s show False by blast
    qed
  qed
  with assms show False by contradiction
qed

lemma parse_complete:
  assumes "buffer_inv b" and "request_line_ok r" and "list_all header_ok hs"
    and "content b = request_line r @ kCRLF @ print_headers hs @ kCRLF @ rest"
  obtains b1 where "parseRequest t HttpContext_new b = Some (Inr (True, \<lparr>parse_state = kGotAll,
      ctx_request = with_headers hs (r\<lparr>req_receiveTime := t, req_headers := []\<rparr>)\<rparr>, b1))"
    "buffer_inv b1" "content b1 = rest"
proof -
  let ?r = "r\<lparr>req_receiveTime := t, req_headers := []\<rparr>"
  obtain b1 where b1: "parse_turn t True HttpContext_new b = Inr (True, True, \<lparr>parse_state = kExpectHeaders, ctx_request = ?r\<rparr>, b1)"
    "buffer_inv b1" "content b1 = print_headers hs @ kCRLF @ rest"
    by (rule turn_request_line [OF assms(1,4,2)])
  obtain b2 where b2: "parse_loop t True \<lparr>parse_state = kExpectHeaders, ctx_request = ?r\<rparr> b1 =
      parse_loop t True \<lparr>parse_state = kExpectHeaders, ctx_request = with_headers hs ?r\<rparr> b2"
    "buffer_inv b2" "content b2 = kCRLF @ rest"
    using loop_headers [OF b1(2,3) assms(3)] by blast
  obtain b3 where b3: "parse_turn t True \<lparr>parse_state = kExpectHeaders, ctx_request = with_headers hs ?r\<rparr> b2 =
      Inr (False, True, \<lparr>parse_state = kGotAll, ctx_request = with_headers hs ?r\<rparr>, b3)" "buffer_inv b3" "content b3 = rest"
    by (rule turn_last_line [OF b2(2,3)])
  show thesis
    using that [OF _ b3(2,3)] b2(1)
    by (simp add: parseRequest_def loop_turn(1) [OF b1(1)] loop_turn(2) [OF b3(1)])
qed

subsection \<open>The text of a response\<close>

definition response_text :: "http_response \<Rightarrow> string" where
  "response_text r =
     take 31 (''HTTP/1.1 '' @ show_int (status_number (statusCode r)) @ '' '') @ statusMessage r @ kCRLF @
     (if closeConnection r then ''Connection: close'' @ kCRLF
      else take 31 (''Content-Length: '' @ show_nat (length (resp_body r)) @ kCRLF) @ ''Connection: Keep-Alive'' @ kCRLF) @
     print_headers (resp_headers r) @ kCRLF @ resp_body r"

lemma appends_headers: "appends (foldR append_header hs) (print_headers hs)"
proof (induction hs)
  case Nil
  then show ?case by (simp add: appends_def print_headers_def)
next
  case (Cons h hs)
  have "appends (append_header h) (fst h @ '': '' @ snd h @ kCRLF)"
    unfolding append_header_def by (intro appends_bind appends_buf)
  from appends_bind [OF this Cons.IH] show ?case by (simp add: print_headers_def header_line_def)
qed

lemma appendToBuffer_ok: "appends (appendToBuffer r) (response_text r)"
proof -
  have "appends (\<lambda>out. if closeConnection r then append_buf (''Connection: close'' @ kCRLF) out
      else bindR (append_buf (take 31 (''Content-Length: '' @ show_nat (length (resp_body r)) @ kCRLF)) out) (\<lambda>out.
        append_buf (''Connection: Keep-Alive'' @ kCRLF) out))
    (if closeConnection r then ''Connection: close'' @ kCRLF
      else take 31 (''Content-Length: '' @ show_nat (length (resp_body r)) @ kCRLF) @ ''Connection: Keep-Alive'' @ kCRLF)"
    by (cases "closeConnection r") (simp_all only: if_True if_False appends_buf appends_bind)
  then show ?thesis
    unfolding appendToBuffer_def response_text_def
    by (intro appends_bind appends_buf appends_headers)
qed

subsection \<open>Properties\<close>

text \<open>
  C9: Parsing undoes printing.  A buffer that holds a complete request, in the form a client writes it, is
  parsed with success to exactly this request (the last value wins for a repeated header), the parser
  terminates in the state \<open>kGotAll\<close>, and what follows the request stays in the buffer.
\<close>

theorem parse_print:
  assumes "buffer_inv b" and "request_line_ok r" and "list_all header_ok hs"
    and "content b = request_line r @ kCRLF @ print_headers hs @ kCRLF @ rest"
  shows "\<exists>c b1. parseRequest t HttpContext_new b = Some (Inr (True, c, b1)) \<and> gotAll c \<and>
    ctx_request c = with_headers hs (r\<lparr>req_receiveTime := t, req_headers := []\<rparr>) \<and>
    buffer_inv b1 \<and> content b1 = rest"
  by (rule parse_complete [OF assms, of t]) (simp add: gotAll_def)

text \<open>
  C39: A request that arrives in pieces can hang the thread: with the request line and any number of
  complete headers in the buffer but no further complete line, \<open>parseRequest\<close> never returns.
\<close>

theorem incomplete_headers_hang:
  assumes "buffer_inv b" and "request_line_ok r" and "list_all header_ok hs"
    and "content b = request_line r @ kCRLF @ print_headers hs @ part" and "search kCRLF part = None"
  shows "parseRequest t HttpContext_new b = None"
proof -
  let ?r = "r\<lparr>req_receiveTime := t, req_headers := []\<rparr>"
  obtain b1 where b1: "parse_turn t True HttpContext_new b = Inr (True, True, \<lparr>parse_state = kExpectHeaders, ctx_request = ?r\<rparr>, b1)"
    "buffer_inv b1" "content b1 = print_headers hs @ part"
    by (rule turn_request_line [OF assms(1,4,2)])
  let ?c = "\<lparr>parse_state = kExpectHeaders, ctx_request = with_headers hs ?r\<rparr>"
  obtain b2 where b2: "parse_loop t True \<lparr>parse_state = kExpectHeaders, ctx_request = ?r\<rparr> b1 = parse_loop t True ?c b2"
    "buffer_inv b2" "content b2 = part"
    using loop_headers [OF b1(2,3) assms(3)] by blast
  have "parse_turn t True ?c b2 = Inr (True, True, ?c, b2)"
    using findCRLF_eq [OF b2(2)] assms(5) by (simp add: parse_turn_def b2(3))
  from loop_stuck [OF this] b2(1) show ?thesis by (simp add: parseRequest_def loop_turn(1) [OF b1(1)])
qed

text \<open>
  A bad request line can abort the process.  When the method is known but the line has no further
  space, the request is refused and nothing is consumed; the context keeps the method, so that the next
  data on the same connection make \<open>setMethod\<close> fail its assertion.
\<close>

theorem bad_request_aborts_next:
  assumes "buffer_inv b" and "content b = method_name m @ '' '' @ target @ kCRLF @ rest" and "m \<noteq> kInvalid"
    and "CHR '' '' \<notin> set target" and "CR \<notin> set target" and "buffer_inv b2" and "content b2 = content b @ extra"
  shows "\<exists>c. parseRequest t HttpContext_new b = Some (Inr (False, c, b)) \<and> \<not> gotAll c \<and>
    parseRequest t2 c b2 = Some (Inl (AssertFailed ''method_ == Method::kInvalid''))"
proof -
  let ?line = "method_name m @ '' '' @ target" let ?m = "method_name m"
  let ?c = "HttpContext_new\<lparr>ctx_request := HttpRequest_new\<lparr>req_method := m\<rparr>\<rparr>"
  note split = processRequestLine_split [OF method_name_plain(1)]
  have first: "processRequestLine ?line HttpRequest_new = Inr (False, HttpRequest_new\<lparr>req_method := m\<rparr>)"
    unfolding split using assms(3,4) by (simp add: setMethod_name processTarget_no_space HttpRequest_new_def)
  have again: "processRequestLine ?line (HttpRequest_new\<lparr>req_method := m\<rparr>) = Inl (AssertFailed ''method_ == Method::kInvalid'')"
    unfolding split using assms(3) by (simp add: setMethod_def)
  have cr: "CR \<notin> set ?line" using method_name_plain(2) assms(5) by simp
  have "content b = ?line @ kCRLF @ rest" "content b2 = ?line @ kCRLF @ rest @ extra" using assms(2,7) by simp_all
  then have c: "content b = ?line @ kCRLF @ rest" and c2: "content b2 = ?line @ kCRLF @ rest @ extra" by simp_all
  have "parse_turn t True HttpContext_new b = Inr (False, False, ?c, b)"
    using turn_refused(1) [OF assms(1) c cr first] by (simp add: HttpContext_new_def)
  moreover have "parse_turn t2 True ?c b2 = Inl (AssertFailed ''method_ == Method::kInvalid'')"
    using turn_refused(2) [OF assms(6) c2 cr again] by (simp add: HttpContext_new_def)
  ultimately show ?thesis
    by (intro exI [of _ ?c]) (simp add: parseRequest_def loop_turn gotAll_def HttpContext_new_def)
qed

subsection \<open>Witnesses\<close>

definition http_demo :: http_request where
  "http_demo = \<lparr>req_method = kGet, req_version = kHttp11, req_path = ''/a.html'', req_query = ''?x'',
     req_receiveTime = 0, req_headers = []\<rparr>"

lemma http_demo_ok: "request_line_ok http_demo" "list_all header_ok [(''Host'', ''h'')]"
  by (simp_all add: request_line_ok_def http_demo_def header_ok_def trimmed_def isspace_def)

theorem parse_print_witness:
  "\<exists>b c b1. content b = ''GET /a.html?x HTTP/1.1'' @ kCRLF @ ''Host: h'' @ kCRLF @ kCRLF @ ''next'' \<and>
     parseRequest 7 HttpContext_new b = Some (Inr (True, c, b1)) \<and> getHeader ''Host'' (ctx_request c) = ''h'' \<and>
     req_path (ctx_request c) = ''/a.html'' \<and> content b1 = ''next''"
proof -
  let ?t = "request_line http_demo @ kCRLF @ print_headers [(''Host'', ''h'')] @ kCRLF @ ''next''"
  have t: "?t = ''GET /a.html?x HTTP/1.1'' @ kCRLF @ ''Host: h'' @ kCRLF @ kCRLF @ ''next''"
    by (simp add: request_line_def http_demo_def version_name_def print_headers_def header_line_def)
  have "length ?t \<le> 1000" unfolding t by (simp add: kCRLF_def)
  then obtain b where b: "buffer_inv b" "content b = ?t" by (rule buffer_with)
  from parse_print [OF b(1) http_demo_ok b(2), of 7] obtain c b1 where
    "parseRequest 7 HttpContext_new b = Some (Inr (True, c, b1))"
    "ctx_request c = with_headers [(''Host'', ''h'')] (http_demo\<lparr>req_receiveTime := 7, req_headers := []\<rparr>)" "content b1 = ''next''"
    by blast
  with b(2) t show ?thesis
    by (intro exI [of _ b] exI [of _ c] exI [of _ b1]) (simp add: with_headers_def getHeader_def http_demo_def)
qed

theorem incomplete_headers_hang_witness:
  "\<exists>b. content b = ''GET /a.html?x HTTP/1.1'' @ kCRLF @ ''Host: h'' @ kCRLF @ ''Acc'' \<and> parseRequest 7 HttpContext_new b = None"
proof -
  let ?t = "request_line http_demo @ kCRLF @ print_headers [(''Host'', ''h'')] @ ''Acc''"
  have t: "?t = ''GET /a.html?x HTTP/1.1'' @ kCRLF @ ''Host: h'' @ kCRLF @ ''Acc''"
    by (simp add: request_line_def http_demo_def version_name_def print_headers_def header_line_def)
  have "length ?t \<le> 1000" unfolding t by (simp add: kCRLF_def)
  then obtain b where b: "buffer_inv b" "content b = ?t" by (rule buffer_with)
  have "search kCRLF ''Acc'' = None" by (simp add: kCRLF_def)
  from incomplete_headers_hang [OF b(1) http_demo_ok b(2) this, of 7] b(2) t show ?thesis by auto
qed

theorem bad_request_aborts_next_witness:
  "\<exists>b c. content b = ''GET /'' @ kCRLF \<and> parseRequest 1 HttpContext_new b = Some (Inr (False, c, b)) \<and>
     parseRequest 2 c b = Some (Inl (AssertFailed ''method_ == Method::kInvalid''))"
proof -
  have "length (''GET /'' @ kCRLF) \<le> 1000" by (simp add: kCRLF_def)
  then obtain b where b: "buffer_inv b" "content b = ''GET /'' @ kCRLF" by (rule buffer_with)
  from bad_request_aborts_next [OF b(1) _ _ _ _ b(1), of kGet "''/''" "[]" "[]" 1 2] b(2) show ?thesis by auto
qed

end
