(* ===== verification/Acceptor.thy ===== *)
theory Acceptor
  imports TcpConnection
begin

section \<open>Acceptor\<close>

text \<open>
  \<open>chaonet/include/Acceptor.h\<close> and \<open>chaonet/src/Acceptor.cpp\<close>: the listening socket of a server.
  \<open>osAccept i\<close> is what the \<open>i\<close>-th \<open>accept\<close> call returned: a descriptor, negative on failure, and the
  peer's address.  The new-connection callback is a tag that the argument \<open>acall\<close> interprets.
\<close>

record acceptor_state = conn_state_t +
  ac_fd :: int
  ac_channel :: nat
  ac_callback :: "nat option"
  ac_listening :: bool
  ac_calls :: nat
  osAccept :: "nat \<Rightarrow> int \<times> sockaddr_in"
  ac_littleEndian :: bool

text \<open>
  The constructor: \<open>fd\<close> is the socket that \<open>createNonblockingOrDie\<close> returned, \<open>q\<close> the new channel
  object.
\<close>

definition Acceptor_new :: "int \<Rightarrow> nat \<Rightarrow> bool \<Rightarrow> sockaddr_in \<Rightarrow> ('m) acceptor_state_scheme \<Rightarrow> 'm acceptor_state_scheme" where
  "Acceptor_new fd q uninit listenAddr s =
     (let s1 = s\<lparr>ac_fd := fd, ac_channel := q, ac_listening := False, ac_callback := None\<rparr>;
          c = Channel_new (lp_this s1) fd uninit;
          s2 = Socket_bindAddress fd listenAddr (Socket_setReuseAddr fd True s1) in
      put_chan q (setReadCallback (Some AcceptRead) c) s2)"

definition ac_setNewConnectionCallback :: "nat option \<Rightarrow> ('m) acceptor_state_scheme \<Rightarrow> 'm acceptor_state_scheme" where
  "ac_setNewConnectionCallback cb s = s\<lparr>ac_callback := cb\<rparr>"

definition Acceptor_listen :: "('m) acceptor_state_scheme \<Rightarrow> 'm acceptor_state_scheme res" where
  "Acceptor_listen s =
     (let s1 = Socket_listen (ac_fd s) (s\<lparr>ac_listening := True\<rparr>) in
      enableReading EventLoop_updateChannel (ac_channel s1) s1)"

definition Acceptor_handleRead where
  "Acceptor_handleRead acall s =
     (let peerAddr = InetAddress_port (ac_littleEndian s) 0;
          (connfd, peerAddr) = Socket_accept (osAccept s (ac_calls s)) peerAddr;
          s1 = s\<lparr>ac_calls := Suc (ac_calls s)\<rparr> in
      if 0 \<le> connfd then
        (case ac_callback s1 of
           Some cb \<Rightarrow> acall cb connfd peerAddr s1
         | None \<Rightarrow> Inr (sockets_close connfd s1))
      else Inr s1)"

subsection \<open>Listening\<close>

text \<open>The acceptor between construction and \<open>listen\<close>, and after it.\<close>

definition ac_ready :: "('m) acceptor_state_scheme \<Rightarrow> bool" where
  "ac_ready s \<longleftrightarrow> loop_inv s \<and> 0 \<le> ac_fd s \<and> ep_free_fd (ac_fd s) s \<and>
     (\<exists>c. chans s (ac_channel s) = Some c \<and> ch_index c = -1 \<and> ch_loop c = lp_this s \<and> ch_fd c = ac_fd s \<and>
        ch_events c = 0 \<and> readCallback c = Some AcceptRead)"

definition ac_armed :: "('m) acceptor_state_scheme \<Rightarrow> bool" where
  "ac_armed s \<longleftrightarrow> loop_inv s \<and> ac_listening s \<and> ep_registered (ac_channel s) s \<and>
     ep_armed (ac_channel s) s = kReadEvent"

lemma ac_ready_callback [simp]: "ac_ready (s\<lparr>ac_callback := cb\<rparr>) = ac_ready s"
  using loop_inv_cong [of "s\<lparr>ac_callback := cb\<rparr>" s] by (simp add: ac_ready_def)

lemma Acceptor_new_ready:
  assumes "loop_inv s" "chans s q = None" "0 \<le> fd" "ep_free_fd fd s"
  shows "ac_ready (Acceptor_new fd q uninit addr s)" "\<not> ac_listening (Acceptor_new fd q uninit addr s)"
proof -
  let ?s1 = "s\<lparr>ac_fd := fd, ac_channel := q, ac_listening := False, ac_callback := None\<rparr>"
  let ?u = "net (NetBind fd addr) (net (NetReuseAddr fd True) ?s1)"
  let ?c = "setReadCallback (Some AcceptRead) (Channel_new (lp_this s) fd uninit)"
  have run: "Acceptor_new fd q uninit addr s = put_chan q ?c ?u"
    by (simp add: Acceptor_new_def Socket_bindAddress_def sockets_bindOrDie_def Socket_setReuseAddr_def Let_def)
  have u: "loop_inv ?u" "ep_free_fd fd ?u" "chans ?u q = None"
    using assms(1,2,4) loop_inv_cong [of ?u s] by simp_all
  have c: "ch_index ?c = -1" "ch_loop ?c = lp_this ?u" "ch_fd ?c = fd" "ch_events ?c = 0" "readCallback ?c = Some AcceptRead"
    by (simp_all add: setReadCallback_def Channel_new_def)
  note n = loop_inv_new_chan [OF u(1,3) c(1,2)]
  have f: "ac_fd (put_chan q ?c ?u) = fd" "ac_channel (put_chan q ?c ?u) = q" "lp_this (put_chan q ?c ?u) = lp_this ?u"
    by (simp_all add: put_chan_def net_def)
  show "ac_ready (Acceptor_new fd q uninit addr s)"
    unfolding run ac_ready_def f using n u assms(3) c by simp
  show "\<not> ac_listening (Acceptor_new fd q uninit addr s)" by (simp add: run put_chan_def net_def)
qed

lemma poll_frame_acceptor:
  assumes "poll_frame s s'"
  shows "ac_channel s' = ac_channel s" "ac_listening s' = ac_listening s" "ac_fd s' = ac_fd s" "ac_callback s' = ac_callback s"
    "osAccept s' = osAccept s" "ac_calls s' = ac_calls s"
  using assms by (cases s; cases s'; simp add: poll_frame_def)+

lemma Acceptor_listen_ok:
  assumes "ac_ready s"
  obtains s' where "Acceptor_listen s = Inr s'" "ac_armed s'" "netLog s' = netLog s @ [NetListen (ac_fd s)]"
    "poll_frame (net (NetListen (ac_fd s)) (s\<lparr>ac_listening := True\<rparr>)) s'"
    "chans s' = (chans s)(ac_channel s \<mapsto> (the (chans s (ac_channel s)))\<lparr>ch_events := kReadEvent, ch_index := kAdded\<rparr>)"
    "\<And>x. ep_free_fd x s' \<longleftrightarrow> x \<noteq> ac_fd s \<and> ep_free_fd x s"
proof -
  let ?u = "net (NetListen (ac_fd s)) (s\<lparr>ac_listening := True\<rparr>)" let ?q = "ac_channel s"
  obtain c where s: "loop_inv s" "0 \<le> ac_fd s" "ep_free_fd (ac_fd s) s" "chans s ?q = Some c" "ch_index c = -1"
      "ch_fd c = ac_fd s" "ch_events c = 0"
    using assms by (auto simp: ac_ready_def)
  have u: "loop_inv ?u" "chans ?u ?q = Some c" "\<And>x. ep_free_fd x ?u = ep_free_fd x s"
    using s loop_inv_cong [of ?u s] by simp_all
  obtain s' where s': "enableReading EventLoop_updateChannel ?q ?u = Inr s'" "loop_inv s'" "ep_registered ?q s'"
      "ep_armed ?q s' = kReadEvent" "poll_frame ?u s'" "chans s' = (chans ?u)(?q \<mapsto> c\<lparr>ch_events := kReadEvent, ch_index := kAdded\<rparr>)"
      "\<And>x. ep_free_fd x s' \<longleftrightarrow> x \<noteq> ch_fd c \<and> ep_free_fd x ?u"
    by (rule chan_first_read [OF u(1,2) s(5,7)]) (use s u(3) in auto)
  have "ac_channel s' = ?q" "ac_listening s'" "ac_channel ?u = ?q" "netLog s' = netLog s @ [NetListen (ac_fd s)]"
    using poll_frame_acceptor [OF s'(5)] poll_frame_conn(2) [OF s'(5)] by (simp_all add: net_def)
  with s' s u show thesis
    by (intro that [of s']) (simp_all add: Acceptor_listen_def Socket_listen_def sockets_listenOrDie_def ac_armed_def)
qed

subsection \<open>Properties\<close>

text \<open>
  A new acceptor binds its socket with address reuse, and after \<open>listen\<close> its channel watches for
  readability.  Each accepted descriptor then goes somewhere: to the new-connection callback with the
  peer's address, or to \<open>close\<close> when there is none; a failed \<open>accept\<close> has no effect.
\<close>

theorem acceptor_hands_over:
  assumes "loop_inv s" and "chans s q = None" and "0 \<le> fd" and "ep_free_fd fd s"
    and "osAccept s (ac_calls s) = (connfd, peer)"
  shows "\<exists>s1. Acceptor_listen (ac_setNewConnectionCallback cb (Acceptor_new fd q uninit addr s)) = Inr s1 \<and>
    ac_armed s1 \<and> netLog s1 = netLog s @ [NetReuseAddr fd True, NetBind fd addr, NetListen fd] \<and>
    Acceptor_handleRead acall s1 =
      (let s2 = s1\<lparr>ac_calls := Suc (ac_calls s1)\<rparr> in
       if connfd < 0 then Inr s2
       else case cb of Some f \<Rightarrow> acall f connfd peer s2 | None \<Rightarrow> Inr (net (NetClose connfd) s2))"
proof -
  let ?a = "ac_setNewConnectionCallback cb (Acceptor_new fd q uninit addr s)"
  have f: "netLog ?a = netLog s @ [NetReuseAddr fd True, NetBind fd addr]" "ac_fd ?a = fd" "ac_callback ?a = cb"
      "osAccept ?a = osAccept s" "ac_calls ?a = ac_calls s"
    by (simp_all add: Acceptor_new_def Socket_bindAddress_def sockets_bindOrDie_def Socket_setReuseAddr_def Let_def
        put_chan_def net_def ac_setNewConnectionCallback_def)
  have "ac_ready ?a"
    using Acceptor_new_ready(1) [OF assms(1-4), of uninit addr] ac_ready_callback
    by (simp add: ac_setNewConnectionCallback_def)
  then obtain s1 where s1: "Acceptor_listen ?a = Inr s1" "ac_armed s1" "netLog s1 = netLog ?a @ [NetListen (ac_fd ?a)]"
      "poll_frame (net (NetListen (ac_fd ?a)) (?a\<lparr>ac_listening := True\<rparr>)) s1"
    by (rule Acceptor_listen_ok)
  have "ac_callback s1 = cb" "osAccept s1 = osAccept s" "ac_calls s1 = ac_calls s"
    using poll_frame_acceptor [OF s1(4)] f by (simp_all add: net_def)
  with assms(5) have "Acceptor_handleRead acall s1 =
      (let s2 = s1\<lparr>ac_calls := Suc (ac_calls s1)\<rparr> in
       if connfd < 0 then Inr s2
       else case cb of Some f \<Rightarrow> acall f connfd peer s2 | None \<Rightarrow> Inr (net (NetClose connfd) s2))"
    by (simp add: Acceptor_handleRead_def Socket_accept_def Let_def sockets_close_def not_le split: option.split)
  with s1 f show ?thesis by auto
qed

subsection \<open>Witness\<close>

definition ac_demo :: acceptor_state where
  "ac_demo = conn_state_t.extend (cn_demo kConnected)
     \<lparr>ac_fd = 5, ac_channel = 3, ac_callback = None, ac_listening = False, ac_calls = 0,
      osAccept = (\<lambda>_. (9, zero_addr)), ac_littleEndian = True\<rparr>"

lemmas ac_demo_defs = ac_demo_def conn_state_t.defs cn_demo_defs

lemma ac_demo_loop: "loop_inv ac_demo"
proof -
  have "epoll_inv ac_demo"
    unfolding epoll_inv_def
    by (auto simp: ac_demo_defs epoll_chan_ok_def interest_def ctl_legal_def index_consts split: if_splits)
  then show ?thesis by (auto simp: loop_inv_def own_chans_def ac_demo_defs split: if_splits)
qed

theorem acceptor_hands_over_witness:
  "\<exists>s1. Acceptor_listen (ac_setNewConnectionCallback None (Acceptor_new 5 3 False zero_addr ac_demo)) = Inr s1 \<and>
     ac_armed s1 \<and> Acceptor_handleRead (\<lambda>_ _ _. Inr) s1 = Inr (net (NetClose 9) (s1\<lparr>ac_calls := Suc (ac_calls s1)\<rparr>))"
proof -
  have f: "chans ac_demo 3 = None" "(0::int) \<le> 5" "ep_free_fd 5 ac_demo" "osAccept ac_demo (ac_calls ac_demo) = (9, zero_addr)"
    by (simp_all add: ac_demo_defs ep_free_fd_def)
  from acceptor_hands_over [OF ac_demo_loop f, of None False zero_addr "\<lambda>_ _ _. Inr"] show ?thesis by (auto simp: Let_def)
qed

end
