(* ===== verification/EventLoopThread.thy ===== *)
theory EventLoopThread
  imports Prelude
begin

section \<open>EventLoopThread and EventLoopThreadPool\<close>

text \<open>
  \<open>chaonet/include/EventLoopThread.h\<close>, \<open>EventLoopThreadPool.h\<close>, \<open>utils/Thread.h\<close> and their sources.  An
  event loop is named by a number.  \<open>EventLoopThread\<close> is two threads that meet through \<open>loop_\<close>: its
  starting, stopping and joining are the steps of a transition relation, one per access to shared
  state; the mutex and the condition variable are in the granularity of the steps (the wait ends only
  when the pointer is set).  The pool's loops are those that \<open>startLoop\<close> returned, \<open>newLoop i\<close> the \<open>i\<close>-th.
\<close>

subsection \<open>EventLoopThread\<close>

datatype owner_pc = OIdle | OStarting | OStarted | OQuitting | OJoining | ODone

datatype thread_pc = TNone | TConstruct | TPublish | TEnter | TLooping | TExited

record loop_thread =
  owner :: owner_pc
  thr :: thread_pc
  loop_ptr :: bool
  exiting :: bool
  thread_started :: bool
  loop_quit :: bool

definition EventLoopThread_new :: loop_thread where
  "EventLoopThread_new = \<lparr>owner = OIdle, thr = TNone, loop_ptr = False, exiting = False,
     thread_started = False, loop_quit = False\<rparr>"

text \<open>\<open>Thread::start\<close> starts the function once.\<close>

definition Thread_start :: "loop_thread \<Rightarrow> loop_thread" where
  "Thread_start c = (if \<not> thread_started c then c\<lparr>thread_started := True, thr := TConstruct\<rparr> else c)"

definition startLoop_begin :: "loop_thread \<Rightarrow> loop_thread res" where
  "startLoop_begin c = check (\<not> thread_started c) ''!thread_.started()'' (Inr ((Thread_start c)\<lparr>owner := OStarting\<rparr>))"

text \<open>The loop of \<open>startLoop\<close>: it waits again while the pointer is null.\<close>

definition startLoop_wait :: "loop_thread \<Rightarrow> loop_thread" where
  "startLoop_wait c = (if loop_ptr c then c\<lparr>owner := OStarted\<rparr> else c)"

text \<open>
  \<open>threadFunc\<close>: construct the loop, publish its address, and enter \<open>loop()\<close>, which first clears
  \<open>quit_\<close> and then tests it before each turn.
\<close>

fun threadFunc_step :: "loop_thread \<Rightarrow> loop_thread" where
  "threadFunc_step c =
     (case thr c of
        TConstruct \<Rightarrow> c\<lparr>thr := TPublish, loop_quit := False\<rparr>
      | TPublish \<Rightarrow> c\<lparr>thr := TEnter, loop_ptr := True\<rparr>
      | TEnter \<Rightarrow> c\<lparr>thr := TLooping, loop_quit := False\<rparr>
      | TLooping \<Rightarrow> if loop_quit c then c\<lparr>thr := TExited\<rparr> else c
      | _ \<Rightarrow> c)"

text \<open>The destructor: \<open>quit\<close> through the pointer, then \<open>join\<close>, which waits for the thread's end.\<close>

definition destroy_begin :: "loop_thread \<Rightarrow> loop_thread" where
  "destroy_begin c = c\<lparr>exiting := True, owner := OQuitting\<rparr>"

definition destroy_quit :: "loop_thread \<Rightarrow> loop_thread res" where
  "destroy_quit c = (if loop_ptr c then Inr (c\<lparr>loop_quit := True, owner := OJoining\<rparr>) else Inl DanglingPointer)"

definition Thread_join :: "loop_thread \<Rightarrow> loop_thread" where
  "Thread_join c = (if \<not> thread_started c \<or> thr c = TExited then c\<lparr>owner := ODone\<rparr> else c)"

inductive elt_step :: "loop_thread \<Rightarrow> loop_thread \<Rightarrow> bool" where
  Start: "owner c = OIdle \<Longrightarrow> startLoop_begin c = Inr c' \<Longrightarrow> elt_step c c'"
| Wait: "owner c = OStarting \<Longrightarrow> elt_step c (startLoop_wait c)"
| Thr: "elt_step c (threadFunc_step c)"
| Destroy: "owner c = OStarted \<Longrightarrow> elt_step c (destroy_begin c)"
| Quit: "owner c = OQuitting \<Longrightarrow> destroy_quit c = Inr c' \<Longrightarrow> elt_step c c'"
| Join: "owner c = OJoining \<Longrightarrow> elt_step c (Thread_join c)"

inductive_cases elt_stepE: "elt_step c c'"

inductive elt_steps :: "loop_thread \<Rightarrow> loop_thread \<Rightarrow> bool" where
  Refl: "elt_steps c c"
| More: "elt_steps c c' \<Longrightarrow> elt_step c' c'' \<Longrightarrow> elt_steps c c''"

definition elt_inv :: "loop_thread \<Rightarrow> bool" where
  "elt_inv c \<longleftrightarrow> (loop_ptr c \<longleftrightarrow> thr c \<in> {TEnter, TLooping, TExited}) \<and>
     (owner c \<in> {OStarted, OQuitting, OJoining, ODone} \<longrightarrow> loop_ptr c) \<and>
     (owner c = OIdle \<longrightarrow> thr c = TNone \<and> \<not> thread_started c) \<and> (thr c \<noteq> TNone \<longrightarrow> thread_started c) \<and>
     (owner c \<noteq> OIdle \<longrightarrow> thr c \<noteq> TNone)"

lemma elt_inv_step: "elt_step c c' \<Longrightarrow> elt_inv c \<Longrightarrow> elt_inv c'"
proof (induction rule: elt_step.induct)
  case (Start c c')
  then show ?case by (auto simp: elt_inv_def startLoop_begin_def Thread_start_def check_def split: if_splits)
next
  case (Wait c)
  then show ?case by (cases "loop_ptr c") (simp_all add: elt_inv_def startLoop_wait_def)
next
  case (Thr c)
  then show ?case by (cases "thr c"; cases "loop_quit c") (simp_all add: elt_inv_def)
next
  case (Destroy c)
  then show ?case by (cases "thr c") (auto simp: elt_inv_def destroy_begin_def)
next
  case (Quit c c')
  then have "c' = c\<lparr>loop_quit := True, owner := OJoining\<rparr>" by (simp add: destroy_quit_def split: if_splits)
  with Quit show ?case by (cases "thr c") (auto simp: elt_inv_def)
next
  case (Join c)
  then show ?case by (cases "thr c"; cases "thread_started c"; simp add: elt_inv_def Thread_join_def)
qed

lemma elt_inv_reach: "elt_steps EventLoopThread_new c \<Longrightarrow> elt_inv c"
proof (induction "EventLoopThread_new" c rule: elt_steps.induct)
  case Refl
  show ?case by (simp add: elt_inv_def EventLoopThread_new_def)
next
  case (More c' c'')
  then show ?case by (blast intro: elt_inv_step)
qed

subsection \<open>EventLoopThreadPool\<close>

record pool =
  baseLoop :: nat
  pool_started :: bool
  numThreads :: int
  pool_next :: nat
  pool_loops :: "nat list"

definition Pool_new :: "nat \<Rightarrow> pool" where
  "Pool_new base = \<lparr>baseLoop = base, pool_started = False, numThreads = 0, pool_next = 0, pool_loops = []\<rparr>"

definition Pool_setThreadNum :: "int \<Rightarrow> pool \<Rightarrow> pool" where
  "Pool_setThreadNum n pl = pl\<lparr>numThreads := n\<rparr>"

definition Pool_start :: "(nat \<Rightarrow> nat) \<Rightarrow> pool \<Rightarrow> pool res" where
  "Pool_start newLoop pl =
     check (\<not> pool_started pl) ''!started_''
       (Inr (pl\<lparr>pool_started := True, pool_loops := pool_loops pl @ map newLoop [0..<nat (numThreads pl)]\<rparr>))"

definition getNextLoop :: "pool \<Rightarrow> (nat \<times> pool) res" where
  "getNextLoop pl =
     (if pool_loops pl \<noteq> [] then
        bindR (read_at (pool_next pl) 1 (pool_loops pl)) (\<lambda>ls.
          let n = pool_next pl + 1 in
          Inr (hd ls, pl\<lparr>pool_next := (if length (pool_loops pl) \<le> n then 0 else n)\<rparr>))
      else Inr (baseLoop pl, pl))"

definition pool_inv :: "pool \<Rightarrow> bool" where
  "pool_inv pl \<longleftrightarrow> pool_loops pl = [] \<and> pool_next pl = 0 \<or> pool_next pl < length (pool_loops pl)"

text \<open>The loop that serves the \<open>i\<close>-th request from now on.\<close>

definition pool_loop :: "pool \<Rightarrow> nat \<Rightarrow> nat" where
  "pool_loop pl i =
     (if pool_loops pl = [] then baseLoop pl
      else pool_loops pl ! ((pool_next pl + i) mod length (pool_loops pl)))"

lemma getNextLoop_ok:
  assumes "pool_inv pl"
  shows "\<exists>pl'. getNextLoop pl = Inr (pool_loop pl 0, pl') \<and> pool_inv pl' \<and>
    (\<forall>i. pool_loop pl' i = pool_loop pl (Suc i)) \<and> pool_loops pl' = pool_loops pl"
proof (cases "pool_loops pl = []")
  case True
  with assms show ?thesis by (simp add: getNextLoop_def pool_loop_def)
next
  case False
  let ?n = "length (pool_loops pl)"
  let ?pl = "pl\<lparr>pool_next := (if ?n \<le> pool_next pl + 1 then 0 else pool_next pl + 1)\<rparr>"
  have lt: "pool_next pl < ?n" using assms False by (simp add: pool_inv_def)
  then have "getNextLoop pl = Inr (pool_loop pl 0, ?pl)"
    using False by (simp add: getNextLoop_def read_at_def pool_loop_def take_Suc_conv_app_nth hd_drop_conv_nth Let_def)
  moreover have "pool_inv ?pl" using lt by (auto simp: pool_inv_def)
  moreover have "pool_loop ?pl i = pool_loop pl (Suc i)" for i
  proof (cases "?n \<le> pool_next pl + 1")
    case True
    with lt have "pool_next pl + Suc i = i + ?n" by linarith
    then have "(pool_next pl + Suc i) mod ?n = i mod ?n" by (simp only: mod_add_self2)
    with True False show ?thesis by (simp add: pool_loop_def)
  qed (use False in \<open>simp add: pool_loop_def\<close>)
  ultimately show ?thesis by auto
qed

fun serve :: "nat \<Rightarrow> pool \<Rightarrow> nat list res" where
  "serve 0 pl = Inr []"
| "serve (Suc n) pl = bindR (getNextLoop pl) (\<lambda>(l, pl'). bindR (serve n pl') (\<lambda>ls. Inr (l # ls)))"

subsection \<open>Properties\<close>

text \<open>
  The pool hands out its loops in turn: after \<open>start\<close> with \<open>n\<close> threads the \<open>i\<close>-th request gets loop
  \<open>i mod n\<close>, and with no threads every request gets the base loop; the vector is never read out of
  range.
\<close>

theorem pool_round_robin:
  assumes "Pool_start newLoop (Pool_setThreadNum n (Pool_new base)) = Inr pl"
  shows "serve m pl = Inr (map (\<lambda>i. if n \<le> 0 then base else newLoop (i mod nat n)) [0..<m])"
proof -
  have gen: "pool_inv pl \<Longrightarrow> serve m pl = Inr (map (pool_loop pl) [0..<m])" for pl
  proof (induction m arbitrary: pl)
    case (Suc m)
    from getNextLoop_ok [OF Suc.prems] obtain pl' where pl': "getNextLoop pl = Inr (pool_loop pl 0, pl')"
      "pool_inv pl'" "\<forall>i. pool_loop pl' i = pool_loop pl (Suc i)" by blast
    have "map (pool_loop pl) [0..<Suc m] = pool_loop pl 0 # map (\<lambda>i. pool_loop pl (Suc i)) [0..<m]"
      by (simp only: upt_conv_Cons [OF zero_less_Suc] map_Suc_upt [symmetric] list.map map_map comp_def)
    with Suc.IH [OF pl'(2)] pl' show ?case by (simp del: upt_Suc)
  qed simp
  have pl: "pl = \<lparr>baseLoop = base, pool_started = True, numThreads = n, pool_next = 0,
      pool_loops = map newLoop [0..<nat n]\<rparr>"
    using assms by (simp add: Pool_start_def Pool_setThreadNum_def Pool_new_def)
  have "pool_inv pl" by (auto simp: pl pool_inv_def)
  moreover have "pool_loop pl i = (if n \<le> 0 then base else newLoop (i mod nat n))" for i
    by (simp add: pl pool_loop_def)
  ultimately show ?thesis using gen by simp
qed

text \<open>
  C32: \<open>startLoop\<close> returns only when the new thread has constructed its loop and published its address, in
  every interleaving.
\<close>

theorem startLoop_published:
  assumes "elt_steps EventLoopThread_new c" and "owner c \<in> {OStarted, OQuitting, OJoining}"
  shows "loop_ptr c \<and> thr c \<in> {TEnter, TLooping, TExited}"
  using elt_inv_reach [OF assms(1)] assms(2) by (auto simp: elt_inv_def)

text \<open>
  C33: The destructor can wait forever: if it calls \<open>quit\<close> after the loop was published but before the
  thread has entered \<open>loop()\<close>, which clears the flag, the thread keeps looping and \<open>join\<close> never returns.
\<close>

theorem quit_lost_join_hangs:
  "\<exists>c. elt_steps EventLoopThread_new c \<and> owner c = OJoining \<and>
     (\<forall>c'. elt_steps c c' \<longrightarrow> owner c' = OJoining \<and> thr c' = TLooping)"
proof -
  let ?c = "\<lambda>w t p e q. \<lparr>owner = w, thr = t, loop_ptr = p, exiting = e, thread_started = True, loop_quit = q\<rparr>"
  have "elt_step EventLoopThread_new (?c OStarting TConstruct False False False)"
    by (rule Start) (simp_all add: EventLoopThread_new_def startLoop_begin_def Thread_start_def)
  moreover have "elt_step (?c OStarting TConstruct False False False) (?c OStarting TPublish False False False)"
    using Thr [of "?c OStarting TConstruct False False False"] by simp
  moreover have "elt_step (?c OStarting TPublish False False False) (?c OStarting TEnter True False False)"
    using Thr [of "?c OStarting TPublish False False False"] by simp
  moreover have "elt_step (?c OStarting TEnter True False False) (?c OStarted TEnter True False False)"
    using Wait [of "?c OStarting TEnter True False False"] by (simp add: startLoop_wait_def)
  moreover have "elt_step (?c OStarted TEnter True False False) (?c OQuitting TEnter True True False)"
    using Destroy [of "?c OStarted TEnter True False False"] by (simp add: destroy_begin_def)
  moreover have "elt_step (?c OQuitting TEnter True True False) (?c OJoining TEnter True True True)"
    using Quit [of "?c OQuitting TEnter True True False"] by (simp add: destroy_quit_def)
  moreover have "elt_step (?c OJoining TEnter True True True) (?c OJoining TLooping True True False)"
    using Thr [of "?c OJoining TEnter True True True"] by simp
  ultimately have r: "elt_steps EventLoopThread_new (?c OJoining TLooping True True False)"
    by (meson elt_steps.intros)
  have "owner c' = OJoining \<and> thr c' = TLooping \<and> \<not> loop_quit c' \<and> thread_started c'"
    if "elt_steps (?c OJoining TLooping True True False) c'" for c'
    using that
  proof (induction "?c OJoining TLooping True True False" c' rule: elt_steps.induct)
    case (More c' c'')
    then show ?case by (auto elim!: elt_stepE simp: Thread_join_def)
  qed simp
  with r show ?thesis by fastforce
qed

theorem quit_lost_join_hangs_witness:
  "\<exists>c. elt_steps EventLoopThread_new c \<and> owner c = OJoining \<and> \<not> (\<exists>c'. elt_steps c c' \<and> owner c' = ODone)"
  using quit_lost_join_hangs by fastforce

theorem pool_round_robin_witness: "serve 3 \<lparr>baseLoop = 9, pool_started = True, numThreads = 2, pool_next = 0, pool_loops = [0, 1]\<rparr> = Inr [0, 1, 0]"
  using pool_round_robin [of id 2 9 "\<lparr>baseLoop = 9, pool_started = True, numThreads = 2, pool_next = 0, pool_loops = [0, 1]\<rparr>" 3]
  by (simp add: Pool_start_def Pool_setThreadNum_def Pool_new_def upt_rec numeral_2_eq_2)

theorem startLoop_published_witness:
  "\<exists>c. elt_steps EventLoopThread_new c \<and> owner c = OStarted \<and> loop_ptr c"
proof -
  let ?c = "\<lambda>w t p. \<lparr>owner = w, thr = t, loop_ptr = p, exiting = False, thread_started = True, loop_quit = False\<rparr>"
  have "elt_step EventLoopThread_new (?c OStarting TConstruct False)"
    by (rule Start) (simp_all add: EventLoopThread_new_def startLoop_begin_def Thread_start_def)
  moreover have "elt_step (?c OStarting TConstruct False) (?c OStarting TPublish False)"
    using Thr [of "?c OStarting TConstruct False"] by simp
  moreover have "elt_step (?c OStarting TPublish False) (?c OStarting TEnter True)"
    using Thr [of "?c OStarting TPublish False"] by simp
  moreover have "elt_step (?c OStarting TEnter True) (?c OStarted TEnter True)"
    using Wait [of "?c OStarting TEnter True"] by (simp add: startLoop_wait_def)
  ultimately have "elt_steps EventLoopThread_new (?c OStarted TEnter True)"
    by (meson elt_steps.intros)
  with startLoop_published [OF this] show ?thesis by (intro exI [of _ "?c OStarted TEnter True"]) simp
qed

end
