(* ===== verification/TcpServer.thy ===== *)
theory TcpServer
  imports Acceptor EventLoopThread
begin

section \<open>TcpServer\<close>

text \<open>
  \<open>chaonet/include/TcpServer.h\<close> and \<open>chaonet/src/TcpServer.cpp\<close>: the acceptor in the base loop and
  connections in the loops of the pool.  The state is that of the loop whose thread is running, with the
  server's members and the other loops (\<open>otherLoops\<close>); \<open>in_loop l f\<close> applies \<open>f\<close> to loop \<open>l\<close>, which is how
  code of one thread calls a method of another thread's loop.  The addresses of the \<open>i\<close>-th connection and
  its channel are \<open>svNew i\<close>, the loop a connection belongs to (its member \<open>loop_\<close>) is \<open>connLoop\<close>, and
  \<open>newThreadLoop i\<close> is the loop that the \<open>i\<close>-th \<open>startLoop\<close> returned.  The counter is unbounded where the
  source has an \<open>int\<close>: 2 to the 31 connections are out of the model.
\<close>

record server_state = acceptor_state +
  sv_loop :: nat
  sv_name :: string
  sv_pool :: pool
  sv_connectionCallback :: "conn_cb option"
  sv_messageCallback :: "conn_cb option"
  sv_writeCompleteCallback :: "nat option"
  sv_started :: bool
  sv_nextConnId :: nat
  sv_connections :: "string \<Rightarrow> nat option"
  connLoop :: "nat \<Rightarrow> nat"
  otherLoops :: "nat \<Rightarrow> conn_state_t option"
  newThreadLoop :: "nat \<Rightarrow> nat \<times> conn_state_t"
  svNew :: "nat \<Rightarrow> nat \<times> nat"
  svMade :: nat
  svLocal :: "int \<Rightarrow> sockaddr_in option"
  svGarbage :: bool

subsection \<open>Acting on another loop\<close>

definition switch_loop :: "nat \<Rightarrow> ('m) server_state_scheme \<Rightarrow> 'm server_state_scheme res" where
  "switch_loop l s =
     (case otherLoops s l of
        None \<Rightarrow> Inl DanglingPointer
      | Some t \<Rightarrow> Inr ((conn_state_t.extend t (conn_state_t.more s))
                   \<lparr>otherLoops := (otherLoops s)(l := None, lp_this s \<mapsto> conn_state_t.truncate s)\<rparr>))"

definition in_loop :: "nat \<Rightarrow> (('m) server_state_scheme \<Rightarrow> 'm server_state_scheme res) \<Rightarrow>
    'm server_state_scheme \<Rightarrow> 'm server_state_scheme res" where
  "in_loop l f s =
     (if l = lp_this s then f s
      else bindR (switch_loop l s) (\<lambda>u. bindR (f u) (switch_loop (lp_this s))))"

text \<open>The connection object behind a pointer, and the loop a pointer to a loop stands for.\<close>

definition loop_of :: "nat \<Rightarrow> ('m) server_state_scheme \<Rightarrow> conn_state_t option" where
  "loop_of l s = (if l = lp_this s then Some (conn_state_t.truncate s) else otherLoops s l)"

definition conn_of :: "nat \<Rightarrow> ('m) server_state_scheme \<Rightarrow> connection option" where
  "conn_of p s = (case loop_of (connLoop s p) s of None \<Rightarrow> None | Some t \<Rightarrow> conns t p)"

subsection \<open>The operations\<close>

text \<open>\<open>newConnectionCallback_\<close> of the acceptor, bound to \<open>newConnection\<close>.\<close>

definition serverNewConnection :: nat where
  "serverNewConnection = 0"

definition TcpServer_new :: "int \<Rightarrow> nat \<Rightarrow> sockaddr_in \<Rightarrow> string \<Rightarrow> ('m) server_state_scheme \<Rightarrow> 'm server_state_scheme" where
  "TcpServer_new fd q listenAddr nameArg s =
     ac_setNewConnectionCallback (Some serverNewConnection)
       (Acceptor_new fd q (svGarbage s) listenAddr
         (s\<lparr>sv_loop := lp_this s, sv_name := nameArg, sv_pool := Pool_new (lp_this s), sv_started := False,
            sv_nextConnId := 1, sv_connections := (\<lambda>_. None), sv_connectionCallback := Some DefaultConnection,
            sv_messageCallback := Some DefaultMessage, sv_writeCompleteCallback := None\<rparr>))"

definition sv_setConnectionCallback where
  "sv_setConnectionCallback cb s = s\<lparr>sv_connectionCallback := cb\<rparr>"

definition sv_setMessageCallback where
  "sv_setMessageCallback cb s = s\<lparr>sv_messageCallback := cb\<rparr>"

definition sv_setWriteCompleteCallback where
  "sv_setWriteCompleteCallback cb s = s\<lparr>sv_writeCompleteCallback := cb\<rparr>"

definition TcpServer_setThreadNum :: "int \<Rightarrow> ('m) server_state_scheme \<Rightarrow> 'm server_state_scheme res" where
  "TcpServer_setThreadNum n s =
     check (0 \<le> n) ''0 <= numThreads'' (Inr (s\<lparr>sv_pool := Pool_setThreadNum n (sv_pool s)\<rparr>))"

definition start_threads :: "('m) server_state_scheme \<Rightarrow> 'm server_state_scheme res" where
  "start_threads s =
     bindR (Pool_start (\<lambda>i. fst (newThreadLoop s i)) (sv_pool s)) (\<lambda>pl.
       Inr (s\<lparr>sv_pool := pl,
         otherLoops := otherLoops s ++ map_of (map (newThreadLoop s) [0..<nat (numThreads pl)])\<rparr>))"

definition TcpServer_start :: "int \<Rightarrow> ('m) server_state_scheme \<Rightarrow> 'm server_state_scheme res" where
  "TcpServer_start tid s =
     bindR (if \<not> sv_started s then start_threads (s\<lparr>sv_started := True\<rparr>) else Inr s) (\<lambda>s1.
       if \<not> ac_listening s1 then runInLoop (\<lambda>_. Acceptor_listen) tid AcceptorListen s1 else Inr s1)"

definition connNameOf :: "('m) server_state_scheme \<Rightarrow> string" where
  "connNameOf s = sv_name s @ take 31 (''#'' @ show_nat (sv_nextConnId s))"

text \<open>\<open>start_connection\<close> is what \<open>newConnection\<close> does to the new object and to the loop it belongs to.\<close>

definition start_connection where
  "start_connection ucall tid p q name sockfd local peer s =
     (let s1 = TcpConnection_new p q name sockfd local peer (svGarbage s) s in
      with_conn p s1 (\<lambda>k.
        let k1 = conn_setCloseCallback (Some ServerRemoveConnection)
                   (setWriteCompleteCallback (sv_writeCompleteCallback s1)
                     (setMessageCallback (sv_messageCallback s1)
                       (setConnectionCallback (sv_connectionCallback s1) k))) in
        runInLoop (\<lambda>_. connectionEstablished ucall p) tid (ConnEstablished p) (put_conn p k1 s1)))"

definition TcpServer_newConnection where
  "TcpServer_newConnection ucall tid sockfd peer s =
     (let name = connNameOf s;
          s1 = s\<lparr>sv_nextConnId := Suc (sv_nextConnId s)\<rparr>;
          local = getLocalAddr (svLocal s1 sockfd) in
      bindR (getNextLoop (sv_pool s1)) (\<lambda>(ioLoop, pl).
        let (p, q) = svNew s1 (svMade s1);
            s2 = s1\<lparr>sv_pool := pl, svMade := Suc (svMade s1), connLoop := (connLoop s1)(p := ioLoop),
                    sv_connections := (sv_connections s1)(name \<mapsto> p)\<rparr> in
        in_loop ioLoop (start_connection ucall tid p q name sockfd local peer) s2))"

definition TcpServer_removeConnectionInLoop where
  "TcpServer_removeConnectionInLoop tid p s =
     (case conn_of p s of
        None \<Rightarrow> Inl DanglingPointer
      | Some k \<Rightarrow>
          check (sv_connections s (conn_name k) \<noteq> None) ''n == 1''
            (let s1 = s\<lparr>sv_connections := (sv_connections s)(conn_name k := None)\<rparr> in
             in_loop (connLoop s1 p) (\<lambda>u. Inr (queueInLoop tid (ConnDestroyed p) u)) s1))"

definition TcpServer_removeConnection where
  "TcpServer_removeConnection tid p s =
     in_loop (sv_loop s)
       (runInLoop (\<lambda>_. TcpServer_removeConnectionInLoop tid p) tid (RemoveConnectionInLoop p)) s"

definition server_ucall where
  "server_ucall tid user cb p arg s =
     (case cb of ServerRemoveConnection \<Rightarrow> TcpServer_removeConnection tid p s | _ \<Rightarrow> user cb p arg s)"

definition server_acall where
  "server_acall tid user cb sockfd peer s = TcpServer_newConnection (server_ucall tid user) tid sockfd peer s"

definition server_functor where
  "server_functor tid other f s =
     (case f of
        AcceptorListen \<Rightarrow> Acceptor_listen s
      | RemoveConnectionInLoop p \<Rightarrow> TcpServer_removeConnectionInLoop tid p s
      | _ \<Rightarrow> other f s)"

subsection \<open>Views\<close>

lemma server_more:
  "conn_state_t.more u = conn_state_t.more v \<Longrightarrow> otherLoops u = otherLoops v \<and> sv_connections u = sv_connections v \<and>
     connLoop u = connLoop v \<and> sv_loop u = sv_loop v \<and> svGarbage u = svGarbage v \<and>
     sv_connectionCallback u = sv_connectionCallback v \<and> sv_messageCallback u = sv_messageCallback v \<and>
     sv_writeCompleteCallback u = sv_writeCompleteCallback v"
  by (cases u; cases v) simp

definition loops_ok :: "('m) server_state_scheme \<Rightarrow> bool" where
  "loops_ok s \<longleftrightarrow> otherLoops s (lp_this s) = None \<and> (\<forall>l t. otherLoops s l = Some t \<longrightarrow> lp_this t = l)"

definition enter :: "nat \<Rightarrow> conn_state_t \<Rightarrow> ('m) server_state_scheme \<Rightarrow> 'm server_state_scheme" where
  "enter l t s = (conn_state_t.extend t (conn_state_t.more s))
     \<lparr>otherLoops := (otherLoops s)(l := None, lp_this s \<mapsto> conn_state_t.truncate s)\<rparr>"

lemma enter_simps [simp]:
  "conn_state_t.truncate (enter l t s) = t"
  "otherLoops (enter l t s) = (otherLoops s)(l := None, lp_this s \<mapsto> conn_state_t.truncate s)"
  "sv_loop (enter l t s) = sv_loop s" "connLoop (enter l t s) = connLoop s"
  "svGarbage (enter l t s) = svGarbage s" "sv_connections (enter l t s) = sv_connections s"
  "sv_connectionCallback (enter l t s) = sv_connectionCallback s"
  "sv_messageCallback (enter l t s) = sv_messageCallback s"
  "sv_writeCompleteCallback (enter l t s) = sv_writeCompleteCallback s"
  by (cases s, simp add: enter_def conn_state_t.defs)+

lemma enter_loop [simp]:
  "conns (enter l t s) = conns t" "chans (enter l t s) = chans t" "lp_this (enter l t s) = lp_this t"
  "channelMap (enter l t s) = channelMap t" "ctlLog (enter l t s) = ctlLog t" "eventListSize (enter l t s) = eventListSize t"
  "threadId (enter l t s) = threadId t" "pendingFunctors (enter l t s) = pendingFunctors t"
  "wakeupLog (enter l t s) = wakeupLog t"
  by (simp_all add: enter_def)

lemma in_loop_frame:
  assumes ok: "loops_ok s" and l: "l \<noteq> lp_this s" "otherLoops s l = Some t"
    and f: "f (enter l t s) = Inr u" "conn_state_t.more u = conn_state_t.more (enter l t s)" "lp_this u = l"
  shows "in_loop l f s = Inr (s\<lparr>otherLoops := (otherLoops s)(l \<mapsto> conn_state_t.truncate u)\<rparr>)"
proof -
  let ?b = "lp_this s"
  have o: "otherLoops u = (otherLoops s)(l := None, ?b \<mapsto> conn_state_t.truncate s)"
    using server_more [OF f(2)] by simp
  have "in_loop l f s = switch_loop ?b u"
    using l f(1) by (simp add: in_loop_def switch_loop_def enter_def)
  also have "\<dots> = Inr ((conn_state_t.extend (conn_state_t.truncate s) (conn_state_t.more u))
      \<lparr>otherLoops := (otherLoops s)(l \<mapsto> conn_state_t.truncate u)\<rparr>)"
    using l ok f(3) by (simp add: switch_loop_def o loops_ok_def fun_upd_twist fun_upd_idem)
  also have "\<dots> = Inr (s\<lparr>otherLoops := (otherLoops s)(l \<mapsto> conn_state_t.truncate u)\<rparr>)"
    using f(2) by (cases s) (simp add: enter_def conn_state_t.defs)
  finally show ?thesis .
qed

text \<open>The object that \<open>newConnection\<close> makes.\<close>

definition server_conn :: "('m) server_state_scheme \<Rightarrow> nat \<Rightarrow> string \<Rightarrow> int \<Rightarrow> sockaddr_in \<Rightarrow> sockaddr_in \<Rightarrow> connection" where
  "server_conn s q name fd local peer =
     \<lparr>conn_name = name, conn_state = kConnecting, conn_reading = True, conn_sockfd = fd, conn_channel = q,
      localAddr = local, peerAddr = peer, connectionCallback = sv_connectionCallback s,
      messageCallback = sv_messageCallback s, writeCompleteCallback = sv_writeCompleteCallback s,
      highWaterMarkCallback = None, conn_closeCallback = Some ServerRemoveConnection,
      highWaterMark = defaultHighWaterMark, inputBuffer = Buffer_new, outputBuffer = Buffer_new\<rparr>"

lemma start_connection_posts:
  assumes "tid \<noteq> threadId s"
  obtains u c where "start_connection ucall tid p q name fd local peer s = Inr u"
    "conn_state_t.more u = conn_state_t.more s" "lp_this u = lp_this s" "threadId u = threadId s"
    "conns u = (conns s)(p \<mapsto> server_conn s q name fd local peer)" "chans u = (chans s)(q \<mapsto> c)"
    "pendingFunctors u = pendingFunctors s @ [ConnEstablished p]" "wakeupLog u = wakeupLog s @ [WakeWrite]"
proof -
  let ?c = "setErrorCallback (Some (ConnError p)) (setCloseCallback (Some (ConnClose p))
           (setWriteCallback (Some (ConnWrite p)) (setReadCallback (Some (ConnRead p))
             (Channel_new (lp_this s) fd (svGarbage s)))))"
  let ?u = "queueInLoop tid (ConnEstablished p) (put_conn p (server_conn s q name fd local peer) (put_chan q ?c s))"
  let ?s1 = "TcpConnection_new p q name fd local peer (svGarbage s) s"
  have s1: "sv_writeCompleteCallback ?s1 = sv_writeCompleteCallback s" "sv_messageCallback ?s1 = sv_messageCallback s"
      "sv_connectionCallback ?s1 = sv_connectionCallback s"
    by (simp_all add: TcpConnection_new_def put_conn_def put_chan_def)
  have run: "start_connection ucall tid p q name fd local peer s = Inr ?u"
    using assms
    by (simp add: start_connection_def s1 Let_def runInLoop_def isInLoopThread_def)
       (simp add: TcpConnection_new_def server_conn_def put_conn_def put_chan_def
        conn_setCloseCallback_def setWriteCompleteCallback_def setMessageCallback_def setConnectionCallback_def)
  show thesis
    by (rule that [OF run, of ?c])
       (use assms in \<open>simp_all add: put_conn_def put_chan_def queueInLoop_def wakeup_def isInLoopThread_def\<close>)
qed

subsection \<open>The invariant of the server\<close>

definition server_ok :: "('m) server_state_scheme \<Rightarrow> bool" where
  "server_ok s \<longleftrightarrow> loops_ok s \<and> sv_loop s = lp_this s \<and> pool_inv (sv_pool s) \<and>
     (\<forall>l t. otherLoops s l = Some t \<longrightarrow> threadId t \<noteq> threadId s) \<and>
     (\<forall>l \<in> set (pool_loops (sv_pool s)). otherLoops s l \<noteq> None) \<and>
     (\<forall>n p. sv_connections s n = Some p \<longrightarrow> (\<exists>k. conn_of p s = Some k \<and> conn_name k = n) \<and>
        (\<exists>i < sv_nextConnId s. n = sv_name s @ ''#'' @ show_nat i))"

lemma connNameOf_eq:
  assumes "sv_nextConnId s < 2 ^ 31"
  shows "connNameOf s = sv_name s @ ''#'' @ show_nat (sv_nextConnId s)"
  using length_show_nat [of "sv_nextConnId s" 9] assms by (simp add: connNameOf_def)

lemma connNameOf_fresh:
  assumes "server_ok s" "sv_nextConnId s < 2 ^ 31"
  shows "sv_connections s (connNameOf s) = None"
proof (rule ccontr)
  assume "sv_connections s (connNameOf s) \<noteq> None"
  with assms(1) obtain i where "i < sv_nextConnId s" "connNameOf s = sv_name s @ ''#'' @ show_nat i"
    unfolding server_ok_def by blast
  with connNameOf_eq [OF assms(2)] show False by (simp add: show_nat_inject)
qed

text \<open>A callback made while loop \<open>l\<close> runs, that posts to the loop of the server.\<close>

lemma in_loop_callback:
  assumes ok: "loops_ok s" and l: "l \<noteq> lp_this s" "otherLoops s l = Some t"
    and f: "f (enter l t s) = in_loop (lp_this s) (\<lambda>w. Inr (queueInLoop tid cb w)) u"
      "conn_state_t.more u = conn_state_t.more (enter l t s)" "lp_this u = l"
  shows "in_loop l f s = Inr ((queueInLoop tid cb s)\<lparr>otherLoops := (otherLoops s)(l \<mapsto> conn_state_t.truncate u)\<rparr>)"
proof -
  let ?b = "lp_this s" let ?w = "queueInLoop tid cb (enter ?b (conn_state_t.truncate s) u)"
  have o: "otherLoops u = (otherLoops s)(l := None, ?b \<mapsto> conn_state_t.truncate s)"
    using server_more [OF f(2)] by simp
  have "loops_ok u" using ok l f(3) by (auto simp: loops_ok_def o)
  moreover have "?b \<noteq> lp_this u" "otherLoops u ?b = Some (conn_state_t.truncate s)" using l f(3) o by simp_all
  ultimately have v: "f (enter l t s) = Inr (u\<lparr>otherLoops := (otherLoops u)(?b \<mapsto> queueInLoop tid cb (conn_state_t.truncate s))\<rparr>)"
    (is "_ = Inr ?v") using in_loop_frame [of u ?b "conn_state_t.truncate s" "\<lambda>w. Inr (queueInLoop tid cb w)" ?w] f(1)
    by simp
  have "in_loop l f s = switch_loop ?b ?v"
    using l v by (simp add: in_loop_def switch_loop_def enter_def)
  also have "\<dots> = Inr ((conn_state_t.extend (queueInLoop tid cb (conn_state_t.truncate s)) (conn_state_t.more ?v))
      \<lparr>otherLoops := (otherLoops s)(l \<mapsto> conn_state_t.truncate u)\<rparr>)"
  proof -
    have "lp_this ?v = l" "conn_state_t.truncate ?v = conn_state_t.truncate u" "otherLoops s ?b = None"
      using f(3) ok by (simp_all add: conn_state_t.defs loops_ok_def)
    with l show ?thesis by (simp add: switch_loop_def o fun_upd_twist fun_upd_idem del: truncate_queue)
  qed
  also have "\<dots> = Inr ((queueInLoop tid cb s)\<lparr>otherLoops := (otherLoops s)(l \<mapsto> conn_state_t.truncate u)\<rparr>)"
  proof -
    have "(conn_state_t.extend (conn_state_t.truncate s) (conn_state_t.more ?v))\<lparr>otherLoops := m\<rparr> = s\<lparr>otherLoops := m\<rparr>" for m
      using f(2) by (cases s; cases u) (simp add: enter_def conn_state_t.defs)
    moreover have "(queueInLoop tid cb w)\<lparr>otherLoops := m\<rparr> = queueInLoop tid cb (w\<lparr>otherLoops := m\<rparr>)"
      for m and w :: "'a server_state_scheme"
      by (simp add: queueInLoop_def wakeup_def isInLoopThread_def Let_def)
    ultimately show ?thesis by simp
  qed
  finally show ?thesis .
qed

subsection \<open>Accepting connections\<close>

definition posted :: "nat \<Rightarrow> ('m) server_state_scheme \<Rightarrow> loop_functor list" where
  "posted l s = (case loop_of l s of None \<Rightarrow> [] | Some t \<Rightarrow> pendingFunctors t)"

text \<open>The invariant when a connection is added under the next name.\<close>

lemma server_ok_added:
  assumes ok: "server_ok s" and id: "sv_nextConnId s < 2 ^ 31" and fresh: "\<forall>n. sv_connections s n \<noteq> Some p"
    and loops: "loops_ok s'" "sv_loop s' = lp_this s'" "pool_inv (sv_pool s')" "\<And>l t. otherLoops s' l = Some t \<Longrightarrow> threadId t \<noteq> threadId s'"
      "\<And>l. l \<in> set (pool_loops (sv_pool s')) \<Longrightarrow> otherLoops s' l \<noteq> None"
    and names: "sv_connections s' = (sv_connections s)(connNameOf s \<mapsto> p)" "sv_nextConnId s' = Suc (sv_nextConnId s)" "sv_name s' = sv_name s"
    and conn: "conn_of p s' = Some k" "conn_name k = connNameOf s" "\<And>r. r \<noteq> p \<Longrightarrow> conn_of r s' = conn_of r s"
  shows "server_ok s'"
proof -
  have "(\<exists>k. conn_of r s' = Some k \<and> conn_name k = n) \<and> (\<exists>i < sv_nextConnId s'. n = sv_name s' @ ''#'' @ show_nat i)"
    if a: "sv_connections s' n = Some r" for n r
  proof (cases "n = connNameOf s")
    case True
    with a names conn(1,2) connNameOf_eq [OF id] show ?thesis by auto
  next
    case False
    with a names(1) have o: "sv_connections s n = Some r" by simp
    with fresh have "r \<noteq> p" by auto
    moreover from o ok have "(\<exists>k. conn_of r s = Some k \<and> conn_name k = n) \<and> (\<exists>i < sv_nextConnId s. n = sv_name s @ ''#'' @ show_nat i)"
      by (simp add: server_ok_def)
    ultimately show ?thesis unfolding names(2,3) using conn(3) less_SucI by metis
  qed
  with loops show ?thesis unfolding server_ok_def by blast
qed

lemma newConnection_step:
  assumes ok: "server_ok s" and pl: "pool_loops (sv_pool s) \<noteq> []" and id: "sv_nextConnId s < 2 ^ 31"
    and pq: "svNew s (svMade s) = (p, q)" and fresh: "\<forall>n. sv_connections s n \<noteq> Some p"
  obtains s' k where "TcpServer_newConnection ucall (threadId s) fd peer s = Inr s'" "server_ok s'"
    "pool_loops (sv_pool s') = pool_loops (sv_pool s)" "\<And>i. pool_loop (sv_pool s') i = pool_loop (sv_pool s) (Suc i)"
    "sv_nextConnId s' = Suc (sv_nextConnId s)" "sv_name s' = sv_name s" "threadId s' = threadId s"
    "sv_connections s' = (sv_connections s)(connNameOf s \<mapsto> p)" "svNew s' = svNew s" "svMade s' = Suc (svMade s)"
    "connLoop s' = (connLoop s)(p := pool_loop (sv_pool s) 0)"
    "conn_of p s' = Some k" "conn_name k = connNameOf s" "conn_sockfd k = fd" "peerAddr k = peer"
    "conn_state k = kConnecting" "conn_closeCallback k = Some ServerRemoveConnection"
    "\<And>p'. p' \<noteq> p \<Longrightarrow> conn_of p' s' = conn_of p' s"
    "\<And>l. posted l s' = posted l s @ (if l = pool_loop (sv_pool s) 0 then [ConnEstablished p] else [])"
proof -
  let ?l = "pool_loop (sv_pool s) 0" let ?local = "getLocalAddr (svLocal s fd)"
  from ok have s: "loops_ok s" "sv_loop s = lp_this s" "pool_inv (sv_pool s)"
      "\<And>l t. otherLoops s l = Some t \<Longrightarrow> threadId t \<noteq> threadId s"
      "\<And>l. l \<in> set (pool_loops (sv_pool s)) \<Longrightarrow> otherLoops s l \<noteq> None"
    by (auto simp: server_ok_def)
  from getNextLoop_ok [OF s(3)] obtain pl' where pl': "getNextLoop (sv_pool s) = Inr (?l, pl')" "pool_inv pl'"
      "\<forall>i. pool_loop pl' i = pool_loop (sv_pool s) (Suc i)" "pool_loops pl' = pool_loops (sv_pool s)" by blast
  have "?l \<in> set (pool_loops (sv_pool s))" using pl by (simp add: pool_loop_def)
  with s(5) obtain t where t: "otherLoops s ?l = Some t" by blast
  with s(1) have l: "?l \<noteq> lp_this s" "lp_this t = ?l" by (auto simp: loops_ok_def)
  let ?s2 = "s\<lparr>sv_nextConnId := Suc (sv_nextConnId s), sv_pool := pl', svMade := Suc (svMade s),
      connLoop := (connLoop s)(p := ?l), sv_connections := (sv_connections s)(connNameOf s \<mapsto> p)\<rparr>"
  let ?v = "enter ?l t ?s2" let ?k = "server_conn ?v q (connNameOf s) fd ?local peer"
  have "threadId s \<noteq> threadId ?v" using s(4) [OF t] by simp
  then obtain u c where u: "start_connection ucall (threadId s) p q (connNameOf s) fd ?local peer ?v = Inr u"
      "conn_state_t.more u = conn_state_t.more ?v" "lp_this u = ?l" "threadId u = threadId t"
      "conns u = (conns t)(p \<mapsto> ?k)" "pendingFunctors u = pendingFunctors t @ [ConnEstablished p]"
    by (rule start_connection_posts) (use l(2) in auto)
  let ?s' = "?s2\<lparr>otherLoops := (otherLoops s)(?l \<mapsto> conn_state_t.truncate u)\<rparr>"
  have "loops_ok ?s2" using s(1) by (simp add: loops_ok_def)
  from in_loop_frame [of ?s2 ?l t "start_connection ucall (threadId s) p q (connNameOf s) fd ?local peer" u] this l(1) t u(1-3)
  have run: "TcpServer_newConnection ucall (threadId s) fd peer s = Inr ?s'"
    using pl'(1) pq by (simp add: TcpServer_newConnection_def connNameOf_def Let_def)
  have c: "conn_of p ?s' = Some ?k" using l(1) u(5) by (simp add: conn_of_def loop_of_def)
  have c': "conn_of p' ?s' = conn_of p' s" if "p' \<noteq> p" for p'
    using that t u(5) l by (simp add: conn_of_def loop_of_def)
  have po: "posted l' ?s' = posted l' s @ (if l' = ?l then [ConnEstablished p] else [])" for l'
    using t u(6) l by (simp add: posted_def loop_of_def)
  have k: "conn_name ?k = connNameOf s" "conn_sockfd ?k = fd" "peerAddr ?k = peer" "conn_state ?k = kConnecting"
      "conn_closeCallback ?k = Some ServerRemoveConnection" by (simp_all add: server_conn_def)
  have "server_ok ?s'"
  proof (rule server_ok_added [OF ok id fresh])
    show "loops_ok ?s'" using s(1) l u(3) by (simp add: loops_ok_def)
    show "threadId t' \<noteq> threadId ?s'" if "otherLoops ?s' l' = Some t'" for l' t'
      using that s(4) t u(4) by (auto split: if_splits)
  qed (use s pl' c k c' in simp_all)
  with run c c' po k pl' show thesis by (intro that [of ?s' ?k]) simp_all
qed

text \<open>
  What accepting the sockets \<open>xs\<close> makes of a server, the connection of the \<open>i\<close>-th at address \<open>ptr i\<close>.
\<close>

definition accepted :: "(nat \<Rightarrow> nat) \<Rightarrow> (int \<times> sockaddr_in) list \<Rightarrow> ('m) server_state_scheme \<Rightarrow> 'm server_state_scheme \<Rightarrow> bool" where
  "accepted ptr xs s s' \<longleftrightarrow> server_ok s' \<and>
    (\<forall>i < length xs. \<exists>k. sv_connections s' (sv_name s @ ''#'' @ show_nat (sv_nextConnId s + i)) = Some (ptr i) \<and>
       conn_of (ptr i) s' = Some k \<and> conn_sockfd k = fst (xs ! i) \<and> peerAddr k = snd (xs ! i) \<and>
       conn_state k = kConnecting \<and> connLoop s' (ptr i) = pool_loop (sv_pool s) i) \<and>
    (\<forall>n p. sv_connections s n = Some p \<longrightarrow> sv_connections s' n = Some p \<and> conn_of p s' = conn_of p s \<and>
       connLoop s' p = connLoop s p) \<and>
    (\<forall>l. posted l s' = posted l s @
       map (\<lambda>i. ConnEstablished (ptr i)) (filter (\<lambda>i. pool_loop (sv_pool s) i = l) [0..<length xs]))"

lemma accepted_Cons:
  assumes ok: "server_ok s" and id: "sv_nextConnId s < 2 ^ 31" and ptr: "\<And>n i. sv_connections s n \<noteq> Some (ptr i)"
    and s1: "\<And>i. pool_loop (sv_pool s1) i = pool_loop (sv_pool s) (Suc i)" "sv_nextConnId s1 = Suc (sv_nextConnId s)" "sv_name s1 = sv_name s"
      "sv_connections s1 = (sv_connections s)(connNameOf s \<mapsto> ptr 0)" "connLoop s1 = (connLoop s)(ptr 0 := pool_loop (sv_pool s) 0)"
      "conn_of (ptr 0) s1 = Some k" "conn_sockfd k = fst x" "peerAddr k = snd x" "conn_state k = kConnecting"
      "\<And>r. r \<noteq> ptr 0 \<Longrightarrow> conn_of r s1 = conn_of r s"
      "\<And>l. posted l s1 = posted l s @ (if l = pool_loop (sv_pool s) 0 then [ConnEstablished (ptr 0)] else [])"
    and acc: "accepted (\<lambda>i. ptr (Suc i)) xs s1 s'"
  shows "accepted ptr (x # xs) s s'"
proof -
  have name: "connNameOf s = sv_name s @ ''#'' @ show_nat (sv_nextConnId s)" by (rule connNameOf_eq [OF id])
  have new: "sv_connections s (connNameOf s) = None" by (rule connNameOf_fresh [OF ok id])
  have each: "\<forall>i < length xs. \<exists>k. sv_connections s' (sv_name s @ ''#'' @ show_nat (Suc (sv_nextConnId s) + i)) = Some (ptr (Suc i)) \<and>
       conn_of (ptr (Suc i)) s' = Some k \<and> conn_sockfd k = fst (xs ! i) \<and> peerAddr k = snd (xs ! i) \<and>
       conn_state k = kConnecting \<and> connLoop s' (ptr (Suc i)) = pool_loop (sv_pool s) (Suc i)"
    and old: "\<And>n p. sv_connections s1 n = Some p \<Longrightarrow> sv_connections s' n = Some p \<and> conn_of p s' = conn_of p s1 \<and> connLoop s' p = connLoop s1 p"
    and po: "\<And>l. posted l s' = posted l s1 @
       map (\<lambda>i. ConnEstablished (ptr (Suc i))) (filter (\<lambda>i. pool_loop (sv_pool s) (Suc i) = l) [0..<length xs])"
    using acc unfolding accepted_def s1(1-3) by blast+
  have first: "sv_connections s' (connNameOf s) = Some (ptr 0)" "conn_of (ptr 0) s' = Some k" "connLoop s' (ptr 0) = pool_loop (sv_pool s) 0"
    using old [of "connNameOf s" "ptr 0"] s1(4-6) by simp_all
  show ?thesis
    unfolding accepted_def
  proof (intro conjI allI impI)
    show "server_ok s'" using acc by (simp add: accepted_def)
  next
    fix i
    assume "i < length (x # xs)"
    then show "\<exists>k. sv_connections s' (sv_name s @ ''#'' @ show_nat (sv_nextConnId s + i)) = Some (ptr i) \<and>
       conn_of (ptr i) s' = Some k \<and> conn_sockfd k = fst ((x # xs) ! i) \<and> peerAddr k = snd ((x # xs) ! i) \<and>
       conn_state k = kConnecting \<and> connLoop s' (ptr i) = pool_loop (sv_pool s) i"
      using first name s1(7-9) each by (cases i) simp_all
  next
    fix n r
    assume r: "sv_connections s n = Some r"
    then have "n \<noteq> connNameOf s" "r \<noteq> ptr 0" using new ptr [of n 0] by auto
    with r show "sv_connections s' n = Some r" "conn_of r s' = conn_of r s" "connLoop s' r = connLoop s r"
      using old [of n r] s1(4,5,10) by simp_all
  next
    fix l
    have "[0..<length (x # xs)] = 0 # map Suc [0..<length xs]"
      by (simp only: list.size add_Suc_right add_0_right upt_conv_Cons [OF zero_less_Suc] map_Suc_upt)
    with po s1(11) show "posted l s' = posted l s @
       map (\<lambda>i. ConnEstablished (ptr i)) (filter (\<lambda>i. pool_loop (sv_pool s) i = l) [0..<length (x # xs)])"
      by (simp add: filter_map comp_def del: upt_Suc)
  qed
qed

lemma all_accepted:
  assumes "server_ok s" and "pool_loops (sv_pool s) \<noteq> []" and "sv_nextConnId s + length xs < 2 ^ 31"
    and "inj ptr" and "\<And>i. ptr i = fst (svNew s (svMade s + i))" and "\<And>n i. sv_connections s n \<noteq> Some (ptr i)"
  shows "\<exists>s'. foldR (\<lambda>(fd, peer). TcpServer_newConnection ucall (threadId s) fd peer) xs s = Inr s' \<and> accepted ptr xs s s'"
  using assms
proof (induction xs arbitrary: s ptr)
  case Nil
  then show ?case by (simp add: accepted_def)
next
  case (Cons x xs)
  obtain p q where pq: "svNew s (svMade s) = (p, q)" by force
  with Cons.prems(5) [of 0] have p: "ptr 0 = p" by simp
  have id: "sv_nextConnId s < 2 ^ 31" using Cons.prems(3) by simp
  have fresh: "\<forall>n. sv_connections s n \<noteq> Some p" using Cons.prems(6) [of _ 0] p by simp
  obtain s1 k where s1: "TcpServer_newConnection ucall (threadId s) (fst x) (snd x) s = Inr s1" "server_ok s1"
    "pool_loops (sv_pool s1) = pool_loops (sv_pool s)" "\<And>i. pool_loop (sv_pool s1) i = pool_loop (sv_pool s) (Suc i)"
    "sv_nextConnId s1 = Suc (sv_nextConnId s)" "sv_name s1 = sv_name s" "threadId s1 = threadId s"
    "sv_connections s1 = (sv_connections s)(connNameOf s \<mapsto> p)" "svNew s1 = svNew s" "svMade s1 = Suc (svMade s)"
    "connLoop s1 = (connLoop s)(p := pool_loop (sv_pool s) 0)" "conn_of p s1 = Some k" "conn_sockfd k = fst x"
    "peerAddr k = snd x" "conn_state k = kConnecting" "\<And>p'. p' \<noteq> p \<Longrightarrow> conn_of p' s1 = conn_of p' s"
    "\<And>l. posted l s1 = posted l s @ (if l = pool_loop (sv_pool s) 0 then [ConnEstablished p] else [])"
    by (rule newConnection_step [OF Cons.prems(1,2) id pq fresh, of ucall "fst x" "snd x"]) blast
  have inj: "inj (\<lambda>i. ptr (Suc i))" using Cons.prems(4) by (auto simp: inj_def)
  have ptr: "ptr (Suc i) = fst (svNew s1 (svMade s1 + i))" for i using Cons.prems(5) [of "Suc i"] s1(9,10) by simp
  have "ptr (Suc i) \<noteq> p" for i using Cons.prems(4) p by (metis inj_eq nat.distinct(1))
  with Cons.prems(6) s1(8) have "sv_connections s1 n \<noteq> Some (ptr (Suc i))" for n i by auto
  from Cons.IH [OF s1(2) _ _ inj ptr this] Cons.prems(2,3) s1(3,5,7) obtain s' where
    run: "foldR (\<lambda>(fd, peer). TcpServer_newConnection ucall (threadId s) fd peer) xs s1 = Inr s'" and acc: "accepted (\<lambda>i. ptr (Suc i)) xs s1 s'"
    by auto
  have "accepted ptr (x # xs) s s'"
    by (rule accepted_Cons [OF Cons.prems(1) id Cons.prems(6) s1(4-6) s1(8,11,12) [folded p] s1(13-15) s1(16,17) [folded p] acc])
  with run s1(1) show ?case by (intro exI [of _ s']) (cases x, simp)
qed

subsection \<open>Closing a connection\<close>

lemma conn_inv_enter [simp]: "conn_inv p k c (enter l t s) = conn_inv p k c t"
  using loop_inv_cong [of "enter l t s" t] by (simp add: conn_inv_def)

lemma poll_frame_view:
  assumes "poll_frame s s'"
  shows "lp_this s' = lp_this s" "wakeupLog s' = wakeupLog s" "conn_state_t.more s' = conn_state_t.more s"
  using assms by (cases s; cases s'; simp add: poll_frame_def)+

text \<open>A connection callback in the thread of a loop may do what it likes to that loop but leaves the server and the other loops alone.\<close>

definition keeps_server :: "'m server_state_scheme \<Rightarrow> 'm server_state_scheme \<Rightarrow> bool" where
  "keeps_server u v \<longleftrightarrow> conn_state_t.more v = conn_state_t.more u"

text \<open>The loop thread's part: \<open>handleClose\<close> up to the post to the server's loop.\<close>

lemma server_close_posts:
  assumes ok: "server_ok s" and l: "connLoop s p = l" "l \<noteq> lp_this s" "otherLoops s l = Some t"
    and inv: "conn_inv p k c t" and st: "conn_state k = kConnected \<or> conn_state k = kDisconnecting"
    and cb: "callback_lets_close keeps_server (server_ucall (threadId t) user) p (k\<lparr>conn_state := kDisconnected\<rparr>)"
      "conn_closeCallback k = Some ServerRemoveConnection"
  obtains u v t1 d where
    "conns u p = Some (k\<lparr>conn_state := kDisconnected\<rparr>)" "lp_this u = l" "pendingFunctors u = pendingFunctors t" "wakeupLog u = wakeupLog t"
    "call_cb (server_ucall (threadId t) user) (connectionCallback k) p 0 u = Inr v"
    "in_loop l (handleClose (server_ucall (threadId t) user) p) s =
       Inr ((queueInLoop (threadId t) (RemoveConnectionInLoop p) s)\<lparr>otherLoops := (otherLoops s)(l \<mapsto> t1)\<rparr>)"
    "loop_inv t1" "conns t1 p = Some (k\<lparr>conn_state := kDisconnected\<rparr>)" "chans t1 (conn_channel k) = Some d"
    "ch_events d = 0" "ch_fd d = conn_sockfd k" "ep_registered (conn_channel k) t1"
    "pendingFunctors t1 = pendingFunctors v" "wakeupLog t1 = wakeupLog v" "threadId t1 = threadId t" "lp_this t1 = l"
proof -
  let ?v = "enter l t s" let ?uc = "server_ucall (threadId t) user" let ?k = "k\<lparr>conn_state := kDisconnected\<rparr>"
  have s: "loops_ok s" "sv_loop s = lp_this s" "lp_this t = l" "threadId t \<noteq> threadId s"
    using ok l by (auto simp: server_ok_def loops_ok_def)
  have "conn_inv p k c ?v" using inv by simp
  then obtain u d where u: "handleClose ?uc p ?v =
      bindR (call_cb ?uc (connectionCallback k) p 0 u) (\<lambda>s2.
        with_conn p s2 (\<lambda>k2. call_cb ?uc (conn_closeCallback k2) p 0 s2))"
    "conns u p = Some ?k" "loop_inv u" "ep_registered (conn_channel k) u"
    "chans u (conn_channel k) = Some d" "ch_events d = 0" "ch_fd d = ch_fd c"
    "poll_frame (put_conn p ?k ?v) u"
    by (rule handleClose_ok [OF _ st]) blast
  note fr = poll_frame_conn [OF u(8)] poll_frame_view [OF u(8)]
  obtain w where w0: "call_cb ?uc (connectionCallback k) p 0 u = Inr w" "lets_close p (conn_channel k) u w" "keeps_server u w"
    using callback_lets_closeD [OF cb(1) u(3,2)] by auto
  then have w: "conns w p = Some ?k" "loop_inv w" "ep_registered (conn_channel k) w" "chans w (conn_channel k) = Some d"
    "lp_this w = lp_this u" "threadId w = threadId u" "conn_state_t.more w = conn_state_t.more u"
    using u(2,4,5) by (simp_all add: lets_close_def keeps_server_def)
  have m: "conn_state_t.more w = conn_state_t.more ?v" using fr(10) w(7) by (simp add: put_conn_def)
  have "handleClose ?uc p ?v = TcpServer_removeConnection (threadId t) p w"
    using u(1) w0(1) w(1) cb(2) by (simp add: call_cb_def server_ucall_def)
  moreover have "sv_loop w = lp_this s" using server_more [OF m] s(2) by simp
  moreover have "in_loop (lp_this s) (runInLoop (\<lambda>_. TcpServer_removeConnectionInLoop (threadId t) p) (threadId t) (RemoveConnectionInLoop p)) w =
      in_loop (lp_this s) (\<lambda>w. Inr (queueInLoop (threadId t) (RemoveConnectionInLoop p) w)) w"
  proof -
    have "lp_this w \<noteq> lp_this s" "otherLoops w (lp_this s) = Some (conn_state_t.truncate s)"
      using fr(8) w(5) l s server_more [OF m] by simp_all
    with s(4) show ?thesis
      by (simp add: in_loop_def switch_loop_def runInLoop_def isInLoopThread_def)
  qed
  ultimately have run: "handleClose ?uc p ?v =
      in_loop (lp_this s) (\<lambda>w. Inr (queueInLoop (threadId t) (RemoveConnectionInLoop p) w)) w"
    by (simp add: TcpServer_removeConnection_def)
  have "lp_this w = l" using fr(8) w(5) s(3) by simp
  from in_loop_callback [of s l t "handleClose ?uc p", OF s(1) l(2,3) run m this]
  show thesis
    using u w w0(1) inv fr s(3) loop_inv_cong [of "conn_state_t.truncate w" w]
    by (intro that [of u w "conn_state_t.truncate w" d]) (simp_all add: conn_inv_def put_conn_def)
qed

text \<open>The server's part: it forgets the connection and posts its destruction to the connection's loop, once.\<close>

lemma server_forgets:
  assumes "loops_ok s" and "connLoop s p = l" and "l \<noteq> lp_this s" and "otherLoops s l = Some t" and "threadId t \<noteq> tid"
    and "conns t p = Some k" and "sv_connections s (conn_name k) = Some p"
  obtains s' where "server_functor tid other (RemoveConnectionInLoop p) s = Inr s'"
    "s' = s\<lparr>sv_connections := (sv_connections s)(conn_name k := None),
       otherLoops := (otherLoops s)(l \<mapsto> queueInLoop tid (ConnDestroyed p) t)\<rparr>"
    "TcpServer_removeConnectionInLoop tid p s' = Inl (AssertFailed ''n == 1'')" "loops_ok s'"
proof -
  let ?e = "s\<lparr>sv_connections := (sv_connections s)(conn_name k := None)\<rparr>"
  let ?s' = "?e\<lparr>otherLoops := (otherLoops ?e)(l \<mapsto> queueInLoop tid (ConnDestroyed p) t)\<rparr>"
  have k: "conn_of p s = Some k" "conn_of p ?s' = Some k" using assms(2-4,6) by (simp_all add: conn_of_def loop_of_def)
  have t: "lp_this t = l" using assms(1,4) by (simp add: loops_ok_def)
  have e: "loops_ok ?e" "l \<noteq> lp_this ?e" "otherLoops ?e l = Some t" using assms(1,3,4) by (simp_all add: loops_ok_def)
  from in_loop_frame [of ?e l t "\<lambda>u. Inr (queueInLoop tid (ConnDestroyed p) u)" _, OF e refl _ _] t
  have "server_functor tid other (RemoveConnectionInLoop p) s = Inr ?s'"
    using k(1) assms(2,7) by (simp add: server_functor_def TcpServer_removeConnectionInLoop_def)
  moreover have "TcpServer_removeConnectionInLoop tid p ?s' = Inl (AssertFailed ''n == 1'')"
    using k(2) by (simp add: TcpServer_removeConnectionInLoop_def)
  moreover have "loops_ok ?s'" using e t by (auto simp: loops_ok_def)
  ultimately show thesis by (intro that) simp_all
qed

text \<open>The loop thread's last part: the channel leaves the poller.\<close>

lemma server_destroys:
  assumes "loops_ok s" and "l \<noteq> lp_this s" and "otherLoops s l = Some t" and "loop_inv t" and "conns t p = Some k"
    and "conn_state k = kDisconnected" and "chans t (conn_channel k) = Some d" and "ch_events d = 0" and "ep_registered (conn_channel k) t"
  obtains t' where "in_loop l (conn_functor ucall (threadId t) other (ConnDestroyed p)) s = Inr (s\<lparr>otherLoops := (otherLoops s)(l \<mapsto> t')\<rparr>)"
    "loop_inv t'" "\<not> ep_registered (conn_channel k) t'" "ep_free_fd (ch_fd d) t'"
proof -
  let ?v = "enter l t s"
  have v: "loop_inv ?v" "conns ?v p = Some k" "chans ?v (conn_channel k) = Some d" "ep_registered (conn_channel k) ?v"
    using assms(4,5,7,9) loop_inv_cong [of ?v t] by simp_all
  obtain w where w: "connectionDestroyed ucall p ?v = Inr w" "loop_inv w" "\<not> ep_registered (conn_channel k) w"
      "ep_free_fd (ch_fd d) w" "poll_frame ?v w"
    by (rule connectionDestroyed_ok [OF v(1,2) _ _ assms(8)]) (use v assms(6) in simp_all)
  have f: "lp_this w = l" "conn_state_t.more w = conn_state_t.more ?v"
    using poll_frame_view [OF w(5)] assms(1,3) by (simp_all add: loops_ok_def)
  from in_loop_frame [OF assms(1-3), of "conn_functor ucall (threadId t) other (ConnDestroyed p)" w] w(1) f
  have "in_loop l (conn_functor ucall (threadId t) other (ConnDestroyed p)) s =
      Inr (s\<lparr>otherLoops := (otherLoops s)(l \<mapsto> conn_state_t.truncate w)\<rparr>)" by (simp add: conn_functor_def)
  moreover have "loop_inv (conn_state_t.truncate w)" "\<not> ep_registered (conn_channel k) (conn_state_t.truncate w)"
    "ep_free_fd (ch_fd d) (conn_state_t.truncate w)" using w(2-4) loop_inv_cong [of "conn_state_t.truncate w" w] by simp_all
  ultimately show thesis by (rule that)
qed

lemma listen_frame:
  assumes "poll_frame (net e (s\<lparr>ac_listening := True\<rparr>)) s'"
  shows "sv_loop s' = sv_loop s" "sv_pool s' = sv_pool s" "otherLoops s' = otherLoops s"
    "sv_connections s' = sv_connections s" "sv_nextConnId s' = sv_nextConnId s" "sv_name s' = sv_name s"
    "sv_started s' = sv_started s" "threadId s' = threadId s" "lp_this s' = lp_this s" "ac_callback s' = ac_callback s"
    "ac_listening s' = True"
  using assms by (cases s; cases s'; simp add: poll_frame_def net_def)+

text \<open>The loops of a pool that has just been started, in a server that serves nobody yet.\<close>

lemma server_ok_pool:
  assumes new: "\<And>i. lp_this (snd (newThreadLoop s i)) = fst (newThreadLoop s i)" "\<And>i. fst (newThreadLoop s i) \<noteq> lp_this s"
      "\<And>i. threadId (snd (newThreadLoop s i)) \<noteq> threadId s"
    and s': "threadId s' = threadId s" "lp_this s' = lp_this s" "otherLoops s' = map_of (map (newThreadLoop s) is)" "sv_connections s' = (\<lambda>_. None)"
      "sv_loop s' = lp_this s'" "pool_inv (sv_pool s')" "set (pool_loops (sv_pool s')) \<subseteq> fst ` newThreadLoop s ` set is"
  shows "server_ok s'"
proof -
  have m: "\<exists>i. t = snd (newThreadLoop s i) \<and> l = fst (newThreadLoop s i)" if "map_of (map (newThreadLoop s) is) l = Some t" for l t
    using map_of_SomeD [OF that] by (auto, metis fst_conv snd_conv)
  have "map_of (map (newThreadLoop s) is) (lp_this s) = None" using m [of "lp_this s"] new(2) by (metis option.exhaust)
  moreover have "lp_this t = l \<and> threadId t \<noteq> threadId s" if "map_of (map (newThreadLoop s) is) l = Some t" for l t
    using m [OF that] new(1,3) by auto
  moreover have "map_of (map (newThreadLoop s) is) l \<noteq> None" if "l \<in> set (pool_loops (sv_pool s'))" for l
    using that s'(7) by (auto simp: map_of_eq_None_iff)
  ultimately show ?thesis using s' by (auto simp: server_ok_def loops_ok_def)
qed

subsection \<open>Properties\<close>

text \<open>
  C5: However many sockets are accepted, no connection is lost: the \<open>i\<close>-th accepted socket becomes a
  connection of its own under a name that no other has, it belongs to the \<open>i\<close>-th loop of the round robin,
  every connection that was there stays, and every loop gets exactly the \<open>connectionEstablished\<close> of its
  connections, in order.
\<close>

theorem server_accepts:
  assumes "server_ok s" and "pool_loops (sv_pool s) \<noteq> []" and "sv_nextConnId s + length xs < 2 ^ 31"
    and "inj ptr" and "\<And>i. ptr i = fst (svNew s (svMade s + i))" and "\<And>n i. sv_connections s n \<noteq> Some (ptr i)"
  shows "\<exists>s'. foldR (\<lambda>(fd, peer). TcpServer_newConnection ucall (threadId s) fd peer) xs s = Inr s' \<and> server_ok s' \<and>
    (\<forall>i < length xs. \<exists>k. sv_connections s' (sv_name s @ ''#'' @ show_nat (sv_nextConnId s + i)) = Some (ptr i) \<and>
       conn_of (ptr i) s' = Some k \<and> conn_sockfd k = fst (xs ! i) \<and> peerAddr k = snd (xs ! i) \<and>
       conn_state k = kConnecting \<and> connLoop s' (ptr i) = pool_loop (sv_pool s) i) \<and>
    (\<forall>n p. sv_connections s n = Some p \<longrightarrow> sv_connections s' n = Some p \<and> conn_of p s' = conn_of p s \<and>
       connLoop s' p = connLoop s p) \<and>
    (\<forall>l. posted l s' = posted l s @
       map (\<lambda>i. ConnEstablished (ptr i)) (filter (\<lambda>i. pool_loop (sv_pool s) i = l) [0..<length xs]))"
  using all_accepted [OF assms] unfolding accepted_def .

text \<open>
  C26: A server made with \<open>n\<close> threads and started listens, with a running acceptor, an empty map and one loop
  per thread; the sockets it will accept go to these loops in turn.  Starting it again does nothing.
\<close>

theorem server_starts:
  assumes "loop_inv s" and "chans s q = None" and "0 \<le> fd" and "ep_free_fd fd s" and "otherLoops s = (\<lambda>_. None)"
    and "0 < n" and "\<And>i. lp_this (snd (newThreadLoop s i)) = fst (newThreadLoop s i)"
    and "\<And>i. fst (newThreadLoop s i) \<noteq> lp_this s" and "\<And>i. threadId (snd (newThreadLoop s i)) \<noteq> threadId s"
  shows "\<exists>s1. bindR (TcpServer_setThreadNum n (TcpServer_new fd q addr name s)) (TcpServer_start (threadId s)) = Inr s1 \<and>
    server_ok s1 \<and> ac_armed s1 \<and> sv_connections s1 = (\<lambda>_. None) \<and> sv_nextConnId s1 = 1 \<and> sv_name s1 = name \<and>
    ac_callback s1 = Some serverNewConnection \<and>
    (\<forall>i. pool_loop (sv_pool s1) i = fst (newThreadLoop s (i mod nat n))) \<and>
    TcpServer_start tid s1 = Inr s1"
proof -
  let ?pl = "\<lparr>baseLoop = lp_this s, pool_started = True, numThreads = n, pool_next = 0,
      pool_loops = map (\<lambda>i. fst (newThreadLoop s i)) [0..<nat n]\<rparr>"
  let ?m = "map_of (map (newThreadLoop s) [0..<nat n])"
  let ?s0 = "s\<lparr>sv_loop := lp_this s, sv_name := name, sv_pool := ?pl, sv_started := True,
      sv_nextConnId := 1, sv_connections := (\<lambda>_. None), sv_connectionCallback := Some DefaultConnection,
      sv_messageCallback := Some DefaultMessage, sv_writeCompleteCallback := None, otherLoops := ?m\<rparr>"
  let ?a = "(Acceptor_new fd q (svGarbage s) addr ?s0)\<lparr>ac_callback := Some serverNewConnection\<rparr>"
  note acc = Acceptor_new_def Socket_bindAddress_def sockets_bindOrDie_def Socket_setReuseAddr_def
  have "loop_inv ?s0" "ep_free_fd fd ?s0" "chans ?s0 q = None" using assms(1,2,4) loop_inv_cong [of ?s0 s] by simp_all
  from Acceptor_new_ready [OF this(1,3) assms(3) this(2), of "svGarbage s" addr]
  have a: "ac_ready ?a" "\<not> ac_listening ?a" by simp_all
  have fld: "threadId ?a = threadId s" "lp_this ?a = lp_this s" "sv_loop ?a = lp_this s" "sv_pool ?a = ?pl"
      "otherLoops ?a = ?m" "sv_connections ?a = (\<lambda>_. None)" "sv_nextConnId ?a = 1" "sv_name ?a = name"
      "ac_callback ?a = Some serverNewConnection" "sv_started ?a"
    by (simp_all add: acc put_chan_def net_def Let_def)
  obtain s1 where s1: "Acceptor_listen ?a = Inr s1" "ac_armed s1"
      "poll_frame (net (NetListen (ac_fd ?a)) (?a\<lparr>ac_listening := True\<rparr>)) s1"
    by (rule Acceptor_listen_ok [OF a(1)])
  have fr: "threadId s1 = threadId s" "lp_this s1 = lp_this s" "sv_loop s1 = lp_this s" "sv_pool s1 = ?pl"
      "otherLoops s1 = ?m" "sv_connections s1 = (\<lambda>_. None)" "sv_nextConnId s1 = 1" "sv_name s1 = name"
      "ac_callback s1 = Some serverNewConnection" "sv_started s1" "ac_listening s1"
    by (simp_all only: listen_frame [OF s1(3)] fld)
  have set0: "TcpServer_setThreadNum n (TcpServer_new fd q addr name s) =
      Inr ((Acceptor_new fd q (svGarbage s) addr
        (?s0\<lparr>sv_pool := ?pl\<lparr>pool_started := False, pool_loops := []\<rparr>, sv_started := False, otherLoops := \<lambda>_. None\<rparr>))
        \<lparr>ac_callback := Some serverNewConnection\<rparr>)" (is "_ = Inr ?t")
    using assms(5,6)
    by (cases s) (simp add: TcpServer_setThreadNum_def TcpServer_new_def ac_setNewConnectionCallback_def Pool_setThreadNum_def
        Pool_new_def acc put_chan_def net_def Let_def)
  have "start_threads (?t\<lparr>sv_started := True\<rparr>) = Inr ?a"
    by (simp add: start_threads_def Pool_start_def acc put_chan_def net_def Let_def comp_def)
  moreover have "\<not> sv_started ?t" by (simp add: acc put_chan_def net_def Let_def)
  ultimately have "TcpServer_start (threadId s) ?t = Inr s1"
    using a(2) fld(1) s1(1) by (simp add: TcpServer_start_def runInLoop_def isInLoopThread_def)
  with set0 have run: "bindR (TcpServer_setThreadNum n (TcpServer_new fd q addr name s)) (TcpServer_start (threadId s)) = Inr s1"
    by simp
  have "server_ok s1"
    by (rule server_ok_pool [OF assms(7-9) fr(1,2,5,6)]) (use fr(2-4) assms(6) in \<open>auto simp: pool_inv_def\<close>)
  moreover have "pool_loop (sv_pool s1) i = fst (newThreadLoop s (i mod nat n))" for i
    using assms(6) by (simp add: fr(4) pool_loop_def)
  moreover have "TcpServer_start tid s1 = Inr s1" using fr(10,11) by (simp add: TcpServer_start_def)
  ultimately show ?thesis using run s1(2) fr by blast
qed

text \<open>
  C8: A connection of a pool loop that is closed is given up by the server exactly once, across the two
  threads, whatever its connection callback does to its own loop, provided that this succeeds, leaves the connection and its
  channel as they are and does not touch the server or another loop.  The loop thread closes the connection, runs the callback,
  and then only posts \<open>removeConnectionInLoop\<close> to the server's loop and
  wakes it, so the server's map is untouched until then; the server's loop erases the name and posts
  \<open>connectionDestroyed\<close> back, behind what the callback has queued, waking the loop; that loop then takes the channel out of its poller and
  the descriptor is free.  A second removal fails the assertion.
\<close>

theorem server_close_across_loops:
  assumes "server_ok s" and "connLoop s p = l" and "l \<noteq> lp_this s" and "otherLoops s l = Some t"
    and "conn_inv p k c t" and "conn_state k = kConnected \<or> conn_state k = kDisconnecting"
    and "callback_lets_close keeps_server (server_ucall (threadId t) user) p (k\<lparr>conn_state := kDisconnected\<rparr>)"
    and "conn_closeCallback k = Some ServerRemoveConnection" and "sv_connections s (conn_name k) = Some p"
  shows "\<exists>u v s1 s2 s3 t2 t3. in_loop l (handleClose (server_ucall (threadId t) user) p) s = Inr s1 \<and>
      conns u p = Some (k\<lparr>conn_state := kDisconnected\<rparr>) \<and> lp_this u = l \<and>
      pendingFunctors u = pendingFunctors t \<and> wakeupLog u = wakeupLog t \<and>
      call_cb (server_ucall (threadId t) user) (connectionCallback k) p 0 u = Inr v \<and>
      sv_connections s1 = sv_connections s \<and> pendingFunctors s1 = pendingFunctors s @ [RemoveConnectionInLoop p] \<and>
      wakeupLog s1 = wakeupLog s @ [WakeWrite] \<and>
    server_functor (threadId s) other (RemoveConnectionInLoop p) s1 = Inr s2 \<and>
      sv_connections s2 = (sv_connections s)(conn_name k := None) \<and> otherLoops s2 l = Some t2 \<and>
      pendingFunctors t2 = pendingFunctors v @ [ConnDestroyed p] \<and> wakeupLog t2 = wakeupLog v @ [WakeWrite] \<and>
      TcpServer_removeConnectionInLoop (threadId s) p s2 = Inl (AssertFailed ''n == 1'') \<and>
    in_loop l (conn_functor ucall (threadId t) other (ConnDestroyed p)) s2 = Inr s3 \<and>
      otherLoops s3 l = Some t3 \<and> loop_inv t3 \<and> \<not> ep_registered (conn_channel k) t3 \<and> ep_free_fd (conn_sockfd k) t3"
proof -
  have s: "loops_ok s" "threadId t \<noteq> threadId s" using assms(1,4) by (auto simp: server_ok_def)
  obtain u v t1 d where u: "conns u p = Some (k\<lparr>conn_state := kDisconnected\<rparr>)" "lp_this u = l" "pendingFunctors u = pendingFunctors t"
    "wakeupLog u = wakeupLog t" "call_cb (server_ucall (threadId t) user) (connectionCallback k) p 0 u = Inr v"
    and t1: "in_loop l (handleClose (server_ucall (threadId t) user) p) s =
       Inr ((queueInLoop (threadId t) (RemoveConnectionInLoop p) s)\<lparr>otherLoops := (otherLoops s)(l \<mapsto> t1)\<rparr>)"
    (is "_ = Inr ?s1")
    "loop_inv t1" "conns t1 p = Some (k\<lparr>conn_state := kDisconnected\<rparr>)" "chans t1 (conn_channel k) = Some d"
    "ch_events d = 0" "ch_fd d = conn_sockfd k" "ep_registered (conn_channel k) t1"
    "pendingFunctors t1 = pendingFunctors v" "wakeupLog t1 = wakeupLog v" "threadId t1 = threadId t" "lp_this t1 = l"
    by (rule server_close_posts [OF assms(1-8)])
  have s1: "sv_connections ?s1 = sv_connections s" "pendingFunctors ?s1 = pendingFunctors s @ [RemoveConnectionInLoop p]"
    "wakeupLog ?s1 = wakeupLog s @ [WakeWrite]" "connLoop ?s1 = connLoop s" "lp_this ?s1 = lp_this s"
    using s(2) by (simp_all add: queueInLoop_def wakeup_def isInLoopThread_def Let_def)
  have l: "loops_ok ?s1" "l \<noteq> lp_this ?s1" "otherLoops ?s1 l = Some t1" "threadId t1 \<noteq> threadId s" "connLoop ?s1 p = l"
    "sv_connections ?s1 (conn_name (k\<lparr>conn_state := kDisconnected\<rparr>)) = Some p"
    using s assms(2,3,9) s1 t1(10,11) by (auto simp: loops_ok_def)
  let ?t2 = "queueInLoop (threadId s) (ConnDestroyed p) t1"
  obtain s2 where s2: "server_functor (threadId s) other (RemoveConnectionInLoop p) ?s1 = Inr s2"
    "s2 = ?s1\<lparr>sv_connections := (sv_connections s)(conn_name k := None), otherLoops := (otherLoops ?s1)(l \<mapsto> ?t2)\<rparr>"
    "TcpServer_removeConnectionInLoop (threadId s) p s2 = Inl (AssertFailed ''n == 1'')" "loops_ok s2"
    by (rule server_forgets [OF l(1,5,2,3,4) t1(3) l(6), where other = other]) (simp add: s1(1))
  have t2: "pendingFunctors ?t2 = pendingFunctors v @ [ConnDestroyed p]" "wakeupLog ?t2 = wakeupLog v @ [WakeWrite]" "threadId ?t2 = threadId t"
    using s(2) t1(8-10) by (simp_all add: queueInLoop_def wakeup_def isInLoopThread_def Let_def)
  have e: "l \<noteq> lp_this s2" "otherLoops s2 l = Some ?t2" "sv_connections s2 = (sv_connections s)(conn_name k := None)"
    unfolding s2(2) using l(2) by simp_all
  have v: "loop_inv ?t2" "conns ?t2 p = Some (k\<lparr>conn_state := kDisconnected\<rparr>)" "chans ?t2 (conn_channel k) = Some d"
    "ep_registered (conn_channel k) ?t2"
    using t1(2-7) loop_inv_cong [of ?t2 t1] by simp_all
  obtain t3 where t3: "in_loop l (conn_functor ucall (threadId t) other (ConnDestroyed p)) s2 = Inr (s2\<lparr>otherLoops := (otherLoops s2)(l \<mapsto> t3)\<rparr>)"
    "loop_inv t3" "\<not> ep_registered (conn_channel k) t3" "ep_free_fd (ch_fd d) t3"
    by (rule server_destroys [OF s2(4) e(1,2) v(1,2), where d = d and ucall = ucall and other = other, unfolded t2(3)])
      (use v t1(5) in simp_all)
  show ?thesis
    by (rule exI [of _ u], rule exI [of _ v], rule exI [of _ ?s1], rule exI [of _ s2], rule exI [of _ "s2\<lparr>otherLoops := (otherLoops s2)(l \<mapsto> t3)\<rparr>"],
        rule exI [of _ ?t2], rule exI [of _ t3]) (use u t1(1,6) s1 s2(1,3) e t2 t3 in simp)
qed

subsection \<open>Witnesses\<close>

text \<open>A server in loop 0 (thread 1) with one pool loop, 1 (thread 2), that serves connection 1.\<close>

definition sv_demo_io :: conn_state_t where
  "sv_demo_io = (cn_demo kConnected)\<lparr>lp_this := 1, threadId := 2,
     chans := [1 \<mapsto> cn_demo_chan\<lparr>ch_loop := 1\<rparr>]\<rparr>"

definition sv_demo :: server_state where
  "sv_demo = acceptor_state.extend (ac_demo\<lparr>chans := (\<lambda>_. None), channelMap := (\<lambda>_. None), ctlLog := [],
       conns := (\<lambda>_. None), threadId := 1, pendingFunctors := [], wakeupLog := []\<rparr>)
     \<lparr>sv_loop = 0, sv_name = ''c'', sv_pool = \<lparr>baseLoop = 0, pool_started = True, numThreads = 1, pool_next = 0, pool_loops = [1]\<rparr>,
      sv_connectionCallback = Some DefaultConnection, sv_messageCallback = Some DefaultMessage,
      sv_writeCompleteCallback = None, sv_started = True, sv_nextConnId = 2,
      sv_connections = [''c#1'' \<mapsto> 1], connLoop = (\<lambda>_. 1),
      otherLoops = [1 \<mapsto> sv_demo_io\<lparr>conns := [1 \<mapsto> (cn_demo_conn kConnected Buffer_new)\<lparr>conn_name := ''c#1''\<rparr>]\<rparr>],
      newThreadLoop = (\<lambda>i. (1, sv_demo_io)), svNew = (\<lambda>i. (i + 10, i + 100)), svMade = 0, svLocal = (\<lambda>_. None),
      svGarbage = False\<rparr>"

lemmas sv_demo_defs = sv_demo_def sv_demo_io_def acceptor_state.defs ac_demo_defs

lemma sv_demo_with:
  assumes "conn_name k = ''c#1''"
  shows "server_ok (sv_demo\<lparr>otherLoops := [1 \<mapsto> sv_demo_io\<lparr>conns := [1 \<mapsto> k]\<rparr>]\<rparr>)"
proof -
  let ?s = "sv_demo\<lparr>otherLoops := [1 \<mapsto> sv_demo_io\<lparr>conns := [1 \<mapsto> k]\<rparr>]\<rparr>"
  have "show_nat 1 = ''1''" by code_simp
  then have "''c#1'' = sv_name ?s @ ''#'' @ show_nat 1" by (simp add: sv_demo_defs)
  moreover have "conn_of 1 ?s = Some k" "sv_connections ?s = [''c#1'' \<mapsto> 1]" "sv_nextConnId ?s = 2"
    by (simp_all add: conn_of_def loop_of_def sv_demo_defs)
  moreover have "loops_ok ?s" "sv_loop ?s = lp_this ?s" "pool_inv (sv_pool ?s)"
    "\<forall>l t. otherLoops ?s l = Some t \<longrightarrow> threadId t \<noteq> threadId ?s"
    "\<forall>l \<in> set (pool_loops (sv_pool ?s)). otherLoops ?s l \<noteq> None"
    by (auto simp: loops_ok_def pool_inv_def sv_demo_defs split: if_splits)
  ultimately show ?thesis using assms unfolding server_ok_def by (auto intro: exI [of _ 1] split: if_splits)
qed

lemma sv_demo_ok: "server_ok sv_demo"
proof -
  have "sv_demo = sv_demo\<lparr>otherLoops := [1 \<mapsto> sv_demo_io\<lparr>conns := [1 \<mapsto> (cn_demo_conn kConnected Buffer_new)\<lparr>conn_name := ''c#1''\<rparr>]\<rparr>]\<rparr>"
    by (simp add: sv_demo_defs)
  moreover have "server_ok \<dots>" by (rule sv_demo_with) simp
  ultimately show ?thesis by simp
qed

theorem server_starts_witness:
  "\<exists>s1. bindR (TcpServer_setThreadNum 1 (TcpServer_new 5 3 zero_addr ''c'' (sv_demo\<lparr>otherLoops := \<lambda>_. None\<rparr>)))
       (TcpServer_start 1) = Inr s1 \<and> server_ok s1 \<and> ac_armed s1 \<and> sv_nextConnId s1 = 1 \<and> pool_loop (sv_pool s1) 5 = 1"
proof -
  let ?s = "sv_demo\<lparr>otherLoops := \<lambda>_. None\<rparr>"
  have f: "chans ?s 3 = None" "(0::int) \<le> 5" "ep_free_fd 5 ?s" "otherLoops ?s = (\<lambda>_. None)" "(0::int) < 1"
    "lp_this (snd (newThreadLoop ?s i)) = fst (newThreadLoop ?s i)" "fst (newThreadLoop ?s i) \<noteq> lp_this ?s"
    "threadId (snd (newThreadLoop ?s i)) \<noteq> threadId ?s" "threadId ?s = 1" "fst (newThreadLoop ?s i) = 1" for i
    by (simp_all add: sv_demo_defs ep_free_fd_def)
  have "epoll_inv ?s" unfolding epoll_inv_def by (simp add: sv_demo_defs interest_def ctl_legal_def)
  then have "loop_inv ?s" by (simp add: loop_inv_def own_chans_def sv_demo_defs)
  from server_starts [OF this f(1-8), of zero_addr "''c''" 1] show ?thesis unfolding f(9,10) by blast
qed

theorem server_accepts_witness:
  "\<exists>s'. foldR (\<lambda>(fd, peer). TcpServer_newConnection (\<lambda>_ _ _. Inr) 1 fd peer) [(8, zero_addr), (9, zero_addr)] sv_demo = Inr s' \<and>
     server_ok s' \<and> posted 1 s' = [ConnEstablished 10, ConnEstablished 11]"
proof -
  have f: "pool_loops (sv_pool sv_demo) = [1]" "sv_nextConnId sv_demo = 2" "threadId sv_demo = 1" "posted 1 sv_demo = []"
    "pool_loop (sv_pool sv_demo) i = 1" "i + 10 = fst (svNew sv_demo (svMade sv_demo + i))"
    "sv_connections sv_demo n \<noteq> Some (i + 10)" for i n
    by (auto simp: sv_demo_defs pool_loop_def posted_def loop_of_def)
  have g: "pool_loops (sv_pool sv_demo) \<noteq> []" "sv_nextConnId sv_demo + length [(8, zero_addr), (9, zero_addr)] < 2 ^ 31"
    by (simp_all add: f)
  have "inj (\<lambda>i. i + 10 :: nat)" by (simp add: inj_def)
  from server_accepts [OF sv_demo_ok g this f(6,7), of "\<lambda>_ _ _. Inr"]
  show ?thesis unfolding f(3,5) f(6) [symmetric] by (auto simp: f(4) [unfolded One_nat_def])
qed

text \<open>A callback that queues a functor of its own in the loop of the connection.\<close>

definition sv_demo_user :: "conn_cb \<Rightarrow> nat \<Rightarrow> int \<Rightarrow> server_state \<Rightarrow> server_state res" where
  "sv_demo_user cb p arg s = Inr (queueInLoop 2 (UserFn 5) s)"

theorem server_close_across_loops_witness:
  "\<exists>s1 s2 s3 t2 t3. in_loop 1 (handleClose (server_ucall 2 sv_demo_user) 1)
       (sv_demo\<lparr>otherLoops := [1 \<mapsto> sv_demo_io\<lparr>conns := [1 \<mapsto> (cn_demo_conn kConnected Buffer_new)\<lparr>conn_name := ''c#1'', connectionCallback := Some (UserCb 3)\<rparr>]\<rparr>]\<rparr>) = Inr s1 \<and>
     pendingFunctors s1 = [RemoveConnectionInLoop 1] \<and>
     server_functor 1 (\<lambda>_. Inr) (RemoveConnectionInLoop 1) s1 = Inr s2 \<and> sv_connections s2 ''c#1'' = None \<and>
     otherLoops s2 1 = Some t2 \<and> pendingFunctors t2 = [UserFn 5, ConnDestroyed 1] \<and>
     in_loop 1 (conn_functor (\<lambda>_ _ _. Inr) 2 (\<lambda>_. Inr) (ConnDestroyed 1)) s2 = Inr s3 \<and>
     otherLoops s3 1 = Some t3 \<and> ep_free_fd 7 t3"
proof -
  let ?k = "(cn_demo_conn kConnected Buffer_new)\<lparr>conn_name := ''c#1'', connectionCallback := Some (UserCb 3)\<rparr>" let ?c = "cn_demo_chan\<lparr>ch_loop := 1\<rparr>"
  let ?t = "sv_demo_io\<lparr>conns := [1 \<mapsto> ?k]\<rparr>" let ?s = "sv_demo\<lparr>otherLoops := [1 \<mapsto> ?t]\<rparr>"
  have f: "connLoop ?s 1 = 1" "1 \<noteq> lp_this ?s" "otherLoops ?s 1 = Some ?t" "conn_state ?k = kConnected"
    "conn_closeCallback ?k = Some ServerRemoveConnection"
    "sv_connections ?s (conn_name ?k) = Some 1" "conn_sockfd ?k = 7" "conn_name ?k = ''c#1''" "threadId ?t = 2"
    "threadId ?s = 1" "pendingFunctors ?s = []" "pendingFunctors ?t = []"
    by (simp_all add: sv_demo_defs)
  have "epoll_inv ?t"
    unfolding epoll_inv_def
    by (auto simp: sv_demo_defs epoll_chan_ok_def interest_def ctl_legal_def index_consts split: if_splits)
  then have "loop_inv ?t" by (auto simp: loop_inv_def own_chans_def sv_demo_defs split: if_splits)
  moreover have "ep_registered 1 ?t" "\<not> isWriting ?c"
    by (auto simp: ep_registered_def sv_demo_defs isWriting_def masks_disjoint)
  ultimately have inv: "conn_inv 1 ?k ?c ?t" by (simp add: conn_inv_def sv_demo_defs buffer_inv_new)
  have cbk: "call_cb (server_ucall i sv_demo_user) (Some (UserCb 3)) p 0 u = Inr (queueInLoop 2 (UserFn 5) u)" for i p u
    by (simp add: call_cb_def server_ucall_def sv_demo_user_def)
  have cb: "callback_lets_close keeps_server (server_ucall (threadId ?t) sv_demo_user) 1 (?k\<lparr>conn_state := kDisconnected\<rparr>)"
    unfolding callback_lets_close_def
    by (auto simp: cbk keeps_server_def queueInLoop_lets_close)
  have ok: "server_ok ?s" by (rule sv_demo_with) simp
  obtain u v s1 s2 s3 t2 t3 where r: "in_loop 1 (handleClose (server_ucall (threadId ?t) sv_demo_user) 1) ?s = Inr s1"
    "pendingFunctors u = pendingFunctors ?t" "call_cb (server_ucall (threadId ?t) sv_demo_user) (connectionCallback ?k) 1 0 u = Inr v"
    "pendingFunctors s1 = pendingFunctors ?s @ [RemoveConnectionInLoop 1]"
    "server_functor (threadId ?s) (\<lambda>_. Inr) (RemoveConnectionInLoop 1) s1 = Inr s2"
    "sv_connections s2 = (sv_connections ?s)(conn_name ?k := None)" "otherLoops s2 1 = Some t2"
    "pendingFunctors t2 = pendingFunctors v @ [ConnDestroyed 1]"
    "in_loop 1 (conn_functor (\<lambda>_ _ _. Inr) (threadId ?t) (\<lambda>_. Inr) (ConnDestroyed 1)) s2 = Inr s3"
    "otherLoops s3 1 = Some t3" "ep_free_fd (conn_sockfd ?k) t3"
    using server_close_across_loops [OF ok f(1-3) inv disjI1 [OF f(4)] cb f(5,6), of "\<lambda>_. Inr" "\<lambda>_ _ _. Inr"] by blast
  have "pendingFunctors v = [UserFn 5]" using r(2,3) f(12) by (auto simp: cbk queueInLoop_def wakeup_def Let_def)
  with r f(7-11) show ?thesis unfolding f(7-11) by auto
qed

end
