(* ===== verification/HttpServer.thy ===== *)
theory HttpServer
  imports Http TcpServer Streams
begin

section \<open>HttpServer\<close>

text \<open>
  \<open>examples/http/HttpServer.h\<close> and \<open>HttpServer.cpp\<close> on top of the connection's and the server's
  definitions.  The \<open>std::any\<close> context of connection \<open>p\<close> is \<open>http_contexts p\<close>; the files that \<open>fopen\<close> finds are
  \<open>http_files\<close>, and \<open>fread\<close> returns what is left of the file, at most the size asked for.  The HTTP
  callback is the argument \<open>hcall\<close>.
\<close>

record http_state = server_state +
  http_contexts :: "nat \<Rightarrow> http_context option"
  pageRoot :: string
  http_files :: "string \<Rightarrow> string option"

definition kBufSize :: nat where
  "kBufSize = 64 * 1024"

definition defaultHttpCallback :: "http_request \<Rightarrow> http_response \<Rightarrow> http_response" where
  "defaultHttpCallback req resp =
     setCloseConnection True (setStatusMessage ''Not Found'' (setStatusCode k404NotFound resp))"

definition httpConnection :: conn_cb where
  "httpConnection = UserCb 0"

definition httpMessage :: conn_cb where
  "httpMessage = UserCb 1"

definition HttpServer_new :: "int \<Rightarrow> nat \<Rightarrow> sockaddr_in \<Rightarrow> string \<Rightarrow> ('m) http_state_scheme \<Rightarrow> 'm http_state_scheme" where
  "HttpServer_new fd q listenAddr dir s =
     sv_setMessageCallback (Some httpMessage) (sv_setConnectionCallback (Some httpConnection)
       ((TcpServer_new fd q listenAddr [] s)\<lparr>pageRoot := dir\<rparr>))"

definition HttpServer_start :: "int \<Rightarrow> ('m) http_state_scheme \<Rightarrow> 'm http_state_scheme res" where
  "HttpServer_start tid s = TcpServer_start tid s"

definition HttpServer_setThreadNum :: "int \<Rightarrow> ('m) http_state_scheme \<Rightarrow> 'm http_state_scheme res" where
  "HttpServer_setThreadNum n s = TcpServer_setThreadNum n s"

definition onConnection :: "nat \<Rightarrow> ('m) http_state_scheme \<Rightarrow> 'm http_state_scheme res" where
  "onConnection p s =
     with_conn p s (\<lambda>k.
       Inr (if connected k then s\<lparr>http_contexts := (http_contexts s)(p \<mapsto> HttpContext_new)\<rparr> else s))"

text \<open>\<open>std::hex\<close>\<close>

definition hex_char :: "nat \<Rightarrow> char" where
  "hex_char d = (if d < 10 then char_of (48 + d) else char_of (87 + d))"

fun show_hex :: "nat \<Rightarrow> string" where
  "show_hex n = (if n < 16 then [hex_char n] else show_hex (n div 16) @ [hex_char (n mod 16)])"

declare show_hex.simps [simp del]

fun sendChunks :: "int \<Rightarrow> nat \<Rightarrow> string \<Rightarrow> ('m) conn_state_t_scheme \<Rightarrow> 'm conn_state_t_scheme res" where
  "sendChunks tid p fp s =
     (let chunk = take kBufSize fp; nread = length chunk in
      bindR (TcpConnection_send tid p (show_hex nread @ kCRLF) s) (\<lambda>s1.
      bindR (TcpConnection_send tid p (chunk @ kCRLF) s1) (\<lambda>s2.
        if 0 < nread then sendChunks tid p (drop kBufSize fp) s2 else Inr s2)))"

declare sendChunks.simps [simp del]

definition sendPageFile :: "int \<Rightarrow> nat \<Rightarrow> string \<Rightarrow> ('m) conn_state_t_scheme \<Rightarrow> 'm conn_state_t_scheme res" where
  "sendPageFile tid p fp s =
     bindR (sendChunks tid p fp s) (\<lambda>s1.
     bindR (TcpConnection_send tid p (''0'' @ kCRLF) s1) (\<lambda>s2. TcpConnection_send tid p kCRLF s2))"

definition onRequest where
  "onRequest hcall tid p req s =
     (let connection = getHeader ''Connection'' req;
          close = (connection = ''close'' \<or> req_version req = kHttp10 \<and> connection \<noteq> ''Keep-Alive'');
          response = HttpResponse_new close;
          fileName = pageRoot s @ (if req_path req = ''/'' then ''/index.html'' else req_path req) in
      bindR
        (case http_files s fileName of
           Some fp \<Rightarrow>
             let response = setStatusMessage ''OK'' (setStatusCode k200k response);
                 response = setContentType (getFileType req) response;
                 response = resp_addHeader ''Server'' ''Chaonet''
                              (resp_addHeader ''Transfer-Encoding'' ''chunked'' response) in
             bindR (appendToBuffer response Buffer_new) (\<lambda>bufToSend.
             bindR (TcpConnection_sendBuffer tid p bufToSend s) (\<lambda>(_, s1).
             bindR (sendPageFile tid p fp s1) (\<lambda>s2. Inr (response, s2))))
         | None \<Rightarrow>
             let response = hcall req response in
             bindR (appendToBuffer response Buffer_new) (\<lambda>bufToSend.
             bindR (TcpConnection_sendBuffer tid p bufToSend s) (\<lambda>(_, s1). Inr (response, s1))))
        (\<lambda>(response, s3). if closeConnection response then TcpConnection_shutdown tid p s3 else Inr s3))"

text \<open>\<open>onMessage\<close> does not return when \<open>parseRequest\<close> does not.\<close>

definition badRequest :: string where
  "badRequest = ''HTTP/1.1 400 Bad Request'' @ kCRLF @ kCRLF"

definition onMessage where
  "onMessage hcall tid p receiveTime s =
     (case (http_contexts s p, conns s p) of
        (Some c, Some k) \<Rightarrow>
          (case parseRequest receiveTime c (inputBuffer k) of
             None \<Rightarrow> None
           | Some (Inl e) \<Rightarrow> Some (Inl e)
           | Some (Inr (ok, c1, buf)) \<Rightarrow>
               let s1 = put_conn p (k\<lparr>inputBuffer := buf\<rparr>) (s\<lparr>http_contexts := (http_contexts s)(p \<mapsto> c1)\<rparr>) in
               Some (bindR
                 (if \<not> ok then bindR (TcpConnection_send tid p badRequest s1) (TcpConnection_shutdown tid p)
                  else Inr s1) (\<lambda>s2.
                 if gotAll c1 then
                   bindR (onRequest hcall tid p (ctx_request c1) s2) (\<lambda>s3.
                     Inr (s3\<lparr>http_contexts := (http_contexts s3)(p \<mapsto> ctx_reset c1)\<rparr>))
                 else Inr s2)))
      | _ \<Rightarrow> Some (Inl DanglingPointer))"

subsection \<open>Serving a file\<close>

text \<open>The chunked encoding of a file, as \<open>sendPageFile\<close> writes it: the last chunk, empty, is sent twice.\<close>

fun chunks :: "string \<Rightarrow> string" where
  "chunks fp =
     (let chunk = take kBufSize fp in
      show_hex (length chunk) @ kCRLF @ chunk @ kCRLF @ (if chunk = [] then [] else chunks (drop kBufSize fp)))"

declare chunks.simps [simp del]

lemma sends_chunks: "sends tid p (sendChunks tid p fp :: 'm conn_state_t_scheme \<Rightarrow> _) (chunks fp)"
proof (induction fp rule: chunks.induct)
  case (1 fp)
  let ?chunk = "take kBufSize fp"
  have "sends tid p (\<lambda>s :: 'm conn_state_t_scheme. if 0 < length ?chunk then sendChunks tid p (drop kBufSize fp) s else Inr s)
      (if ?chunk = [] then [] else chunks (drop kBufSize fp))"
  proof (cases "?chunk = []")
    case True
    then have "fp = []" by (simp add: kBufSize_def)
    then show ?thesis by (simp add: sends_Inr)
  next
    case False
    with 1 show ?thesis by simp
  qed
  from sends_bind [OF sends_send [of _ _ "show_hex (length ?chunk) @ kCRLF"] sends_bind [OF sends_send [of _ _ "?chunk @ kCRLF"] this]]
  have "sends tid p (\<lambda>s :: 'm conn_state_t_scheme. sendChunks tid p fp s) (chunks fp)"
    unfolding sendChunks.simps [of tid p fp] chunks.simps [of fp] Let_def by simp
  then show ?case by simp
qed

lemma sends_page: "sends tid p (sendPageFile tid p fp) (chunks fp @ ''0'' @ kCRLF @ kCRLF)"
proof -
  have "sends tid p (\<lambda>s. sendPageFile tid p fp s) (chunks fp @ (''0'' @ kCRLF) @ kCRLF)"
    unfolding sendPageFile_def by (intro sends_bind sends_chunks sends_send)
  then show ?thesis by simp
qed

text \<open>The head of the response that carries a file.\<close>

definition page_response :: "http_request \<Rightarrow> bool \<Rightarrow> http_response" where
  "page_response req close =
     resp_addHeader ''Server'' ''Chaonet'' (resp_addHeader ''Transfer-Encoding'' ''chunked''
       (setContentType (getFileType req) (setStatusMessage ''OK'' (setStatusCode k200k (HttpResponse_new close)))))"

definition page_head :: "bool \<Rightarrow> string \<Rightarrow> string" where
  "page_head close ty = ''HTTP/1.1 200 OK'' @ kCRLF @
     (if close then ''Connection: close'' @ kCRLF
      else ''Content-Length: 0'' @ kCRLF @ ''Connection: Keep-Alive'' @ kCRLF) @
     ''Content-Type: '' @ ty @ kCRLF @ ''Server: Chaonet'' @ kCRLF @ ''Transfer-Encoding: chunked'' @ kCRLF @ kCRLF"

lemma show_status [simp]: "show_int 200 = ''200''" "show_nat 0 = ''0''"
  by code_simp+

lemma header_order [simp]:
  "(''Transfer-Encoding'' :: string) < ''Content-Type'' = False" "(''Server'' :: string) < ''Content-Type'' = False"
  "(''Server'' :: string) < ''Transfer-Encoding'' = True"
  by code_simp+

lemma page_response_text: "response_text (page_response req close) = page_head close (getFileType req)"
  by (simp add: response_text_def page_response_def page_head_def resp_addHeader_def setContentType_def
      setStatusMessage_def setStatusCode_def HttpResponse_new_def print_headers_def header_line_def kCRLF_def)

lemma onRequest_page:
  assumes up: "up tid p k c s" and page: "http_files s (pageRoot s @ (if req_path req = ''/'' then ''/index.html'' else req_path req)) = Some fp"
    and close: "close = (getHeader ''Connection'' req = ''close'' \<or> req_version req = kHttp10 \<and> getHeader ''Connection'' req \<noteq> ''Keep-Alive'')"
    and room: "writerIndex (outputBuffer k) + length (page_head close (getFileType req) @ chunks fp @ ''0'' @ kCRLF @ kCRLF) + 8 \<le> VEC_MAX"
  shows "\<exists>s' k' c'. onRequest hcall tid p req s = Inr s' \<and> conn_inv p k' c' s' \<and>
    stream k' s' = stream k s @ page_head close (getFileType req) @ chunks fp @ ''0'' @ kCRLF @ kCRLF \<and>
    conn_state k' = (if close then kDisconnecting else kConnected) \<and> inputBuffer k' = inputBuffer k"
proof -
  let ?resp = "page_response req close" let ?head = "page_head close (getFileType req)"
  obtain buf where buf: "appendToBuffer ?resp Buffer_new = Inr buf" "buffer_inv buf" "content buf = ?head"
    using appendToBuffer_ok [of ?resp] buffer_inv_new room
    by (auto simp: appends_def page_response_text)
  let ?f = "\<lambda>s. bindR (bindR (TcpConnection_sendBuffer tid p buf s) (\<lambda>(_, s1). Inr s1)) (sendPageFile tid p fp)"
  have "sends tid p ?f (content buf @ chunks fp @ ''0'' @ kCRLF @ kCRLF)"
    by (rule sends_bind [OF sends_buffer [OF buf(2)] sends_page])
  with up room obtain k1 c1 s1 where 1: "?f s = Inr s1" "up tid p k1 c1 s1" "conn_same k k1"
      "stream k1 s1 = stream k s @ ?head @ chunks fp @ ''0'' @ kCRLF @ kCRLF"
    unfolding sends_def buf(3) by (metis add_leE)
  have "onRequest hcall tid p req s = (if closeConnection ?resp then TcpConnection_shutdown tid p s1 else Inr s1)"
    using 1(1) buf(1) unfolding onRequest_def
    by (auto simp: Let_def page close [symmetric] page_response_def res_simps)
  moreover have "closeConnection ?resp = close"
    by (simp add: page_response_def resp_addHeader_def setContentType_def setStatusMessage_def setStatusCode_def HttpResponse_new_def)
  moreover have "inputBuffer k1 = inputBuffer k" using 1(3) by (cases k; cases k1; simp add: conn_same_def)
  ultimately have run: "onRequest hcall tid p req s = (if close then TcpConnection_shutdown tid p s1 else Inr s1)"
    and inb: "inputBuffer k1 = inputBuffer k" by simp_all
  show ?thesis
  proof (cases close)
    case True
    obtain k' s' where 2: "TcpConnection_shutdown tid p s1 = Inr s'" "conn_inv p k' c1 s'" "conn_state k' = kDisconnecting"
        "k'\<lparr>conn_state := kConnected\<rparr> = k1" "stream k' s' = stream k1 s1"
      using shutdown_up [OF 1(2)] by blast
    from 2(4) have "inputBuffer k' = inputBuffer k1" by (cases k'; cases k1; simp)
    with True run 1 2 inb show ?thesis by (intro exI [of _ s'] exI [of _ k'] exI [of _ c1]) simp
  next
    case False
    with run 1 inb show ?thesis by (intro exI [of _ s1] exI [of _ k1] exI [of _ c1]) (simp add: up_def)
  qed
qed

subsection \<open>Properties\<close>

lemma ctx_reset_all: "ctx_reset c = HttpContext_new"
  by (cases c) (simp add: ctx_reset_def HttpContext_new_def swap_request_def HttpRequest_new_def)

lemma http_contexts_frame [simp]:
  "conn_inv p k c (s\<lparr>http_contexts := m\<rparr>) = conn_inv p k c s" "stream k (s\<lparr>http_contexts := m\<rparr>) = stream k s"
  using loop_inv_cong [of "s\<lparr>http_contexts := m\<rparr>" s] by (simp_all add: conn_inv_def stream_def)

text \<open>
  C10: A complete request for a file is answered with the file: the parser consumes exactly the request, the
  response head and the file in chunks join the bytes of the connection, the context is ready for the next
  request, and the connection is shut down exactly when the request asks for it.  The response breaks the
  protocol in two places: the last chunk comes twice, the second time after the end of the body, and
  without \<open>close\<close> the head gives both a length of zero and the chunked encoding.
\<close>

theorem serves_file:
  assumes "conn_inv p k c s" and "os_write_ok s" and "conn_state k = kConnected" and "threadId s = tid"
    and "http_contexts s p = Some HttpContext_new" and "buffer_inv (inputBuffer k)"
    and "request_line_ok r" and "list_all header_ok hs"
    and "content (inputBuffer k) = request_line r @ kCRLF @ print_headers hs @ kCRLF @ rest"
    and "req = with_headers hs (r\<lparr>req_receiveTime := t, req_headers := []\<rparr>)"
    and "http_files s (pageRoot s @ (if req_path req = ''/'' then ''/index.html'' else req_path req)) = Some fp"
    and "close = (getHeader ''Connection'' req = ''close'' \<or>
           req_version req = kHttp10 \<and> getHeader ''Connection'' req \<noteq> ''Keep-Alive'')"
    and "writerIndex (outputBuffer k) + length (page_head close (getFileType req) @ chunks fp @ ''0'' @ kCRLF @ kCRLF) + 8 \<le> VEC_MAX"
  shows "\<exists>s' k' c'. onMessage hcall tid p t s = Some (Inr s') \<and> conn_inv p k' c' s' \<and>
    stream k' s' = stream k s @ page_head close (getFileType req) @ chunks fp @ ''0'' @ kCRLF @ kCRLF \<and>
    buffer_inv (inputBuffer k') \<and> content (inputBuffer k') = rest \<and> http_contexts s' p = Some HttpContext_new \<and>
    conn_state k' = (if close then kDisconnecting else kConnected)"
proof -
  obtain b where b: "parseRequest t HttpContext_new (inputBuffer k) =
      Some (Inr (True, \<lparr>parse_state = kGotAll, ctx_request = req\<rparr>, b))" "buffer_inv b" "content b = rest"
    by (rule parse_complete [OF assms(6-9), of t]) (simp add: assms(10))
  let ?c1 = "\<lparr>parse_state = kGotAll, ctx_request = req\<rparr>" let ?k = "k\<lparr>inputBuffer := b\<rparr>"
  let ?s = "put_conn p ?k (s\<lparr>http_contexts := (http_contexts s)(p \<mapsto> ?c1)\<rparr>)"
  have "conn_inv p ?k c ?s" "stream ?k ?s = stream k s"
    using assms(1) loop_inv_cong [of "s\<lparr>http_contexts := (http_contexts s)(p \<mapsto> ?c1)\<rparr>" s]
    by (simp_all add: conn_inv_def stream_def)
  moreover from this(1) have "up tid p ?k c ?s" using assms(2-4) by (simp add: up_def os_write_ok_def)
  moreover have "http_files ?s = http_files s" "pageRoot ?s = pageRoot s" by (simp_all add: put_conn_def)
  ultimately obtain s' k' c' where s': "onRequest hcall tid p req ?s = Inr s'" "conn_inv p k' c' s'"
    "stream k' s' = stream k s @ page_head close (getFileType req) @ chunks fp @ ''0'' @ kCRLF @ kCRLF"
    "conn_state k' = (if close then kDisconnecting else kConnected)" "inputBuffer k' = b"
    using onRequest_page [of tid p ?k c ?s req fp close hcall] assms(11-13) by auto
  have "onMessage hcall tid p t s = Some (Inr (s'\<lparr>http_contexts := (http_contexts s')(p \<mapsto> HttpContext_new)\<rparr>))"
    using assms(1,5) b(1) s'(1) by (simp add: onMessage_def conn_inv_def gotAll_def ctx_reset_all)
  with s' b show ?thesis
    by (intro exI [of _ "s'\<lparr>http_contexts := (http_contexts s')(p \<mapsto> HttpContext_new)\<rparr>"] exI [of _ k'] exI [of _ c']) simp
qed

subsection \<open>Witness\<close>

lemma show_hex_small: "show_hex 0 = ''0''" "show_hex 2 = ''2''"
  by code_simp+

definition hs_demo :: http_state where
  "hs_demo = server_state.extend (conn_state_t.extend (cn_demo kConnected) (conn_state_t.more sv_demo))
     \<lparr>http_contexts = [1 \<mapsto> HttpContext_new], pageRoot = ''.'', http_files = [''./a.html'' \<mapsto> ''hi'']\<rparr>"

lemmas hs_demo_defs = hs_demo_def server_state.defs sv_demo_defs

theorem serves_file_witness:
  "\<exists>b s' k' c'. content b = ''GET /a.html?x HTTP/1.1'' @ kCRLF @ ''Host: h'' @ kCRLF @ kCRLF \<and>
     onMessage defaultHttpCallback 1 1 7 (put_conn 1 ((cn_demo_conn kConnected Buffer_new)\<lparr>inputBuffer := b\<rparr>) hs_demo) = Some (Inr s') \<and>
     conn_inv 1 k' c' s' \<and> conn_state k' = kConnected \<and>
     stream k' s' = page_head False ''text/html'' @ ''2'' @ kCRLF @ ''hi'' @ kCRLF @ ''0'' @ kCRLF @ kCRLF @ ''0'' @ kCRLF @ kCRLF"
proof -
  let ?t = "request_line http_demo @ kCRLF @ print_headers [(''Host'', ''h'')] @ kCRLF @ []"
  have t: "?t = ''GET /a.html?x HTTP/1.1'' @ kCRLF @ ''Host: h'' @ kCRLF @ kCRLF"
    by (simp add: request_line_def http_demo_def version_name_def print_headers_def header_line_def)
  have "length ?t \<le> 1000" unfolding t by (simp add: kCRLF_def)
  then obtain b where b: "buffer_inv b" "content b = ?t" by (rule buffer_with)
  let ?k = "(cn_demo_conn kConnected Buffer_new)\<lparr>inputBuffer := b\<rparr>" let ?s = "put_conn 1 ?k hs_demo"
  let ?req = "with_headers [(''Host'', ''h'')] (http_demo\<lparr>req_receiveTime := 7, req_headers := []\<rparr>)"
  have "loop_inv hs_demo" "ep_registered 1 hs_demo"
    using cn_demo_loop [of kConnected] loop_inv_cong [of hs_demo "cn_demo kConnected"] cn_demo_inv [of kConnected]
    by (simp_all add: hs_demo_defs conn_inv_def)
  moreover have "\<not> isWriting cn_demo_chan" "chans hs_demo 1 = Some cn_demo_chan" "ch_fd cn_demo_chan = 7"
    by (simp_all add: isWriting_def hs_demo_defs masks_disjoint)
  ultimately have inv: "conn_inv 1 ?k cn_demo_chan ?s"
    by (simp add: conn_inv_def cn_demo_conn_def buffer_inv_new)
  have f: "os_write_ok ?s" "conn_state ?k = kConnected" "threadId ?s = 1" "http_contexts ?s 1 = Some HttpContext_new"
    by (simp_all add: os_write_ok_def put_conn_def hs_demo_defs)
  have ib: "buffer_inv (inputBuffer ?k)" "content (inputBuffer ?k) = ?t" using b by simp_all
  have ty: "getFileType ?req = ''text/html''" by code_simp
  have page: "http_files ?s (pageRoot ?s @ (if req_path ?req = ''/'' then ''/index.html'' else req_path ?req)) = Some ''hi''"
    by (simp add: put_conn_def hs_demo_defs with_headers_def http_demo_def)
  have close: "False = (getHeader ''Connection'' ?req = ''close'' \<or> req_version ?req = kHttp10 \<and> getHeader ''Connection'' ?req \<noteq> ''Keep-Alive'')"
    by (simp add: with_headers_def http_demo_def getHeader_def)
  have ch: "chunks ''hi'' = ''2'' @ kCRLF @ ''hi'' @ kCRLF @ ''0'' @ kCRLF @ kCRLF"
    by (subst chunks.simps, subst chunks.simps) (simp add: kBufSize_def show_hex_small show_hex_small(2) [unfolded numeral_2_eq_2])
  have "length (page_head False ''text/html'') \<le> 200" by code_simp
  then have room: "writerIndex (outputBuffer ?k) + length (page_head False (getFileType ?req) @ chunks ''hi'' @ ''0'' @ kCRLF @ kCRLF) + 8 \<le> VEC_MAX"
    unfolding ty ch by (simp add: cn_demo_conn_def kCRLF_def)
  have st: "stream ?k ?s = []" by (simp add: stream_def put_conn_def hs_demo_defs)
  obtain s' k' c' where r: "onMessage defaultHttpCallback 1 1 7 ?s = Some (Inr s')" "conn_inv 1 k' c' s'"
    "stream k' s' = stream ?k ?s @ page_head False (getFileType ?req) @ chunks ''hi'' @ ''0'' @ kCRLF @ kCRLF"
    "conn_state k' = (if False then kDisconnecting else kConnected)"
    using serves_file [OF inv f ib(1) http_demo_ok ib(2) refl page close room, of defaultHttpCallback] by blast
  have "content b = ''GET /a.html?x HTTP/1.1'' @ kCRLF @ ''Host: h'' @ kCRLF @ kCRLF" by (simp only: b(2) t)
  moreover have "conn_state k' = kConnected" using r(4) by simp
  moreover have "stream k' s' = page_head False ''text/html'' @ ''2'' @ kCRLF @ ''hi'' @ kCRLF @ ''0'' @ kCRLF @ kCRLF @ ''0'' @ kCRLF @ kCRLF"
    using r(3) unfolding st ty ch by simp
  ultimately show ?thesis using r(1,2) by blast
qed

end
