(* ===== verification/Sudoku.thy ===== *)
theory Sudoku
  imports Prelude
begin

section \<open>Sudoku\<close>

text \<open>
  \<open>examples/sudoku/Sudoku.h\<close>: the backtracking solver of the example server.  The vectors of
  \<open>char\<close> are lists of strings; \<open>operator[]\<close> out of range is \<open>OutOfBounds\<close>.  The reference to the board
  that the functions pass around is the member \<open>board_\<close>.  The specification is the relation \<open>completes\<close>
  between a full grid and a puzzle.
\<close>

record sudoku =
  board :: "string list"
  rows :: "string list"
  cols :: "string list"
  blocks :: "string list"
  solved :: bool

definition blank :: "string list" where
  "blank = replicate 9 (replicate 9 (CHR ''0''))"

definition Sudoku_new :: sudoku where
  "Sudoku_new = \<lparr>board = blank, rows = blank, cols = blank, blocks = blank, solved = False\<rparr>"

text \<open>Cells in the order of the loops, reading and writing a cell, and the block of a cell.\<close>

definition cell_list :: "(nat \<times> nat) list" where
  "cell_list = List.product [0..<9] [0..<9]"

definition at :: "string list \<Rightarrow> nat \<times> nat \<Rightarrow> char" where
  "at b c = b ! fst c ! snd c"

definition put :: "string list \<Rightarrow> nat \<times> nat \<Rightarrow> char \<Rightarrow> string list" where
  "put b c x = b[fst c := (b ! fst c)[snd c := x]]"

definition block :: "nat \<times> nat \<Rightarrow> nat" where
  "block c = (fst c div 3) * 3 + snd c div 3"

definition dot :: char where "dot = CHR ''.''"
definition free :: char where "free = CHR ''0''"
definition taken :: char where "taken = CHR ''v''"

definition update :: "string \<Rightarrow> sudoku \<Rightarrow> sudoku" where
  "update str s =
     (if length str < 81 then s
      else s\<lparr>solved := False,
             board := fold (\<lambda>c b. let x = str ! (fst c * 9 + snd c) in put b c (if x = CHR ''0'' then dot else x))
                        cell_list (board s)\<rparr>)"

definition result :: "sudoku \<Rightarrow> string" where
  "result s = (if \<not> solved s then [] else map (at (board s)) cell_list)"

definition rec_get :: "string list \<Rightarrow> nat \<Rightarrow> int \<Rightarrow> char res" where
  "rec_get R x idx =
     (if x < length R \<and> 0 \<le> idx \<and> idx < int (length (R ! x)) then Inr (R ! x ! nat idx) else Inl OutOfBounds)"

definition rec_set :: "string list \<Rightarrow> nat \<Rightarrow> int \<Rightarrow> char \<Rightarrow> string list res" where
  "rec_set R x idx v =
     (if x < length R \<and> 0 \<le> idx \<and> idx < int (length (R ! x)) then Inr (R[x := (R ! x)[nat idx := v]])
      else Inl OutOfBounds)"

text \<open>Is the number with this index free in the row, the column and the block of the cell?\<close>

definition all_free :: "nat \<times> nat \<Rightarrow> int \<Rightarrow> sudoku \<Rightarrow> bool res" where
  "all_free c idx s =
     bindR (rec_get (rows s) (fst c) idx) (\<lambda>x. if x \<noteq> free then Inr False else
     bindR (rec_get (cols s) (snd c) idx) (\<lambda>y. if y \<noteq> free then Inr False else
     bindR (rec_get (blocks s) (block c) idx) (\<lambda>z. Inr (z = free))))"

definition set_records :: "char \<Rightarrow> nat \<times> nat \<Rightarrow> int \<Rightarrow> sudoku \<Rightarrow> sudoku res" where
  "set_records v c idx s =
     bindR (rec_set (rows s) (fst c) idx v) (\<lambda>x.
     bindR (rec_set (cols s) (snd c) idx v) (\<lambda>y.
     bindR (rec_set (blocks s) (block c) idx v) (\<lambda>z. Inr (s\<lparr>rows := x, cols := y, blocks := z\<rparr>))))"

definition curEleValid :: "nat \<times> nat \<Rightarrow> nat \<Rightarrow> sudoku \<Rightarrow> bool res" where
  "curEleValid c k s = all_free c (int k - 1) s"

definition updateRecord :: "nat \<times> nat \<Rightarrow> nat \<Rightarrow> sudoku \<Rightarrow> sudoku res" where
  "updateRecord c k s = set_records taken c (int k - 1) s"

definition cancelRecord :: "nat \<times> nat \<Rightarrow> nat \<Rightarrow> sudoku \<Rightarrow> sudoku res" where
  "cancelRecord c k s = set_records free c (int k - 1) s"

text \<open>\<open>isValidSudoku\<close>: the two loops over the cells, with the early return.\<close>

fun check_cells :: "(nat \<times> nat) list \<Rightarrow> sudoku \<Rightarrow> (bool \<times> sudoku) res" where
  "check_cells [] s = Inr (True, s)"
| "check_cells (c # cs) s =
     (let x = at (board s) c in
      if x \<noteq> dot then
        let idx = of_char x - (48 :: int) - 1 in
        bindR (all_free c idx s) (\<lambda>ok.
          if \<not> ok then Inr (False, s)
          else bindR (set_records taken c idx s) (check_cells cs))
      else check_cells cs s)"

definition isValidSudoku :: "sudoku \<Rightarrow> (bool \<times> sudoku) res" where
  "isValidSudoku s = check_cells cell_list s"

text \<open>
  \<open>traceback\<close>, its recursion and its loop over the numbers as two functions; \<open>next_cell\<close> is the choice of
  the next cell that the source writes twice.
\<close>

definition next_cell :: "nat \<times> nat \<Rightarrow> nat \<times> nat" where
  "next_cell c = (if snd c < 8 then (fst c, snd c + 1) else (fst c + 1, 0))"

abbreviation in_grid :: "nat \<times> nat \<Rightarrow> bool" where
  "in_grid c \<equiv> fst c < 9 \<and> snd c < 9"

definition left :: "nat \<times> nat \<Rightarrow> nat" where
  "left c = (9 - fst c) * 9 + (9 - snd c)"

lemma left_next: "in_grid c \<Longrightarrow> Suc (left (next_cell c)) = left c"
  by (cases c) (auto simp: left_def next_cell_def algebra_simps)

function traceback :: "nat \<times> nat \<Rightarrow> sudoku \<Rightarrow> sudoku res"
  and try_digits :: "nat \<times> nat \<Rightarrow> nat \<Rightarrow> sudoku \<Rightarrow> sudoku res" where
  "traceback c s =
     (if solved s then Inr s
      else if fst c = 9 then Inr (s\<lparr>solved := True\<rparr>)
      else if \<not> in_grid c then Inl OutOfBounds
      else if at (board s) c \<noteq> dot then traceback (next_cell c) s
      else try_digits c 1 s)"
| "try_digits c k s =
     (if k \<le> 9 \<and> \<not> solved s \<and> in_grid c then
        bindR (curEleValid c k s) (\<lambda>ok.
          if ok then
            bindR (updateRecord c k (s\<lparr>board := put (board s) c (char_of (k + 48))\<rparr>)) (\<lambda>s1.
            bindR (traceback (next_cell c) s1) (\<lambda>s2.
              if solved s2 then Inr s2
              else bindR (cancelRecord c k (s2\<lparr>board := put (board s2) c dot\<rparr>)) (try_digits c (k + 1))))
          else try_digits c (k + 1) s)
      else Inr s)"
  by pat_completeness auto

termination
proof (relation "measure (case_sum (\<lambda>(c, s). left c * 11 + 10) (\<lambda>(c, k, s). left c * 11 + (10 - k)))", goal_cases)
qed (use left_next in \<open>fastforce simp: in_measure\<close>)+

declare traceback.simps [simp del] try_digits.simps [simp del]

definition solveSudoku :: "sudoku \<Rightarrow> sudoku res" where
  "solveSudoku s =
     (if solved s then Inr s
      else bindR (isValidSudoku (s\<lparr>rows := blank, cols := blank, blocks := blank\<rparr>)) (\<lambda>(valid, s1).
        if \<not> valid then Inr s1 else traceback (0, 0) s1))"

subsection \<open>Grids\<close>

definition cells :: "(nat \<times> nat) set" where
  "cells = {0..<9} \<times> {0..<9}"

definition dig :: "nat \<Rightarrow> char" where
  "dig d = char_of (d + 49)"

definition dims :: "string list \<Rightarrow> bool" where
  "dims b \<longleftrightarrow> length b = 9 \<and> (\<forall>x < 9. length (b ! x) = 9)"

definition nodup :: "(nat \<times> nat \<Rightarrow> nat) \<Rightarrow> (nat \<times> nat) set \<Rightarrow> string list \<Rightarrow> bool" where
  "nodup f P b \<longleftrightarrow> (\<forall>c \<in> P. \<forall>c' \<in> P. c \<noteq> c' \<and> f c = f c' \<and> at b c = at b c' \<longrightarrow> at b c = dot)"

text \<open>A puzzle: numbers and dots.  A solution: a full grid, no number twice in a unit, that agrees with it.\<close>

definition puzzle :: "string list \<Rightarrow> bool" where
  "puzzle b \<longleftrightarrow> dims b \<and> (\<forall>c \<in> cells. at b c = dot \<or> (\<exists>d < 9. at b c = dig d))"

definition completes :: "string list \<Rightarrow> string list \<Rightarrow> bool" where
  "completes g b \<longleftrightarrow> dims g \<and> (\<forall>c \<in> cells. \<exists>d < 9. at g c = dig d) \<and>
     nodup fst cells g \<and> nodup snd cells g \<and> nodup block cells g \<and>
     (\<forall>c \<in> cells. at b c \<noteq> dot \<longrightarrow> at g c = at b c)"

lemma cells_iff [simp]: "c \<in> cells \<longleftrightarrow> in_grid c"
  by (cases c) (simp add: cells_def)

lemma set_cell_list [simp]: "set cell_list = cells"
  by (auto simp: cell_list_def cells_def)

lemma distinct_cell_list: "distinct cell_list"
  by (simp add: cell_list_def distinct_product)

lemma block_less [simp]: "in_grid c \<Longrightarrow> block c < 9"
proof -
  assume "in_grid c"
  then have "fst c div 3 < 3" "snd c div 3 < 3" by (simp_all add: less_mult_imp_div_less)
  then show ?thesis by (simp add: block_def)
qed

lemma of_char_dig [simp]: "d < 9 \<Longrightarrow> of_char (dig d) = (int d + 49)"
proof -
  assume "d < 9"
  then have "of_char (dig d) = (d + 49 :: nat)" by (simp add: dig_def)
  then have "int (of_char (dig d)) = int d + 49" by simp
  then show ?thesis by (simp only: of_nat_of_char)
qed

lemma dig_inject [simp]: "d < 9 \<Longrightarrow> e < 9 \<Longrightarrow> dig d = dig e \<longleftrightarrow> d = e"
  using of_char_dig [of d] of_char_dig [of e] by (metis add_right_cancel of_nat_eq_iff)

lemma dig_not_dot [simp]: "d < 9 \<Longrightarrow> dig d \<noteq> dot" "d < 9 \<Longrightarrow> dot \<noteq> dig d"
proof -
  assume "d < 9"
  moreover have "of_char dot = (46 :: int)" by (simp add: dot_def)
  ultimately have "of_char (dig d) \<noteq> (of_char dot :: int)" by simp
  then show "dig d \<noteq> dot" "dot \<noteq> dig d" by metis+
qed

lemma marks_differ [simp]: "taken \<noteq> free" "free \<noteq> taken"
  by (simp_all add: taken_def free_def)

lemma dims_put [simp]: "dims b \<Longrightarrow> in_grid c \<Longrightarrow> dims (put b c x)"
  by (auto simp: dims_def put_def nth_list_update)

lemma at_put: "dims b \<Longrightarrow> in_grid c \<Longrightarrow> in_grid c' \<Longrightarrow> at (put b c x) c' = (if c' = c then x else at b c')"
  by (cases c; cases c') (auto simp: dims_def put_def at_def nth_list_update)

lemma put_put [simp]: "put (put b c x) c y = put b c y"
  by (cases "fst c < length b") (simp_all add: put_def list_update_beyond)

lemma put_same: "dims b \<Longrightarrow> in_grid c \<Longrightarrow> at b c = x \<Longrightarrow> put b c x = b"
  by (auto simp: put_def at_def)

subsection \<open>The records of numbers taken\<close>

text \<open>\<open>R\<close> records, for the units that \<open>f\<close> assigns to cells, the numbers in the cells of \<open>P\<close>.\<close>

definition tracks :: "(nat \<times> nat \<Rightarrow> nat) \<Rightarrow> string list \<Rightarrow> (nat \<times> nat) set \<Rightarrow> string list \<Rightarrow> bool" where
  "tracks f R P b \<longleftrightarrow> dims R \<and>
     (\<forall>x < 9. \<forall>d < 9. R ! x ! d = (if \<exists>c \<in> P. f c = x \<and> at b c = dig d then taken else free))"

definition mark :: "string list \<Rightarrow> nat \<Rightarrow> nat \<Rightarrow> char \<Rightarrow> string list" where
  "mark R x d v = R[x := (R ! x)[d := v]]"

lemma rec_ops:
  assumes "dims R" "x < 9" "d < 9"
  shows "rec_get R x (int d) = Inr (R ! x ! d)" "rec_set R x (int d) v = Inr (mark R x d v)"
  using assms by (simp_all add: rec_get_def rec_set_def dims_def mark_def)

lemma dims_mark [simp]: "dims R \<Longrightarrow> x < 9 \<Longrightarrow> dims (mark R x d v)"
  by (auto simp: dims_def mark_def nth_list_update)

lemma nth_mark: "dims R \<Longrightarrow> x < 9 \<Longrightarrow> d < 9 \<Longrightarrow> y < 9 \<Longrightarrow> e < 9 \<Longrightarrow>
    mark R x d v ! y ! e = (if y = x \<and> e = d then v else R ! y ! e)"
  by (auto simp: dims_def mark_def nth_list_update)

lemma mark_mark [simp]: "dims R \<Longrightarrow> x < 9 \<Longrightarrow> mark (mark R x d v) x d w = mark R x d w"
  by (simp add: dims_def mark_def)

lemma mark_same: "dims R \<Longrightarrow> x < 9 \<Longrightarrow> d < 9 \<Longrightarrow> R ! x ! d = v \<Longrightarrow> mark R x d v = R"
  by (auto simp: dims_def mark_def)

lemma tracks_free: "tracks f R P b \<Longrightarrow> x < 9 \<Longrightarrow> d < 9 \<Longrightarrow> R ! x ! d = free \<longleftrightarrow> \<not> (\<exists>c \<in> P. f c = x \<and> at b c = dig d)"
  by (simp add: tracks_def)

lemma tracks_insert:
  assumes "tracks f R P b" "f c < 9" "d < 9" "at b c = dig d"
  shows "tracks f (mark R (f c) d taken) (insert c P) b"
  using assms by (auto simp: tracks_def nth_mark)

lemma tracks_dot:
  assumes "tracks f R P b" "at b c = dot"
  shows "tracks f R (insert c P) b"
  using assms by (auto simp: tracks_def)

lemma tracks_put:
  assumes "tracks f R cells b" "dims b" "in_grid c" "f c < 9" "d < 9" "at b c = dot"
  shows "tracks f (mark R (f c) d taken) cells (put b c (dig d))"
proof -
  have "(\<exists>c' \<in> cells. f c' = x \<and> at (put b c (dig d)) c' = dig e) \<longleftrightarrow>
      (f c = x \<and> e = d) \<or> (\<exists>c' \<in> cells. f c' = x \<and> at b c' = dig e)" if "x < 9" "e < 9" for x e
    using that assms(2,3,5,6) by (auto simp: at_put)
  with assms show ?thesis by (auto simp: tracks_def nth_mark)
qed

lemma nodup_insert:
  assumes "nodup f P b" "\<not> (\<exists>c' \<in> P. f c' = f c \<and> at b c' = at b c)"
  shows "nodup f (insert c P) b"
  using assms by (auto simp: nodup_def)

lemma nodup_dot: "nodup f P b \<Longrightarrow> at b c = dot \<Longrightarrow> nodup f (insert c P) b"
  by (auto simp: nodup_def)

lemma nodup_put:
  assumes "nodup f cells b" "dims b" "in_grid c" "d < 9" "\<not> (\<exists>c' \<in> cells. f c' = f c \<and> at b c' = dig d)"
  shows "nodup f cells (put b c (dig d))"
  using assms unfolding nodup_def by (auto simp: at_put)

subsection \<open>The invariant of the solver\<close>

definition solver_inv :: "(nat \<times> nat) set \<Rightarrow> sudoku \<Rightarrow> bool" where
  "solver_inv P s \<longleftrightarrow> puzzle (board s) \<and> tracks fst (rows s) P (board s) \<and> tracks snd (cols s) P (board s) \<and>
     tracks block (blocks s) P (board s) \<and> nodup fst P (board s) \<and> nodup snd P (board s) \<and> nodup block P (board s)"

definition clash :: "(nat \<times> nat) set \<Rightarrow> string list \<Rightarrow> nat \<times> nat \<Rightarrow> nat \<Rightarrow> bool" where
  "clash P b c d \<longleftrightarrow> (\<exists>c' \<in> P. (fst c' = fst c \<or> snd c' = snd c \<or> block c' = block c) \<and> at b c' = dig d)"

definition marked :: "char \<Rightarrow> nat \<times> nat \<Rightarrow> nat \<Rightarrow> sudoku \<Rightarrow> sudoku" where
  "marked v c d s = s\<lparr>rows := mark (rows s) (fst c) d v, cols := mark (cols s) (snd c) d v,
     blocks := mark (blocks s) (block c) d v\<rparr>"

lemma set_records_ok:
  assumes "solver_inv P s" "in_grid c" "d < 9" "rows t = rows s" "cols t = cols s" "blocks t = blocks s"
  shows "set_records v c (int d) t = Inr (marked v c d t)"
  using assms by (simp add: set_records_def rec_ops marked_def solver_inv_def tracks_def)

lemma solver_ops:
  assumes "solver_inv P s" "in_grid c" "d < 9"
  shows "all_free c (int d) s = Inr (\<not> clash P (board s) c d)" "set_records v c (int d) s = Inr (marked v c d s)"
proof -
  have R: "dims (rows s)" "dims (cols s)" "dims (blocks s)" using assms(1) by (simp_all add: solver_inv_def tracks_def)
  have t: "tracks fst (rows s) P (board s)" "tracks snd (cols s) P (board s)" "tracks block (blocks s) P (board s)"
    using assms(1) by (simp_all add: solver_inv_def)
  have "fst c < 9" "snd c < 9" using assms(2) by simp_all
  note tracks_free [OF t(1) this(1) assms(3)] tracks_free [OF t(2) this(2) assms(3)]
    tracks_free [OF t(3) block_less [OF assms(2)] assms(3)]
  then show "all_free c (int d) s = Inr (\<not> clash P (board s) c d)"
    using R assms(2,3) by (auto simp: all_free_def rec_ops clash_def)
  show "set_records v c (int d) s = Inr (marked v c d s)"
    using set_records_ok [OF assms] by simp
qed

lemma solver_insert:
  assumes "solver_inv P s" "in_grid c" "d < 9" "at (board s) c = dig d" "\<not> clash P (board s) c d"
  shows "solver_inv (insert c P) (marked taken c d s)"
  using assms
  by (auto simp: solver_inv_def marked_def clash_def intro!: tracks_insert nodup_insert)

lemma solver_dot: "solver_inv P s \<Longrightarrow> at (board s) c = dot \<Longrightarrow> solver_inv (insert c P) s"
  by (auto simp: solver_inv_def intro!: tracks_dot nodup_dot)

lemma solver_put:
  assumes "solver_inv cells s" "in_grid c" "d < 9" "at (board s) c = dot" "\<not> clash cells (board s) c d"
  shows "solver_inv cells (marked taken c d (s\<lparr>board := put (board s) c (dig d)\<rparr>))"
proof -
  have "puzzle (put (board s) c (dig d))" using assms by (auto simp: solver_inv_def puzzle_def at_put)
  with assms show ?thesis
    by (auto simp: solver_inv_def marked_def clash_def puzzle_def intro!: tracks_put nodup_put)
qed

text \<open>Taking a number back restores the state exactly.\<close>

lemma solver_undo:
  assumes "solver_inv cells s" "in_grid c" "d < 9" "at (board s) c = dot" "\<not> clash cells (board s) c d"
  shows "marked free c d ((marked taken c d (s\<lparr>board := put (board s) c (dig d)\<rparr>))
      \<lparr>board := put (put (board s) c (dig d)) c dot\<rparr>) = s"
proof -
  have R: "dims (rows s)" "dims (cols s)" "dims (blocks s)" "dims (board s)"
    using assms(1) by (simp_all add: solver_inv_def tracks_def puzzle_def)
  have t: "tracks fst (rows s) cells (board s)" "tracks snd (cols s) cells (board s)" "tracks block (blocks s) cells (board s)"
    using assms(1) by (simp_all add: solver_inv_def)
  have "fst c < 9" "snd c < 9" using assms(2) by simp_all
  note fr = tracks_free [OF t(1) this(1) assms(3)] tracks_free [OF t(2) this(2) assms(3)]
    tracks_free [OF t(3) block_less [OF assms(2)] assms(3)]
  have "rows s ! fst c ! d = free" "cols s ! snd c ! d = free" "blocks s ! block c ! d = free"
    unfolding fr using assms(5) unfolding clash_def by blast+
  with R assms(2-4) show ?thesis by (cases s) (simp add: marked_def mark_same put_same)
qed

subsection \<open>Solutions\<close>

definition before :: "nat \<times> nat \<Rightarrow> (nat \<times> nat) set" where
  "before c = {c'. in_grid c' \<and> (fst c' < fst c \<or> fst c' = fst c \<and> snd c' < snd c)}"

definition filled_to :: "nat \<times> nat \<Rightarrow> string list \<Rightarrow> bool" where
  "filled_to c b \<longleftrightarrow> (in_grid c \<or> c = (9, 0)) \<and> (\<forall>c' \<in> before c. at b c' \<noteq> dot)"

lemma before_next: "in_grid c \<Longrightarrow> before (next_cell c) = insert c (before c)"
  by (cases c) (auto simp: before_def next_cell_def)

lemma filled_next: "in_grid c \<Longrightarrow> filled_to c b \<Longrightarrow> at b c \<noteq> dot \<Longrightarrow> filled_to (next_cell c) b"
proof -
  assume a: "in_grid c" "filled_to c b" "at b c \<noteq> dot"
  have "in_grid (next_cell c) \<or> next_cell c = (9, 0)" using a(1) by (cases c) (auto simp: next_cell_def)
  with a before_next [OF a(1)] show ?thesis by (simp add: filled_to_def)
qed

lemma filled_put:
  assumes "dims b" "in_grid c" "filled_to c b"
  shows "filled_to c (put b c x)"
  using assms by (auto simp: filled_to_def before_def at_put)

lemma completes_full:
  assumes "solver_inv cells s" "filled_to (9, 0) (board s)"
  shows "completes (board s) (board s)"
proof -
  have "before (9, 0) = cells" by (auto simp: before_def)
  with assms show ?thesis by (auto simp: solver_inv_def completes_def puzzle_def filled_to_def)
qed

lemma completes_put:
  assumes "dims b" "in_grid c" "at b c = dot" "d < 9"
  shows "completes g (put b c (dig d)) \<longleftrightarrow> completes g b \<and> at g c = dig d"
  using assms by (auto simp: completes_def at_put)

lemma clash_excludes:
  assumes "clash cells b c d" "completes g b" "in_grid c" "at b c = dot" "d < 9"
  shows "at g c \<noteq> dig d"
proof
  assume g: "at g c = dig d"
  obtain c' where c': "in_grid c'" "fst c' = fst c \<or> snd c' = snd c \<or> block c' = block c" "at b c' = dig d"
    using assms(1) by (auto simp: clash_def)
  with assms have "at g c' = dig d" "c' \<noteq> c" by (auto simp: completes_def)
  with g c'(1,2) assms(2,3,5) show False unfolding completes_def nodup_def by (metis cells_iff dig_not_dot(1))
qed

text \<open>What a call of \<open>traceback\<close>, or of its loop from \<open>k\<close> on, achieves.\<close>

definition outcome_ok :: "(string list \<Rightarrow> bool) \<Rightarrow> sudoku \<Rightarrow> sudoku res \<Rightarrow> bool" where
  "outcome_ok Q s r \<longleftrightarrow> (\<exists>s'. r = Inr s' \<and>
     (solved s' \<and> completes (board s') (board s) \<or> s' = s \<and> \<not> (\<exists>g. completes g (board s) \<and> Q g)))"

text \<open>One turn of the loop over the numbers: the number clashes, or it is written, tried and taken back.\<close>

lemma try_clash:
  assumes "solver_inv cells s" "\<not> solved s" "in_grid c" "at (board s) c = dot" "d < 9" "clash cells (board s) c d"
  shows "curEleValid c (Suc d) s = Inr False" "try_digits c (Suc d) s = try_digits c (Suc (Suc d)) s"
    "\<not> (\<exists>g. completes g (board s) \<and> at g c = dig d)"
proof -
  show v: "curEleValid c (Suc d) s = Inr False" using solver_ops [OF assms(1,3,5)] assms(6) by (simp add: curEleValid_def)
  show "try_digits c (Suc d) s = try_digits c (Suc (Suc d)) s" using assms(2,3,5) v by (subst try_digits.simps) simp
  show "\<not> (\<exists>g. completes g (board s) \<and> at g c = dig d)" using clash_excludes [OF assms(6) _ assms(3,4,5)] by blast
qed

lemma try_digit:
  assumes inv: "solver_inv cells s" and ns: "\<not> solved s" and fc: "filled_to c (board s)" and c: "in_grid c" "at (board s) c = dot"
    and d: "d < 9" and free: "\<not> clash cells (board s) c d" and s1: "s1 = marked taken c d (s\<lparr>board := put (board s) c (dig d)\<rparr>)"
  shows "curEleValid c (Suc d) s = Inr True" "updateRecord c (Suc d) (s\<lparr>board := put (board s) c (char_of (Suc d + 48))\<rparr>) = Inr s1"
    "solver_inv cells s1" "\<not> solved s1" "filled_to (next_cell c) (board s1)"
    "completes g (board s1) \<longleftrightarrow> completes g (board s) \<and> at g c = dig d"
    "cancelRecord c (Suc d) (s1\<lparr>board := put (board s1) c dot\<rparr>) = Inr s"
    "try_digits c (Suc d) s = bindR (traceback (next_cell c) s1) (\<lambda>s2. if solved s2 then Inr s2
       else bindR (cancelRecord c (Suc d) (s2\<lparr>board := put (board s2) c dot\<rparr>)) (try_digits c (Suc (Suc d))))"
proof -
  have b: "dims (board s)" using inv by (simp add: solver_inv_def puzzle_def)
  have k: "int (Suc d) - 1 = int d" "char_of (Suc d + 48) = dig d" by (simp_all add: dig_def add.commute)
  show v: "curEleValid c (Suc d) s = Inr True" using solver_ops [OF inv c(1) d] free k by (simp add: curEleValid_def)
  have bd: "board s1 = put (board s) c (dig d)" by (simp add: s1 marked_def)
  show "solver_inv cells s1" unfolding s1 by (rule solver_put [OF inv c(1) d c(2) free])
  then show "cancelRecord c (Suc d) (s1\<lparr>board := put (board s1) c dot\<rparr>) = Inr s"
    using set_records_ok [OF _ c(1) d, of cells s1] k(1) solver_undo [OF inv c(1) d c(2) free] unfolding bd
    by (simp add: cancelRecord_def s1)
  show upd: "updateRecord c (Suc d) (s\<lparr>board := put (board s) c (char_of (Suc d + 48))\<rparr>) = Inr s1"
    using set_records_ok [OF inv c(1) d] k by (simp add: updateRecord_def s1)
  show "\<not> solved s1" using ns by (simp add: s1 marked_def)
  show "filled_to (next_cell c) (board s1)"
    unfolding bd using filled_next [OF c(1) filled_put [OF b c(1) fc]] b c(1) d by (simp add: at_put)
  show "completes g (board s1) \<longleftrightarrow> completes g (board s) \<and> at g c = dig d" unfolding bd by (rule completes_put [OF b c d])
  show "try_digits c (Suc d) s = bindR (traceback (next_cell c) s1) (\<lambda>s2. if solved s2 then Inr s2
       else bindR (cancelRecord c (Suc d) (s2\<lparr>board := put (board s2) c dot\<rparr>)) (try_digits c (Suc (Suc d))))"
    using ns c(1) d v upd by (subst try_digits.simps) (simp cong del: if_weak_cong)
qed

text \<open>A number that leads nowhere leaves the rest of the loop to decide.\<close>

lemma outcome_next:
  assumes "\<not> (\<exists>g. completes g (board s) \<and> at g c = dig d)" "d < 9"
    and "outcome_ok (\<lambda>g. \<exists>e < 9. Suc (Suc d) \<le> Suc e \<and> at g c = dig e) s r"
  shows "outcome_ok (\<lambda>g. \<exists>e < 9. Suc d \<le> Suc e \<and> at g c = dig e) s r"
proof -
  have "(\<exists>e < 9. Suc d \<le> Suc e \<and> at g c = dig e) \<longleftrightarrow> at g c = dig d \<or> (\<exists>e < 9. Suc (Suc d) \<le> Suc e \<and> at g c = dig e)" for g
    using assms(2) by (auto simp: le_Suc_eq less_Suc_eq_le Suc_le_eq)
  with assms(1,3) show ?thesis unfolding outcome_ok_def by blast
qed

lemma traceback_ok:
  "solver_inv cells s \<Longrightarrow> \<not> solved s \<Longrightarrow> filled_to c (board s) \<Longrightarrow> outcome_ok (\<lambda>_. True) s (traceback c s)"
  "solver_inv cells s \<Longrightarrow> \<not> solved s \<Longrightarrow> filled_to c (board s) \<Longrightarrow> in_grid c \<Longrightarrow> at (board s) c = dot \<Longrightarrow> 1 \<le> k \<Longrightarrow>
     outcome_ok (\<lambda>g. \<exists>d < 9. k \<le> Suc d \<and> at g c = dig d) s (try_digits c k s)"
proof (induction c s and c k s rule: traceback_try_digits.induct)
  case (1 c s)
  consider "c = (9, 0)" | "in_grid c" "at (board s) c \<noteq> dot" | "in_grid c" "at (board s) c = dot"
    using 1(5) by (auto simp: filled_to_def)
  then show ?case
  proof cases
    case 1
    with "1.prems" completes_full [of s] show ?thesis by (simp add: traceback.simps outcome_ok_def)
  next
    case 2
    with "1.IH"(1) "1.prems" filled_next have "outcome_ok (\<lambda>_. True) s (traceback (next_cell c) s)" by auto
    with 2 "1.prems"(2) show ?thesis by (simp add: traceback.simps [of c])
  next
    case 3
    with "1.IH"(2) "1.prems" have "outcome_ok (\<lambda>g. \<exists>d < 9. 1 \<le> Suc d \<and> at g c = dig d) s (try_digits c 1 s)" by auto
    moreover have "completes g (board s) \<Longrightarrow> \<exists>d < 9. 1 \<le> Suc d \<and> at g c = dig d" for g
      using 3 by (auto simp: completes_def)
    ultimately have "outcome_ok (\<lambda>_. True) s (try_digits c 1 s)" unfolding outcome_ok_def by blast
    with 3 "1.prems"(2) show ?thesis by (simp add: traceback.simps [of c])
  qed
next
  case (2 c k s)
  note prems = "2.prems"
  consider "9 < k" | d where "k = Suc d" "d < 9" "clash cells (board s) c d" | d where "k = Suc d" "d < 9" "\<not> clash cells (board s) c d"
  proof -
    obtain d where "k = Suc d" using prems(6) by (cases k) auto
    then show thesis using that by (cases "d < 9"; cases "clash cells (board s) c d") auto
  qed
  then show ?case
  proof cases
    case 1
    then show ?thesis by (auto simp: try_digits.simps outcome_ok_def)
  next
    case (2 d)
    note t = try_clash [OF prems(1,2,4,5) 2(2,3)]
    have "outcome_ok (\<lambda>g. \<exists>e < 9. Suc (Suc d) \<le> Suc e \<and> at g c = dig e) s (try_digits c (Suc (Suc d)) s)"
      using "2.IH"(3) [of False] 2(1,2) t(1) prems by simp
    from outcome_next [OF t(3) 2(2) this] t(2) 2(1) show ?thesis by simp
  next
    case (3 d)
    note t = try_digit [OF prems(1-5) 3(2,3) refl]
    let ?s1 = "marked taken c d (s\<lparr>board := put (board s) c (dig d)\<rparr>)"
    have guard: "k \<le> 9 \<and> \<not> solved s \<and> in_grid c" using 3(1,2) prems(2,4) by simp
    have "outcome_ok (\<lambda>_. True) ?s1 (traceback (next_cell c) ?s1)" using "2.IH"(1) [OF guard, of True ?s1] t 3(1) by simp
    then obtain s2 where s2: "traceback (next_cell c) ?s1 = Inr s2"
        "solved s2 \<and> completes (board s2) (board ?s1) \<or> s2 = ?s1 \<and> \<not> (\<exists>g. completes g (board ?s1))"
      by (auto simp: outcome_ok_def)
    show ?thesis
    proof (cases "solved s2")
      case True
      with s2 t(4,6,8) 3(1) show ?thesis by (auto simp: outcome_ok_def)
    next
      case False
      with s2(2) have eq: "s2 = ?s1" and none: "\<not> (\<exists>g. completes g (board s) \<and> at g c = dig d)" by (auto simp: t(6))
      have "outcome_ok (\<lambda>g. \<exists>e < 9. Suc (Suc d) \<le> Suc e \<and> at g c = dig e) s (try_digits c (Suc (Suc d)) s)"
        using "2.IH"(2) [OF guard, of True ?s1 s] 3(1) t(1,2,7) s2(1) False eq prems by simp
      from outcome_next [OF none 3(2) this] t(7,8) s2(1) False eq 3(1) show ?thesis by simp
    qed
  qed
qed

text \<open>\<open>isValidSudoku\<close>: \<open>P\<close> are the cells checked so far.\<close>

lemma check_cells_ok:
  assumes "solver_inv P s" "set cs \<subseteq> cells" "distinct cs" "P \<inter> set cs = {}"
  shows "\<exists>v s1. check_cells cs s = Inr (v, s1) \<and> board s1 = board s \<and> solved s1 = solved s \<and>
    (v \<longrightarrow> solver_inv (P \<union> set cs) s1) \<and>
    (\<not> v \<longrightarrow> \<not> (nodup fst (P \<union> set cs) (board s) \<and> nodup snd (P \<union> set cs) (board s) \<and> nodup block (P \<union> set cs) (board s)))"
  using assms
proof (induction cs arbitrary: P s)
  case Nil
  then show ?case by (intro exI [of _ True] exI [of _ s]) simp
next
  case (Cons c cs)
  have c: "in_grid c" using Cons.prems(2) by auto
  have rest: "set cs \<subseteq> cells" "distinct cs" "insert c P \<inter> set cs = {}" using Cons.prems by auto
  show ?case
  proof (cases "at (board s) c = dot")
    case True
    from Cons.IH [OF solver_dot [OF Cons.prems(1) True] rest] True show ?thesis by simp
  next
    case False
    with Cons.prems(1) c obtain d where d: "d < 9" "at (board s) c = dig d"
      by (auto simp: solver_inv_def puzzle_def)
    have idx: "of_char (at (board s) c) - (48 :: int) - 1 = int d" using d by simp
    note ops = solver_ops [OF Cons.prems(1) c d(1)]
    show ?thesis
    proof (cases "clash P (board s) c d")
      case True
      then obtain c' where "c' \<in> P" "fst c' = fst c \<or> snd c' = snd c \<or> block c' = block c" "at (board s) c' = dig d"
        by (auto simp: clash_def)
      moreover from this Cons.prems(4) have "c' \<noteq> c" by auto
      ultimately have "\<not> (nodup fst (P \<union> set (c # cs)) (board s) \<and> nodup snd (P \<union> set (c # cs)) (board s) \<and>
          nodup block (P \<union> set (c # cs)) (board s))"
        using d False unfolding nodup_def by (metis UnCI list.set_intros(1))
      with False True ops idx show ?thesis by (intro exI [of _ False] exI [of _ s]) (simp add: Let_def)
    next
      case ok: False
      have "board (marked taken c d s) = board s" "solved (marked taken c d s) = solved s" by (simp_all add: marked_def)
      with Cons.IH [OF solver_insert [OF Cons.prems(1) c d ok] rest] False ok ops idx show ?thesis by (simp add: Let_def)
    qed
  qed
qed

lemma solver_inv_start: "puzzle b \<Longrightarrow> solver_inv {} \<lparr>board = b, rows = blank, cols = blank, blocks = blank, solved = v\<rparr>"
  by (simp add: solver_inv_def tracks_def nodup_def dims_def blank_def free_def)

lemma completes_nodup:
  assumes "puzzle b" "completes g b"
  shows "nodup fst cells b" "nodup snd cells b" "nodup block cells b"
  using assms unfolding completes_def nodup_def by metis+

lemma solveSudoku_ok:
  assumes "puzzle (board s)" "\<not> solved s"
  shows "\<exists>s1. solveSudoku s = Inr s1 \<and> (solved s1 \<longleftrightarrow> (\<exists>g. completes g (board s))) \<and>
    (if solved s1 then completes (board s1) (board s) else board s1 = board s)"
proof -
  let ?s = "s\<lparr>rows := blank, cols := blank, blocks := blank\<rparr>"
  have "solver_inv {} ?s" using solver_inv_start [OF assms(1), of "solved s"] by (cases s) simp
  from check_cells_ok [OF this _ distinct_cell_list] obtain v s1 where v: "isValidSudoku ?s = Inr (v, s1)"
    "board s1 = board s" "\<not> solved s1" "v \<Longrightarrow> solver_inv cells s1"
    "\<not> v \<Longrightarrow> \<not> (nodup fst cells (board s) \<and> nodup snd cells (board s) \<and> nodup block cells (board s))"
    using assms(2) by (auto simp: isValidSudoku_def)
  show ?thesis
  proof (cases v)
    case False
    with v(5) completes_nodup [OF assms(1)] have "\<not> (\<exists>g. completes g (board s))" by blast
    with False v assms(2) show ?thesis by (simp add: solveSudoku_def)
  next
    case True
    have "filled_to (0, 0) (board s1)" by (simp add: filled_to_def before_def)
    from traceback_ok(1) [OF v(4) [OF True] v(3) this] obtain s2 where s2: "traceback (0, 0) s1 = Inr s2"
      "solved s2 \<and> completes (board s2) (board s1) \<or> s2 = s1 \<and> \<not> (\<exists>g. completes g (board s1))"
      by (auto simp: outcome_ok_def)
    with True v assms(2) show ?thesis by (auto simp: solveSudoku_def)
  qed
qed

subsection \<open>From string to string\<close>

definition puzzle_of :: "string \<Rightarrow> string list" where
  "puzzle_of str = map (\<lambda>x. map (\<lambda>y. let ch = str ! (x * 9 + y) in if ch = CHR ''0'' then dot else ch) [0..<9]) [0..<9]"

definition solution :: "string \<Rightarrow> string \<Rightarrow> bool" where
  "solution g str \<longleftrightarrow> length g = 81 \<and> completes (puzzle_of g) (puzzle_of str)"

lemma dims_eqI:
  assumes "dims b" "dims b'" "\<And>c. in_grid c \<Longrightarrow> at b c = at b' c"
  shows "b = b'"
proof (rule nth_equalityI)
  show "length b = length b'" using assms(1,2) by (simp add: dims_def)
next
  fix x assume "x < length b"
  then have x: "x < 9" using assms(1) by (simp add: dims_def)
  show "b ! x = b' ! x"
    using assms(1,2) assms(3) [of "(x, y)" for y] x by (intro nth_equalityI) (auto simp: dims_def at_def)
qed

lemma dims_puzzle_of [simp]: "dims (puzzle_of str)"
  by (simp add: dims_def puzzle_of_def)

lemma at_puzzle_of: "in_grid c \<Longrightarrow>
    at (puzzle_of str) c = (let ch = str ! (fst c * 9 + snd c) in if ch = CHR ''0'' then dot else ch)"
  by (simp add: at_def puzzle_of_def)

lemma fold_put:
  assumes "dims b" "set cs \<subseteq> cells" "distinct cs"
  shows "dims (fold (\<lambda>c b. put b c (f c)) cs b) \<and>
    (\<forall>c. in_grid c \<longrightarrow> at (fold (\<lambda>c b. put b c (f c)) cs b) c = (if c \<in> set cs then f c else at b c))"
  using assms
proof (induction cs arbitrary: b)
  case (Cons c cs)
  have c: "in_grid c" using Cons.prems(2) by simp
  have "dims (put b c (f c))" "set cs \<subseteq> cells" "distinct cs" using Cons.prems c by auto
  from Cons.IH [OF this] Cons.prems(1,3) c show ?case by (auto simp: at_put)
qed simp

lemma board_update:
  assumes "dims (board s)" "81 \<le> length str"
  shows "board (update str s) = puzzle_of str" "\<not> solved (update str s)"
proof -
  let ?f = "\<lambda>c. let ch = str ! (fst c * 9 + snd c) in if ch = CHR ''0'' then dot else ch"
  from fold_put [OF assms(1) _ distinct_cell_list, of ?f]
  show "board (update str s) = puzzle_of str"
    using assms(2) by (intro dims_eqI) (auto simp: update_def at_puzzle_of Let_def)
  show "\<not> solved (update str s)" using assms(2) by (simp add: update_def)
qed

lemma nth_cell_list: "in_grid c \<Longrightarrow> cell_list ! (fst c * 9 + snd c) = c"
  by (cases c) (simp add: cell_list_def product_nth)

lemma length_cell_list [simp]: "length cell_list = 81"
  by (simp add: cell_list_def)

lemma puzzle_of_result:
  assumes "dims b" "\<forall>c \<in> cells. \<exists>d < 9. at b c = dig d"
  shows "puzzle_of (map (at b) cell_list) = b"
proof (rule dims_eqI)
  fix c :: "nat \<times> nat"
  assume c: "in_grid c"
  then have "fst c * 9 + snd c < 81" by simp
  moreover have "of_char (CHR ''0'') = (48 :: int)" by simp
  then have "dig d \<noteq> CHR ''0''" if "d < 9" for d using of_char_dig [OF that] by auto
  moreover from assms(2) c have "\<exists>d < 9. at b c = dig d" by simp
  ultimately have "at b c \<noteq> CHR ''0''" by metis
  with c \<open>fst c * 9 + snd c < 81\<close> show "at (puzzle_of (map (at b) cell_list)) c = at b c"
    by (simp add: at_puzzle_of nth_cell_list Let_def)
qed (use assms(1) in simp_all)

lemma digits_and_dots: "ch \<in> set ''.0123456789'' \<Longrightarrow> ch = dot \<or> ch = CHR ''0'' \<or> (\<exists>d < 9. ch = dig d)"
proof -
  have "map dig [0..<9] = ''123456789''" by code_simp
  then have eq: "''.0123456789'' = dot # CHR ''0'' # map dig [0..<9]" by (simp only: dot_def)
  assume "ch \<in> set ''.0123456789''"
  then show ?thesis unfolding eq by auto
qed

lemma puzzle_puzzle_of:
  assumes "81 \<le> length str" "set (take 81 str) \<subseteq> set ''.0123456789''"
  shows "puzzle (puzzle_of str)"
  unfolding puzzle_def
proof (intro conjI ballI)
  fix c assume "c \<in> cells"
  then have c: "in_grid c" by simp
  let ?ch = "str ! (fst c * 9 + snd c)"
  have "?ch \<in> set (take 81 str)"
    using nth_mem [of "fst c * 9 + snd c" "take 81 str"] assms(1) c by (simp add: min_def del: nth_mem)
  from digits_and_dots [OF subsetD [OF assms(2) this]]
  show "at (puzzle_of str) c = dot \<or> (\<exists>d < 9. at (puzzle_of str) c = dig d)"
    using c by (simp only: at_puzzle_of Let_def) auto
qed simp

lemma solver_run:
  assumes "dims (board s)" "81 \<le> length str" "set (take 81 str) \<subseteq> set ''.0123456789''"
  shows "\<exists>s'. solveSudoku (update str s) = Inr s' \<and>
    (if \<exists>g. solution g str then solution (result s') str else result s' = [])"
proof -
  note b = board_update [OF assms(1,2)]
  obtain s' where s': "solveSudoku (update str s) = Inr s'" "solved s' \<longleftrightarrow> (\<exists>g. completes g (puzzle_of str))"
      "solved s' \<Longrightarrow> completes (board s') (puzzle_of str)"
    using solveSudoku_ok [of "update str s"] puzzle_puzzle_of [OF assms(2,3)] b by (auto split: if_splits)
  have str: "solution (map (at g) cell_list) str" if "completes g (puzzle_of str)" for g
    using that puzzle_of_result [of g] by (simp add: solution_def completes_def)
  have "(\<exists>g. solution g str) \<longleftrightarrow> solved s'" using s'(2) str unfolding solution_def by blast
  with s' str show ?thesis by (simp add: result_def)
qed

text \<open>
  C11: the solver is sound, complete and total: for every string of at least 81 digits and dots, whatever the
  object was used for before, \<open>solveSudoku\<close> returns without an access out of range; \<open>result\<close> is then a full
  grid without repetition that agrees with the string if there is one, and the empty string if there is none.
\<close>

theorem solver_correct:
  assumes "dims (board s)" "81 \<le> length str" "set (take 81 str) \<subseteq> set ''.0123456789''"
  shows "\<exists>s'. solveSudoku (update str s) = Inr s' \<and>
    (if \<exists>g. solution g str then solution (result s') str else result s' = [])"
  by (rule solver_run [OF assms])

lemma solver_correct_witness:
  "\<exists>s'. solveSudoku (update (replicate 80 dot @ ''7'') Sudoku_new) = Inr s' \<and>
    (if \<exists>g. solution g (replicate 80 dot @ ''7'') then solution (result s') (replicate 80 dot @ ''7'')
     else result s' = [])"
proof (rule solver_correct)
  show "dims (board Sudoku_new)" by (simp add: Sudoku_new_def blank_def dims_def)
qed (simp_all add: dot_def)

end
