(* ===== verification/SudokuServer.thy ===== *)
theory SudokuServer
  imports Sudoku Streams
begin

section \<open>The Sudoku server\<close>

text \<open>
  \<open>examples/sudoku/server.cpp\<close>: the message callback, which answers every complete line in the input buffer of
  the connection.  The variable \<open>len\<close> is read once, before the loop.
\<close>

definition kCells :: nat where
  "kCells = 81"

definition split_request :: "string \<Rightarrow> string \<times> string" where
  "split_request request =
     (let colon = find_char (CHR '':'') request in
      if colon \<noteq> length request then (take colon request, drop (colon + 1) request) else ([], request))"

definition sudoku_turn where
  "sudoku_turn tid p len s =
     with_conn p s (\<lambda>k. let buf = inputBuffer k in
       if kCells + 2 \<le> len then
         bindR (findCRLF buf) (\<lambda>crlf.
           case crlf of
             None \<Rightarrow> Inr (False, s)
           | Some c \<Rightarrow>
               bindR (read_at (peek buf) (c - peek buf) (storage buf)) (\<lambda>line.
               bindR (retrieveUntil (c + 2) buf) (\<lambda>buf1.
                 let s1 = put_conn p (k\<lparr>inputBuffer := buf1\<rparr>) s;
                     (ident, request) = split_request line in
                 if kCells \<le> length request then
                   bindR (solveSudoku (update request Sudoku_new)) (\<lambda>sudoku.
                   bindR (TcpConnection_send tid p
                            (if ident = [] then result sudoku @ kCRLF else ident @ request @ kCRLF) s1) (\<lambda>s2.
                     Inr (True, s2)))
                 else
                   bindR (TcpConnection_send tid p (''Bad Request!'' @ kCRLF) s1) (\<lambda>s2.
                   bindR (TcpConnection_shutdown tid p s2) (\<lambda>s3. Inr (True, s3))))))
       else Inr (False, s))"

definition sudoku_onMessage where
  "sudoku_onMessage tid p s =
     (case conns s p of
        None \<Rightarrow> Some (Inl DanglingPointer)
      | Some k \<Rightarrow> turns (sudoku_turn tid p (readableBytes (inputBuffer k))) s)"

subsection \<open>What the server answers\<close>

text \<open>The lines of the input, each ended by the first CRLF that follows it, and the incomplete rest.\<close>

function crlf_lines :: "string \<Rightarrow> string list \<times> string" where
  "crlf_lines xs =
     (case search kCRLF xs of
        None \<Rightarrow> ([], xs)
      | Some i \<Rightarrow> (let (ls, rest) = crlf_lines (drop (i + 2) xs) in (take i xs # ls, rest)))"
  by pat_completeness auto

termination
  by (relation "measure length") (auto dest: search_Some simp: kCRLF_def)

declare crlf_lines.simps [simp del]

lemma crlf_lines_Nil: "crlf_lines xs = ([], rest) \<Longrightarrow> search kCRLF xs = None \<and> rest = xs"
  by (subst (asm) crlf_lines.simps) (auto split: option.splits prod.splits)

lemma crlf_lines_Cons:
  assumes "crlf_lines xs = (l # ls, rest)"
  obtains i where "search kCRLF xs = Some i" "l = take i xs" "length l = i" "crlf_lines (drop (i + 2) xs) = (ls, rest)"
proof -
  obtain i where i: "search kCRLF xs = Some i" "l = take i xs" "crlf_lines (drop (i + 2) xs) = (ls, rest)"
    using assms by (subst (asm) crlf_lines.simps) (auto split: option.splits prod.splits)
  with search_Some [OF i(1)] that [of i] show thesis by simp
qed

lemma crlf_lines_text: "crlf_lines xs = (ls, rest) \<Longrightarrow> xs = concat (map (\<lambda>l. l @ kCRLF) ls) @ rest"
proof (induction ls arbitrary: xs)
  case Nil
  then show ?case using crlf_lines_Nil by fastforce
next
  case (Cons l ls)
  obtain i where i: "search kCRLF xs = Some i" "l = take i xs" "crlf_lines (drop (i + 2) xs) = (ls, rest)"
    by (rule crlf_lines_Cons [OF Cons.prems])
  have "drop i xs = kCRLF @ drop (i + 2) xs"
    using append_take_drop_id [of "length kCRLF" "drop i xs"] search_Some [OF i(1)] by (simp add: kCRLF_def add.commute)
  then have "xs = l @ kCRLF @ drop (i + 2) xs" using append_take_drop_id [of i xs] i(2) by simp
  with Cons.IH [OF i(3)] show ?case by simp
qed

text \<open>
  The replies to the lines, and whether the connection stays open: a request of less than 81 cells is called bad and the connection is shut
  down, after which nothing is sent any more, although the lines that follow are still taken out and their puzzles solved.
  What the solver fails with, the server fails with.
\<close>

definition sudoku_reply :: "string \<Rightarrow> string \<Rightarrow> sudoku \<Rightarrow> string" where
  "sudoku_reply ident request s = (if ident = [] then result s @ kCRLF else ident @ request @ kCRLF)"

definition bad_request :: string where
  "bad_request = ''Bad Request!'' @ kCRLF"

fun serve_lines :: "bool \<Rightarrow> string list \<Rightarrow> (string list \<times> bool) res" where
  "serve_lines opn [] = Inr ([], opn)"
| "serve_lines opn (l # ls) =
     (let (ident, request) = split_request l in
      if kCells \<le> length request then
        bindR (solveSudoku (update request Sudoku_new)) (\<lambda>s.
        bindR (serve_lines opn ls) (\<lambda>(outs, opn2). Inr ((if opn then [sudoku_reply ident request s] else []) @ outs, opn2)))
      else
        bindR (serve_lines False ls) (\<lambda>(outs, opn2). Inr ((if opn then [bad_request] else []) @ outs, opn2)))"

text \<open>What a client may expect: the lines that are answered, and their replies when the cells are digits and dots.\<close>

definition long_request :: "string \<Rightarrow> bool" where
  "long_request l \<longleftrightarrow> kCells \<le> length (snd (split_request l))"

definition cells_ok :: "string \<Rightarrow> bool" where
  "cells_ok l \<longleftrightarrow> (long_request l \<longrightarrow> set (take 81 (snd (split_request l))) \<subseteq> set ''.0123456789'')"

fun answered :: "string list \<Rightarrow> string list" where
  "answered [] = []"
| "answered (l # ls) = l # (if long_request l then answered ls else [])"

definition reply_ok :: "string \<Rightarrow> string \<Rightarrow> bool" where
  "reply_ok line out \<longleftrightarrow> (case split_request line of (ident, request) \<Rightarrow>
     if length request < 81 then out = ''Bad Request!'' @ kCRLF
     else if ident = [] then \<exists>r. out = r @ kCRLF \<and> (if \<exists>g. solution g request then solution r request else r = [])
     else out = ident @ request @ kCRLF)"

lemma solver_reply:
  assumes "81 \<le> length request" "set (take 81 request) \<subseteq> set ''.0123456789''"
  obtains sudoku where "solveSudoku (update request Sudoku_new) = Inr sudoku"
    "if \<exists>g. solution g request then solution (result sudoku) request else result sudoku = []"
proof -
  have "dims (board Sudoku_new)" by (simp add: Sudoku_new_def blank_def dims_def)
  from solver_run [OF this assms] that show ?thesis by blast
qed

lemma serve_lines_ok:
  "list_all cells_ok ls \<Longrightarrow> \<exists>outs. serve_lines opn ls = Inr (outs, opn \<and> list_all long_request ls) \<and>
    list_all2 reply_ok (if opn then answered ls else []) outs"
proof (induction ls arbitrary: opn)
  case (Cons l ls)
  obtain ident request where req: "split_request l = (ident, request)" by (cases "split_request l")
  show ?case
  proof (cases "long_request l")
    case True
    then have "81 \<le> length request" "set (take 81 request) \<subseteq> set ''.0123456789''"
      using Cons.prems by (simp_all add: long_request_def cells_ok_def req kCells_def)
    then obtain s where s: "solveSudoku (update request Sudoku_new) = Inr s"
      "if \<exists>g. solution g request then solution (result s) request else result s = []" by (rule solver_reply)
    then have "reply_ok l (sudoku_reply ident request s)"
      using \<open>81 \<le> _\<close> by (auto simp: reply_ok_def sudoku_reply_def req)
    with Cons.IH [of opn] Cons.prems s(1) True show ?thesis
      by (auto simp: req long_request_def simp del: set_simps)
  next
    case False
    then have "reply_ok l bad_request" by (simp add: reply_ok_def req long_request_def kCells_def bad_request_def)
    with Cons.IH [of False] Cons.prems False show ?thesis by (auto simp: req long_request_def)
  qed
qed simp

subsection \<open>The loop over the lines\<close>

lemma length_split_request: "split_request line = (ident, request) \<Longrightarrow> length ident + length request \<le> length line"
  by (auto simp: split_request_def Let_def split: if_splits)

lemma reply_length:
  "split_request line = (ident, request) \<Longrightarrow> length (sudoku_reply ident request s) \<le> length line + 83" "length bad_request \<le> length line + 83"
  using length_split_request [of line ident request]
  by (auto simp: sudoku_reply_def result_def bad_request_def kCRLF_def cell_list_def)

text \<open>The connection as the loop sees it: up, or shut down by an earlier request.\<close>

definition serving :: "int \<Rightarrow> nat \<Rightarrow> bool \<Rightarrow> connection \<Rightarrow> channel \<Rightarrow> 'm conn_state_t_scheme \<Rightarrow> bool" where
  "serving tid p u k c s \<longleftrightarrow> (if u then up tid p k c s else conn_inv p k c s \<and> conn_state k = kDisconnecting)"

lemma servingD: "serving tid p u k c s \<Longrightarrow> conn_inv p k c s" "serving tid p u k c s \<Longrightarrow> conns s p = Some k"
  by (auto simp: serving_def up_def conn_inv_def split: if_splits)

lemma serving_input:
  assumes "serving tid p u k c s"
  shows "serving tid p u (k\<lparr>inputBuffer := b\<rparr>) c (put_conn p (k\<lparr>inputBuffer := b\<rparr>) s)"
    "stream (k\<lparr>inputBuffer := b\<rparr>) (put_conn p (k\<lparr>inputBuffer := b\<rparr>) s) = stream k s"
  using assms up_input by (auto simp: serving_def conn_inv_def stream_def split: if_splits)

lemma serving_send:
  assumes "serving tid p u k c s" "writerIndex (outputBuffer k) + length msg \<le> VEC_MAX"
  obtains k' c' s' where "TcpConnection_send tid p msg s = Inr s'" "serving tid p u k' c' s'" "inputBuffer k' = inputBuffer k"
    "conn_sockfd k' = conn_sockfd k" "stream k' s' = stream k s @ (if u then msg else [])"
    "writerIndex (outputBuffer k') \<le> writerIndex (outputBuffer k) + length msg"
proof (cases u)
  case True
  with assms have "up tid p k c s \<and> writerIndex (outputBuffer k) + length msg \<le> VEC_MAX" by (simp add: serving_def)
  from sends_send [of tid p msg, unfolded sends_def, rule_format, OF this] obtain k' c' s' where s': "TcpConnection_send tid p msg s = Inr s'"
    "up tid p k' c' s'" "conn_same k k'" "stream k' s' = stream k s @ msg"
    "writerIndex (outputBuffer k') \<le> writerIndex (outputBuffer k) + length msg" by blast
  moreover have "inputBuffer k' = inputBuffer k" "conn_sockfd k' = conn_sockfd k"
    using s'(3) by (cases k; cases k'; simp add: conn_same_def)+
  ultimately show thesis using True by (intro that [of s' k' c']) (simp_all add: serving_def)
next
  case False
  then have "TcpConnection_send tid p msg s = Inr s"
    using assms(1) servingD(2) [OF assms(1)] by (simp add: TcpConnection_send_def serving_def)
  with False assms(1) show thesis by (intro that [of s k c]) simp_all
qed

lemma serving_shutdown:
  assumes "serving tid p u k c s"
  obtains k' s' where "TcpConnection_shutdown tid p s = Inr s'" "serving tid p False k' c s'" "inputBuffer k' = inputBuffer k"
    "stream k' s' = stream k s" "outputBuffer k' = outputBuffer k"
proof (cases u)
  case True
  with assms have "up tid p k c s" by (simp add: serving_def)
  from shutdown_up [OF this] obtain k' s' where s': "TcpConnection_shutdown tid p s = Inr s'" "conn_inv p k' c s'"
    "conn_state k' = kDisconnecting" "k'\<lparr>conn_state := kConnected\<rparr> = k" "stream k' s' = stream k s" by blast
  moreover have "inputBuffer k' = inputBuffer k" "outputBuffer k' = outputBuffer k" using s'(4) by (cases k; cases k'; simp)+
  ultimately show thesis by (intro that [of s' k']) (simp_all add: serving_def)
next
  case False
  then have "TcpConnection_shutdown tid p s = Inr s"
    using assms servingD(2) [OF assms] by (simp add: TcpConnection_shutdown_def serving_def)
  with False assms show thesis by (intro that [of s k]) simp_all
qed

text \<open>One turn, at a line that ends at offset \<open>i\<close>.\<close>

lemma turn_long:
  assumes sv: "serving tid p u k c s" and inv: "buffer_inv (inputBuffer k)" and i: "search kCRLF (content (inputBuffer k)) = Some i"
    and req: "split_request (take i (content (inputBuffer k))) = (ident, request)" "kCells \<le> length request" and len: "83 \<le> len"
  shows "solveSudoku (update request Sudoku_new) = Inl e \<Longrightarrow> sudoku_turn tid p len s = Inl e"
    "solveSudoku (update request Sudoku_new) = Inr sudoku \<Longrightarrow> writerIndex (outputBuffer k) + i + 83 \<le> VEC_MAX \<Longrightarrow>
      \<exists>s' k' c'. sudoku_turn tid p len s = Inr (True, s') \<and> serving tid p u k' c' s' \<and> buffer_inv (inputBuffer k') \<and>
        content (inputBuffer k') = drop (i + 2) (content (inputBuffer k)) \<and>
        stream k' s' = stream k s @ (if u then sudoku_reply ident request sudoku else []) \<and>
        writerIndex (outputBuffer k') \<le> writerIndex (outputBuffer k) + i + 83"
proof -
  obtain b where b: "findCRLF (inputBuffer k) = Inr (Some (peek (inputBuffer k) + i))"
    "read_at (peek (inputBuffer k)) i (storage (inputBuffer k)) = Inr (take i (content (inputBuffer k)))"
    "retrieveUntil (peek (inputBuffer k) + i + 2) (inputBuffer k) = Inr b" "buffer_inv b" "content b = drop (i + 2) (content (inputBuffer k))"
    by (rule crlf_in_buffer [OF inv i])
  let ?k = "k\<lparr>inputBuffer := b\<rparr>" let ?s = "put_conn p ?k s"
  note k = servingD(2) [OF sv] and sv1 = serving_input [OF sv, of b]
  have turn: "sudoku_turn tid p len s = bindR (solveSudoku (update request Sudoku_new)) (\<lambda>sudoku.
      bindR (TcpConnection_send tid p (sudoku_reply ident request sudoku) ?s) (\<lambda>s2. Inr (True, s2)))"
    using k b(1-3) req len by (simp add: sudoku_turn_def sudoku_reply_def Let_def kCells_def)
  show "sudoku_turn tid p len s = Inl e" if "solveSudoku (update request Sudoku_new) = Inl e" using turn that by simp
  assume sudoku: "solveSudoku (update request Sudoku_new) = Inr sudoku" and room: "writerIndex (outputBuffer k) + i + 83 \<le> VEC_MAX"
  have out: "length (sudoku_reply ident request sudoku) \<le> i + 83" using reply_length(1) [OF req(1), of sudoku] by simp
  then have "writerIndex (outputBuffer ?k) + length (sudoku_reply ident request sudoku) \<le> VEC_MAX" using room by simp
  then obtain k' c' s' where "TcpConnection_send tid p (sudoku_reply ident request sudoku) ?s = Inr s'" "serving tid p u k' c' s'"
    "inputBuffer k' = inputBuffer ?k" "stream k' s' = stream ?k ?s @ (if u then sudoku_reply ident request sudoku else [])"
    "writerIndex (outputBuffer k') \<le> writerIndex (outputBuffer ?k) + length (sudoku_reply ident request sudoku)"
    by (rule serving_send [OF sv1(1)])
  with turn sudoku sv1(2) b(4,5) out
  show "\<exists>s' k' c'. sudoku_turn tid p len s = Inr (True, s') \<and> serving tid p u k' c' s' \<and> buffer_inv (inputBuffer k') \<and>
        content (inputBuffer k') = drop (i + 2) (content (inputBuffer k)) \<and>
        stream k' s' = stream k s @ (if u then sudoku_reply ident request sudoku else []) \<and>
        writerIndex (outputBuffer k') \<le> writerIndex (outputBuffer k) + i + 83"
    by (intro exI [of _ s'] exI [of _ k'] exI [of _ c']) simp
qed

lemma turn_short:
  assumes sv: "serving tid p u k c s" and inv: "buffer_inv (inputBuffer k)" and i: "search kCRLF (content (inputBuffer k)) = Some i"
    and req: "split_request (take i (content (inputBuffer k))) = (ident, request)" "\<not> kCells \<le> length request" and len: "83 \<le> len"
    and room: "writerIndex (outputBuffer k) + i + 83 \<le> VEC_MAX"
  shows "\<exists>s' k' c'. sudoku_turn tid p len s = Inr (True, s') \<and> serving tid p False k' c' s' \<and> buffer_inv (inputBuffer k') \<and>
        content (inputBuffer k') = drop (i + 2) (content (inputBuffer k)) \<and>
        stream k' s' = stream k s @ (if u then bad_request else []) \<and>
        writerIndex (outputBuffer k') \<le> writerIndex (outputBuffer k) + i + 83"
proof -
  obtain b where b: "findCRLF (inputBuffer k) = Inr (Some (peek (inputBuffer k) + i))"
    "read_at (peek (inputBuffer k)) i (storage (inputBuffer k)) = Inr (take i (content (inputBuffer k)))"
    "retrieveUntil (peek (inputBuffer k) + i + 2) (inputBuffer k) = Inr b" "buffer_inv b" "content b = drop (i + 2) (content (inputBuffer k))"
    by (rule crlf_in_buffer [OF inv i])
  let ?k = "k\<lparr>inputBuffer := b\<rparr>" let ?s = "put_conn p ?k s"
  note k = servingD(2) [OF sv] and sv1 = serving_input [OF sv, of b]
  have n: "length bad_request \<le> i + 83" by (simp add: bad_request_def kCRLF_def)
  then have "writerIndex (outputBuffer ?k) + length bad_request \<le> VEC_MAX" using room by simp
  then obtain k2 c2 s2 where s2: "TcpConnection_send tid p bad_request ?s = Inr s2" "serving tid p u k2 c2 s2" "inputBuffer k2 = inputBuffer ?k"
    "stream k2 s2 = stream ?k ?s @ (if u then bad_request else [])" "writerIndex (outputBuffer k2) \<le> writerIndex (outputBuffer ?k) + length bad_request"
    by (rule serving_send [OF sv1(1)])
  obtain k3 s3 where s3: "TcpConnection_shutdown tid p s2 = Inr s3" "serving tid p False k3 c2 s3" "inputBuffer k3 = inputBuffer k2"
    "stream k3 s3 = stream k2 s2" "outputBuffer k3 = outputBuffer k2" by (rule serving_shutdown [OF s2(2)])
  have "sudoku_turn tid p len s = Inr (True, s3)"
    using k b(1-3) req len s2(1) s3(1) by (simp add: sudoku_turn_def bad_request_def Let_def kCells_def)
  with s2(3-5) s3(2-5) sv1(2) b(4,5) n show ?thesis by (intro exI [of _ s3] exI [of _ k3] exI [of _ c2]) simp
qed

lemma turns_lines:
  assumes "serving tid p u k c s" "buffer_inv (inputBuffer k)" "crlf_lines (content (inputBuffer k)) = (ls, rest)" "83 \<le> len"
    "writerIndex (outputBuffer k) + (\<Sum>l\<leftarrow>ls. length l + 83) \<le> VEC_MAX"
  shows "case serve_lines u ls of
      Inl e \<Rightarrow> turns (sudoku_turn tid p len) s = Some (Inl e)
    | Inr (outs, u') \<Rightarrow> \<exists>s' k' c'. turns (sudoku_turn tid p len) s = Some (Inr s') \<and> serving tid p u' k' c' s' \<and>
        content (inputBuffer k') = rest \<and> stream k' s' = stream k s @ concat outs"
  using assms
proof (induction ls arbitrary: u k c s)
  case Nil
  then have "search kCRLF (content (inputBuffer k)) = None" "rest = content (inputBuffer k)" using crlf_lines_Nil by blast+
  moreover from this(1) have "sudoku_turn tid p len s = Inr (False, s)"
    using Nil.prems(2) servingD(2) [OF Nil.prems(1)] by (simp add: sudoku_turn_def findCRLF_eq Let_def)
  ultimately show ?case using Nil.prems(1) by (auto simp: turns.simps)
next
  case (Cons l ls)
  obtain i where i: "search kCRLF (content (inputBuffer k)) = Some i" "l = take i (content (inputBuffer k))" "length l = i"
    "crlf_lines (drop (i + 2) (content (inputBuffer k))) = (ls, rest)" by (rule crlf_lines_Cons [OF Cons.prems(3)])
  obtain ident request where req: "split_request l = (ident, request)" by (cases "split_request l")
  have room: "writerIndex (outputBuffer k) + i + 83 \<le> VEC_MAX" using Cons.prems(5) i(3) by simp
  have next_turn: "case serve_lines u1 ls of
        Inl e \<Rightarrow> turns (sudoku_turn tid p len) s = Some (Inl e)
      | Inr (outs, u') \<Rightarrow> \<exists>s' k' c'. turns (sudoku_turn tid p len) s = Some (Inr s') \<and> serving tid p u' k' c' s' \<and>
          content (inputBuffer k') = rest \<and> stream k' s' = stream k s @ out @ concat outs"
    if t: "sudoku_turn tid p len s = Inr (True, s1)" "serving tid p u1 k1 c1 s1" "buffer_inv (inputBuffer k1)"
      "content (inputBuffer k1) = drop (i + 2) (content (inputBuffer k))" "stream k1 s1 = stream k s @ out"
      "writerIndex (outputBuffer k1) \<le> writerIndex (outputBuffer k) + i + 83" for s1 k1 c1 u1 out
  proof -
    have "turns (sudoku_turn tid p len) s = turns (sudoku_turn tid p len) s1" using t(1) by (simp add: turns.simps [of _ s])
    moreover have "crlf_lines (content (inputBuffer k1)) = (ls, rest)" "writerIndex (outputBuffer k1) + (\<Sum>l\<leftarrow>ls. length l + 83) \<le> VEC_MAX"
      using i(3,4) t(4,6) Cons.prems(5) by simp_all
    ultimately show ?thesis using Cons.IH [OF t(2,3) _ Cons.prems(4)] t(5) by (simp split: sum.splits prod.splits)
  qed
  show ?case
  proof (cases "kCells \<le> length request")
    case True
    note long = turn_long [OF Cons.prems(1,2) i(1) req [unfolded i(2)] True Cons.prems(4)]
    show ?thesis
    proof (cases "solveSudoku (update request Sudoku_new)")
      case (Inl e)
      with long(1) [OF Inl] req True show ?thesis by (simp add: turns.simps [of _ s])
    next
      case (Inr sudoku)
      obtain s1 k1 c1 where t: "sudoku_turn tid p len s = Inr (True, s1)" "serving tid p u k1 c1 s1" "buffer_inv (inputBuffer k1)"
        "content (inputBuffer k1) = drop (i + 2) (content (inputBuffer k))"
        "stream k1 s1 = stream k s @ (if u then sudoku_reply ident request sudoku else [])"
        "writerIndex (outputBuffer k1) \<le> writerIndex (outputBuffer k) + i + 83" using long(2) [OF Inr room] by blast
      from next_turn [OF t] req True Inr show ?thesis by (cases "serve_lines u ls") (auto split: if_splits, blast+)
    qed
  next
    case False
    obtain s1 k1 c1 where t: "sudoku_turn tid p len s = Inr (True, s1)" "serving tid p False k1 c1 s1" "buffer_inv (inputBuffer k1)"
      "content (inputBuffer k1) = drop (i + 2) (content (inputBuffer k))" "stream k1 s1 = stream k s @ (if u then bad_request else [])"
      "writerIndex (outputBuffer k1) \<le> writerIndex (outputBuffer k) + i + 83"
      using turn_short [OF Cons.prems(1,2) i(1) req [unfolded i(2)] False Cons.prems(4) room] by blast
    from next_turn [OF t] req False show ?thesis by (cases "serve_lines False ls") (auto split: if_splits, blast+)
  qed
qed

text \<open>
  C19: What the server does with any input on a connection that is up and whose output buffer has room for the replies.  With less than 83 bytes in the buffer nothing
  happens, even for a complete line.  Otherwise it goes through all complete lines and leaves the
  incomplete rest in the buffer, and the replies join the bytes of the connection in the order of the requests: the first request of less than
  81 cells gets \<open>Bad Request!\<close> and the connection is shut down, and nothing is sent for the lines behind it; if the solver fails on a
  puzzle the server does.  When the cells of all puzzles are digits and dots it does not fail, and the reply
  to a line without an identifier is a solution, or an empty line when there is none; the reply to a line with
  an identifier is only the identifier followed by the request itself.
\<close>

theorem sudoku_server_answers:
  assumes "up tid p k c s" "buffer_inv (inputBuffer k)" "crlf_lines (content (inputBuffer k)) = (ls, rest)"
    and "writerIndex (outputBuffer k) + (\<Sum>l\<leftarrow>ls. length l + 83) \<le> VEC_MAX"
  shows "(if length (content (inputBuffer k)) < 83 then sudoku_onMessage tid p s = Some (Inr s)
    else case serve_lines True ls of
        Inl e \<Rightarrow> sudoku_onMessage tid p s = Some (Inl e)
      | Inr (outs, u) \<Rightarrow> \<exists>s' k' c'. sudoku_onMessage tid p s = Some (Inr s') \<and> conn_inv p k' c' s' \<and>
          conn_state k' = (if u then kConnected else kDisconnecting) \<and>
          content (inputBuffer k') = rest \<and> stream k' s' = stream k s @ concat outs) \<and>
    (list_all cells_ok ls \<longrightarrow> (\<exists>outs. serve_lines True ls = Inr (outs, list_all long_request ls) \<and> list_all2 reply_ok (answered ls) outs))"
proof (intro conjI impI)
  show "\<exists>outs. serve_lines True ls = Inr (outs, list_all long_request ls) \<and> list_all2 reply_ok (answered ls) outs" if "list_all cells_ok ls"
    using serve_lines_ok [OF that, of True] by simp
  have k: "conns s p = Some k" and sv: "serving tid p True k c s" using assms(1) by (simp_all add: up_def conn_inv_def serving_def)
  have len: "readableBytes (inputBuffer k) = length (content (inputBuffer k))" using assms(2) by (simp del: length_content)
  show "if length (content (inputBuffer k)) < 83 then sudoku_onMessage tid p s = Some (Inr s)
    else case serve_lines True ls of
        Inl e \<Rightarrow> sudoku_onMessage tid p s = Some (Inl e)
      | Inr (outs, u) \<Rightarrow> \<exists>s' k' c'. sudoku_onMessage tid p s = Some (Inr s') \<and> conn_inv p k' c' s' \<and>
          conn_state k' = (if u then kConnected else kDisconnecting) \<and>
          content (inputBuffer k') = rest \<and> stream k' s' = stream k s @ concat outs"
  proof (cases "length (content (inputBuffer k)) < 83")
    case True
    moreover have "sudoku_turn tid p n s = Inr (False, s)" if "n < 83" for n
      using k that by (simp add: sudoku_turn_def kCells_def Let_def)
    ultimately show ?thesis using k len by (simp add: sudoku_onMessage_def turns.simps del: length_content)
  next
    case False
    have sv': "conn_inv p k' c' s' \<and> conn_state k' = (if u then kConnected else kDisconnecting)" if "serving tid p u k' c' s'" for u k' c' s'
      using that by (auto simp: serving_def up_def split: if_splits)
    have run: "sudoku_onMessage tid p s = turns (sudoku_turn tid p (length (content (inputBuffer k)))) s"
      using k len by (simp add: sudoku_onMessage_def del: length_content)
    have "83 \<le> length (content (inputBuffer k))" using False by simp
    note served = turns_lines [OF sv assms(2,3) this assms(4), folded run]
    show ?thesis
    proof (cases "serve_lines True ls")
      case (Inl e)
      with served False show ?thesis by simp
    next
      case (Inr r)
      obtain outs u where r: "r = (outs, u)" by (cases r)
      from served Inr r obtain s' k' c' where "sudoku_onMessage tid p s = Some (Inr s')" "serving tid p u k' c' s'"
        "content (inputBuffer k') = rest" "stream k' s' = stream k s @ concat outs" by auto
      with sv' [OF this(2)] False Inr r show ?thesis by auto
    qed
  qed
qed

definition ss_line :: string where
  "ss_line = ''7'' @ replicate 80 dot"

text \<open>A puzzle, a request with an identifier, one that is too short, and one more behind it.\<close>

theorem sudoku_server_answers_witness:
  "\<exists>b outs s' k' c'. content b = ss_line @ kCRLF @ ''12:'' @ ss_line @ kCRLF @ ''3'' @ kCRLF @ ss_line @ kCRLF @ ''5.'' \<and>
     sudoku_onMessage 1 1 (put_conn 1 ((cn_demo_conn kConnected Buffer_new)\<lparr>inputBuffer := b\<rparr>) (cn_demo kConnected)) = Some (Inr s') \<and>
     conn_inv 1 k' c' s' \<and> conn_state k' = kDisconnecting \<and> content (inputBuffer k') = ''5.'' \<and> stream k' s' = concat outs \<and>
     list_all2 reply_ok [ss_line, ''12:'' @ ss_line, ''3''] outs"
proof -
  let ?ls = "[ss_line, ''12:'' @ ss_line, ''3'', ss_line]"
  let ?text = "ss_line @ kCRLF @ ''12:'' @ ss_line @ kCRLF @ ''3'' @ kCRLF @ ss_line @ kCRLF @ ''5.''"
  have n: "length ss_line = 81" by (simp add: ss_line_def)
  have "length ?text \<le> 1000" by (simp add: n kCRLF_def)
  then obtain b where b: "buffer_inv b" "content b = ?text" by (rule buffer_with)
  let ?k = "(cn_demo_conn kConnected Buffer_new)\<lparr>inputBuffer := b\<rparr>" let ?s = "put_conn 1 ?k (cn_demo kConnected)"
  note up = up_input [OF cn_demo_up, of b]
  have set: "set ss_line = {CHR ''7'', dot}" by (simp add: ss_line_def)
  then have col: "CHR '':'' \<notin> set ss_line" "CR \<notin> set ss_line" by (simp_all add: dot_def)
  have lines: "crlf_lines (l @ kCRLF @ xs) = (l # fst (crlf_lines xs), snd (crlf_lines xs))" if "CR \<notin> set l" for l xs
    using search_line [OF that, of xs] by (subst crlf_lines.simps) (simp add: kCRLF_def split: prod.splits)
  have "crlf_lines ''5.'' = ([], ''5.'')" by (simp add: crlf_lines.simps kCRLF_def)
  moreover have "CR \<notin> set (''12:'' @ ss_line)" "CR \<notin> set ''3''" using col(2) by simp_all
  ultimately have split: "crlf_lines (content (inputBuffer ?k)) = (?ls, ''5.'')"
    using lines [OF col(2)] lines [of "''12:'' @ ss_line"] lines [of "''3''"] b(2) by simp
  have "split_request ss_line = ([], ss_line)" "split_request (''12:'' @ ss_line) = (''12'', ss_line)" "split_request ''3'' = ([], ''3'')"
    using col(1) by (simp_all add: split_request_def find_char_eq_length_iff Let_def)
  then have req: "long_request ss_line" "long_request (''12:'' @ ss_line)" "\<not> long_request ''3''" "list_all cells_ok ?ls"
    using n set by (simp_all add: long_request_def cells_ok_def kCells_def dot_def)
  have room: "writerIndex (outputBuffer ?k) + (\<Sum>l\<leftarrow>?ls. length l + 83) \<le> VEC_MAX" by (simp add: n cn_demo_conn_def)
  have "stream ?k ?s = []" by (simp add: stream_def put_conn_def cn_demo_defs)
  moreover have "content (inputBuffer ?k) = ?text" using b(2) by simp
  then have "\<not> length (content (inputBuffer ?k)) < 83" by (simp only:) (simp add: n)
  moreover have "answered ?ls = [ss_line, ''12:'' @ ss_line, ''3'']" "\<not> list_all long_request ?ls" using req by simp_all
  ultimately obtain outs s' k' c' where "sudoku_onMessage 1 1 ?s = Some (Inr s')" "conn_inv 1 k' c' s'" "conn_state k' = kDisconnecting"
    "content (inputBuffer k') = ''5.''" "stream k' s' = concat outs" "list_all2 reply_ok [ss_line, ''12:'' @ ss_line, ''3''] outs"
    using sudoku_server_answers [OF up(1) _ split room] b(1) req(4) by auto
  with b(2) show ?thesis by (metis (no_types, lifting))
qed

end
