(* ===== verification/Codec.thy ===== *)
theory Codec
  imports Streams
begin

section \<open>ProtobufCodecLite\<close>

text \<open>
  \<open>examples/protobuf/ProtobufCodecLite.h\<close> and \<open>ProtobufCodecLite.cpp\<close>: messages in frames of a length, a tag, the
  serialised message and a checksum.  What the protobuf library does with a message is the argument \<open>P\<close>, and
  \<open>adler32\<close> of zlib the argument \<open>adler\<close>.  The input buffer is that of the connection; callbacks are numbers
  that the arguments \<open>rawcall\<close>, \<open>mcall\<close> and \<open>ecall\<close> interpret.  \<open>parse\<close> computes its result but has no return
  statement: its body is \<open>parse_body\<close>, and its value is the error \<open>NoReturnValue\<close>.
\<close>

datatype ErrorCode = kNoError | kInvalidLengeth | kCheckSumError | kInvalidNameLen | kUnkownMessageType | kParseError

definition kHeaderLen :: int where "kHeaderLen = 4"
definition kChecksumLen :: int where "kChecksumLen = 4"
definition kMaxMessageLen :: int where "kMaxMessageLen = 64 * 1024 * 1024"

text \<open>
  \<open>IsInitialized\<close>, \<open>ByteSizeLong\<close>, \<open>SerializeWithCachedSizesToArray\<close>, \<open>ParseFromArray\<close>, \<open>GetTypeName\<close> and
  \<open>InitializationErrorString\<close>.
\<close>

record 'msg proto =
  IsInitialized :: "'msg \<Rightarrow> bool"
  ByteSizeLong :: "'msg \<Rightarrow> nat"
  SerializeToArray :: "'msg \<Rightarrow> string"
  ParseFromArray :: "string \<Rightarrow> 'msg option"
  GetTypeName :: "'msg \<Rightarrow> string"
  InitializationErrorString :: "'msg \<Rightarrow> string"

datatype error_cb = DefaultErrorCallback | CodecErrorCb nat

record codec =
  codec_tag :: string
  codec_messageCallback :: nat
  codec_rawCb :: "nat option"
  codec_errorCallback :: error_cb
  kMinMessageLen :: int

text \<open>The constructor does not store its argument \<open>rawCb\<close>.\<close>

definition Codec_new :: "string \<Rightarrow> nat \<Rightarrow> nat option \<Rightarrow> error_cb \<Rightarrow> codec" where
  "Codec_new tagArg messageCb rawCb errorCb =
     \<lparr>codec_tag = tagArg, codec_messageCallback = messageCb, codec_rawCb = None, codec_errorCallback = errorCb,
      kMinMessageLen = int (length tagArg) + kChecksumLen\<rparr>"

definition checksum :: "(32 word \<Rightarrow> string \<Rightarrow> 32 word) \<Rightarrow> string \<Rightarrow> 32 word" where
  "checksum adler buf = adler 1 buf"

text \<open>\<open>n\<close> bytes from the address \<open>pos\<close> of the storage on.\<close>

definition ptr_read :: "int \<Rightarrow> int \<Rightarrow> string \<Rightarrow> string res" where
  "ptr_read pos n st = (if 0 \<le> pos \<and> 0 \<le> n then read_at (nat pos) (nat n) st else Inl OutOfBounds)"

definition asInt32 :: "bool \<Rightarrow> int \<Rightarrow> string \<Rightarrow> 32 word res" where
  "asInt32 le pos st = bindR (ptr_read pos 4 st) (\<lambda>be32. Inr (networkToHost32 le (of_mem le be32)))"

definition validateChecksum :: "(32 word \<Rightarrow> string \<Rightarrow> 32 word) \<Rightarrow> bool \<Rightarrow> int \<Rightarrow> int \<Rightarrow> string \<Rightarrow> bool res" where
  "validateChecksum adler le pos len st =
     bindR (asInt32 le (pos + len - kChecksumLen) st) (\<lambda>expectedCheckSum.
     bindR (ptr_read pos (len - kChecksumLen) st) (\<lambda>buf.
       Inr (checksum adler buf = expectedCheckSum)))"

definition parseFromBuffer :: "'msg proto \<Rightarrow> string \<Rightarrow> 'msg option" where
  "parseFromBuffer P buf = ParseFromArray P buf"

definition parse_body ::
    "'msg proto \<Rightarrow> (32 word \<Rightarrow> string \<Rightarrow> 32 word) \<Rightarrow> bool \<Rightarrow> codec \<Rightarrow> int \<Rightarrow> int \<Rightarrow> string \<Rightarrow> (ErrorCode \<times> 'msg option) res" where
  "parse_body P adler le cd pos len st =
     bindR (validateChecksum adler le pos len st) (\<lambda>valid.
       if valid then
         bindR (ptr_read pos (int (length (codec_tag cd))) st) (\<lambda>t.
           if t = codec_tag cd then
             let dataLen = len - kChecksumLen - int (length (codec_tag cd)) in
             bindR (ptr_read (pos + int (length (codec_tag cd))) dataLen st) (\<lambda>data.
               case parseFromBuffer P data of
                 Some m \<Rightarrow> Inr (kNoError, Some m)
               | None \<Rightarrow> Inr (kParseError, None))
           else Inr (kUnkownMessageType, None))
       else Inr (kNoError, None))"

definition parse ::
    "'msg proto \<Rightarrow> (32 word \<Rightarrow> string \<Rightarrow> 32 word) \<Rightarrow> bool \<Rightarrow> codec \<Rightarrow> int \<Rightarrow> int \<Rightarrow> string \<Rightarrow> (ErrorCode \<times> 'msg option) res" where
  "parse P adler le cd pos len st = bindR (parse_body P adler le cd pos len st) (\<lambda>_. Inl NoReturnValue)"

definition ByteSizeConsistencyError :: "int \<Rightarrow> int \<Rightarrow> int \<Rightarrow> 'a res" where
  "ByteSizeConsistencyError byte_size_before byte_size_after bytes_produced =
     check (byte_size_before = byte_size_after) ''byte_size_before_serialization == byte_size_after_serialization''
       (check (bytes_produced = byte_size_before) ''bytes_produced_by_serialization == byte_size_before_serialization''
         (Inl (AssertFailed ''This shouldn't be called if all the sizes are equal.'')))"

definition InitializationErrorMessage :: "'msg proto \<Rightarrow> string \<Rightarrow> 'msg \<Rightarrow> string" where
  "InitializationErrorMessage P action message =
     (let result = []; result = result @ ''Can't ''; result = result @ action; result = result @ '' message of type \"'';
          result = result @ GetTypeName P message; result = result @ ''\" because it is missing required fields: '' in
      result @ InitializationErrorString P message)"

definition serializeToBuffer :: "'msg proto \<Rightarrow> 'msg \<Rightarrow> buffer \<Rightarrow> (int \<times> buffer) res" where
  "serializeToBuffer P message buf =
     check (IsInitialized P message) (InitializationErrorMessage P ''serialize'' message)
       (let byte_size = int (ByteSizeLong P message) in
        bindR (ensureWritableBytes (nat (byte_size + kChecksumLen)) buf) (\<lambda>buf1.
        bindR (write_at (beginWrite buf1) (SerializeToArray P message) (storage buf1)) (\<lambda>st.
        bindR (if int (length (SerializeToArray P message)) \<noteq> byte_size
               then ByteSizeConsistencyError byte_size (int (ByteSizeLong P message))
                      (int (length (SerializeToArray P message)))
               else Inr ()) (\<lambda>_.
          Inr (byte_size, hasWritten (nat byte_size) (buf1\<lparr>storage := st\<rparr>))))))"

definition fillEmptyBuffer ::
    "'msg proto \<Rightarrow> (32 word \<Rightarrow> string \<Rightarrow> 32 word) \<Rightarrow> bool \<Rightarrow> codec \<Rightarrow> 'msg \<Rightarrow> buffer \<Rightarrow> buffer res" where
  "fillEmptyBuffer P adler le cd message buf =
     check (readableBytes buf = 0) ''buf->readableBytes() == 0''
       (bindR (append_buf (codec_tag cd) buf) (\<lambda>b1.
        bindR (serializeToBuffer P message b1) (\<lambda>(byte_size, b2).
        bindR (read_at (peek b2) (readableBytes b2) (storage b2)) (\<lambda>bytes.
        bindR (appendInt32 le (checksum adler bytes) b2) (\<lambda>b3.
          check (int (readableBytes b3) = int (length (codec_tag cd)) + byte_size + kChecksumLen)
            ''buf->readableBytes() == tag_.size() + byte_size + kChecksumLen''
            (let len = hostToNetwork32 le (word_of_nat (readableBytes b3)) in
             prepend (to_mem le 4 len) b3))))))"

definition codec_send where
  "codec_send P adler le cd tid p message s =
     bindR (fillEmptyBuffer P adler le cd message Buffer_new) (\<lambda>buf.
     bindR (TcpConnection_sendBuffer tid p buf s) (\<lambda>(_, s1). Inr s1))"

fun errorCodeToString :: "ErrorCode \<Rightarrow> string" where
  "errorCodeToString kNoError = ''NoError''"
| "errorCodeToString kInvalidLengeth = ''InvalidLength''"
| "errorCodeToString kCheckSumError = ''CheckSumError''"
| "errorCodeToString kInvalidNameLen = ''InvalidNameLen''"
| "errorCodeToString kUnkownMessageType = ''UnknownMessageType''"
| "errorCodeToString kParseError = ''ParseError''"

definition defaultErrorCallback where
  "defaultErrorCallback tid p s =
     with_conn p s (\<lambda>k. if connected k then TcpConnection_shutdown tid p s else Inr s)"

definition call_error where
  "call_error ecall cd tid p receiveTime err s =
     (case codec_errorCallback cd of
        DefaultErrorCallback \<Rightarrow> defaultErrorCallback tid p s
      | CodecErrorCb cb \<Rightarrow> ecall cb p receiveTime err s)"

text \<open>\<open>onMessage\<close>: one turn of the loop, which says whether the loop goes on, and the loop.\<close>

definition retrieveInput where
  "retrieveInput n p s =
     with_conn p s (\<lambda>k. bindR (retrieve n (inputBuffer k)) (\<lambda>buf. Inr (put_conn p (k\<lparr>inputBuffer := buf\<rparr>) s)))"

definition message_turn where
  "message_turn P adler le rawcall mcall ecall cd tid p receiveTime s =
     with_conn p s (\<lambda>k. let buf = inputBuffer k in
       if nat (kMaxMessageLen + kHeaderLen) \<le> readableBytes buf then
         bindR (peekInt32 le buf) (\<lambda>w. let len = sint w in
           if kMaxMessageLen < len \<or> len < kMinMessageLen cd then
             bindR (call_error ecall cd tid p receiveTime kInvalidLengeth s) (\<lambda>s1. Inr (False, s1))
           else if nat (kHeaderLen + len) \<le> readableBytes buf then
             bindR (case codec_rawCb cd of
                      None \<Rightarrow> Inr (True, s)
                    | Some cb \<Rightarrow>
                        bindR (ptr_read (int (peek buf)) (kHeaderLen + len) (storage buf)) (\<lambda>str.
                          rawcall cb p str receiveTime s)) (\<lambda>(go, s1).
               if \<not> go then bindR (retrieveInput (nat (kHeaderLen + len)) p s1) (\<lambda>s2. Inr (True, s2))
               else
                 with_conn p s1 (\<lambda>k1.
                 bindR (parse P adler le cd (int (peek (inputBuffer k1)) + kHeaderLen) len (storage (inputBuffer k1)))
                   (\<lambda>(errorCode, message).
                     if errorCode = kNoError then
                       bindR (mcall (codec_messageCallback cd) p message receiveTime s1) (\<lambda>s2.
                       bindR (retrieveInput (nat (kHeaderLen + len)) p s2) (\<lambda>s3. Inr (True, s3)))
                     else
                       bindR (call_error ecall cd tid p receiveTime errorCode s1) (\<lambda>s2. Inr (False, s2)))))
           else Inr (False, s))
       else Inr (False, s))"

definition codec_onMessage where
  "codec_onMessage P adler le rawcall mcall ecall cd tid p receiveTime s =
     turns (message_turn P adler le rawcall mcall ecall cd tid p receiveTime) s"

subsection \<open>Writing a frame\<close>

definition be32 :: "32 word \<Rightarrow> string" where
  "be32 w = rev (le_bytes 4 (unat w))"

definition frame :: "(32 word \<Rightarrow> string \<Rightarrow> 32 word) \<Rightarrow> string \<Rightarrow> string \<Rightarrow> string" where
  "frame adler t data = be32 (word_of_nat (length (t @ data) + 4)) @ t @ data @ be32 (checksum adler (t @ data))"

lemma length_be32 [simp]: "length (be32 w) = 4"
  by (simp add: be32_def)

lemma length_frame [simp]: "length (frame adler t data) = length t + length data + 8"
  by (simp add: frame_def)

lemma of_mem_be32 [simp]: "of_mem False (be32 w) = w"
  using of_mem_to_mem [where n = 4 and w = w and le = False] by (simp add: to_mem_def be32_def)

lemma ensureWritableBytes_readerIndex:
  "ensureWritableBytes n b = Inr b' \<Longrightarrow> kCheapPrepend \<le> readerIndex b \<Longrightarrow> kCheapPrepend \<le> readerIndex b'"
  by (auto simp: ensureWritableBytes_def res_simps split: if_splits dest: makeSpace_readerIndex)

lemma serializeToBuffer_ok:
  assumes "buffer_inv b" "IsInitialized P m" "ByteSizeLong P m = length (SerializeToArray P m)"
    and room: "writerIndex b + length (SerializeToArray P m) + 4 \<le> VEC_MAX"
  shows "\<exists>b'. serializeToBuffer P m b = Inr (int (length (SerializeToArray P m)), b') \<and> buffer_inv b' \<and>
    content b' = content b @ SerializeToArray P m \<and> writerIndex b' \<le> writerIndex b + length (SerializeToArray P m) \<and>
    (kCheapPrepend \<le> readerIndex b \<longrightarrow> kCheapPrepend \<le> readerIndex b')"
proof -
  let ?data = "SerializeToArray P m"
  have "writerIndex b + (length ?data + 4) \<le> VEC_MAX" using room by simp
  from ensureWritableBytes_ok [OF assms(1) this] obtain b1 where b1:
    "ensureWritableBytes (length ?data + 4) b = Inr b1" "buffer_inv b1" "content b1 = content b"
    "length ?data + 4 \<le> writableBytes b1" "writerIndex b1 \<le> writerIndex b" by blast
  then have "writerIndex b1 + length ?data \<le> VEC_MAX" using room by simp
  from append_buf_ok [OF b1(2) this] obtain b' where b': "append_buf ?data b1 = Inr b'" "buffer_inv b'"
    "content b' = content b1 @ ?data" "writerIndex b' \<le> writerIndex b1 + length ?data" by blast
  have "ensureWritableBytes (length ?data) b1 = Inr b1"
    using b1(4) by (simp add: ensureWritableBytes_def del: writableBytes_eq)
  moreover have "nat (int (length ?data) + kChecksumLen) = length ?data + 4" by (simp add: kChecksumLen_def)
  ultimately have "serializeToBuffer P m b = Inr (int (length ?data), b')"
    using b1(1) b'(1) assms(2,3)
    by (auto simp: serializeToBuffer_def append_buf_def res_simps Let_def)
  moreover have "kCheapPrepend \<le> readerIndex b'" if "kCheapPrepend \<le> readerIndex b"
    using append_readerIndex [OF b'(1) ensureWritableBytes_readerIndex [OF b1(1) that]] .
  ultimately show ?thesis using b1(3,5) b'(2,3,4) by (intro exI [of _ b']) simp
qed

lemma appendInt32_readerIndex:
  "appendInt32 le x b = Inr b' \<Longrightarrow> kCheapPrepend \<le> readerIndex b \<Longrightarrow> kCheapPrepend \<le> readerIndex b'"
  unfolding appendInt32_def by (rule append_readerIndex)

lemma fillEmptyBuffer_ok:
  assumes "IsInitialized P m" "ByteSizeLong P m = length (SerializeToArray P m)"
    and room: "length (codec_tag cd) + length (SerializeToArray P m) + 16 \<le> VEC_MAX"
  shows "\<exists>b'. fillEmptyBuffer P adler le cd m Buffer_new = Inr b' \<and> buffer_inv b' \<and>
    content b' = frame adler (codec_tag cd) (SerializeToArray P m)"
proof -
  let ?t = "codec_tag cd" and ?data = "SerializeToArray P m"
  obtain b1 where b1: "append_buf ?t Buffer_new = Inr b1" "buffer_inv b1" "content b1 = ?t" "writerIndex b1 \<le> 8 + length ?t"
    using append_buf_ok [OF buffer_inv_new, of ?t] room by auto
  have "writerIndex b1 + length ?data + 4 \<le> VEC_MAX" using b1(4) room by simp
  from serializeToBuffer_ok [OF b1(2) assms(1,2) this] obtain b2 where b2:
    "serializeToBuffer P m b1 = Inr (int (length ?data), b2)" "buffer_inv b2" "content b2 = ?t @ ?data"
    "writerIndex b2 \<le> writerIndex b1 + length ?data" "kCheapPrepend \<le> readerIndex b1 \<Longrightarrow> kCheapPrepend \<le> readerIndex b2"
    unfolding b1(3) by blast
  have "writerIndex b2 + 4 \<le> VEC_MAX" using b1(4) b2(4) room by simp
  from appendInt32_ok [OF b2(2) this, of le "checksum adler (?t @ ?data)"] obtain b3 where b3:
    "appendInt32 le (checksum adler (?t @ ?data)) b2 = Inr b3" "buffer_inv b3"
    "content b3 = ?t @ ?data @ be32 (checksum adler (?t @ ?data))" unfolding b2(3) be32_def by auto
  have "kCheapPrepend \<le> readerIndex b3"
    using append_readerIndex [OF b1(1)] b2(5) appendInt32_readerIndex [OF b3(1)] by (simp add: buffer_consts)
  then have "4 \<le> readerIndex b3" by (simp add: buffer_consts)
  with prepend_ok [OF b3(2), of "be32 (word_of_nat (length (content b3)))"] obtain b' where b':
    "prepend (be32 (word_of_nat (length (content b3)))) b3 = Inr b'" "buffer_inv b'"
    "content b' = be32 (word_of_nat (length (content b3))) @ content b3" by auto
  have "readableBytes b2 = length (content b2)" "read_at (peek b2) (length (content b2)) (storage b2) = Inr (content b2)"
    using take_4_content [OF b2(2), of "length (content b2)"] b2(2) by (simp_all del: length_content)
  moreover have "readableBytes b3 = length (content b3)" using b3(2) by (simp del: length_content)
  moreover have "readableBytes Buffer_new = 0" using buffer_inv_new by (simp del: length_content)
  ultimately have "fillEmptyBuffer P adler le cd m Buffer_new = Inr b'"
    using b1(1) b2(1,3) b3(1,3) b'(1)
    by (simp add: fillEmptyBuffer_def to_mem_hostToNetwork32 be32_def [symmetric] kChecksumLen_def del: length_content)
  moreover have "content b' = frame adler ?t ?data"
    unfolding b'(3) b3(3) frame_def by (simp add: add.commute add.left_commute)
  ultimately show ?thesis using b'(2) by blast
qed

subsection \<open>Reading a frame\<close>

lemma ptr_read_content:
  assumes "buffer_inv c" "i + n \<le> length (content c)"
  shows "ptr_read (int (peek c) + int i) (int n) (storage c) = Inr (take n (drop i (content c)))"
proof -
  have len: "readerIndex c + i + n \<le> writerIndex c" using assms buffer_invD [OF assms(1)] by simp
  then have "readerIndex c + i + n \<le> length (storage c)" using buffer_invD [OF assms(1)] by simp
  with len show ?thesis
    by (simp add: ptr_read_def nat_add_distrib peek_def read_at_def content_def drop_take min_def add.commute)
qed

lemma parse_body_frame:
  assumes "buffer_inv c" "content c = frame adler (codec_tag cd) data @ rest"
  shows "parse_body P adler le cd (int (peek c) + kHeaderLen) (int (length (codec_tag cd) + length data + 4)) (storage c) =
    Inr (case ParseFromArray P data of None \<Rightarrow> (kParseError, None) | Some m \<Rightarrow> (kNoError, Some m))"
proof -
  let ?t = "codec_tag cd" let ?st = "storage c" let ?pos = "int (peek c) + kHeaderLen"
  let ?len = "int (length ?t + length data + 4)"
  note rd = ptr_read_content [OF assms(1), unfolded assms(2)]
  have "ptr_read (?pos + ?len - kChecksumLen) 4 ?st = Inr (be32 (checksum adler (?t @ data)))"
    using rd [of "4 + length ?t + length data" 4] by (simp add: frame_def kHeaderLen_def kChecksumLen_def ac_simps)
  moreover have "ptr_read ?pos (?len - kChecksumLen) ?st = Inr (?t @ data)"
    using rd [of 4 "length ?t + length data"] by (simp add: frame_def kHeaderLen_def kChecksumLen_def)
  ultimately have "validateChecksum adler le ?pos ?len ?st = Inr True"
    by (simp add: validateChecksum_def asInt32_def networkToHost32_of_mem)
  moreover have "ptr_read ?pos (int (length ?t)) ?st = Inr ?t"
    using rd [of 4 "length ?t"] by (simp add: frame_def kHeaderLen_def)
  moreover have "ptr_read (?pos + int (length ?t)) (?len - kChecksumLen - int (length ?t)) ?st = Inr data"
    using rd [of "4 + length ?t" "length data"] by (simp add: frame_def kHeaderLen_def kChecksumLen_def ac_simps)
  ultimately show ?thesis
    by (simp add: parse_body_def parseFromBuffer_def Let_def split: option.split)
qed

lemma peek_frame:
  assumes "buffer_inv c" "content c = frame adler t data @ rest" "length t + length data + 4 < 2 ^ 31"
  shows "\<exists>w. peekInt32 le c = Inr w \<and> sint w = int (length t + length data + 4)"
proof -
  have "peekInt32 le c = Inr (word_of_nat (length t + length data + 4))"
    using peekInt32_ok [OF assms(1), of le] assms(2) by (simp add: frame_def del: length_content)
  moreover have "sint (word_of_nat (length t + length data + 4) :: 32 word) = int (length t + length data + 4)"
    using assms(3) by (subst signed_of_nat) (simp add: signed_take_bit_int_eq_self)
  ultimately show ?thesis by blast
qed

lemma parse_fails: "\<exists>e. parse P adler le cd pos len st = Inl e"
  by (cases "parse_body P adler le cd pos len st") (simp_all add: parse_def)

lemma parse_never [simp]: "parse P adler le cd pos len st \<noteq> Inr r"
  using parse_fails [of P adler le cd pos len st] by auto

lemma parse_bind:
  "bindR (parse P adler le cd pos len st) f = (case parse P adler le cd pos len st of Inl e \<Rightarrow> Inl e | Inr r \<Rightarrow> Inl NoReturnValue)"
  using parse_fails [of P adler le cd pos len st] by auto

text \<open>With no raw callback a turn never asks for another one, and never gets to the message callback.\<close>

lemma turn_stops:
  assumes "codec_rawCb cd = None"
  shows "message_turn P adler le rawcall mcall ecall cd tid p t s = Inr (go, s') \<Longrightarrow> \<not> go"
    and "message_turn P adler le rawcall mcall ecall cd tid p t s = message_turn P adler le rawcall mcall' ecall cd tid p t s"
proof -
  show "message_turn P adler le rawcall mcall ecall cd tid p t s = Inr (go, s') \<Longrightarrow> \<not> go"
    using assms unfolding message_turn_def
    by (auto simp: Let_def parse_bind with_conn_def bindR_def split: if_splits sum.splits option.splits)
  show "message_turn P adler le rawcall mcall ecall cd tid p t s = message_turn P adler le rawcall mcall' ecall cd tid p t s"
    using assms unfolding message_turn_def by (simp add: Let_def parse_bind cong del: if_weak_cong)
qed

subsection \<open>Properties\<close>

text \<open>
  C20: What the codec writes, it reads: \<open>send\<close> adds one frame to the bytes of a connection, and a receiver on
  any host whose buffer starts with these bytes reads the frame's length, and \<open>parse\<close> computes the message with
  no error; retrieving header and body leaves exactly what follows the frame.
\<close>

theorem frame_roundtrip:
  assumes "up tid p k c s" and "IsInitialized P m" and "ByteSizeLong P m = length (SerializeToArray P m)"
    and "ParseFromArray P (SerializeToArray P m) = Some m"
    and "int (length (codec_tag cd) + length (SerializeToArray P m)) + kChecksumLen \<le> kMaxMessageLen"
    and "writerIndex (outputBuffer k) + length (codec_tag cd) + length (SerializeToArray P m) + 8 \<le> VEC_MAX"
  shows "\<exists>s' k' c' xs. codec_send P adler le cd tid p m s = Inr s' \<and> up tid p k' c' s' \<and> stream k' s' = stream k s @ xs \<and>
    (\<forall>le' b rest. buffer_inv b \<and> content b = xs @ rest \<longrightarrow>
       (\<exists>w b'. peekInt32 le' b = Inr w \<and> kMinMessageLen (Codec_new (codec_tag cd) i j e) \<le> sint w \<and> sint w \<le> kMaxMessageLen \<and>
          parse_body P adler le' cd (int (peek b) + kHeaderLen) (sint w) (storage b) = Inr (kNoError, Some m) \<and>
          retrieve (nat (kHeaderLen + sint w)) b = Inr b' \<and> content b' = rest))"
proof -
  let ?t = "codec_tag cd" and ?data = "SerializeToArray P m"
  let ?xs = "frame adler ?t ?data"
  have small: "length ?t + length ?data + 4 \<le> 67108864"
    using assms(5) by (simp add: kChecksumLen_def kMaxMessageLen_def)
  then have "length ?t + length ?data + 16 \<le> VEC_MAX" by simp
  from fillEmptyBuffer_ok [OF assms(2,3) this] obtain buf where buf:
    "fillEmptyBuffer P adler le cd m Buffer_new = Inr buf" "buffer_inv buf" "content buf = ?xs" by blast
  have "up tid p k c s \<and> writerIndex (outputBuffer k) + length (content buf) \<le> VEC_MAX"
    using assms(1,6) unfolding buf(3) by simp
  from sends_buffer [OF buf(2), of tid p, unfolded sends_def, rule_format, OF this] buf(3) obtain k' c' s' where s':
    "bindR (TcpConnection_sendBuffer tid p buf s) (\<lambda>(_, s1). Inr s1) = Inr s'" "up tid p k' c' s'" "stream k' s' = stream k s @ ?xs"
    by auto
  have "\<exists>w b'. peekInt32 le' b = Inr w \<and> kMinMessageLen (Codec_new ?t i j e) \<le> sint w \<and> sint w \<le> kMaxMessageLen \<and>
      parse_body P adler le' cd (int (peek b) + kHeaderLen) (sint w) (storage b) = Inr (kNoError, Some m) \<and>
      retrieve (nat (kHeaderLen + sint w)) b = Inr b' \<and> content b' = rest"
    if b: "buffer_inv b" "content b = ?xs @ rest" for le' b rest
  proof -
    have "length ?t + length ?data + 4 < 2 ^ 31" using small by simp
    from peek_frame [OF b this, of le'] obtain w where w: "peekInt32 le' b = Inr w"
      "sint w = int (length ?t + length ?data + 4)" by blast
    have "length ?xs \<le> length (content b)" unfolding b(2) by simp
    from retrieve_ok [OF b(1) this] obtain b' where b': "retrieve (length ?xs) b = Inr b'" "content b' = rest"
      unfolding b(2) by auto
    have "nat (kHeaderLen + sint w) = length ?xs" unfolding w(2) by (simp add: kHeaderLen_def nat_add_distrib)
    with w b' parse_body_frame [OF b, of P le'] assms(4) small show ?thesis
      by (auto simp: Codec_new_def kChecksumLen_def kMaxMessageLen_def)
  qed
  with buf(1) s' show ?thesis
    by (intro exI [of _ s'] exI [of _ k'] exI [of _ c'] exI [of _ ?xs]) (simp add: codec_send_def)
qed

text \<open>
  C38: \<open>onMessage\<close> never delivers a message: it waits for the largest message in the condition of its loop, so
  with less in the buffer it changes nothing, and with more it only reports a wrong length or ends in the missing
  return of \<open>parse\<close>.  It always returns, and what it does is independent of the message callback.
\<close>

theorem codec_delivers_nothing:
  assumes "conns s p = Some k" and "buffer_inv (inputBuffer k)" and "cd = Codec_new t mcb rcb ecb"
  shows "(\<exists>r. codec_onMessage P adler le rawcall mcall ecall cd tid p time s = Some r \<and>
      (int (length (content (inputBuffer k))) < kMaxMessageLen + kHeaderLen \<longrightarrow> r = Inr s)) \<and>
    codec_onMessage P adler le rawcall mcall ecall cd tid p time s =
    codec_onMessage P adler le rawcall mcall' ecall cd tid p time s"
proof -
  have cd: "codec_rawCb cd = None" by (simp add: assms(3) Codec_new_def)
  let ?turn = "message_turn P adler le rawcall mcall ecall cd tid p time"
  have "message_turn P adler le rawcall mcall' ecall cd tid p time = ?turn"
    by (rule ext) (rule turn_stops(2) [OF cd])
  then have same: "codec_onMessage P adler le rawcall mcall' ecall cd tid p time s =
      codec_onMessage P adler le rawcall mcall ecall cd tid p time s" by (simp add: codec_onMessage_def)
  have run: "codec_onMessage P adler le rawcall mcall ecall cd tid p time s =
      Some (case ?turn s of Inl e \<Rightarrow> Inl e | Inr r \<Rightarrow> Inr (snd r))"
    unfolding codec_onMessage_def using turn_stops(1) [OF cd]
    by (subst turns.simps) (fastforce split: sum.split)
  have "?turn s = Inr (False, s)" if "int (length (content (inputBuffer k))) < kMaxMessageLen + kHeaderLen"
  proof -
    have "\<not> nat (kMaxMessageLen + kHeaderLen) \<le> readableBytes (inputBuffer k)"
      using that assms(2) by (simp del: length_content)
    with assms(1) show ?thesis by (simp add: message_turn_def Let_def)
  qed
  with run same show ?thesis by auto
qed

subsection \<open>Witnesses\<close>

definition text_proto :: "string proto" where
  "text_proto = \<lparr>IsInitialized = (\<lambda>_. True), ByteSizeLong = length, SerializeToArray = (\<lambda>m. m), ParseFromArray = Some,
     GetTypeName = (\<lambda>_. ''Text''), InitializationErrorString = (\<lambda>_. [])\<rparr>"

theorem frame_roundtrip_witness:
  "\<exists>s' k' c' xs. codec_send text_proto (\<lambda>a xs. a + word_of_nat (length xs)) True (Codec_new ''RPC0'' 0 None DefaultErrorCallback)
      1 1 ''hi'' (cn_demo kConnected) = Inr s' \<and> up 1 1 k' c' s' \<and>
    stream k' s' = stream (cn_demo_conn kConnected Buffer_new) (cn_demo kConnected) @ xs"
  using frame_roundtrip [OF cn_demo_up, of text_proto "''hi''" "Codec_new ''RPC0'' 0 None DefaultErrorCallback"
      "\<lambda>a xs. a + word_of_nat (length xs)" True]
  by (force simp: text_proto_def Codec_new_def kChecksumLen_def kMaxMessageLen_def cn_demo_conn_def)

theorem codec_delivers_nothing_witness:
  "codec_onMessage text_proto (\<lambda>a xs. a) True (\<lambda>_ _ _ _ s. Inr (True, s)) (\<lambda>_ _ _ _. Inr) (\<lambda>_ _ _ _. Inr)
    (Codec_new ''RPC0'' 0 (Some 1) DefaultErrorCallback) 1 1 5 (cn_demo kConnected) = Some (Inr (cn_demo kConnected))"
  using codec_delivers_nothing [of "cn_demo kConnected" 1 "cn_demo_conn kConnected Buffer_new" _ "''RPC0''" 0 "Some 1"
      DefaultErrorCallback text_proto "\<lambda>a xs. a" True "\<lambda>_ _ _ _ s. Inr (True, s)" "\<lambda>_ _ _ _. Inr" "\<lambda>_ _ _ _. Inr" 1 5]
  by (auto simp: cn_demo_defs buffer_inv_new kMaxMessageLen_def kHeaderLen_def)

end
