(* ===== verification/LoopSetup.thy ===== *)
theory LoopSetup
  imports TimerQueue
begin

section \<open>Constructing a loop\<close>

text \<open>
  \<open>EventLoop::EventLoop\<close> with the members it makes: \<open>epfd\<close>, \<open>tfd\<close> and \<open>wfd\<close> are the descriptors of the epoll instance, the timer and the
  eventfd, \<open>tq\<close> and \<open>wq\<close> the channel objects of the last two.
\<close>

definition EventLoop_construct where
  "EventLoop_construct this tid epfd tfd tq wfd wq uninit s =
     bindR (TimerQueue_new tfd tq uninit (EPoller_new epfd (s\<lparr>lp_this := this, threadId := tid\<rparr>))) (\<lambda>s1.
     bindR (createEventfd wfd) (\<lambda>evtfd.
       EventLoop_new this tid evtfd wq uninit s1))"

text \<open>The handlers of the two channels that every loop has.\<close>

definition loop_channel_cb where
  "loop_channel_cb call (t :: time) f s =
     (case f of
        TimerRead \<Rightarrow> TimerQueue_handleRead call s
      | WakeupRead \<Rightarrow> Inr (EventLoop_handleRead s)
      | _ \<Rightarrow> Inl BadFunctionCall)"

text \<open>The members of a loop as the constructors leave them.\<close>

abbreviation loop_made where
  "loop_made this tid epfd tfd tq wfd wq s \<equiv>
     s\<lparr>epollfd := epfd, eventListSize := kInitEventListSize, timerfd := tfd, timerfdChannel := tq, timers := [],
       activeTimers := [], cancelingTimers := [], callingExpiredTimers := False, expiring := [], lp_this := this,
       looping := False, quit_flag := False, callingPendingFunctors := False, threadId := tid, wakeupFd := wfd,
       wakeupChannel := wq, wakeupLog := [], pendingFunctors := []\<rparr>"

text \<open>A constructed loop watches its timer and its eventfd; nothing else has happened.\<close>

lemma EventLoop_construct_ok:
  assumes "chans s = (\<lambda>_. None)" and "0 \<le> tfd" and "0 \<le> wfd" and "tfd \<noteq> wfd" and "tq \<noteq> wq"
  obtains s1 where "EventLoop_construct this tid epfd tfd tq wfd wq uninit s = Inr s1" "loop_inv s1"
    "poll_frame (loop_made this tid epfd tfd tq wfd wq s) s1"
    "dom (chans s1) = {tq, wq}" "\<And>x. ep_free_fd x s1 \<longleftrightarrow> x \<noteq> tfd \<and> x \<noteq> wfd"
    "ep_registered tq s1" "ep_registered wq s1" "\<exists>c. chans s1 tq = Some c \<and> readCallback c = Some TimerRead"
    "\<exists>c. chans s1 wq = Some c \<and> readCallback c = Some WakeupRead"
proof -
  let ?u = "(EPoller_new epfd (s\<lparr>lp_this := this, threadId := tid\<rparr>))\<lparr>timerfd := tfd, timerfdChannel := tq, timers := [],
    activeTimers := [], cancelingTimers := [], callingExpiredTimers := False, expiring := []\<rparr>"
  let ?t = "setReadCallback (Some TimerRead) (Channel_new this tfd uninit)"
  let ?w = "setReadCallback (Some WakeupRead) (Channel_new this wfd uninit)"
  have u: "loop_inv ?u" "chans ?u = (\<lambda>_. None)" "lp_this ?u = this" "\<And>x. ep_free_fd x ?u"
    using assms(1)
    by (simp_all add: loop_inv_def epoll_inv_def own_chans_def EPoller_new_def interest_def ctl_legal_def kInitEventListSize_def ep_free_fd_def)
  have tw: "ch_index ?t = -1" "ch_loop ?t = this" "ch_events ?t = 0" "ch_fd ?t = tfd"
    "ch_index ?w = -1" "ch_loop ?w = this" "ch_events ?w = 0" "ch_fd ?w = wfd"
    by (simp_all add: setReadCallback_def Channel_new_def)
  obtain s1 where s1: "enableReading EventLoop_updateChannel tq (put_chan tq ?t ?u) = Inr s1" "loop_inv s1" "poll_frame ?u s1"
    "chans s1 = (chans ?u)(tq \<mapsto> ?t\<lparr>ch_events := kReadEvent, ch_index := kAdded\<rparr>)"
    "\<And>x. ep_free_fd x s1 \<longleftrightarrow> x \<noteq> ch_fd ?t \<and> ep_free_fd x ?u" "ep_registered tq s1"
    by (rule chan_start [of ?u tq ?t]) (use u tw assms in auto)
  let ?v = "s1\<lparr>lp_this := this, looping := False, quit_flag := False, callingPendingFunctors := False, threadId := tid,
    wakeupFd := wfd, wakeupChannel := wq, wakeupLog := [], pendingFunctors := []\<rparr>"
  have l: "lp_this s1 = this" using s1(3) u(3) by (cases s1; cases ?u) (simp add: poll_frame_def)
  have v: "loop_inv ?v" "chans ?v wq = None" "ep_free_fd wfd ?v" "\<And>x. ep_free_fd x ?v = ep_free_fd x s1"
    using s1(2,4,5) u(2,4) tw(4) assms(4,5) l loop_inv_cong [of ?v s1] by auto
  obtain s2 where s2: "enableReading EventLoop_updateChannel wq (put_chan wq ?w ?v) = Inr s2" "loop_inv s2" "poll_frame ?v s2"
    "chans s2 = (chans ?v)(wq \<mapsto> ?w\<lparr>ch_events := kReadEvent, ch_index := kAdded\<rparr>)"
    "\<And>x. ep_free_fd x s2 \<longleftrightarrow> x \<noteq> ch_fd ?w \<and> ep_free_fd x ?v" "ep_registered wq s2" "ep_registered tq s2 = ep_registered tq ?v"
    by (rule chan_start [of ?v wq ?w]) (use v tw assms in auto)
  have "lp_this (EPoller_new epfd (s\<lparr>lp_this := this, threadId := tid\<rparr>)) = this" by (simp add: EPoller_new_def)
  then have "EventLoop_construct this tid epfd tfd tq wfd wq uninit s = Inr s2"
    using s1(1) s2(1) assms(3) by (simp add: EventLoop_construct_def createEventfd_def TimerQueue_new_def EventLoop_new_def Let_def)
  moreover have "poll_frame (loop_made this tid epfd tfd tq wfd wq s) s2"
    using s1(3) s2(3) by (cases s; cases s1; cases s2) (simp add: poll_frame_def EPoller_new_def)
  moreover have "dom (chans s2) = {tq, wq}" using s2(4) s1(4) u(2) by auto
  moreover have "ep_free_fd x s2 \<longleftrightarrow> x \<noteq> tfd \<and> x \<noteq> wfd" for x using s2(5) v(4) s1(5) u(4) tw by auto
  moreover have "ep_registered tq s2" "ep_registered wq s2"
    using s1(6) s2(6,7) loop_inv_cong(2) [of ?v s1 tq] l by simp_all
  moreover have "\<exists>c. chans s2 tq = Some c \<and> readCallback c = Some TimerRead" "\<exists>c. chans s2 wq = Some c \<and> readCallback c = Some WakeupRead"
    using s1(4) s2(4) assms(5) by (simp_all add: setReadCallback_def)
  ultimately show thesis using s2(2) by (intro that) auto
qed

text \<open>Its timer queue is empty; what the heap and the clock answer is as before.\<close>

lemma loop_made_timers:
  assumes "poll_frame (loop_made this tid epfd tfd tq wfd wq s) s1" and "heap_ok s"
  shows "timer_inv s1" "isInLoopThread tid s1" "timers s1 = []" "expiring s1 = []" "alloc s1 = alloc s" "numCreated s1 = numCreated s"
    "clock s1 = clock s" "ticks s1 = ticks s"
proof -
  have f: "timers s1 = []" "activeTimers s1 = []" "expiring s1 = []" "timerHeap s1 = timerHeap s" "alloc s1 = alloc s"
    "numCreated s1 = numCreated s" "threadId s1 = tid" "clock s1 = clock s" "ticks s1 = ticks s"
    using assms(1) by (cases s; cases s1; simp add: poll_frame_def)+
  then show "timer_inv s1" "isInLoopThread tid s1"
    using assms(2) by (simp_all add: timer_inv_def timer_core_def oset_def heap_ok_def expiring_ok_def isInLoopThread_def)
  show "timers s1 = []" "expiring s1 = []" "alloc s1 = alloc s" "numCreated s1 = numCreated s" "clock s1 = clock s" "ticks s1 = ticks s"
    using f by simp_all
qed

subsection \<open>One event in a turn of the loop\<close>

lemma loop_inv_same_chan:
  assumes "loop_inv s" "chans s q = Some c" "ch_index d = ch_index c" "ch_fd d = ch_fd c" "ch_loop d = ch_loop c"
  shows "loop_inv (put_chan q d s)"
proof -
  have e: "epoll_inv s" "own_chans s" using assms(1) by (simp_all add: loop_inv_def)
  have "ch_fd c = fd \<and> (ch_index c = kAdded \<or> ch_index c = kDeleted)" if "channelMap s fd = Some q" for fd
    using epoll_invD(1) [OF e(1) that] assms(2) by auto
  moreover have "own_chans (put_chan q d s)" using e(2) assms(2,5) by (auto simp: own_chans_def put_chan_def)
  ultimately show ?thesis
    using e(1) assms(2-4) by (auto simp: loop_inv_def epoll_inv_def epoll_chan_ok_def put_chan_def)
qed

lemma poll_one:
  assumes "loop_inv s" and c: "chans s q = Some c" and "ep_registered q s"
  obtains n where "0 < n" "EPoller_poll now (WaitReady [(ev, q)]) [] s =
    Inr (now, [q], (put_chan q (set_revents ev c) s)\<lparr>eventListSize := n\<rparr>)"
proof -
  let ?s = "put_chan q (set_revents ev c) s" let ?n = "if eventListSize s = 1 then 2 else eventListSize s"
  have e: "epoll_inv s" using assms(1) by (simp add: loop_inv_def)
  from assms(3) obtain fd where "channelMap s fd = Some q" by (auto simp: ep_registered_def)
  with epoll_invD(1) [OF e this] c have m: "channelMap s (ch_fd c) = Some q" by auto
  have n: "0 < eventListSize s" using epoll_invD(5) [OF e] .
  then have "EPoller_poll now (WaitReady [(ev, q)]) [] s = Inr (now, [q], ?s\<lparr>eventListSize := ?n\<rparr>)"
    using c m by (auto simp: EPoller_poll_def EPoller_fillActiveChannels_def check_def put_chan_def)
  moreover have "0 < ?n" using n by simp
  ultimately show thesis by (rule that [rotated])
qed

lemma reads_only [simp]:
  "\<not> wantsClose POLLIN" "\<not> wantsError POLLIN" "wantsRead POLLIN" "\<not> wantsWrite POLLIN"
  by (simp_all add: wantsClose_def wantsError_def wantsRead_def wantsWrite_def POLLIN_def POLLHUP_def POLLERR_def POLLNVAL_def
      POLLPRI_def POLLRDHUP_def POLLOUT_def)

text \<open>A readable channel whose read handler leaves its own channel alone.\<close>

lemma handleEvent_read:
  assumes "chans s q = Some c" "ch_revents c = POLLIN" "readCallback c = Some f"
    and "call t f (put_chan q (c\<lparr>eventHandling := True\<rparr>) s) = Inr s'" "chans s' q = Some (c\<lparr>eventHandling := True\<rparr>)"
  shows "handleEvent call t q s = Inr (put_chan q (c\<lparr>eventHandling := False\<rparr>) s')"
  using assms by (simp add: handleEvent_def dispatch_def)

text \<open>
  A turn of the loop in which one channel is readable: what is left to see is its read handler, which runs in \<open>s1\<close>.
\<close>

lemma read_turn:
  fixes s :: "'m loop_state_scheme"
  assumes inv: "loop_inv s" and c: "chans s q = Some c" and reg: "ep_registered q s" and cb: "readCallback c = Some f"
    and d: "d = c\<lparr>ch_revents := POLLIN, eventHandling := True\<rparr>"
  obtains n s1 where "s1 = (put_chan q d s)\<lparr>eventListSize := n, pollReturnTime := now\<rparr>" "loop_inv s1"
    "\<And>s'. callC now f s1 = Inr s' \<Longrightarrow> chans s' q = Some d \<Longrightarrow> pendingFunctors s' = [] \<Longrightarrow>
      loop_iteration callC call now (WaitReady [(POLLIN, q)]) s =
        Inr ((put_chan q (d\<lparr>eventHandling := False\<rparr>) s')\<lparr>callingPendingFunctors := False, pendingFunctors := []\<rparr>)"
proof -
  obtain n where n: "0 < n" "EPoller_poll now (WaitReady [(POLLIN, q)]) [] s = Inr (now, [q], (put_chan q (set_revents POLLIN c) s)\<lparr>eventListSize := n\<rparr>)"
    by (rule poll_one [OF inv c reg])
  let ?c = "c\<lparr>ch_revents := POLLIN\<rparr>"
  let ?s1 = "(put_chan q ?c s)\<lparr>eventListSize := n, pollReturnTime := now\<rparr>" let ?s2 = "(put_chan q d s)\<lparr>eventListSize := n, pollReturnTime := now\<rparr>"
  have "loop_inv (put_chan q d s)" unfolding d by (rule loop_inv_same_chan [OF inv c]) simp_all
  then have "loop_inv ((put_chan q d s)\<lparr>eventListSize := n\<rparr>)"
    using epoll_inv_grow [of "put_chan q d s" n] n(1) by (simp add: loop_inv_def own_chans_def)
  then have inv2: "loop_inv ?s2" using loop_inv_cong [of ?s2 "(put_chan q d s)\<lparr>eventListSize := n\<rparr>"] by simp
  have "loop_iteration callC call now (WaitReady [(POLLIN, q)]) s =
        Inr ((put_chan q (d\<lparr>eventHandling := False\<rparr>) s')\<lparr>callingPendingFunctors := False, pendingFunctors := []\<rparr>)"
    if s': "callC now f ?s2 = Inr s'" "chans s' q = Some d" "pendingFunctors s' = []" for s'
  proof -
    have e: "put_chan q (?c\<lparr>eventHandling := True\<rparr>) ?s1 = ?s2" by (simp add: put_chan_def d)
    have "handleEvent callC now q ?s1 = Inr (put_chan q (?c\<lparr>eventHandling := False\<rparr>) s')"
    proof (rule handleEvent_read)
      show "callC now f (put_chan q (?c\<lparr>eventHandling := True\<rparr>) ?s1) = Inr s'" unfolding e by (rule s'(1))
    qed (use s'(2) cb in \<open>simp_all add: put_chan_def d\<close>)
    then show ?thesis using n(2) s'(3) by (simp add: loop_iteration_def doPendingFunctors_def set_revents_def put_chan_def d)
  qed
  with inv2 show thesis by (intro that [OF refl]) auto
qed

end
