(* ===== verification/Echo.thy ===== *)
theory Echo
  imports Streams LoopSetup
begin

section \<open>The echo server of the pingpong example\<close>

text \<open>
  \<open>examples/pingpong/server.cpp\<close>, and with it one connection under the event loop as a whole: the poller reports
  events, \<open>Channel::handleEvent\<close> calls the connection's handlers, the read handler calls the user's callback,
  which sends, and the write handler writes what could not be sent at once.
\<close>

definition echo_onConnection :: "nat \<Rightarrow> ('m) conn_state_t_scheme \<Rightarrow> 'm conn_state_t_scheme res" where
  "echo_onConnection p s =
     with_conn p s (\<lambda>k. if connected k then TcpConnection_setTcpNoDelay p True s else Inr s)"

definition echo_onMessage :: "int \<Rightarrow> nat \<Rightarrow> ('m) conn_state_t_scheme \<Rightarrow> 'm conn_state_t_scheme res" where
  "echo_onMessage tid p s =
     with_conn p s (\<lambda>k.
     bindR (retrieveAsString (inputBuffer k)) (\<lambda>(msg, buf).
       TcpConnection_send tid p msg (put_conn p (k\<lparr>inputBuffer := buf\<rparr>) s)))"

definition echoConnection :: conn_cb where "echoConnection = UserCb 0"
definition echoMessage :: conn_cb where "echoMessage = UserCb 1"

definition echo_ucall :: "int \<Rightarrow> conn_cb \<Rightarrow> nat \<Rightarrow> int \<Rightarrow> ('m) conn_state_t_scheme \<Rightarrow> 'm conn_state_t_scheme res" where
  "echo_ucall tid cb p arg s =
     (if cb = echoConnection then echo_onConnection p s
      else if cb = echoMessage then echo_onMessage tid p s
      else Inr s)"

subsection \<open>What the handlers leave alone\<close>

text \<open>Everything but the connection, the poller's books and the logs.\<close>

definition io_frame :: "('m) conn_state_t_scheme \<Rightarrow> 'm conn_state_t_scheme \<Rightarrow> bool" where
  "io_frame s t \<longleftrightarrow> t = s\<lparr>chans := chans t, channelMap := channelMap t, ctlLog := ctlLog t,
     conns := conns t, osCalls := osCalls t, netLog := netLog t\<rparr>"

lemma io_frame_trans: "io_frame s t \<Longrightarrow> io_frame t u \<Longrightarrow> io_frame s u"
  by (cases s; cases t; cases u) (simp add: io_frame_def)

lemma io_frame_simps [simp]:
  "io_frame s s" "io_frame s (put_conn p k s)" "io_frame s (net e s)" "io_frame s (put_chan q c s)"
  "io_frame s (s\<lparr>osCalls := n\<rparr>)"
  by (cases s; simp add: io_frame_def put_conn_def net_def put_chan_def)+

lemma io_frame_poll: "poll_frame s t \<Longrightarrow> io_frame s t"
  by (cases s; cases t) (simp add: io_frame_def poll_frame_def)

lemma io_frame_write: "sys_write fd data s = (n, t) \<Longrightarrow> io_frame s t"
  using io_frame_trans [OF io_frame_simps(5) io_frame_simps(3)] by (auto simp: sys_write_def Let_def)

lemma sys_write_calls: "sys_write fd data s = (n, t) \<Longrightarrow> osCalls t = Suc (osCalls s)"
  by (auto simp: sys_write_def Let_def)

lemma io_frameD:
  assumes "io_frame s t"
  shows "osRead t = osRead s" "osWrite t = osWrite s" "threadId t = threadId s" "pendingFunctors t = pendingFunctors s"
    "callingPendingFunctors t = callingPendingFunctors s" "quit_flag t = quit_flag s" "eventListSize t = eventListSize s"
  using assms by (cases s; cases t; simp add: io_frame_def)+

text \<open>The callbacks of a channel.\<close>

definition same_cbs :: "channel \<Rightarrow> channel \<Rightarrow> bool" where
  "same_cbs c d \<longleftrightarrow> readCallback d = readCallback c \<and> writeCallback d = writeCallback c \<and>
     closeCallback d = closeCallback c \<and> errorCallback d = errorCallback c"

lemma same_cbs_refl [simp]: "same_cbs c c"
  by (simp add: same_cbs_def)

lemma same_cbs_trans: "same_cbs c d \<Longrightarrow> same_cbs d e \<Longrightarrow> same_cbs c e"
  by (simp add: same_cbs_def)

lemma same_cbs_events: "same_but_index (c\<lparr>ch_events := e\<rparr>) d \<Longrightarrow> same_cbs c d"
  using same_but_index_simps(2) [of "c\<lparr>ch_events := e\<rparr>" d] by (simp add: same_cbs_def)

text \<open>\<open>quiet q s t\<close>: only input and output happened, and the channel \<open>q\<close> kept its callbacks.\<close>

definition quiet :: "nat \<Rightarrow> ('m) conn_state_t_scheme \<Rightarrow> 'm conn_state_t_scheme \<Rightarrow> bool" where
  "quiet q s t \<longleftrightarrow> io_frame s t \<and> osCalls s \<le> osCalls t \<and> rel_option same_cbs (chans s q) (chans t q)"

lemma rel_cbs_refl [simp]: "rel_option same_cbs x x"
  by (simp add: option.rel_refl)

lemma quiet_trans: "quiet q s t \<Longrightarrow> quiet q t u \<Longrightarrow> quiet q s u"
  unfolding quiet_def using io_frame_trans [of s t u]
  by (cases "chans s q"; cases "chans t q"; cases "chans u q") (auto intro: same_cbs_trans)

lemma quiet_simps [simp]: "quiet q s (put_conn p k s)" "quiet q s s" "quiet q s (net e s)"
  by (simp_all add: quiet_def)

lemma quiet_set_events:
  assumes "loop_inv s" "chans s q = Some c" "ep_registered q s"
    and run: "set_events f EventLoop_updateChannel q s = Inr s'"
  shows "quiet q s s'"
proof -
  obtain t d where t: "set_events f EventLoop_updateChannel q s = Inr t" "poll_frame s t" "chans t q = Some d"
    "same_but_index (c\<lparr>ch_events := f (ch_events c)\<rparr>) d"
    by (rule chan_set_events [OF assms(1,2) disjI1 [OF assms(3)], where f = f]) blast
  with run assms(2) same_cbs_events [OF t(4)] io_frame_poll [OF t(2)] poll_frame_conn(5) [OF t(2)] show ?thesis by (simp add: quiet_def)
qed

lemma sendInLoop_quiet:
  assumes inv: "conn_inv p k c s" and os: "os_write_ok s"
    and none: "writeCompleteCallback k = None" "highWaterMarkCallback k = None"
    and run: "sendInLoop tid p msg s = Inr s'"
  shows "quiet (conn_channel k) s s'"
proof -
  let ?q = "conn_channel k"
  have k: "conns s p = Some k" "chans s ?q = Some c" using inv by (simp_all add: conn_inv_def)
  obtain n s1 where d: "send_direct tid p k c msg s = (n, s1)" by force
  note f = send_direct_ok [OF inv os d]
  obtain m s0 where w: "sys_write (ch_fd c) msg s = (m, s0)" by force
  have "s1 = s \<or> s1 = s0" using d w none by (auto simp: send_direct_def split: if_splits)
  then have 1: "quiet ?q s s1" using io_frame_write [OF w] sys_write_calls [OF w] sys_write_fields(2) [OF w] by (auto simp: quiet_def)
  show ?thesis
  proof (cases "nat n < length msg")
    case False
    with run k d f(1) 1 show ?thesis by (simp add: sendInLoop_def)
  next
    case True
    have "sendInLoop tid p msg s = bindR (append_buf (drop (nat n) msg) (outputBuffer k)) (\<lambda>out.
        if \<not> isWriting c then enableWriting EventLoop_updateChannel ?q (put_conn p (k\<lparr>outputBuffer := out\<rparr>) s1)
        else Inr (put_conn p (k\<lparr>outputBuffer := out\<rparr>) s1))"
      using k d f(1) True none by (simp add: sendInLoop_def Let_def)
    from run [unfolded this bindR_Inr_iff] obtain out where out:
        "(if \<not> isWriting c then enableWriting EventLoop_updateChannel ?q (put_conn p (k\<lparr>outputBuffer := out\<rparr>) s1)
          else Inr (put_conn p (k\<lparr>outputBuffer := out\<rparr>) s1)) = Inr s'" by blast
    let ?s3 = "put_conn p (k\<lparr>outputBuffer := out\<rparr>) s1"
    have "loop_inv ?s3" "chans ?s3 ?q = Some c" "ep_registered ?q ?s3" using f(3) by (simp_all add: conn_inv_def)
    then have "quiet ?q ?s3 s'"
      using out quiet_set_events [of ?s3 ?q c _ s'] by (auto simp: enableWriting_def split: if_splits)
    from quiet_trans [OF quiet_trans [OF 1 quiet_simps(1)] this] show ?thesis .
  qed
qed

lemma handleWrite_quiet:
  assumes inv: "conn_inv p k c s" and none: "writeCompleteCallback k = None" "conn_state k = kConnected"
    and run: "handleWrite tid p s = Inr s'"
  shows "quiet (conn_channel k) s s'"
proof -
  let ?q = "conn_channel k"
  have k: "conns s p = Some k" "chans s ?q = Some c" "loop_inv s" "ep_registered ?q s" using inv by (simp_all add: conn_inv_def)
  show ?thesis
  proof (cases "isWriting c")
    case False
    with run k show ?thesis by (simp add: handleWrite_def)
  next
    case True
    obtain data where data: "read_at (peek (outputBuffer k)) (readableBytes (outputBuffer k)) (storage (outputBuffer k)) = Inr data"
      using run k True by (auto simp: handleWrite_def bindR_Inr_iff)
    obtain n s1 where w: "sys_write (ch_fd c) data s = (n, s1)" by force
    note f = sys_write_fields [OF w]
    have 1: "quiet ?q s s1" using io_frame_write [OF w] sys_write_calls [OF w] f(2) by (simp add: quiet_def)
    show ?thesis
    proof (cases "0 < n")
      case False
      with run k True data w 1 show ?thesis by (simp add: handleWrite_def)
    next
      case pos: True
      obtain out where out: "retrieve (nat n) (outputBuffer k) = Inr out"
        using run k True data w pos by (auto simp: handleWrite_def bindR_Inr_iff)
      let ?s2 = "put_conn p (k\<lparr>outputBuffer := out\<rparr>) s1"
      have "(if readableBytes out = 0 then disableWriting EventLoop_updateChannel ?q ?s2 else Inr ?s2) = Inr s'"
        using run k True data w pos out none
        by (cases "disableWriting EventLoop_updateChannel ?q ?s2") (simp_all add: handleWrite_def Let_def split: if_splits)
      moreover have "loop_inv ?s2" "chans ?s2 ?q = Some c" "ep_registered ?q ?s2" using f k by simp_all
      ultimately have "quiet ?q ?s2 s'"
        using quiet_set_events [of ?s2 ?q c _ s'] by (auto simp: disableWriting_def split: if_splits)
      from quiet_trans [OF quiet_trans [OF 1 quiet_simps(1)] this] show ?thesis .
    qed
  qed
qed

subsection \<open>One turn of the loop\<close>

text \<open>
  The connection between turns, with room for \<open>n\<close> more reads: it is up, its input has been consumed, its channel
  is bound to its handlers, nothing is queued in the loop, and the kernel's reads bring between one and 65536 bytes.
\<close>

definition os_read_ok :: "('m) conn_state_t_scheme \<Rightarrow> bool" where
  "os_read_ok s \<longleftrightarrow> (\<forall>i fd. \<exists>bytes. osRead s i fd = ReadvGot bytes \<and> bytes \<noteq> [] \<and> length bytes \<le> extrabufSize)"

definition echo_chan :: "nat \<Rightarrow> channel \<Rightarrow> bool" where
  "echo_chan p c \<longleftrightarrow> readCallback c = Some (ConnRead p) \<and> writeCallback c = Some (ConnWrite p)"

definition echo_conn :: "nat \<Rightarrow> connection \<Rightarrow> bool" where
  "echo_conn n k \<longleftrightarrow> messageCallback k = Some echoMessage \<and> writeCompleteCallback k = None \<and> highWaterMarkCallback k = None \<and>
     buffer_inv (inputBuffer k) \<and> content (inputBuffer k) = [] \<and>
     length (storage (inputBuffer k)) + Suc n * extrabufSize \<le> VEC_MAX \<and>
     writerIndex (outputBuffer k) + n * extrabufSize \<le> VEC_MAX"

lemma up_same_chan:
  assumes "up tid p k c s" "ch_index d = ch_index c" "ch_fd d = ch_fd c" "ch_loop d = ch_loop c" "ch_events d = ch_events c"
  shows "up tid p k d (put_chan (conn_channel k) d s)" "stream k (put_chan (conn_channel k) d s) = stream k s"
  using assms loop_inv_same_chan [of s "conn_channel k" c d]
  by (simp_all add: up_def conn_inv_def os_write_ok_def ep_registered_def isWriting_def stream_def put_chan_def)

text \<open>The connection between turns, with room for \<open>n\<close> more reads.\<close>

definition echo_ready :: "int \<Rightarrow> nat \<Rightarrow> nat \<Rightarrow> connection \<Rightarrow> channel \<Rightarrow> ('m) conn_state_t_scheme \<Rightarrow> bool" where
  "echo_ready tid p n k c s \<longleftrightarrow> up tid p k c s \<and> echo_conn n k \<and> echo_chan p c \<and> os_read_ok s \<and> pendingFunctors s = [] \<and> \<not> quit_flag s"

lemma echo_conn_less: "echo_conn (Suc n) k \<Longrightarrow> echo_conn n k"
  by (simp add: echo_conn_def)

lemma echo_conn_same:
  assumes "echo_conn n k" "conn_same k k'" "writerIndex (outputBuffer k') + n * extrabufSize \<le> VEC_MAX"
  shows "echo_conn n k'"
  using assms by (cases k; cases k') (simp add: echo_conn_def conn_same_def)

text \<open>
  What one turn does for the stream: if the event is a read event, the bytes of the next \<open>readv\<close> join it.
  The calls to the kernel are numbered, so the numbers of the reads increase.
\<close>

definition received :: "('m) conn_state_t_scheme \<Rightarrow> int \<Rightarrow> nat \<Rightarrow> string" where
  "received s fd i = (case osRead s i fd of ReadvGot bytes \<Rightarrow> bytes | ReadvFailed e \<Rightarrow> [])"

definition served :: "bool \<Rightarrow> connection \<Rightarrow> ('m) conn_state_t_scheme \<Rightarrow> connection \<Rightarrow> 'm conn_state_t_scheme \<Rightarrow> bool" where
  "served rd k s k' s' \<longleftrightarrow> conn_sockfd k' = conn_sockfd k \<and> conn_channel k' = conn_channel k \<and> osRead s' = osRead s \<and>
     (if rd then osCalls s < osCalls s' else osCalls s \<le> osCalls s') \<and>
     stream k' s' = stream k s @ (if rd then received s (conn_sockfd k) (osCalls s) else [])"

lemma served_trans: "served rd k s k1 s1 \<Longrightarrow> served False k1 s1 k2 s2 \<Longrightarrow> served rd k s k2 s2"
  by (auto simp: served_def)

lemma served_chan:
  "served rd k (put_chan q d s) k' s' = served rd k s k' s'" "served rd k s k' (put_chan q d s') = served rd k s k' s'"
  by (cases rd; simp add: served_def received_def put_chan_def stream_def)+

lemma echo_quiet:
  assumes "quiet q s t" "echo_chan p c" "chans s q = Some c" "chans t q = Some c'" "os_read_ok s \<and> pendingFunctors s = [] \<and> \<not> quit_flag s"
  shows "(echo_chan p c' \<and> os_read_ok t \<and> pendingFunctors t = [] \<and> \<not> quit_flag t) \<and> osRead t = osRead s \<and> osCalls s \<le> osCalls t"
proof -
  have "same_cbs c c'" "io_frame s t" using assms(1,3,4) by (simp_all add: quiet_def)
  with assms io_frameD [of s t] show ?thesis by (auto simp: echo_chan_def same_cbs_def os_read_ok_def quiet_def)
qed

lemma echo_write:
  assumes "echo_ready tid p n k c s"
  shows "\<exists>s' k' c'. handleWrite tid p s = Inr s' \<and> echo_ready tid p n k' c' s' \<and> served False k s k' s'"
proof -
  have up: "conn_inv p k c s" "os_write_ok s" "conn_state k = kConnected" "threadId s = tid"
    and e: "echo_conn n k" "echo_chan p c" "os_read_ok s \<and> pendingFunctors s = [] \<and> \<not> quit_flag s"
    using assms by (simp_all add: echo_ready_def up_def)
  from handleWrite_ok [OF up(1,2), of tid] obtain s' k' c' where s': "handleWrite tid p s = Inr s'" "conn_inv p k' c' s'"
    "os_write_ok s'" "threadId s' = threadId s" "conn_same k k'"
    "wire (conn_sockfd k) (netLog s') @ content (outputBuffer k') = wire (conn_sockfd k) (netLog s) @ content (outputBuffer k)"
    "writerIndex (outputBuffer k') \<le> writerIndex (outputBuffer k)" by blast
  have none: "writeCompleteCallback k = None" using e(1) by (simp add: echo_conn_def)
  note same = conn_sameD [OF s'(5)]
  have "chans s (conn_channel k) = Some c" "chans s' (conn_channel k) = Some c'"
    using up(1) s'(2) same by (simp_all add: conn_inv_def)
  note q = echo_quiet [OF handleWrite_quiet [OF up(1) none up(3) s'(1)] e(2) this e(3)]
  have "echo_conn n k'" by (rule echo_conn_same [OF e(1) s'(5)]) (use e(1) s'(7) in \<open>simp add: echo_conn_def\<close>)
  with q show ?thesis using s' same up
    by (intro exI [of _ s'] exI [of _ k'] exI [of _ c']) (simp add: echo_ready_def up_def stream_def served_def)
qed

lemma echo_ready_chan:
  assumes "echo_ready tid p n k c s" "ch_index d = ch_index c" "ch_fd d = ch_fd c" "ch_loop d = ch_loop c" "ch_events d = ch_events c"
    and "same_cbs c d"
  shows "echo_ready tid p n k d (put_chan (conn_channel k) d s)" "stream k (put_chan (conn_channel k) d s) = stream k s"
  using up_same_chan [of tid p k c s d] assms
  by (simp_all add: echo_ready_def echo_chan_def same_cbs_def os_read_ok_def put_chan_def)

lemma echo_ready_chans: "echo_ready tid p n k c s \<Longrightarrow> chans s (conn_channel k) = Some c"
  by (simp add: echo_ready_def up_def conn_inv_def)

text \<open>Polling: the events of a turn are nothing, or one report for the channel of the connection.\<close>

lemma echo_ready_grow: "echo_ready tid p n k c s \<Longrightarrow> 0 < m \<Longrightarrow> echo_ready tid p n k c (s\<lparr>eventListSize := m\<rparr>)"
  using epoll_inv_grow [of s m]
  by (simp add: echo_ready_def up_def conn_inv_def loop_inv_def own_chans_def ep_registered_def os_write_ok_def os_read_ok_def)

lemma echo_poll:
  assumes ready: "echo_ready tid p n k c s"
  shows "\<exists>s'. EPoller_poll now (WaitReady [(ev, conn_channel k)]) [] s = Inr (now, [conn_channel k], s') \<and>
    echo_ready tid p n k (set_revents ev c) s' \<and> stream k s' = stream k s \<and> osCalls s' = osCalls s \<and> osRead s' = osRead s"
proof -
  let ?q = "conn_channel k" let ?c = "set_revents ev c" let ?s = "put_chan ?q ?c s"
  have "loop_inv s" "chans s ?q = Some c" "ep_registered ?q s"
    using ready by (simp_all add: echo_ready_def up_def conn_inv_def)
  then obtain m where m: "0 < m" "EPoller_poll now (WaitReady [(ev, ?q)]) [] s = Inr (now, [?q], ?s\<lparr>eventListSize := m\<rparr>)"
    by (rule poll_one)
  have "echo_ready tid p n k ?c ?s" "stream k ?s = stream k s"
    using echo_ready_chan [OF ready, of ?c] by (simp_all add: set_revents_def same_cbs_def)
  with m echo_ready_grow [of tid p n k ?c ?s m] show ?thesis
    by (intro exI [of _ "?s\<lparr>eventListSize := m\<rparr>"]) (simp add: stream_def put_chan_def)
qed

lemma echo_ready_loop:
  assumes "echo_ready tid p n k c s"
  shows "echo_ready tid p n k c (s\<lparr>pollReturnTime := t\<rparr>)" "echo_ready tid p n k c (s\<lparr>callingPendingFunctors := b, pendingFunctors := []\<rparr>)"
    "echo_ready tid p n k c (s\<lparr>callingPendingFunctors := b\<rparr>)"
  using assms
  by (simp_all add: echo_ready_def up_def conn_inv_def loop_inv_def own_chans_def ep_registered_def os_write_ok_def os_read_ok_def
      epoll_inv_def epoll_chan_ok_def)

text \<open>
  The handlers and the loop need of the callbacks only that the message callback of the connection echoes: the laws below
  hold for every program that installs it, whatever else its interpreter of callbacks does.
\<close>

locale message_echo =
  fixes ucall :: "conn_cb \<Rightarrow> nat \<Rightarrow> int \<Rightarrow> 'm conn_state_t_scheme \<Rightarrow> 'm conn_state_t_scheme res" and tid :: int
  assumes echoes: "ucall echoMessage p t s = echo_onMessage tid p s"
begin

lemma call_echo: "call_cb ucall (Some echoMessage) p t s = echo_onMessage tid p s"
  using echoes by (simp add: call_cb_def echoMessage_def)

lemma echo_read:
  assumes ready: "echo_ready tid p (Suc n) k c s"
  shows "\<exists>s' k' c'. TcpConnection_handleRead ucall t p s = Inr s' \<and> echo_ready tid p n k' c' s' \<and> served True k s k' s'"
proof -
  have up: "up tid p k c s" and e: "echo_conn (Suc n) k" "echo_chan p c" "os_read_ok s" "pendingFunctors s = []" "\<not> quit_flag s"
    using ready by (simp_all add: echo_ready_def)
  have cb: "messageCallback k = Some echoMessage" "writeCompleteCallback k = None" "highWaterMarkCallback k = None"
    and buf: "buffer_inv (inputBuffer k)" "content (inputBuffer k) = []"
      "length (storage (inputBuffer k)) + extrabufSize \<le> VEC_MAX"
    using e(1) by (simp_all add: echo_conn_def)
  obtain bytes where got: "osRead s (osCalls s) (conn_sockfd k) = ReadvGot bytes" and by1: "bytes \<noteq> []" "length bytes \<le> extrabufSize"
    using e(3) unfolding os_read_ok_def by blast
  then have by2: "length bytes \<le> writableBytes (inputBuffer k) + extrabufSize" by simp
  obtain b where b: "TcpConnection_handleRead ucall t p s =
      call_cb ucall (messageCallback k) p t (put_conn p (k\<lparr>inputBuffer := b\<rparr>) (s\<lparr>osCalls := Suc (osCalls s)\<rparr>))"
    "buffer_inv b" "content b = content (inputBuffer k) @ bytes" "length (storage b) \<le> length (storage (inputBuffer k)) + extrabufSize"
    by (rule handleRead_got [OF up buf(1,3) got by1(1) by2])
  let ?b = "retrieveAll b" let ?k = "k\<lparr>inputBuffer := ?b\<rparr>" let ?s = "put_conn p ?k (s\<lparr>osCalls := Suc (osCalls s)\<rparr>)"
  have run: "TcpConnection_handleRead ucall t p s = TcpConnection_send tid p bytes ?s"
    using b(1-3) buf(2) cb(1) by (simp add: call_echo echo_onMessage_def retrieveAsString_ok put_conn_def)
  have up1: "up tid p ?k c ?s" using up by (simp add: up_def conn_inv_def os_write_ok_def)
  have st: "stream ?k ?s = stream k s" by (simp add: stream_def)
  have room: "writerIndex (outputBuffer k) + Suc n * extrabufSize \<le> VEC_MAX" using e(1) by (simp add: echo_conn_def)
  with by1(2) have "up tid p ?k c ?s \<and> writerIndex (outputBuffer ?k) + length bytes \<le> VEC_MAX" using up1 by simp
  from sends_send [of tid p bytes, unfolded sends_def, rule_format, OF this] obtain k' c' s' where s':
    "TcpConnection_send tid p bytes ?s = Inr s'" "up tid p k' c' s'" "conn_same ?k k'" "stream k' s' = stream ?k ?s @ bytes"
    "writerIndex (outputBuffer k') \<le> writerIndex (outputBuffer ?k) + length bytes" by blast
  note same = conn_sameD [OF s'(3)]
  have direct: "sendInLoop tid p bytes ?s = Inr s'"
    using s'(1) up1 by (simp add: TcpConnection_send_def up_def conn_inv_def isInLoopThread_def)
  have "quiet (conn_channel ?k) ?s s'"
    by (rule sendInLoop_quiet [where c = c, OF _ _ _ _ direct]) (use up1 cb in \<open>simp_all add: up_def\<close>)
  from echo_quiet [OF this e(2)] have q: "(echo_chan p c' \<and> os_read_ok s' \<and> pendingFunctors s' = [] \<and> \<not> quit_flag s') \<and>
      osRead s' = osRead ?s \<and> osCalls ?s \<le> osCalls s'"
    using up1 s'(2) same e(3-5) by (simp add: up_def conn_inv_def os_read_ok_def put_conn_def)
  have "storage ?b = storage b" by (simp add: retrieveAll_def)
  then have "echo_conn n k'"
    by (intro echo_conn_same [OF _ s'(3)])
      (use e(1) b(2,4) s'(5) by1(2) retrieveAll_inv [OF b(2)] in \<open>simp_all add: echo_conn_def\<close>)
  with q show ?thesis using run s' same st got
    by (intro exI [of _ s'] exI [of _ k'] exI [of _ c']) (simp add: echo_ready_def served_def received_def)
qed

lemma echo_dispatch_read:
  assumes "echo_ready tid p (Suc n) k c s"
  shows "\<exists>s' k' c'. dispatch (conn_channel_cb ucall tid other) t readCallback wantsRead (conn_channel k) s = Inr s' \<and>
    echo_ready tid p n k' c' s' \<and> served (wantsRead (ch_revents c)) k s k' s'"
proof (cases "wantsRead (ch_revents c)")
  case True
  with echo_read [OF assms, of t] assms echo_ready_chans [OF assms] show ?thesis
    by (simp add: dispatch_def conn_channel_cb_def echo_ready_def echo_chan_def)
next
  case False
  have "echo_ready tid p n k c s" using assms echo_conn_less by (auto simp: echo_ready_def)
  with False echo_ready_chans [OF assms] show ?thesis
    by (intro exI [of _ s] exI [of _ k] exI [of _ c]) (simp add: dispatch_def served_def)
qed

lemma echo_dispatch_write:
  assumes "echo_ready tid p n k c s"
  shows "\<exists>s' k' c'. dispatch (conn_channel_cb ucall tid other) t writeCallback cond (conn_channel k) s = Inr s' \<and>
    echo_ready tid p n k' c' s' \<and> served False k s k' s'"
proof (cases "cond (ch_revents c)")
  case True
  with echo_write [OF assms] assms echo_ready_chans [OF assms] show ?thesis
    by (simp add: dispatch_def conn_channel_cb_def echo_ready_def echo_chan_def)
next
  case False
  with assms echo_ready_chans [OF assms] show ?thesis
    by (intro exI [of _ s] exI [of _ k] exI [of _ c]) (simp add: dispatch_def served_def)
qed

lemma echo_event:
  assumes ready: "echo_ready tid p (Suc n) k c s" and ev: "\<not> wantsClose (ch_revents c)" "\<not> wantsError (ch_revents c)"
  shows "\<exists>s' k' c'. handleEvent (conn_channel_cb ucall tid other) t (conn_channel k) s = Inr s' \<and>
    echo_ready tid p n k' c' s' \<and> served (wantsRead (ch_revents c)) k s k' s'"
proof -
  let ?q = "conn_channel k" let ?c = "c\<lparr>eventHandling := True\<rparr>" let ?s = "put_chan ?q ?c s"
  let ?call = "conn_channel_cb ucall tid other"
  have "same_cbs c ?c" by (simp add: same_cbs_def)
  note ready1 = echo_ready_chan [OF ready, of ?c, simplified, OF this]
  from echo_dispatch_read [OF ready1(1), of other t] obtain s1 k1 c1 where 1:
    "dispatch ?call t readCallback wantsRead ?q ?s = Inr s1" "echo_ready tid p n k1 c1 s1"
    "served (wantsRead (ch_revents c)) k ?s k1 s1" by auto
  then have q1: "conn_channel k1 = ?q" by (simp add: served_def)
  from echo_dispatch_write [OF 1(2), of other t wantsWrite] obtain s2 k2 c2 where 2:
    "dispatch ?call t writeCallback wantsWrite ?q s1 = Inr s2" "echo_ready tid p n k2 c2 s2" "served False k1 s1 k2 s2"
    unfolding q1 by blast
  then have q2: "conn_channel k2 = ?q" using q1 by (simp add: served_def)
  let ?d = "c2\<lparr>eventHandling := False\<rparr>" let ?s' = "put_chan ?q ?d s2"
  have "handleEvent ?call t ?q s = Inr ?s'"
    using ev 1(1) 2(1) echo_ready_chans [OF ready] echo_ready_chans [OF 2(2)] q2
    by (simp add: handleEvent_def dispatch_def [of _ _ closeCallback] dispatch_def [of _ _ errorCallback])
  moreover have "echo_ready tid p n k2 ?d ?s'"
    using echo_ready_chan [OF 2(2), of ?d] q2 by (simp_all add: same_cbs_def)
  moreover have "served (wantsRead (ch_revents c)) k s k2 ?s'"
    using served_trans [OF 1(3) 2(3)] by (simp add: served_chan)
  ultimately show ?thesis by blast
qed

lemma echo_turn_ok:
  assumes ready: "echo_ready tid p (Suc n) k c s" and ev: "\<not> wantsClose ev" "\<not> wantsError ev"
  shows "\<exists>s' k' c'. loop_iteration (conn_channel_cb ucall tid other) call now (WaitReady [(ev, conn_channel k)]) s = Inr s' \<and> echo_ready tid p n k' c' s' \<and>
    served (wantsRead ev) k s k' s'"
proof -
  from echo_poll [OF ready, of now ev] obtain s1 where 1: "EPoller_poll now (WaitReady [(ev, conn_channel k)]) [] s = Inr (now, [conn_channel k], s1)"
    "echo_ready tid p (Suc n) k (set_revents ev c) s1" "stream k s1 = stream k s" "osCalls s1 = osCalls s" "osRead s1 = osRead s" by blast
  let ?s = "s1\<lparr>pollReturnTime := now\<rparr>"
  have "ch_revents (set_revents ev c) = ev" by (simp add: set_revents_def)
  with echo_event [OF echo_ready_loop(1) [OF 1(2), where t = now], of other now] ev obtain s2 k' c' where 2:
    "handleEvent (conn_channel_cb ucall tid other) now (conn_channel k) ?s = Inr s2" "echo_ready tid p n k' c' s2"
    "served (wantsRead ev) k ?s k' s2" by auto
  let ?s' = "s2\<lparr>callingPendingFunctors := False, pendingFunctors := []\<rparr>"
  have "pendingFunctors s2 = []" using 2(2) by (simp add: echo_ready_def)
  then have "loop_iteration (conn_channel_cb ucall tid other) call now (WaitReady [(ev, conn_channel k)]) s = Inr ?s'"
    using 1(1) 2(1) by (simp add: loop_iteration_def doPendingFunctors_def)
  moreover have "served (wantsRead ev) k s k' ?s'" using 2(3) 1(3-5) by (cases "wantsRead ev") (auto simp: served_def stream_def received_def)
  ultimately show ?thesis using echo_ready_loop(2) [OF 2(2), of False] by blast
qed

lemma echo_loop:
  assumes "echo_ready tid p (length evs) k c s" and "\<forall>(now, ev) \<in> set evs. \<not> wantsClose ev \<and> \<not> wantsError ev"
  shows "\<exists>s' k' c' reads.
    loop_while (conn_channel_cb ucall tid other) call
      (map (\<lambda>(now, ev). (now, WaitReady [(ev, conn_channel k)])) evs) s = Inr (Polling s') \<and>
    echo_ready tid p 0 k' c' s' \<and> conn_sockfd k' = conn_sockfd k \<and> length reads = length (filter (wantsRead \<circ> snd) evs) \<and>
    sorted_wrt (<) reads \<and> set reads \<subseteq> {osCalls s..<osCalls s'} \<and> osCalls s \<le> osCalls s' \<and>
    stream k' s' = stream k s @ concat (map (received s (conn_sockfd k)) reads)"
  using assms
proof (induction evs arbitrary: k c s)
  case Nil
  then have "\<not> quit_flag s" by (simp add: echo_ready_def)
  with Nil show ?case by (intro exI [of _ s] exI [of _ k] exI [of _ c] exI [of _ "[]"]) (simp add: loop_while.simps)
next
  case (Cons x evs)
  obtain now ev where x: "x = (now, ev)" by force
  from Cons.prems x echo_turn_ok [of p "length evs" k c s ev other call now] obtain s1 k1 c1 where 1:
    "loop_iteration (conn_channel_cb ucall tid other) call now (WaitReady [(ev, conn_channel k)]) s = Inr s1" "echo_ready tid p (length evs) k1 c1 s1"
    "served (wantsRead ev) k s k1 s1" by auto
  have same: "conn_sockfd k1 = conn_sockfd k" "conn_channel k1 = conn_channel k" "osRead s1 = osRead s"
    using 1(3) by (simp_all add: served_def)
  have "\<forall>(now, ev) \<in> set evs. \<not> wantsClose ev \<and> \<not> wantsError ev" using Cons.prems(2) by simp
  from Cons.IH [OF 1(2) this] obtain s' k' c' reads where IH:
    "loop_while (conn_channel_cb ucall tid other) call
      (map (\<lambda>(now, ev). (now, WaitReady [(ev, conn_channel k1)])) evs) s1 = Inr (Polling s')"
    "echo_ready tid p 0 k' c' s'" "conn_sockfd k' = conn_sockfd k1" "length reads = length (filter (wantsRead \<circ> snd) evs)"
    "sorted_wrt (<) reads" "set reads \<subseteq> {osCalls s1..<osCalls s'}" "osCalls s1 \<le> osCalls s'"
    "stream k' s' = stream k1 s1 @ concat (map (received s1 (conn_sockfd k1)) reads)" by blast
  have "\<not> quit_flag s" using Cons.prems(1) by (simp add: echo_ready_def)
  with 1(1) IH(1) x same have "loop_while (conn_channel_cb ucall tid other) call
      (map (\<lambda>(now, ev). (now, WaitReady [(ev, conn_channel k)])) (x # evs)) s = Inr (Polling s')"
    by (simp add: loop_while.simps [of _ _ _ s])
  moreover have "received s1 = received s" using same(3) by (simp add: received_def fun_eq_iff)
  ultimately show ?case
    using IH(2-8) 1(3) same x
    by (intro exI [of _ s'] exI [of _ k'] exI [of _ c'] exI [of _ "(if wantsRead ev then [osCalls s] else []) @ reads"])
      (auto simp: served_def comp_def)
qed

end

interpretation ec: message_echo "echo_ucall tid" tid
  by unfold_locales (simp add: echo_ucall_def echoMessage_def echoConnection_def)

text \<open>
  C13: The echo server under the event loop.  However the poller reports the connection as readable or writable,
  turn after turn, and however many bytes the kernel accepts at each write, the loop goes on: no assertion
  fails, and what has been written to the socket and what waits in the output buffer together are what the kernel
  delivered, in the order of the reads, each read once.
\<close>

theorem echo_server:
  assumes "echo_ready tid p (length evs) k c s" and "\<forall>(now, ev) \<in> set evs. \<not> wantsClose ev \<and> \<not> wantsError ev"
  shows "\<exists>s' k' c' reads.
    loop_while (conn_channel_cb (echo_ucall tid) tid (\<lambda>_ _. Inr)) (conn_functor (echo_ucall tid) tid (\<lambda>_. Inr))
      (map (\<lambda>(now, ev). (now, WaitReady [(ev, conn_channel k)])) evs) s = Inr (Polling s') \<and>
    echo_ready tid p 0 k' c' s' \<and> conn_sockfd k' = conn_sockfd k \<and> length reads = length (filter (wantsRead \<circ> snd) evs) \<and>
    sorted_wrt (<) reads \<and> set reads \<subseteq> {osCalls s..<osCalls s'} \<and> osCalls s \<le> osCalls s' \<and>
    stream k' s' = stream k s @ concat (map (received s (conn_sockfd k)) reads)"
  using assms by (rule ec.echo_loop)

text \<open>A client that writes \<open>hi\<close> each time, and a kernel that accepts one byte at a time.\<close>

definition echo_demo_conn :: connection where
  "echo_demo_conn = (cn_demo_conn kConnected Buffer_new)\<lparr>messageCallback := Some echoMessage, highWaterMarkCallback := None\<rparr>"

definition echo_demo_chan :: channel where
  "echo_demo_chan = cn_demo_chan\<lparr>readCallback := Some (ConnRead 1), writeCallback := Some (ConnWrite 1)\<rparr>"

definition echo_demo :: conn_state_t where
  "echo_demo = put_chan 1 echo_demo_chan (put_conn 1 echo_demo_conn (cn_demo kConnected))"

lemma echo_demo_ready: "echo_ready 1 1 3 echo_demo_conn echo_demo_chan echo_demo"
proof -
  let ?k = "cn_demo_conn kConnected Buffer_new" let ?s = "put_conn 1 echo_demo_conn (cn_demo kConnected)"
  have "up 1 1 echo_demo_conn cn_demo_chan ?s"
    using cn_demo_up by (simp add: up_def conn_inv_def os_write_ok_def echo_demo_conn_def)
  from up_same_chan(1) [OF this, of echo_demo_chan] have "up 1 1 echo_demo_conn echo_demo_chan echo_demo"
    by (simp add: echo_demo_chan_def echo_demo_def echo_demo_conn_def cn_demo_conn_def)
  moreover have "echo_conn 3 echo_demo_conn"
    by (simp add: echo_conn_def echo_demo_conn_def cn_demo_conn_def buffer_inv_new extrabufSize_def)
  moreover have "echo_chan 1 echo_demo_chan" by (simp add: echo_chan_def echo_demo_chan_def)
  moreover have "os_read_ok echo_demo" "pendingFunctors echo_demo = []" "\<not> quit_flag echo_demo"
    by (simp_all add: os_read_ok_def echo_demo_def put_chan_def put_conn_def cn_demo_defs extrabufSize_def)
  ultimately show ?thesis by (simp add: echo_ready_def)
qed

theorem echo_server_witness:
  "\<exists>s' k' c'. loop_while (conn_channel_cb (echo_ucall 1) 1 (\<lambda>_ _. Inr)) (conn_functor (echo_ucall 1) 1 (\<lambda>_. Inr))
      [(5, WaitReady [(POLLIN, 1)]), (6, WaitReady [(POLLOUT, 1)]), (7, WaitReady [(POLLIN OR POLLOUT, 1)])] echo_demo = Inr (Polling s') \<and>
    up 1 1 k' c' s' \<and> stream k' s' = ''hihi''"
proof -
  let ?evs = "[(5, POLLIN), (6, POLLOUT), (7, POLLIN OR POLLOUT)] :: (int \<times> 32 word) list"
  have ev: "\<forall>(now, ev) \<in> set ?evs. \<not> wantsClose ev \<and> \<not> wantsError ev"
    "length (filter (wantsRead \<circ> snd) ?evs) = 2" "conn_channel echo_demo_conn = 1" "stream echo_demo_conn echo_demo = []"
    by (simp_all add: wantsClose_def wantsError_def wantsRead_def POLLIN_def POLLOUT_def POLLHUP_def POLLERR_def POLLNVAL_def POLLPRI_def
        POLLRDHUP_def echo_demo_conn_def stream_def echo_demo_def put_chan_def put_conn_def cn_demo_defs)
  have "received echo_demo fd i = ''hi''" for fd i
    by (simp add: received_def echo_demo_def put_chan_def put_conn_def cn_demo_defs)
  then have "concat (map (received echo_demo fd) reads) = ''hihi''" if "length reads = 2" for fd and reads :: "nat list"
    using that by (auto simp: numeral_2_eq_2 length_Suc_conv)
  then have two: "concat (map (received echo_demo (conn_sockfd echo_demo_conn)) reads) = ''hihi''"
    if "length reads = length (filter (wantsRead \<circ> snd) ?evs)" for reads :: "nat list" using that ev(2) by metis
  have ready: "echo_ready 1 1 (length ?evs) echo_demo_conn echo_demo_chan echo_demo" using echo_demo_ready by (simp add: numeral_3_eq_3)
  from echo_server [OF ready ev(1)] obtain s' k' c' reads where
    "loop_while (conn_channel_cb (echo_ucall 1) 1 (\<lambda>_ _. Inr)) (conn_functor (echo_ucall 1) 1 (\<lambda>_. Inr))
      (map (\<lambda>(now, ev). (now, WaitReady [(ev, conn_channel echo_demo_conn)])) ?evs) echo_demo = Inr (Polling s')"
    "echo_ready 1 1 0 k' c' s'" "length reads = length (filter (wantsRead \<circ> snd) ?evs)"
    "stream k' s' = stream echo_demo_conn echo_demo @ concat (map (received echo_demo (conn_sockfd echo_demo_conn)) reads)" by blast
  with two [of reads] ev(3,4) show ?thesis
    by (intro exI [of _ s'] exI [of _ k'] exI [of _ c']) (simp add: echo_ready_def)
qed

end
