(* ===== verification/Finger.thy ===== *)
theory Finger
  imports Streams
begin

section \<open>The finger servers\<close>

text \<open>
  \<open>examples/finger/finger03.cpp\<close> to \<open>finger07.cpp\<close>: the callbacks of five small servers.  The programs \<open>finger01\<close> and
  \<open>finger02\<close> set no callback.  \<open>users\<close> is the global map of the last two, which share the text of \<open>onMessage\<close>.
\<close>

type_synonym UserMap = "string \<Rightarrow> string option"

definition finger03_onConnection where
  "finger03_onConnection tid p s = with_conn p s (\<lambda>k. if connected k then TcpConnection_shutdown tid p s else Inr s)"

definition finger04_onMessage where
  "finger04_onMessage tid p s =
     with_conn p s (\<lambda>k. bindR (findCRLF (inputBuffer k)) (\<lambda>crlf.
       if crlf \<noteq> None then TcpConnection_shutdown tid p s else Inr s))"

definition finger05_onMessage where
  "finger05_onMessage tid p s =
     with_conn p s (\<lambda>k. bindR (findCRLF (inputBuffer k)) (\<lambda>crlf.
       if crlf \<noteq> None then
         bindR (TcpConnection_send tid p (''No such user'' @ kCRLF) s) (\<lambda>s1. TcpConnection_shutdown tid p s1)
       else Inr s))"

definition finger06_getUser :: "string \<Rightarrow> UserMap \<Rightarrow> string \<times> UserMap" where
  "finger06_getUser user users = ((case users user of None \<Rightarrow> ''No such user'' | Some info \<Rightarrow> info), users)"

definition finger07_getUser :: "string \<Rightarrow> UserMap \<Rightarrow> string \<times> UserMap" where
  "finger07_getUser user users =
     (case users user of
        Some info \<Rightarrow> (info, users)
      | None \<Rightarrow> (''add new user, yahaha!'', users(user \<mapsto> ''yahaha!'')))"

definition finger_onMessage where
  "finger_onMessage getUser tid p users s =
     with_conn p s (\<lambda>k. bindR (findCRLF (inputBuffer k)) (\<lambda>crlf.
       case crlf of
         None \<Rightarrow> Inr (users, s)
       | Some c \<Rightarrow>
           bindR (read_at (peek (inputBuffer k)) (c - peek (inputBuffer k)) (storage (inputBuffer k))) (\<lambda>user.
           let (info, users1) = getUser user users in
           bindR (TcpConnection_send tid p (info @ kCRLF) s) (\<lambda>s1.
           with_conn p s1 (\<lambda>k1.
           bindR (retrieveUntil (c + 2) (inputBuffer k1)) (\<lambda>buf1.
           bindR (TcpConnection_shutdown tid p (put_conn p (k1\<lparr>inputBuffer := buf1\<rparr>) s1)) (\<lambda>s2.
             Inr (users1, s2))))))))"

definition finger06_onMessage where
  "finger06_onMessage tid p users s = finger_onMessage finger06_getUser tid p users s"

definition finger07_onMessage where
  "finger07_onMessage tid p users s = finger_onMessage finger07_getUser tid p users s"

subsection \<open>What the servers answer\<close>

lemma finger_line:
  assumes "up tid p k c s" "buffer_inv (inputBuffer k)" "content (inputBuffer k) = user @ kCRLF @ rest" "CR \<notin> set user"
    and "getUser user users = (info, users1)" "writerIndex (outputBuffer k) + length info + 2 \<le> VEC_MAX"
  shows "\<exists>s' k' c'. finger_onMessage getUser tid p users s = Inr (users1, s') \<and> conn_inv p k' c' s' \<and>
    conn_state k' = kDisconnecting \<and> content (inputBuffer k') = rest \<and> stream k' s' = stream k s @ info @ kCRLF"
proof -
  obtain buf1 where buf1: "findCRLF (inputBuffer k) = Inr (Some (peek (inputBuffer k) + length user))"
    "read_at (peek (inputBuffer k)) (length user) (storage (inputBuffer k)) = Inr user"
    "retrieveUntil (peek (inputBuffer k) + length user + 2) (inputBuffer k) = Inr buf1" "buffer_inv buf1" "content buf1 = rest"
    by (rule line_in_buffer [OF assms(2-4)])
  have "up tid p k c s \<and> writerIndex (outputBuffer k) + length (info @ kCRLF) \<le> VEC_MAX"
    using assms(1,6) by (simp add: kCRLF_def)
  from sends_send [of tid p "info @ kCRLF", unfolded sends_def, rule_format, OF this] obtain k1 c1 s1 where s1:
    "TcpConnection_send tid p (info @ kCRLF) s = Inr s1" "up tid p k1 c1 s1" "conn_same k k1" "stream k1 s1 = stream k s @ info @ kCRLF"
    by blast
  have same: "inputBuffer k1 = inputBuffer k" using s1(3) by (cases k; cases k1; simp add: conn_same_def)
  let ?k = "k1\<lparr>inputBuffer := buf1\<rparr>" let ?s = "put_conn p ?k s1"
  note up2 = up_input [OF s1(2), of buf1]
  from shutdown_up [OF up2(1)] obtain k' s' where s': "TcpConnection_shutdown tid p ?s = Inr s'" "conn_inv p k' c1 s'"
    "conn_state k' = kDisconnecting" "k'\<lparr>conn_state := kConnected\<rparr> = ?k" "stream k' s' = stream ?k ?s" by blast
  have "finger_onMessage getUser tid p users s = Inr (users1, s')"
    using assms(1,5) buf1(1-3) s1(1,2) same s'(1) by (simp add: finger_onMessage_def up_def conn_inv_def)
  moreover have "inputBuffer k' = buf1" using arg_cong [OF s'(4), of inputBuffer] by simp
  ultimately show ?thesis using s' s1(4) up2(2) buf1(5)
    by (intro exI [of _ s'] exI [of _ k'] exI [of _ c1]) simp
qed

text \<open>
  The finger server of the last step.  A complete line is answered with what the map says about the user,
  followed by CRLF, exactly the line is consumed, and the connection starts to shut down; the first
  question about a user is answered by adding it, every later one with what was added, and a line that is not yet
  complete changes nothing.
\<close>

theorem finger_answers:
  assumes "up tid p k c s" "buffer_inv (inputBuffer k)" "writerIndex (outputBuffer k) + 23 \<le> VEC_MAX"
    and "\<forall>u info. users u = Some info \<longrightarrow> info = ''yahaha!''"
  shows "(\<forall>user rest. content (inputBuffer k) = user @ kCRLF @ rest \<and> CR \<notin> set user \<longrightarrow>
     (\<exists>s' k' c'. finger07_onMessage tid p users s = Inr (users(user \<mapsto> ''yahaha!''), s') \<and> conn_inv p k' c' s' \<and>
        conn_state k' = kDisconnecting \<and> content (inputBuffer k') = rest \<and>
        stream k' s' = stream k s @ (if users user = None then ''add new user, yahaha!'' else ''yahaha!'') @ kCRLF)) \<and>
    (search kCRLF (content (inputBuffer k)) = None \<longrightarrow> finger07_onMessage tid p users s = Inr (users, s))"
proof (intro conjI allI impI)
  fix user rest
  assume a: "content (inputBuffer k) = user @ kCRLF @ rest \<and> CR \<notin> set user"
  let ?info = "if users user = None then ''add new user, yahaha!'' else ''yahaha!''"
  have "finger07_getUser user users = (?info, users(user \<mapsto> ''yahaha!''))"
    using assms(4) by (auto simp: finger07_getUser_def fun_upd_idem split: option.split)
  moreover have "writerIndex (outputBuffer k) + length ?info + 2 \<le> VEC_MAX" using assms(3) by simp
  ultimately show "\<exists>s' k' c'. finger07_onMessage tid p users s = Inr (users(user \<mapsto> ''yahaha!''), s') \<and> conn_inv p k' c' s' \<and>
      conn_state k' = kDisconnecting \<and> content (inputBuffer k') = rest \<and> stream k' s' = stream k s @ ?info @ kCRLF"
    using finger_line [OF assms(1,2) conjunct1 [OF a] conjunct2 [OF a], of finger07_getUser users] by (simp add: finger07_onMessage_def)
next
  assume "search kCRLF (content (inputBuffer k)) = None"
  with assms(1,2) show "finger07_onMessage tid p users s = Inr (users, s)"
    by (simp add: finger07_onMessage_def finger_onMessage_def up_def conn_inv_def findCRLF_eq)
qed

theorem finger_answers_witness:
  "\<exists>b s' k' c'. content b = ''chao'' @ kCRLF \<and>
    finger07_onMessage 1 1 (\<lambda>_. None) (put_conn 1 ((cn_demo_conn kConnected Buffer_new)\<lparr>inputBuffer := b\<rparr>) (cn_demo kConnected)) =
      Inr ([''chao'' \<mapsto> ''yahaha!''], s') \<and>
    conn_inv 1 k' c' s' \<and> conn_state k' = kDisconnecting \<and> stream k' s' = ''add new user, yahaha!'' @ kCRLF"
proof -
  obtain b where b: "buffer_inv b" "content b = ''chao'' @ kCRLF" by (rule buffer_with [of "''chao'' @ kCRLF"]) (simp_all add: kCRLF_def)
  let ?k = "(cn_demo_conn kConnected Buffer_new)\<lparr>inputBuffer := b\<rparr>" let ?s = "put_conn 1 ?k (cn_demo kConnected)"
  note up = up_input [OF cn_demo_up, of b]
  have f: "buffer_inv (inputBuffer ?k)" "writerIndex (outputBuffer ?k) + 23 \<le> VEC_MAX" "stream ?k ?s = []"
    "content (inputBuffer ?k) = ''chao'' @ kCRLF @ []" "CR \<notin> set ''chao''"
    using b by (simp_all add: cn_demo_conn_def stream_def cn_demo_defs del: length_content)
  have "\<forall>u info. (\<lambda>_. None) u = Some info \<longrightarrow> info = ''yahaha!''" by simp
  from finger_answers [OF up(1) f(1,2) this] f(3-5) obtain s' k' c' where
    "finger07_onMessage 1 1 (\<lambda>_. None) ?s = Inr ([''chao'' \<mapsto> ''yahaha!''], s')" "conn_inv 1 k' c' s'" "conn_state k' = kDisconnecting"
    "stream k' s' = ''add new user, yahaha!'' @ kCRLF" by fastforce
  with b(2) show ?thesis by blast
qed

end
