(* ===== verification/Discard.thy ===== *)
theory Discard
  imports Streams
begin

section \<open>The discard server and client\<close>

text \<open>
  \<open>examples/discard/server.cc\<close> and \<open>examples/discard/client.cpp\<close>.  The two atomic counters of the server are
  \<open>int64_t\<close>; its constructor does not initialise them, so their first values are arguments.  What
  \<open>printThroughput\<close> prints is a function of the byte count, the message count and the time, which
  it returns here.
\<close>

record discard_server =
  transferred :: "64 word"
  receivedMessages :: "64 word"
  oldCounter :: "64 word"
  startTime :: time

definition DiscardServer_new :: "64 word \<Rightarrow> 64 word \<Rightarrow> time \<Rightarrow> discard_server" where
  "DiscardServer_new u v now = \<lparr>transferred = u, receivedMessages = v, oldCounter = 0, startTime = now\<rparr>"

definition discard_count :: "nat \<Rightarrow> discard_server \<Rightarrow> discard_server" where
  "discard_count len d = d\<lparr>transferred := transferred d + of_nat len, receivedMessages := receivedMessages d + of_nat len\<rparr>"

definition discard_onMessage where
  "discard_onMessage p d s =
     with_conn p s (\<lambda>k.
       let len = readableBytes (inputBuffer k) in
       Inr (discard_count len d, put_conn p (k\<lparr>inputBuffer := retrieveAll (inputBuffer k)\<rparr>) s))"

record throughput =
  tp_bytes :: "64 word"
  tp_msgs :: "64 word"
  tp_time :: double

definition printThroughput :: "time \<Rightarrow> discard_server \<Rightarrow> throughput \<times> discard_server" where
  "printThroughput endTime d =
     (let newCounter = transferred d; bytes = newCounter - oldCounter d; msgs = receivedMessages d in
      (\<lparr>tp_bytes = bytes, tp_msgs = msgs, tp_time = timeDifference endTime (startTime d)\<rparr>,
       d\<lparr>receivedMessages := 0, oldCounter := newCounter, startTime := endTime\<rparr>))"

text \<open>The client: its message and whether it has been sent a second time.\<close>

record discard_client =
  dc_message :: string
  dc_i :: nat

definition DiscardClient_new :: "nat \<Rightarrow> discard_client" where
  "DiscardClient_new n = \<lparr>dc_message = replicate n (CHR ''H''), dc_i = 0\<rparr>"

definition discard_onConnection where
  "discard_onConnection tid d p s =
     with_conn p s (\<lambda>k.
       if connected k then
         bindR (TcpConnection_setTcpNoDelay p True s) (\<lambda>s1. TcpConnection_send tid p (dc_message d) s1)
       else Inr (EventLoop_quit tid s))"

definition discard_client_onMessage where
  "discard_client_onMessage p s = with_conn p s (\<lambda>k. Inr (put_conn p (k\<lparr>inputBuffer := retrieveAll (inputBuffer k)\<rparr>) s))"

definition discard_onWriteComplete where
  "discard_onWriteComplete tid p d s =
     (if dc_i d = 0 then bindR (TcpConnection_send tid p (dc_message d) s) (\<lambda>s1. Inr (d\<lparr>dc_i := 1\<rparr>, s1))
      else Inr (d, s))"

subsection \<open>The counters of the server\<close>

text \<open>Messages of the given sizes and runs of the timer, in any order; the reports are collected.\<close>

datatype discard_event = Message nat | Report time

fun discard_run :: "discard_event list \<Rightarrow> discard_server \<Rightarrow> discard_server \<times> throughput list" where
  "discard_run [] d = (d, [])"
| "discard_run (Message len # es) d = discard_run es (discard_count len d)"
| "discard_run (Report now # es) d =
     (let (t, d1) = printThroughput now d; (d2, ts) = discard_run es d1 in (d2, t # ts))"

fun discard_bytes :: "discard_event list \<Rightarrow> nat" where
  "discard_bytes [] = 0"
| "discard_bytes (Message len # es) = len + discard_bytes es"
| "discard_bytes (Report now # es) = discard_bytes es"

text \<open>A message is counted with its length in both counters, and nothing of it is kept.\<close>

lemma discard_message:
  assumes "up tid p k c s" "buffer_inv (inputBuffer k)"
  shows "\<exists>s' k'. discard_onMessage p d s = Inr (discard_count (length (content (inputBuffer k))) d, s') \<and>
    up tid p k' c s' \<and> content (inputBuffer k') = [] \<and> buffer_inv (inputBuffer k') \<and> stream k' s' = stream k s"
proof -
  have "conns s p = Some k" using assms(1) by (simp add: up_def conn_inv_def)
  with up_input [OF assms(1), of "retrieveAll (inputBuffer k)"] retrieveAll_inv [OF assms(2)] assms(2) show ?thesis
    by (intro exI [of _ "put_conn p (k\<lparr>inputBuffer := retrieveAll (inputBuffer k)\<rparr>) s"]
        exI [of _ "k\<lparr>inputBuffer := retrieveAll (inputBuffer k)\<rparr>"])
      (simp add: discard_onMessage_def Let_def del: length_content)
qed

lemma discard_run_bytes:
  "discard_run es d = (d', ts) \<Longrightarrow>
     sum_list (map tp_bytes ts) + (transferred d' - oldCounter d') = transferred d - oldCounter d + of_nat (discard_bytes es)"
proof (induction es d arbitrary: d' ts rule: discard_run.induct)
  case (2 len es d)
  then show ?case by (simp add: discard_count_def algebra_simps)
next
  case (3 now es d)
  obtain t d1 where t: "printThroughput now d = (t, d1)" by force
  obtain d2 us where r: "discard_run es d1 = (d2, us)" by force
  from 3(1) [OF t [symmetric] refl r] 3(2) t r show ?case
    by (auto simp: printThroughput_def Let_def algebra_simps)
qed simp

lemma discard_run_msgs:
  "discard_run es d = (d', ts) \<Longrightarrow> receivedMessages d = transferred d - oldCounter d \<Longrightarrow> t \<in> set ts \<Longrightarrow> tp_msgs t = tp_bytes t"
proof (induction es d arbitrary: d' ts rule: discard_run.induct)
  case (2 len es d)
  then show ?case by (simp add: discard_count_def algebra_simps)
next
  case (3 now es d)
  obtain u d1 where u: "printThroughput now d = (u, d1)" by force
  obtain d2 us where r: "discard_run es d1 = (d2, us)" by force
  have d1: "receivedMessages d1 = transferred d1 - oldCounter d1" "tp_msgs u = tp_bytes u"
    using u 3(3) by (auto simp: printThroughput_def Let_def)
  from 3(1) [OF u [symmetric] refl r d1(1)] 3(2,4) u r d1(2) show ?case by auto
qed simp

lemma discard_run_later:
  "discard_run es d = (d', ts) \<Longrightarrow> t \<in> set (tl ts) \<Longrightarrow> tp_msgs t = tp_bytes t"
proof (induction es d arbitrary: d' ts rule: discard_run.induct)
  case (3 now es d)
  obtain u d1 where u: "printThroughput now d = (u, d1)" by force
  obtain d2 us where r: "discard_run es d1 = (d2, us)" by force
  have "receivedMessages d1 = transferred d1 - oldCounter d1" using u by (auto simp: printThroughput_def Let_def)
  from discard_run_msgs [OF r this] 3(2,3) u r show ?case by auto
qed simp_all

text \<open>
  The throughput reports of the discard server account for every byte: what they say together, and what has come
  in since the last of them, are all bytes received, added to the first value of the counter, modulo \<open>2^64\<close>.  But the
  message counter is advanced by the number of bytes: every report after the first one, and all of them when the
  counters start equal, says that there were as many messages as bytes.
\<close>

theorem discard_accounting:
  assumes "discard_run es (DiscardServer_new u v t0) = (d', ts)"
  shows "sum_list (map tp_bytes ts) + (transferred d' - oldCounter d') = u + of_nat (discard_bytes es) \<and>
    (\<forall>t \<in> set (tl ts). tp_msgs t = tp_bytes t) \<and> (u = v \<longrightarrow> (\<forall>t \<in> set ts. tp_msgs t = tp_bytes t))"
  using discard_run_bytes [OF assms] discard_run_later [OF assms] discard_run_msgs [OF assms]
  by (simp add: DiscardServer_new_def)

theorem discard_accounting_witness:
  "\<exists>d' r1 r2. discard_run [Message 5, Message 7, Report 1, Message 4, Report 2] (DiscardServer_new 0 0 0) = (d', [r1, r2]) \<and>
    tp_bytes r1 + tp_bytes r2 = 16 \<and> tp_msgs r2 = tp_bytes r2"
proof -
  obtain d' ts where r: "discard_run [Message 5, Message 7, Report 1, Message 4, Report 2] (DiscardServer_new 0 0 0) = (d', ts)"
    by force
  from r obtain r1 r2 where ts: "ts = [r1, r2]" by (auto split: prod.splits)
  have "transferred d' = oldCounter d'" using r by (auto simp: printThroughput_def Let_def split: prod.splits)
  with discard_accounting [OF r] r ts show ?thesis by simp
qed

subsection \<open>What the client sends\<close>

fun discard_completions where
  "discard_completions tid p 0 d s = Inr (d, s)"
| "discard_completions tid p (Suc n) d s =
     bindR (discard_onWriteComplete tid p d s) (\<lambda>(d1, s1). discard_completions tid p n d1 s1)"

lemma discard_completions_done: "dc_i d = 1 \<Longrightarrow> discard_completions tid p n d s = Inr (d, s)"
  by (induction n) (simp_all add: discard_onWriteComplete_def)

text \<open>
  The discard client sends its message when it is connected and once more at the first write completion,
  however many of them follow.
\<close>

theorem discard_client_sends:
  assumes "up tid p k c s" "writerIndex (outputBuffer k) + 2 * sz \<le> VEC_MAX"
  shows "\<exists>s1. discard_onConnection tid (DiscardClient_new sz) p s = Inr s1 \<and>
    (\<exists>d s' k' c'. discard_completions tid p n (DiscardClient_new sz) s1 = Inr (d, s') \<and> up tid p k' c' s' \<and>
      stream k' s' = stream k s @ replicate (if n = 0 then sz else 2 * sz) (CHR ''H''))"
proof -
  let ?d = "DiscardClient_new sz" let ?s = "net (NetNoDelay (conn_sockfd k) True) s"
  have k: "conns s p = Some k" "connected k" using assms(1) by (simp_all add: up_def conn_inv_def connected_def)
  have up1: "up tid p k c ?s" "stream k ?s = stream k s" using assms(1) by (simp_all add: up_def os_write_ok_def stream_def)
  have len: "length (dc_message ?d) = sz" "dc_i ?d = 0" "dc_message ?d = replicate sz (CHR ''H'')" by (simp_all add: DiscardClient_new_def)
  have "up tid p k c ?s \<and> writerIndex (outputBuffer k) + length (dc_message ?d) \<le> VEC_MAX" using up1 assms(2) len by simp
  from sends_send [of tid p "dc_message ?d", unfolded sends_def, rule_format, OF this] obtain k1 c1 s1 where s1:
    "TcpConnection_send tid p (dc_message ?d) ?s = Inr s1" "up tid p k1 c1 s1" "stream k1 s1 = stream k ?s @ dc_message ?d"
    "writerIndex (outputBuffer k1) \<le> writerIndex (outputBuffer k) + length (dc_message ?d)" by blast
  have "up tid p k1 c1 s1 \<and> writerIndex (outputBuffer k1) + length (dc_message ?d) \<le> VEC_MAX" using s1(2,4) assms(2) len by simp
  from sends_send [of tid p "dc_message ?d", unfolded sends_def, rule_format, OF this] obtain k2 c2 s2 where s2:
    "TcpConnection_send tid p (dc_message ?d) s1 = Inr s2" "up tid p k2 c2 s2" "stream k2 s2 = stream k1 s1 @ dc_message ?d" by blast
  have run: "discard_onConnection tid ?d p s = Inr s1"
    using k s1(1) by (simp add: discard_onConnection_def TcpConnection_setTcpNoDelay_def Socket_setTcpNoDelay_def)
  show ?thesis
  proof (cases n)
    case 0
    with run s1(2,3) up1(2) len show ?thesis by auto
  next
    case (Suc m)
    have "discard_completions tid p n ?d s1 = Inr (?d\<lparr>dc_i := 1\<rparr>, s2)"
      using Suc s2(1) len(2) discard_completions_done [of "?d\<lparr>dc_i := 1\<rparr>"] by (simp add: discard_onWriteComplete_def)
    moreover have "stream k2 s2 = stream k s @ replicate (2 * sz) (CHR ''H'')"
      using s2(3) s1(3) up1(2) len(3) by (simp add: mult_2 replicate_add)
    ultimately show ?thesis using run s2(2) Suc by auto
  qed
qed

theorem discard_client_sends_witness:
  "\<exists>s1 d s' k' c'. discard_onConnection 1 (DiscardClient_new 256) 1 (cn_demo kConnected) = Inr s1 \<and>
    discard_completions 1 1 3 (DiscardClient_new 256) s1 = Inr (d, s') \<and> up 1 1 k' c' s' \<and> length (stream k' s') = 512"
proof -
  have "stream (cn_demo_conn kConnected Buffer_new) (cn_demo kConnected) = []" by (simp add: stream_def cn_demo_defs)
  moreover have "writerIndex (outputBuffer (cn_demo_conn kConnected Buffer_new)) + 2 * 256 \<le> VEC_MAX" by (simp add: cn_demo_conn_def)
  ultimately show ?thesis using discard_client_sends [OF cn_demo_up, of 256 3] by fastforce
qed

end
