(* ===== verification/FileTransfer.thy ===== *)
theory FileTransfer
  imports Streams
begin

section \<open>The file server\<close>

text \<open>
  \<open>examples/filetransfer/server.cpp\<close>.  \<open>g_file\<close> is a \<open>const char*\<close>: null, the text of a string that exists, or
  dangling.  \<open>fs\<close> is the file system: the contents of the files that can be opened.  The context of a connection
  is the open file, of which \<open>ft_file\<close> holds the part that has not been read.
\<close>

datatype c_str = NullStr | Str string | DanglingStr

record file_state = conn_state_t +
  g_file :: c_str
  ft_file :: "nat \<Rightarrow> string option"

definition ft_kBufSize :: nat where
  "ft_kBufSize = 64 * 1024"

definition transFile where
  "transFile tid fs p s =
     with_conn p s (\<lambda>k.
       if connected k then
         (case g_file s of
            Str name \<Rightarrow>
              (case fs name of
                 Some data \<Rightarrow>
                   TcpConnection_send tid p (take ft_kBufSize data) (s\<lparr>ft_file := (ft_file s)(p \<mapsto> drop ft_kBufSize data)\<rparr>)
               | None \<Rightarrow> TcpConnection_shutdown tid p s)
          | _ \<Rightarrow> Inl DanglingPointer)
       else Inr s)"

text \<open>
  The string \<open>filename\<close> lives only in the block of the \<open>if\<close>, so the pointer stored in \<open>g_file\<close> dangles when the
  block is left.
\<close>

definition ft_onMessage where
  "ft_onMessage tid fs p s =
     with_conn p s (\<lambda>k.
       if connected k then
         bindR (findCRLF (inputBuffer k)) (\<lambda>crlf.
         bindR (case crlf of
                  None \<Rightarrow> Inr s
                | Some c \<Rightarrow>
                    bindR (read_at (peek (inputBuffer k)) (c - peek (inputBuffer k)) (storage (inputBuffer k))) (\<lambda>filename.
                    bindR (retrieveUntil (c + 2) (inputBuffer k)) (\<lambda>buf.
                      Inr ((put_conn p (k\<lparr>inputBuffer := buf\<rparr>) s)\<lparr>g_file := DanglingStr\<rparr>)))) (\<lambda>s1.
         if g_file s1 \<noteq> NullStr then transFile tid fs p s1 else Inr s1))
       else TcpConnection_shutdown tid p s)"

definition ft_onWriteComplete where
  "ft_onWriteComplete tid p s =
     (case ft_file s p of
        None \<Rightarrow> Inl BadAnyCast
      | Some rest \<Rightarrow>
          let buf = take ft_kBufSize rest; s1 = s\<lparr>ft_file := (ft_file s)(p \<mapsto> drop ft_kBufSize rest)\<rparr> in
          if 0 < length buf then TcpConnection_send tid p buf s1 else TcpConnection_shutdown tid p s1)"

fun ft_completions where
  "ft_completions tid p 0 s = Inr s"
| "ft_completions tid p (Suc n) s = bindR (ft_onWriteComplete tid p s) (ft_completions tid p n)"

subsection \<open>Requests and transfers\<close>

text \<open>
  A request never gets an answer: when the line with the name of the file is complete, the server
  reads a string that no longer exists.
\<close>

theorem file_request_dangles:
  assumes "up tid p k c s" "buffer_inv (inputBuffer k)" "content (inputBuffer k) = line @ kCRLF @ rest" "CR \<notin> set line"
  shows "ft_onMessage tid fs p s = Inl DanglingPointer"
proof -
  obtain buf1 where "findCRLF (inputBuffer k) = Inr (Some (peek (inputBuffer k) + length line))"
    "read_at (peek (inputBuffer k)) (length line) (storage (inputBuffer k)) = Inr line"
    "retrieveUntil (peek (inputBuffer k) + length line + 2) (inputBuffer k) = Inr buf1" "buffer_inv buf1" "content buf1 = rest"
    by (rule line_in_buffer [OF assms(2-4)])
  moreover have "conns s p = Some k" "connected k" using assms(1) by (simp_all add: up_def conn_inv_def connected_def)
  ultimately show ?thesis by (simp add: ft_onMessage_def transFile_def connected_def put_conn_def)
qed

text \<open>Changing only the program's own fields.\<close>

lemma up_file:
  "up tid p k c (s\<lparr>g_file := g\<rparr>) = up tid p k c s" "stream k (s\<lparr>g_file := g\<rparr>) = stream k s"
  "up tid p k c (s\<lparr>ft_file := f\<rparr>) = up tid p k c s" "stream k (s\<lparr>ft_file := f\<rparr>) = stream k s"
  by (simp_all add: up_def conn_inv_def loop_inv_def own_chans_def ep_registered_def os_write_ok_def epoll_inv_def
      epoll_chan_ok_def stream_def)

lemma send_keeps_file:
  fixes s :: "'m file_state_scheme"
  assumes "up tid p k c s" "writerIndex (outputBuffer k) + length msg \<le> VEC_MAX"
  obtains s' k' c' where "TcpConnection_send tid p msg s = Inr s'" "up tid p k' c' s'" "stream k' s' = stream k s @ msg"
    "writerIndex (outputBuffer k') \<le> writerIndex (outputBuffer k) + length msg" "ft_file s' = ft_file s"
proof -
  from sends_send [of tid p msg, unfolded sends_def, rule_format, OF conjI [OF assms]] obtain s' k' c' where s':
    "TcpConnection_send tid p msg s = Inr s'" "up tid p k' c' s'" "stream k' s' = stream k s @ msg"
    "writerIndex (outputBuffer k') \<le> writerIndex (outputBuffer k) + length msg" by blast
  have "apart (Suc p) (Suc (conn_channel k)) (conn_sockfd k + 1) s s'"
    by (rule apart_send [OF assms _ _ _ s'(1)]) simp_all
  then have "ft_file s' = ft_file s" by (cases s; cases s') (simp add: apart_def)
  with s' that show thesis by blast
qed

lemma file_rest:
  fixes s :: "'m file_state_scheme"
  assumes "up tid p k c s" "ft_file s p = Some rest" "length rest \<le> j * ft_kBufSize"
    "writerIndex (outputBuffer k) + length rest \<le> VEC_MAX"
  shows "\<exists>n s' k' c'. n \<le> Suc j \<and> ft_completions tid p n s = Inr s' \<and> conn_inv p k' c' s' \<and> conn_state k' = kDisconnecting \<and>
    stream k' s' = stream k s @ rest"
  using assms
proof (induction j arbitrary: s k c rest)
  case 0
  let ?s = "s\<lparr>ft_file := (ft_file s)(p \<mapsto> [])\<rparr>"
  have "up tid p k c ?s" using 0(1) by (simp add: up_file)
  from shutdown_up [OF this] obtain k' s' where s': "TcpConnection_shutdown tid p ?s = Inr s'" "conn_inv p k' c s'"
    "conn_state k' = kDisconnecting" "stream k' s' = stream k ?s" by blast
  have "ft_completions tid p 1 s = Inr s'" using 0(2,3) s'(1) by (simp add: ft_onWriteComplete_def Let_def)
  with s' 0(3) show ?case by (intro exI [of _ 1] exI [of _ s'] exI [of _ k'] exI [of _ c]) (simp add: up_file)
next
  case (Suc j)
  show ?case
  proof (cases "rest = []")
    case True
    from Suc.IH [OF Suc.prems(1,2)] Suc.prems(4) True show ?thesis using le_SucI by fastforce
  next
    case False
    let ?s = "s\<lparr>ft_file := (ft_file s)(p \<mapsto> drop ft_kBufSize rest)\<rparr>"
    have up: "up tid p k c ?s" using Suc.prems(1) by (simp add: up_file)
    have room: "writerIndex (outputBuffer k) + length (take ft_kBufSize rest) \<le> VEC_MAX" using Suc.prems(4) by simp
    obtain s1 k1 c1 where s1: "TcpConnection_send tid p (take ft_kBufSize rest) ?s = Inr s1" "up tid p k1 c1 s1"
      "stream k1 s1 = stream k ?s @ take ft_kBufSize rest"
      "writerIndex (outputBuffer k1) \<le> writerIndex (outputBuffer k) + length (take ft_kBufSize rest)" "ft_file s1 = ft_file ?s"
      by (rule send_keeps_file [OF up room])
    have step: "ft_onWriteComplete tid p s = Inr s1"
      using Suc.prems(2) s1(1) False by (simp add: ft_onWriteComplete_def Let_def ft_kBufSize_def)
    have "ft_file s1 p = Some (drop ft_kBufSize rest)" "length (drop ft_kBufSize rest) \<le> j * ft_kBufSize"
      "writerIndex (outputBuffer k1) + length (drop ft_kBufSize rest) \<le> VEC_MAX"
      using s1(4,5) Suc.prems(3,4) by (auto simp: min_def split: if_splits)
    from Suc.IH [OF s1(2) this] obtain n s' k' c' where s': "n \<le> Suc j" "ft_completions tid p n s1 = Inr s'" "conn_inv p k' c' s'"
      "conn_state k' = kDisconnecting" "stream k' s' = stream k1 s1 @ drop ft_kBufSize rest" by blast
    with step s1(3) show ?thesis
      by (intro exI [of _ "Suc n"] exI [of _ s'] exI [of _ k'] exI [of _ c']) (simp add: up_file)
  qed
qed

text \<open>
  If the name could be read, the whole file would be sent: the first part at once, one part of at most
  65536 bytes at each write completion, and then the connection shuts down, after at most one completion
  more than the file has full parts.
\<close>

theorem file_transfer:
  assumes "up tid p k c s" "g_file s = Str name" "fs name = Some data" "writerIndex (outputBuffer k) + length data \<le> VEC_MAX"
  shows "\<exists>s1 n s' k' c'. transFile tid fs p s = Inr s1 \<and> n \<le> Suc (length data div ft_kBufSize) \<and>
    ft_completions tid p n s1 = Inr s' \<and> conn_inv p k' c' s' \<and> conn_state k' = kDisconnecting \<and>
    stream k' s' = stream k s @ data"
proof -
  let ?s = "s\<lparr>ft_file := (ft_file s)(p \<mapsto> drop ft_kBufSize data)\<rparr>"
  have up: "up tid p k c ?s" using assms(1) by (simp add: up_file)
  have room: "writerIndex (outputBuffer k) + length (take ft_kBufSize data) \<le> VEC_MAX" using assms(4) by simp
  obtain s1 k1 c1 where s1: "TcpConnection_send tid p (take ft_kBufSize data) ?s = Inr s1" "up tid p k1 c1 s1"
    "stream k1 s1 = stream k ?s @ take ft_kBufSize data"
    "writerIndex (outputBuffer k1) \<le> writerIndex (outputBuffer k) + length (take ft_kBufSize data)" "ft_file s1 = ft_file ?s"
    by (rule send_keeps_file [OF up room])
  have "transFile tid fs p s = Inr s1"
    using assms(1-3) s1(1) by (simp add: transFile_def up_def conn_inv_def connected_def)
  moreover have "ft_file s1 p = Some (drop ft_kBufSize data)" "length (drop ft_kBufSize data) \<le> (length data div ft_kBufSize) * ft_kBufSize"
    "writerIndex (outputBuffer k1) + length (drop ft_kBufSize data) \<le> VEC_MAX"
    using s1(4,5) assms(4) div_mult_mod_eq [of "length data" ft_kBufSize] mod_less_divisor [of ft_kBufSize "length data"]
    by (auto simp: min_def ft_kBufSize_def split: if_splits)
  from file_rest [OF s1(2) this] obtain n s' k' c' where "n \<le> Suc (length data div ft_kBufSize)" "ft_completions tid p n s1 = Inr s'"
    "conn_inv p k' c' s'" "conn_state k' = kDisconnecting" "stream k' s' = stream k1 s1 @ drop ft_kBufSize data" by blast
  ultimately show ?thesis using s1(3)
    by (intro exI [of _ s1] exI [of _ n] exI [of _ s'] exI [of _ k'] exI [of _ c']) (simp add: up_file)
qed

definition ft_demo :: "c_str \<Rightarrow> file_state" where
  "ft_demo g = conn_state_t.extend (cn_demo kConnected) \<lparr>g_file = g, ft_file = (\<lambda>_. None)\<rparr>"

lemma ft_demo_up: "up 1 1 (cn_demo_conn kConnected Buffer_new) cn_demo_chan (ft_demo g)"
  "stream (cn_demo_conn kConnected Buffer_new) (ft_demo g) = []"
proof -
  have "loop_inv (ft_demo g)" "ep_registered 1 (ft_demo g)"
    by (rule demo_loop; simp add: ft_demo_def conn_state_t.defs cn_demo_defs)+
  with cn_demo_up show "up 1 1 (cn_demo_conn kConnected Buffer_new) cn_demo_chan (ft_demo g)"
    "stream (cn_demo_conn kConnected Buffer_new) (ft_demo g) = []"
    by (simp_all add: up_def conn_inv_def os_write_ok_def stream_def ft_demo_def conn_state_t.defs cn_demo_defs)
qed

theorem file_request_dangles_witness:
  "\<exists>b. content b = ''f'' @ kCRLF \<and> ft_onMessage 1 (\<lambda>_. Some ''data'') 1
    (put_conn 1 ((cn_demo_conn kConnected Buffer_new)\<lparr>inputBuffer := b\<rparr>) (ft_demo NullStr)) = Inl DanglingPointer"
proof -
  obtain b where b: "buffer_inv b" "content b = ''f'' @ kCRLF" by (rule buffer_with [of "''f'' @ kCRLF"]) (simp_all add: kCRLF_def)
  have "buffer_inv (inputBuffer ((cn_demo_conn kConnected Buffer_new)\<lparr>inputBuffer := b\<rparr>))"
    "content (inputBuffer ((cn_demo_conn kConnected Buffer_new)\<lparr>inputBuffer := b\<rparr>)) = ''f'' @ kCRLF @ []" "CR \<notin> set ''f''"
    using b by simp_all
  from file_request_dangles [OF up_input(1) [OF ft_demo_up(1)] this] b(2) show ?thesis by blast
qed

theorem file_transfer_witness:
  "\<exists>s1 n s' k' c'. transFile 1 (\<lambda>_. Some ''data'') 1 (ft_demo (Str ''f'')) = Inr s1 \<and> n \<le> 1 \<and>
    ft_completions 1 1 n s1 = Inr s' \<and> conn_inv 1 k' c' s' \<and> stream k' s' = ''data''"
proof -
  have "g_file (ft_demo (Str ''f'')) = Str ''f''" by (simp add: ft_demo_def conn_state_t.defs)
  moreover have "writerIndex (outputBuffer (cn_demo_conn kConnected Buffer_new)) + length ''data'' \<le> VEC_MAX"
    by (simp add: cn_demo_conn_def)
  ultimately show ?thesis
    using file_transfer [OF ft_demo_up(1), of "Str ''f''" "''f''" "\<lambda>_. Some ''data''" "''data''"] ft_demo_up(2) [of "Str ''f''"]
    by (fastforce simp: ft_kBufSize_def)
qed

end
