(* ===== verification/Connector.thy ===== *)
theory Connector
  imports TcpConnection
begin

section \<open>Connector\<close>

text \<open>
  \<open>chaonet/include/Connector.h\<close> and \<open>chaonet/src/Connector.cpp\<close>: a client's attempts to connect, with
  exponential back-off through the loop's timers.  The \<open>i\<close>-th attempt's socket and \<open>errno\<close> are
  \<open>osConnect i\<close>, the address of its new channel object \<open>newChannel i\<close>; \<open>osSocketError\<close> and
  \<open>osSelfConnect\<close> answer \<open>getSocketError\<close> and \<open>isSelfConnect\<close>.  The new-connection callback is a tag
  that the argument \<open>ncall\<close> interprets.  Writing \<open>strerror\<close> messages to the log has no effect.
\<close>

datatype States = CDisconnected | CConnecting | CConnected

definition kMaxRetryDelayMs :: int where
  "kMaxRetryDelayMs = 30 * 1000"

definition kInitRetryDelayMs :: int where
  "kInitRetryDelayMs = 500"

record connector_state = conn_state_t +
  serverAddr :: sockaddr_in
  cr_connect :: bool
  cr_state :: States
  cr_channel :: "nat option"
  cr_callback :: "nat option"
  retryDelayMs :: int
  cr_timerId :: "nat \<times> int"
  attempts :: nat
  osConnect :: "nat \<Rightarrow> int \<times> int"
  newChannel :: "nat \<Rightarrow> nat"
  channelGarbage :: bool
  osSocketError :: "int \<Rightarrow> int"
  osSelfConnect :: "int \<Rightarrow> bool"

subsection \<open>errno values (Linux)\<close>

definition EINPROGRESS :: int where "EINPROGRESS = 115"
definition EINTR :: int where "EINTR = 4"
definition EISCONN :: int where "EISCONN = 106"
definition EAGAIN :: int where "EAGAIN = 11"
definition EADDRINUSE :: int where "EADDRINUSE = 98"
definition EADDRNOTAVAIL :: int where "EADDRNOTAVAIL = 99"
definition ECONNABORTED :: int where "ECONNABORTED = 103"
definition ENETUNREACH :: int where "ENETUNREACH = 101"

lemmas errno_defs = EINPROGRESS_def EINTR_def EISCONN_def EAGAIN_def EADDRINUSE_def EADDRNOTAVAIL_def
  ECONNABORTED_def ENETUNREACH_def

subsection \<open>The operations\<close>

definition Connector_new :: "sockaddr_in \<Rightarrow> ('m) connector_state_scheme \<Rightarrow> 'm connector_state_scheme" where
  "Connector_new addr s = s\<lparr>serverAddr := addr, cr_connect := False, cr_state := CDisconnected,
     cr_channel := None, cr_callback := None, retryDelayMs := kInitRetryDelayMs, cr_timerId := (0, 0)\<rparr>"

definition setNewConnectionCallback where
  "setNewConnectionCallback cb s = s\<lparr>cr_callback := cb\<rparr>"

definition setStates :: "States \<Rightarrow> ('m) connector_state_scheme \<Rightarrow> 'm connector_state_scheme" where
  "setStates st s = s\<lparr>cr_state := st\<rparr>"

definition connecting :: "int \<Rightarrow> ('m) connector_state_scheme \<Rightarrow> 'm connector_state_scheme res" where
  "connecting sockfd s =
     (let s1 = setStates CConnecting s in
      check (cr_channel s1 = None) ''!channel_''
        (let q = newChannel s1 (attempts s1);
             c = setErrorCallback (Some ConnectorError) (setWriteCallback (Some ConnectorWrite)
                   (Channel_new (lp_this s1) sockfd (channelGarbage s1)));
             s2 = put_chan q c (s1\<lparr>cr_channel := Some q\<rparr>) in
         enableWriting EventLoop_updateChannel q s2))"

definition Connector_retry :: "int \<Rightarrow> int \<Rightarrow> ('m) connector_state_scheme \<Rightarrow> 'm connector_state_scheme res" where
  "Connector_retry tid sockfd s =
     (let s1 = setStates CDisconnected (sockets_close sockfd s) in
      if cr_connect s1 then
        bindR (runAfter own_call tid (fl (of_int (retryDelayMs s1) / 1000)) ConnectorStartInLoop s1) (\<lambda>(timerId, s2).
          Inr (s2\<lparr>cr_timerId := timerId, retryDelayMs := min (retryDelayMs s2 * 2) kMaxRetryDelayMs\<rparr>))
      else Inr s1)"

definition Connector_connect :: "int \<Rightarrow> ('m) connector_state_scheme \<Rightarrow> 'm connector_state_scheme res" where
  "Connector_connect tid s =
     (let (sockfd, savedErrno) = osConnect s (attempts s) in
      bindR
        (if savedErrno \<in> {0, EINPROGRESS, EINTR, EISCONN} then connecting sockfd s
         else if savedErrno \<in> {EAGAIN, EADDRINUSE, EADDRNOTAVAIL, ECONNABORTED, ENETUNREACH} then
           Connector_retry tid sockfd s
         else Inr (sockets_close sockfd s))
        (\<lambda>s1. Inr (s1\<lparr>attempts := Suc (attempts s1)\<rparr>)))"

definition startInLoop :: "int \<Rightarrow> ('m) connector_state_scheme \<Rightarrow> 'm connector_state_scheme res" where
  "startInLoop tid s =
     check (cr_state s = CDisconnected) ''state_ == States::kDisconnected''
       (if cr_connect s then Connector_connect tid s else Inr s)"

definition Connector_start :: "int \<Rightarrow> ('m) connector_state_scheme \<Rightarrow> 'm connector_state_scheme res" where
  "Connector_start tid s = runInLoop (\<lambda>_. startInLoop tid) tid ConnectorStartInLoop (s\<lparr>cr_connect := True\<rparr>)"

definition Connector_restart :: "int \<Rightarrow> ('m) connector_state_scheme \<Rightarrow> 'm connector_state_scheme res" where
  "Connector_restart tid s =
     startInLoop tid (setStates CDisconnected s\<lparr>retryDelayMs := kInitRetryDelayMs, cr_connect := True\<rparr>)"

definition Connector_stop :: "int \<Rightarrow> ('m) connector_state_scheme \<Rightarrow> 'm connector_state_scheme res" where
  "Connector_stop tid s = EventLoop_cancel own_call tid (cr_timerId s) (s\<lparr>cr_connect := False\<rparr>)"

definition Connector_destroy :: "int \<Rightarrow> ('m) connector_state_scheme \<Rightarrow> 'm connector_state_scheme res" where
  "Connector_destroy tid s =
     bindR (EventLoop_cancel own_call tid (cr_timerId s) s) (\<lambda>s1.
       check (cr_channel s1 = None) ''!channel_'' (Inr s1))"

definition with_channel where
  "with_channel s f = (case cr_channel s of None \<Rightarrow> Inl DanglingPointer | Some q \<Rightarrow> f q)"

definition removeAndResetChannel :: "int \<Rightarrow> ('m) connector_state_scheme \<Rightarrow> (int \<times> 'm connector_state_scheme) res" where
  "removeAndResetChannel tid s =
     with_channel s (\<lambda>q.
       bindR (disableAll EventLoop_updateChannel q s) (\<lambda>s1.
       bindR (EventLoop_removeChannel q s1) (\<lambda>s2.
       with_chan q s2 (\<lambda>c. Inr (ch_fd c, queueInLoop tid ConnectorResetChannel s2)))))"

definition resetChannel :: "('m) connector_state_scheme \<Rightarrow> 'm connector_state_scheme res" where
  "resetChannel s =
     (case cr_channel s of
        None \<Rightarrow> Inr s
      | Some q \<Rightarrow> with_chan q s (\<lambda>c. bindR (Channel_destroy c) (\<lambda>_.
          Inr (s\<lparr>chans := (chans s)(q := None), cr_channel := None\<rparr>))))"

definition Connector_handleWrite where
  "Connector_handleWrite ncall tid s =
     (if cr_state s = CConnecting then
        bindR (removeAndResetChannel tid s) (\<lambda>(sockfd, s1).
          if osSocketError s1 sockfd \<noteq> 0 then Connector_retry tid sockfd s1
          else if osSelfConnect s1 sockfd then Connector_retry tid sockfd s1
          else
            (let s2 = setStates CConnected s1 in
             if cr_connect s2 then
               (case cr_callback s2 of None \<Rightarrow> Inl BadFunctionCall | Some cb \<Rightarrow> ncall cb sockfd s2)
             else Inr (sockets_close sockfd s2)))
      else check (cr_state s = CDisconnected) ''state_ == States::kDisconnected'' (Inr s))"

definition Connector_handleError where
  "Connector_handleError tid s =
     check (cr_state s = CConnecting) ''state_ == States::kConnecting''
       (bindR (removeAndResetChannel tid s) (\<lambda>(sockfd, s1). Connector_retry tid sockfd s1))"

subsection \<open>Back-off\<close>

lemma timer_frame_connector:
  assumes "timer_frame s s'"
  shows "cr_state s' = cr_state s" "cr_connect s' = cr_connect s" "retryDelayMs s' = retryDelayMs s"
    "threadId s' = threadId s" "netLog s' = netLog s" "cr_channel s' = cr_channel s"
  using assms by (cases s; cases s'; simp add: timer_frame_def)+

lemma timer_inv_connector [simp]:
  "timer_inv (net e s) = timer_inv s" "timer_inv (s\<lparr>cr_state := st\<rparr>) = timer_inv s"
  "timer_inv (s\<lparr>cr_timerId := i, retryDelayMs := d\<rparr>) = timer_inv s"
  by (rule timer_inv_cong; simp add: net_def)+

text \<open>The delays that back-off goes through are exact in floating point.\<close>

definition backoff :: "nat \<Rightarrow> int" where
  "backoff n = min (500 * 2 ^ n) 30000"

lemma fl_half: "fl (1 / 2) = 1 / 2"
proof -
  have "quotient_of (1 / 2) = (1, 2)"
    by (simp add: quotient_of_Fract Fract_of_int_quotient [symmetric] rat_divide_code)
  then have "fl_exponent (1 / 2) = -53"
    by (simp add: fl_exponent_def pow2_def compute_floorlog)
  then show ?thesis
    by (simp add: fl_def pow2_def round_half_even_def Let_def)
qed

lemma backoff_cases: "backoff n \<in> {500, 1000, 2000, 4000, 8000, 16000, 30000}"
proof (cases "n < 6")
  case True
  then have "n \<in> {0, 1, 2, 3, 4, 5}" by auto
  then show ?thesis by (auto simp: backoff_def)
next
  case False
  then have "(2::int) ^ 6 \<le> 2 ^ n" by (intro power_increasing) simp_all
  then show ?thesis by (simp add: backoff_def)
qed

lemma backoff_Suc: "min (backoff n * 2) kMaxRetryDelayMs = backoff (Suc n)"
  by (auto simp: backoff_def kMaxRetryDelayMs_def min_def)

lemma addTime_int:
  assumes "s * 1000000 = of_int m" and "\<bar>m\<bar> < 2 ^ 53"
  shows "addTime t s = t + 1000 * m"
  using assms fl_int [OF assms(2)] by (simp add: addTime_def kMicroSecondsPerSecond_def)

lemma backoff_delay: "addTime t (fl (of_int (backoff n) / 1000)) = t + 1000000 * backoff n"
proof -
  have "fl (of_int d / 1000) = of_int d / 1000" if "d \<in> {500, 1000, 2000, 4000, 8000, 16000, 30000}" for d
    using that fl_half fl_int [of 1] fl_int [of 2] fl_int [of 4] fl_int [of 8] fl_int [of 16] fl_int [of 30]
    by auto
  then have fl: "fl (of_int (backoff n) / 1000) = of_int (backoff n) / 1000" using backoff_cases by blast
  have "addTime t (of_int (backoff n) / 1000) = t + 1000 * (1000 * backoff n)"
    using backoff_cases [of n] by (intro addTime_int) auto
  then show ?thesis unfolding fl by simp
qed

lemma retry_ok:
  assumes inv: "timer_inv s" and "isInLoopThread tid s" and "cr_connect s" and d: "retryDelayMs s = backoff n"
  shows "\<exists>s'. Connector_retry tid fd s = Inr s' \<and> timer_inv s' \<and> isInLoopThread tid s' \<and> cr_connect s' \<and>
    cr_state s' = CDisconnected \<and> retryDelayMs s' = backoff (Suc n) \<and> netLog s' = netLog s @ [NetClose fd] \<and>
    cr_timerId s' = (alloc s (numCreated s), int (numCreated s)) \<and>
    (clock s (ticks s) + 1000000 * backoff n, alloc s (numCreated s)) \<in> set (timers s') \<and>
    map_option tm_callback (timerHeap s' (alloc s (numCreated s))) = Some ConnectorStartInLoop"
proof -
  let ?s1 = "setStates CDisconnected (sockets_close fd s)" let ?p = "alloc s (numCreated s)"
  let ?u = "?s1\<lparr>ticks := Suc (ticks s)\<rparr>" let ?w = "clock s (ticks s) + 1000000 * backoff n"
  have inv1: "timer_inv ?u" using inv by (simp add: setStates_def sockets_close_def)
  have s1: "isInLoopThread tid ?u" "alloc ?u = alloc s" "numCreated ?u = numCreated s"
      "cr_connect ?s1" "retryDelayMs ?s1 = backoff n" "timers ?u = timers s"
      "clock ?s1 = clock s" "ticks ?s1 = ticks s" "netLog ?u = netLog s @ [NetClose fd]"
    using assms by (simp_all add: setStates_def sockets_close_def isInLoopThread_def net_def)
  obtain s2 where s2: "addTimer own_call tid ConnectorStartInLoop ?w 0 ?u = Inr ((?p, int (numCreated s)), s2)"
      "timer_inv s2" "timerHeap s2 = (timerHeap ?u)(?p \<mapsto> Timer_new ConnectorStartInLoop ?w 0 (numCreated s))"
      "timers s2 = oset_insert (?w, ?p) (timers s)"
    using addTimer_ok [OF inv1, of tid ConnectorStartInLoop ?w 0] s1 by auto
  note fr = timer_frame_connector [OF addTimer_frame [OF s1(1) s2(1)]]
  have run: "Connector_retry tid fd s =
      Inr (s2\<lparr>cr_timerId := (?p, int (numCreated s)), retryDelayMs := min (retryDelayMs s2 * 2) kMaxRetryDelayMs\<rparr>)"
    using s1 s2(1) by (simp add: Connector_retry_def runAfter_def runAt_def read_clock_def backoff_delay Let_def)
  let ?r = "s2\<lparr>cr_timerId := (?p, int (numCreated s)), retryDelayMs := backoff (Suc n)\<rparr>"
  have "retryDelayMs s2 = backoff n" using fr(3) s1(5) by simp
  with run have run': "Connector_retry tid fd s = Inr ?r" by (simp only: backoff_Suc)
  have keep: "isInLoopThread tid ?r" "cr_connect ?r" "cr_state ?r = CDisconnected" "netLog ?r = netLog s @ [NetClose fd]"
    using fr(1,2,4,5) s1(1,4,9) by (simp_all add: isInLoopThread_def setStates_def)
  have "timer_inv ?r" "(?w, ?p) \<in> set (timers ?r)"
    "map_option tm_callback (timerHeap ?r ?p) = Some ConnectorStartInLoop"
    using s2(2-4) by (simp_all add: Timer_new_def)
  with run' keep show ?thesis by (intro exI [of _ ?r]) simp
qed

subsection \<open>An attempt\<close>

lemma poll_frame_connector:
  assumes "poll_frame s s'"
  shows "cr_state s' = cr_state s" "cr_connect s' = cr_connect s" "cr_channel s' = cr_channel s"
    "cr_callback s' = cr_callback s" "osSocketError s' = osSocketError s" "osSelfConnect s' = osSelfConnect s"
    "pendingFunctors s' = pendingFunctors s" "attempts s' = attempts s"
  using assms by (cases s; cases s'; simp add: poll_frame_def)+

lemma queue_connector_fields [simp]:
  "cr_state (queueInLoop tid cb s) = cr_state s" "cr_connect (queueInLoop tid cb s) = cr_connect s"
  "cr_channel (queueInLoop tid cb s) = cr_channel s" "cr_callback (queueInLoop tid cb s) = cr_callback s"
  "osSocketError (queueInLoop tid cb s) = osSocketError s" "osSelfConnect (queueInLoop tid cb s) = osSelfConnect s"
  by (simp_all add: queueInLoop_def wakeup_def Let_def)

lemma loop_inv_connector [simp]:
  "loop_inv (s\<lparr>cr_state := st\<rparr>) = loop_inv s" "loop_inv (s\<lparr>cr_channel := q\<rparr>) = loop_inv s"
  "loop_inv (s\<lparr>attempts := n\<rparr>) = loop_inv s"
  "ep_registered p (s\<lparr>cr_state := st\<rparr>) = ep_registered p s" "ep_registered p (s\<lparr>cr_channel := q\<rparr>) = ep_registered p s"
  "ep_registered p (s\<lparr>attempts := n\<rparr>) = ep_registered p s"
  "ep_free_fd fd (s\<lparr>cr_state := st\<rparr>) = ep_free_fd fd s" "ep_free_fd fd (s\<lparr>cr_channel := q\<rparr>) = ep_free_fd fd s"
  "ep_free_fd fd (queueInLoop tid cb u) = ep_free_fd fd u"
  by (rule loop_inv_cong; simp)+

text \<open>The connector waits for its socket to become writable.\<close>

definition waiting :: "nat \<Rightarrow> int \<Rightarrow> ('m) connector_state_scheme \<Rightarrow> bool" where
  "waiting q fd s \<longleftrightarrow> loop_inv s \<and> cr_state s = CConnecting \<and> cr_channel s = Some q \<and> ep_registered q s \<and>
     (\<exists>c. chans s q = Some c \<and> ch_fd c = fd \<and> ch_events c = kWriteEvent \<and> \<not> eventHandling c)"

lemma connecting_ok:
  assumes inv: "loop_inv s" and "cr_channel s = None" and q: "q = newChannel s (attempts s)" "chans s q = None"
    and fd: "0 \<le> fd" "ep_free_fd fd s" and "\<not> channelGarbage s"
  shows "\<exists>s'. connecting fd s = Inr s' \<and> waiting q fd s' \<and> cr_connect s' = cr_connect s \<and> cr_callback s' = cr_callback s \<and>
    osSocketError s' = osSocketError s \<and> osSelfConnect s' = osSelfConnect s \<and> pendingFunctors s' = pendingFunctors s \<and>
    conn_state_t.more s' = conn_state_t.more (s\<lparr>cr_state := CConnecting, cr_channel := Some q\<rparr>) \<and>
    conns s' = conns s \<and> netLog s' = netLog s \<and> osWrite s' = osWrite s \<and> threadId s' = threadId s \<and>
    (\<forall>r. r \<noteq> q \<longrightarrow> ep_registered r s' = ep_registered r s \<and> rel_option same_but_index (chans s r) (chans s' r))"
proof -
  let ?c = "setErrorCallback (Some ConnectorError) (setWriteCallback (Some ConnectorWrite) (Channel_new (lp_this s) fd (channelGarbage s)))"
  let ?u = "s\<lparr>cr_state := CConnecting, cr_channel := Some q\<rparr>" let ?s = "put_chan q ?c ?u"
  have c: "ch_index ?c = -1" "ch_loop ?c = lp_this ?u" "ch_fd ?c = fd" "ch_events ?c = 0" "\<not> eventHandling ?c"
    using assms(7) by (simp_all add: setErrorCallback_def setWriteCallback_def Channel_new_def)
  have u: "loop_inv ?u" "chans ?u q = None" "ep_free_fd fd ?u" using inv q fd(2) by simp_all
  note s = loop_inv_new_chan [OF u(1,2) c(1,2)]
  have ch: "chans ?s q = Some ?c" by simp
  have ok: "ep_registered q ?s \<or> (ch_index ?c = -1 \<and> 0 \<le> ch_fd ?c \<and> ep_free_fd (ch_fd ?c) ?s)"
    using c fd u(3) s(3) by simp
  obtain s' d where s': "set_events (\<lambda>e. e OR kWriteEvent) EventLoop_updateChannel q ?s = Inr s'" "loop_inv s'"
      "ep_registered q s'" "chans s' q = Some d" "ch_events d = ch_events ?c OR kWriteEvent"
      "same_but_index (?c\<lparr>ch_events := ch_events ?c OR kWriteEvent\<rparr>) d" "poll_frame ?s s'"
      "\<And>r. r \<noteq> q \<Longrightarrow> ep_registered r s' = ep_registered r ?s"
      "\<And>r. r \<noteq> q \<Longrightarrow> rel_option same_but_index (chans ?s r) (chans s' r)"
    by (rule chan_set_events [OF s(1) ch ok, where f = "\<lambda>e. e OR kWriteEvent"]) blast
  note fr = poll_frame_connector [OF s'(7)] and d = same_but_index_simps(2) [OF s'(6)]
  have "connecting fd s = Inr s'"
    using assms(2) q(1) s'(1) by (simp add: connecting_def setStates_def Let_def enableWriting_def)
  moreover have "waiting q fd s'"
    using s'(2-5) fr(1,3) d c by (simp add: waiting_def put_chan_def)
  moreover have "conn_state_t.more s' = conn_state_t.more ?u" using poll_frame_more [OF s'(7)] by (simp add: put_chan_def)
  moreover have "ep_registered r s' = ep_registered r s" "rel_option same_but_index (chans s r) (chans s' r)" if "r \<noteq> q" for r
    using s'(8,9) [OF that] s(2) [of r] that by simp_all
  ultimately show ?thesis using fr poll_frame_conn [OF s'(7)] by (simp add: put_chan_def)
qed

lemma removeAndResetChannel_ok:
  assumes w: "waiting q fd s"
  shows "\<exists>s'. removeAndResetChannel tid s = Inr (fd, s') \<and> loop_inv s' \<and> \<not> ep_registered q s' \<and> ep_free_fd fd s' \<and>
    cr_state s' = CConnecting \<and> cr_channel s' = Some q \<and> cr_connect s' = cr_connect s \<and> cr_callback s' = cr_callback s \<and>
    osSocketError s' = osSocketError s \<and> osSelfConnect s' = osSelfConnect s \<and>
    pendingFunctors s' = pendingFunctors s @ [ConnectorResetChannel] \<and>
    (\<exists>c. chans s' q = Some c \<and> \<not> eventHandling c) \<and> (\<exists>u. poll_frame s u \<and> s' = queueInLoop tid ConnectorResetChannel u) \<and>
    (\<forall>r. chans s r = None \<longrightarrow> chans s' r = None)"
proof -
  from w obtain c where c: "chans s q = Some c" "ch_fd c = fd" "\<not> eventHandling c" "loop_inv s" "ep_registered q s"
      "cr_channel s = Some q" "cr_state s = CConnecting" by (auto simp: waiting_def)
  obtain s1 d where s1: "set_events (\<lambda>_. kNoneEvent) EventLoop_updateChannel q s = Inr s1" "loop_inv s1"
    "ep_registered q s1" "chans s1 q = Some d" "ch_events d = kNoneEvent"
    "same_but_index (c\<lparr>ch_events := kNoneEvent\<rparr>) d" "poll_frame s s1"
    "\<And>r. r \<noteq> q \<Longrightarrow> rel_option same_but_index (chans s r) (chans s1 r)"
    by (rule chan_set_events [OF c(4,1) disjI1 [OF c(5)], where f = "\<lambda>_. kNoneEvent"]) blast
  note d = same_but_index_simps(2) [OF s1(6)]
  have ev: "ch_events d = 0" using s1(5) by (simp add: kNoneEvent_def)
  obtain s2 where s2: "EventLoop_removeChannel q s1 = Inr s2" "loop_inv s2" "\<not> ep_registered q s2"
      "ep_free_fd (ch_fd d) s2" "poll_frame s1 s2" "same_chans s1 s2"
    by (rule chan_remove [OF s1(2,4,3) ev]) blast
  obtain e where e: "chans s2 q = Some e" "same_but_index d e" using same_chansD [OF s2(6) s1(4)] by blast
  note e' = same_but_index_simps(2) [OF e(2)]
  note pf = poll_frame_trans [OF s1(7) s2(5)]
  note fr = poll_frame_connector [OF pf]
  have "removeAndResetChannel tid s = Inr (fd, queueInLoop tid ConnectorResetChannel s2)"
    using c(2,6) s1(1) s2(1) e(1) e' d
    by (simp add: removeAndResetChannel_def with_channel_def disableAll_def)
  moreover have "\<exists>u. poll_frame s u \<and> queueInLoop tid ConnectorResetChannel s2 = queueInLoop tid ConnectorResetChannel u" using pf by blast
  moreover have "chans s2 r = None" if "chans s r = None" for r
  proof -
    have "r \<noteq> q" using that c(1) by auto
    with s1(8) [of r] that have "chans s1 r = None" by simp
    with s2(6) show ?thesis unfolding same_chans_def by (metis option.rel_distinct(1) option.exhaust)
  qed
  ultimately show ?thesis using s2 e e' d fr c
    by (intro exI [of _ "queueInLoop tid ConnectorResetChannel s2"]) simp
qed

text \<open>The two halves of an attempt: the channel waits for the socket, and the socket is ready.\<close>

lemma start_waits:
  assumes "loop_inv s" and "cr_state s = CDisconnected" and "cr_connect s" and "cr_channel s = None"
    and "osConnect s (attempts s) = (fd, EINPROGRESS)" and "0 \<le> fd" and "ep_free_fd fd s"
    and "q = newChannel s (attempts s)" and "chans s q = None" and "\<not> channelGarbage s"
  obtains s1 where "startInLoop tid s = Inr s1" "waiting q fd s1" "cr_connect s1" "cr_callback s1 = cr_callback s"
    "osSocketError s1 = osSocketError s" "osSelfConnect s1 = osSelfConnect s" "pendingFunctors s1 = pendingFunctors s"
    "conn_state_t.more s1 = conn_state_t.more (s\<lparr>cr_state := CConnecting, cr_channel := Some q, attempts := Suc (attempts s)\<rparr>)"
    "conns s1 = conns s" "netLog s1 = netLog s" "osWrite s1 = osWrite s" "threadId s1 = threadId s"
    "\<And>r. r \<noteq> q \<Longrightarrow> chans s r = None \<Longrightarrow> chans s1 r = None"
proof -
  obtain u where u: "connecting fd s = Inr u" "waiting q fd u" "cr_connect u = cr_connect s" "cr_callback u = cr_callback s"
    "osSocketError u = osSocketError s" "osSelfConnect u = osSelfConnect s" "pendingFunctors u = pendingFunctors s"
    "conn_state_t.more u = conn_state_t.more (s\<lparr>cr_state := CConnecting, cr_channel := Some q\<rparr>)"
    "conns u = conns s" "netLog u = netLog s" "osWrite u = osWrite s" "threadId u = threadId s"
    "\<forall>r. r \<noteq> q \<longrightarrow> ep_registered r u = ep_registered r s \<and> rel_option same_but_index (chans s r) (chans u r)"
    using connecting_ok [OF assms(1,4,8,9,6,7,10)] by blast
  let ?s1 = "u\<lparr>attempts := Suc (attempts u)\<rparr>"
  have "startInLoop tid s = Inr ?s1"
    using assms(2,3,5) u(1) by (simp add: startInLoop_def Connector_connect_def errno_defs)
  moreover have "waiting q fd ?s1" using u(2) by (auto simp: waiting_def)
  moreover have "conn_state_t.more ?s1 = conn_state_t.more (s\<lparr>cr_state := CConnecting, cr_channel := Some q, attempts := Suc (attempts s)\<rparr>)"
    using u(8) by (cases s; cases u) simp
  moreover have "chans u r = None" if "r \<noteq> q" "chans s r = None" for r
  proof -
    have "rel_option same_but_index None (chans u r)" using u(13) that by metis
    then show ?thesis by simp
  qed
  ultimately show thesis using u(1-12) assms(3) by (intro that [of ?s1]) simp_all
qed

lemma write_completes:
  assumes w: "waiting q fd s" and "cr_connect s" and "cr_callback s = Some cb" and os: "osSocketError s fd = 0" "\<not> osSelfConnect s fd"
  obtains v c where "Connector_handleWrite ncall tid s = ncall cb fd (v\<lparr>cr_state := CConnected\<rparr>)" "loop_inv v" "\<not> ep_registered q v"
    "ep_free_fd fd v" "cr_channel v = Some q" "pendingFunctors v = pendingFunctors s @ [ConnectorResetChannel]" "chans v q = Some c" "\<not> eventHandling c"
    "\<exists>u. poll_frame s u \<and> v = queueInLoop tid ConnectorResetChannel u" "\<And>r. chans s r = None \<Longrightarrow> chans v r = None"
proof -
  obtain v c where v: "removeAndResetChannel tid s = Inr (fd, v)" "loop_inv v" "\<not> ep_registered q v" "ep_free_fd fd v" "cr_channel v = Some q"
    "pendingFunctors v = pendingFunctors s @ [ConnectorResetChannel]" "chans v q = Some c" "\<not> eventHandling c"
    "\<exists>u. poll_frame s u \<and> v = queueInLoop tid ConnectorResetChannel u" "\<forall>r. chans s r = None \<longrightarrow> chans v r = None"
    and e: "cr_connect v = cr_connect s" "cr_callback v = cr_callback s" "osSocketError v = osSocketError s" "osSelfConnect v = osSelfConnect s"
    using removeAndResetChannel_ok [OF w, of tid] by blast
  have "cr_state s = CConnecting" using w by (simp add: waiting_def)
  then have run: "Connector_handleWrite ncall tid s = ncall cb fd (v\<lparr>cr_state := CConnected\<rparr>)"
    using v(1) e assms(2-5) by (simp add: Connector_handleWrite_def setStates_def)
  show thesis by (rule that [OF run v(2-9)]) (use v(10) in simp)
qed

subsection \<open>Properties\<close>

text \<open>
  C25: Failed attempts back off exponentially: after \<open>n\<close> consecutive failures the next one closes its
  socket, leaves the connector disconnected and schedules \<open>startInLoop\<close> after exactly the minimum of
  500 times 2 to the \<open>n\<close> and 30000 milliseconds.
\<close>

theorem retry_backoff:
  assumes "timer_inv s" and "isInLoopThread tid s" and "cr_connect s" and "retryDelayMs s = kInitRetryDelayMs"
  shows "\<exists>s1 s2. foldR (Connector_retry tid) fds s = Inr s1 \<and> Connector_retry tid fd s1 = Inr s2 \<and>
    timer_inv s2 \<and> cr_state s2 = CDisconnected \<and> last (netLog s2) = NetClose fd \<and>
    (clock s1 (ticks s1) + 1000000 * min (500 * 2 ^ length fds) 30000, fst (cr_timerId s2)) \<in> set (timers s2) \<and>
    map_option tm_callback (timerHeap s2 (fst (cr_timerId s2))) = Some ConnectorStartInLoop"
proof -
  have "\<exists>s1. foldR (Connector_retry tid) fds s = Inr s1 \<and> timer_inv s1 \<and> isInLoopThread tid s1 \<and> cr_connect s1 \<and>
      retryDelayMs s1 = backoff (n + length fds)" if "timer_inv s" "isInLoopThread tid s" "cr_connect s"
      "retryDelayMs s = backoff n" for n and s :: "'a connector_state_scheme"
    using that
  proof (induction fds arbitrary: n s)
    case (Cons x fds)
    from retry_ok [OF Cons.prems, of x] obtain s' where "Connector_retry tid x s = Inr s'" "timer_inv s'"
      "isInLoopThread tid s'" "cr_connect s'" "retryDelayMs s' = backoff (Suc n)" by blast
    with Cons.IH [of s' "Suc n"] show ?case by simp
  qed simp
  from this [of s 0] assms obtain s1 where s1: "foldR (Connector_retry tid) fds s = Inr s1" "timer_inv s1"
    "isInLoopThread tid s1" "cr_connect s1" "retryDelayMs s1 = backoff (length fds)"
    by (auto simp: backoff_def kInitRetryDelayMs_def)
  from retry_ok [OF s1(2-5), of fd] s1(1) show ?thesis by (auto simp: backoff_def)
qed

text \<open>
  A successful attempt: \<open>startInLoop\<close> on a disconnected connector with a connection in progress
  registers a channel that waits for writability; when the socket becomes writable with no error and is not
  connected to itself, the channel is taken out of the poller and the new-connection callback gets the
  socket exactly once, in state connected; the channel object is destroyed by the functor queued then, so
  that the connector may be started again.
\<close>

theorem connect_succeeds:
  assumes "loop_inv s" and "cr_state s = CDisconnected" and "cr_connect s" and "cr_channel s = None"
    and "cr_callback s = Some cb" and "osConnect s (attempts s) = (fd, EINPROGRESS)" and "0 \<le> fd" and "ep_free_fd fd s"
    and "q = newChannel s (attempts s)" and "chans s q = None" and "\<not> channelGarbage s"
    and "osSocketError s fd = 0" and "\<not> osSelfConnect s fd"
  shows "\<exists>s1 s2 s3. startInLoop tid s = Inr s1 \<and> waiting q fd s1 \<and>
    Connector_handleWrite ncall tid s1 = ncall cb fd s2 \<and>
    cr_state s2 = CConnected \<and> loop_inv s2 \<and> \<not> ep_registered q s2 \<and> ep_free_fd fd s2 \<and>
    pendingFunctors s2 = pendingFunctors s @ [ConnectorResetChannel] \<and>
    resetChannel s2 = Inr s3 \<and> loop_inv s3 \<and> chans s3 q = None \<and> cr_channel s3 = None"
proof -
  obtain s1 where s1: "startInLoop tid s = Inr s1" "waiting q fd s1" "cr_connect s1" "cr_callback s1 = Some cb"
    "osSocketError s1 = osSocketError s" "osSelfConnect s1 = osSelfConnect s" "pendingFunctors s1 = pendingFunctors s"
    by (rule start_waits [OF assms(1-4,6-11)]) (use assms(5) in simp)
  obtain v c where v: "Connector_handleWrite ncall tid s1 = ncall cb fd (v\<lparr>cr_state := CConnected\<rparr>)" "loop_inv v" "\<not> ep_registered q v"
    "ep_free_fd fd v" "cr_channel v = Some q" "pendingFunctors v = pendingFunctors s1 @ [ConnectorResetChannel]" "chans v q = Some c" "\<not> eventHandling c"
    by (rule write_completes [OF s1(2-4), where ncall = ncall and tid = tid]) (use assms(12,13) s1(5,6) in auto)
  let ?s2 = "v\<lparr>cr_state := CConnected\<rparr>"
  have "resetChannel ?s2 = Inr (?s2\<lparr>chans := (chans ?s2)(q := None), cr_channel := None\<rparr>)"
    using v by (simp add: resetChannel_def Channel_destroy_def)
  moreover have "loop_inv (?s2\<lparr>chans := (chans ?s2)(q := None), cr_channel := None\<rparr>)"
    using loop_inv_drop_chan [of ?s2 q] v(2,3) by simp
  ultimately show ?thesis
    using s1(1,2,7) v
    by - (rule exI [of _ s1], rule exI [of _ ?s2],
        rule exI [of _ "?s2\<lparr>chans := (chans ?s2)(q := None), cr_channel := None\<rparr>"], simp)
qed

subsection \<open>Witnesses\<close>

definition cr_demo :: connector_state where
  "cr_demo = conn_state_t.extend (cn_demo kConnected)
     \<lparr>serverAddr = \<lparr>sin_family = 2, sin_port = 80, s_addr = 0\<rparr>, cr_connect = True, cr_state = CDisconnected,
      cr_channel = None, cr_callback = Some 3, retryDelayMs = 500, cr_timerId = (0, 0), attempts = 0,
      osConnect = (\<lambda>_. (9, EINPROGRESS)), newChannel = (\<lambda>n. n + 5), channelGarbage = False,
      osSocketError = (\<lambda>_. 0), osSelfConnect = (\<lambda>_. False)\<rparr>"

lemmas cr_demo_defs = cr_demo_def conn_state_t.defs cn_demo_defs

lemma cr_demo_loop: "loop_inv cr_demo"
proof -
  have "epoll_inv cr_demo"
    unfolding epoll_inv_def
    by (auto simp: cr_demo_defs epoll_chan_ok_def interest_def ctl_legal_def index_consts split: if_splits)
  then show ?thesis by (auto simp: loop_inv_def own_chans_def cr_demo_defs split: if_splits)
qed

lemma cr_demo_timer: "timer_inv cr_demo"
proof -
  have "timer_core cr_demo" "expiring_ok [] cr_demo"
    by (simp_all add: timer_core_def expiring_ok_def cr_demo_defs oset_def active_key_def tq_demo_timer_def Timer_new_def)
  moreover have "heap_ok cr_demo" by (auto simp: heap_ok_def cr_demo_defs split: if_splits)
  ultimately show ?thesis by (simp add: timer_inv_def cr_demo_defs)
qed

theorem retry_backoff_witness:
  "\<exists>s1 s2. foldR (Connector_retry 1) [9, 9] cr_demo = Inr s1 \<and> Connector_retry 1 9 s1 = Inr s2 \<and>
    (clock s1 (ticks s1) + 2000000000, fst (cr_timerId s2)) \<in> set (timers s2)"
  using retry_backoff [OF cr_demo_timer, of 1 "[9, 9]" 9]
  by (fastforce simp: cr_demo_defs isInLoopThread_def kInitRetryDelayMs_def)

theorem connect_succeeds_witness:
  "\<exists>s1 s2 s3. startInLoop 1 cr_demo = Inr s1 \<and> waiting 5 9 s1 \<and>
    Connector_handleWrite (\<lambda>_ _. Inr) 1 s1 = Inr s2 \<and> cr_state s2 = CConnected \<and>
    resetChannel s2 = Inr s3 \<and> cr_channel s3 = None"
  using connect_succeeds [OF cr_demo_loop, of 3 9 5 1 "\<lambda>_ _. Inr"]
  by (fastforce simp: cr_demo_defs ep_free_fd_def)

end
