(* ===== verification/TcpClient.thy ===== *)
theory TcpClient
  imports Connector
begin

section \<open>TcpClient\<close>

text \<open>
  \<open>chaonet/include/TcpClient.h\<close> and \<open>chaonet/src/TcpClient.cpp\<close>.  The addresses of the objects made for
  the \<open>i\<close>-th connection (connection and channel) are \<open>newConn i\<close>; \<open>osPeer\<close>, \<open>osLocal\<close>, \<open>osNtop\<close> and
  \<open>osLittleEndian\<close> answer \<open>getpeername\<close>, \<open>getsockname\<close>, \<open>inet_ntop\<close> and the host's byte order.  The mutex
  around \<open>connection_\<close> makes each access atomic and leaves no other trace.  \<open>client_ucall\<close> gives the
  callbacks that the client binds their meaning and passes the others on.
\<close>

record client_state = connector_state +
  tc_connectionCallback :: "conn_cb option"
  tc_messageCallback :: "conn_cb option"
  tc_writeCompleteCallback :: "nat option"
  tc_retry :: bool
  tc_connect :: bool
  tc_nextConnId :: nat
  tc_connection :: "nat option"
  tc_name :: string
  connsMade :: nat
  newConn :: "nat \<Rightarrow> nat \<times> nat"
  osPeer :: "int \<Rightarrow> sockaddr_in option"
  osLocal :: "int \<Rightarrow> sockaddr_in option"
  osNtop :: "32 word \<Rightarrow> string option"
  osLittleEndian :: bool

text \<open>\<open>newConnectionCallback_\<close> of the connector, bound to \<open>newConnection\<close>.\<close>

definition clientNewConnection :: nat where
  "clientNewConnection = 0"

definition TcpClient_new :: "sockaddr_in \<Rightarrow> string \<Rightarrow> ('m) client_state_scheme \<Rightarrow> 'm client_state_scheme" where
  "TcpClient_new addr name s =
     setNewConnectionCallback (Some clientNewConnection)
       (Connector_new addr s\<lparr>tc_connectionCallback := None, tc_messageCallback := None,
          tc_writeCompleteCallback := None, tc_retry := False, tc_connect := True, tc_nextConnId := 1,
          tc_connection := None, tc_name := name\<rparr>)"

definition enableRetry :: "('m) client_state_scheme \<Rightarrow> 'm client_state_scheme" where
  "enableRetry s = s\<lparr>tc_retry := True\<rparr>"

definition client_setConnectionCallback where
  "client_setConnectionCallback cb s = s\<lparr>tc_connectionCallback := cb\<rparr>"

definition client_setMessageCallback where
  "client_setMessageCallback cb s = s\<lparr>tc_messageCallback := cb\<rparr>"

definition client_setWriteCompleteCallback where
  "client_setWriteCompleteCallback cb s = s\<lparr>tc_writeCompleteCallback := cb\<rparr>"

definition TcpClient_connect where
  "TcpClient_connect tid s = Connector_start tid (s\<lparr>tc_connect := True\<rparr>)"

definition TcpClient_disconnect where
  "TcpClient_disconnect tid s =
     (let s1 = s\<lparr>tc_connect := False\<rparr> in
      case tc_connection s1 of None \<Rightarrow> Inr s1 | Some p \<Rightarrow> TcpConnection_shutdown tid p s1)"

definition TcpClient_stop where
  "TcpClient_stop tid s = Connector_stop tid (s\<lparr>tc_connect := False\<rparr>)"

definition connName :: "int \<Rightarrow> ('m) client_state_scheme \<Rightarrow> string" where
  "connName sockfd s =
     InetAddress_toHostPort (osLittleEndian s) (osNtop s) (getPeerAddr (osPeer s sockfd)) @ ''#'' @ show_nat (tc_nextConnId s)"

definition TcpClient_newConnection where
  "TcpClient_newConnection ucall sockfd s =
     (let peerAddr = getPeerAddr (osPeer s sockfd);
          localAddr = getLocalAddr (osLocal s sockfd);
          (p, q) = newConn s (connsMade s);
          s1 = TcpConnection_new p q (connName sockfd s) sockfd localAddr peerAddr (channelGarbage s)
                 (s\<lparr>connsMade := Suc (connsMade s)\<rparr>) in
      with_conn p s1 (\<lambda>k.
        let k1 = conn_setCloseCallback (Some ClientRemoveConnection)
                   (setWriteCompleteCallback (tc_writeCompleteCallback s1)
                     (setMessageCallback (tc_messageCallback s1)
                       (setConnectionCallback (tc_connectionCallback s1) k)));
            s2 = (put_conn p k1 s1)\<lparr>tc_connection := Some p\<rparr> in
        connectionEstablished ucall p s2))"

definition TcpClient_removeConnection where
  "TcpClient_removeConnection tid p s =
     with_conn p s (\<lambda>k. with_chan (conn_channel k) s (\<lambda>c.
       check (ch_loop c = lp_this s) ''loop_ == conn->getLoop()''
         (check (tc_connection s = Some p) ''connection_ == conn''
           (let s1 = queueInLoop tid (ConnDestroyed p) (s\<lparr>tc_connection := None\<rparr>) in
            if tc_retry s1 \<and> tc_connect s1 then Connector_restart tid s1 else Inr s1))))"

text \<open>\<open>detail::removeConnection\<close> takes over when the client object is gone.\<close>

definition detail_removeConnection where
  "detail_removeConnection tid p s = Inr (queueInLoop tid (ConnDestroyed p) s)"

definition client_ucall where
  "client_ucall tid user cb p arg s =
     (case cb of
        ClientRemoveConnection \<Rightarrow> TcpClient_removeConnection tid p s
      | DetachedRemoveConnection \<Rightarrow> detail_removeConnection tid p s
      | _ \<Rightarrow> user cb p arg s)"

definition client_ncall where
  "client_ncall tid user cb sockfd s = TcpClient_newConnection (client_ucall tid user) sockfd s"

definition TcpClient_destroy where
  "TcpClient_destroy tid s =
     (case tc_connection s of
        Some p \<Rightarrow>
          runInLoop (\<lambda>_ s. with_conn p s (\<lambda>k.
              Inr (put_conn p (conn_setCloseCallback (Some DetachedRemoveConnection) k) s)))
            tid (SetCloseCallback p) s
      | None \<Rightarrow>
          bindR (Connector_stop tid s) (\<lambda>s1.
          bindR (runAfter own_call tid 1 (UserFn 0) s1) (\<lambda>(_, s2). Inr s2)))"

subsection \<open>Lemmas\<close>

lemma poll_frame_client:
  assumes "poll_frame s s'"
  shows "tc_connection s' = tc_connection s" "tc_retry s' = tc_retry s" "tc_connect s' = tc_connect s"
    "tc_nextConnId s' = tc_nextConnId s"
  using assms by (cases s; cases s'; simp add: poll_frame_def)+

lemma ep_armed_cong: "chans t = chans s \<Longrightarrow> ctlLog t = ctlLog s \<Longrightarrow> ep_armed p t = ep_armed p s"
  by (simp add: ep_armed_def cong: option.case_cong)

lemma put_conn_client [simp]:
  "tc_connection (put_conn p k s) = tc_connection s" "tc_retry (put_conn p k s) = tc_retry s"
  "tc_connect (put_conn p k s) = tc_connect s"
  "cr_channel (put_conn p k s) = cr_channel s" "cr_callback (put_conn p k s) = cr_callback s"
  by (simp_all add: put_conn_def)

text \<open>A socket handed over by the connector, whatever the client's connection callback.\<close>

definition client_conn :: "('m) client_state_scheme \<Rightarrow> nat \<Rightarrow> int \<Rightarrow> connection" where
  "client_conn s q fd = \<lparr>conn_name = connName fd s, conn_state = kConnected, conn_reading = True, conn_sockfd = fd,
     conn_channel = q, localAddr = getLocalAddr (osLocal s fd), peerAddr = getPeerAddr (osPeer s fd),
     connectionCallback = tc_connectionCallback s, messageCallback = tc_messageCallback s,
     writeCompleteCallback = tc_writeCompleteCallback s, highWaterMarkCallback = None,
     conn_closeCallback = Some ClientRemoveConnection, highWaterMark = defaultHighWaterMark,
     inputBuffer = Buffer_new, outputBuffer = Buffer_new\<rparr>"

lemma newConnection_up:
  assumes "loop_inv s" and "newConn s (connsMade s) = (p, q)" and "chans s q = None" and "0 \<le> fd" and "ep_free_fd fd s"
  obtains s1 where "TcpClient_newConnection ucall fd s = call_cb ucall (tc_connectionCallback s) p 0 s1" "loop_inv s1"
    "poll_frame (s\<lparr>connsMade := Suc (connsMade s), tc_connection := Some p, conns := (conns s)(p \<mapsto> client_conn s q fd)\<rparr>) s1"
    "ep_registered q s1" "ep_armed q s1 = kReadEvent"
    "chans s1 = (chans s)(q \<mapsto> (conn_chan p (lp_this s) fd (channelGarbage s))\<lparr>ch_events := kReadEvent, ch_index := kAdded\<rparr>)"
proof -
  let ?w = "s\<lparr>connsMade := Suc (connsMade s), tc_connection := Some p\<rparr>" let ?c = "conn_chan p (lp_this ?w) fd (channelGarbage s)"
  define k where "k = (client_conn s q fd)\<lparr>conn_state := kConnecting\<rparr>"
  have k: "conn_channel k = q" "conn_sockfd k = fd" "conn_state k = kConnecting" "connectionCallback k = tc_connectionCallback s"
    "k\<lparr>conn_state := kConnected\<rparr> = client_conn s q fd"
    by (simp_all add: k_def client_conn_def)
  have w: "loop_inv ?w" "chans ?w q = None" "ep_free_fd fd ?w" using assms(1,3,5) loop_inv_cong [of ?w s] by simp_all
  obtain s1 where s1: "connectionEstablished ucall p (put_conn p k (put_chan q ?c ?w)) = call_cb ucall (connectionCallback k) p 0 s1"
    "poll_frame (put_conn p (k\<lparr>conn_state := kConnected\<rparr>) ?w) s1" "loop_inv s1" "ep_registered q s1" "ep_armed q s1 = kReadEvent"
    "chans s1 = (chans ?w)(q \<mapsto> ?c\<lparr>ch_events := kReadEvent, ch_index := kAdded\<rparr>)"
    by (rule established_ok [of ?c p ?w k "channelGarbage s"]) (use k w assms(4) in simp_all)
  note set = setConnectionCallback_def setMessageCallback_def setWriteCompleteCallback_def conn_setCloseCallback_def
  have "TcpClient_newConnection ucall fd s = connectionEstablished ucall p (put_conn p k (put_chan q ?c ?w))"
    using assms(2) unfolding k_def client_conn_def
    by (cases s) (simp add: TcpClient_newConnection_def TcpConnection_new_def set Let_def put_conn_def put_chan_def conn_chan_def)
  moreover have "poll_frame (s\<lparr>connsMade := Suc (connsMade s), tc_connection := Some p, conns := (conns s)(p \<mapsto> client_conn s q fd)\<rparr>) s1"
    using s1(2) unfolding k(5) by (simp add: put_conn_def)
  ultimately show thesis using s1 k(4) by (intro that [of s1]) simp_all
qed

text \<open>The connection callback of a client must leave the client's hold on the connection alone.\<close>

definition keeps_connection :: "'m client_state_scheme \<Rightarrow> 'm client_state_scheme \<Rightarrow> bool" where
  "keeps_connection u v \<longleftrightarrow> tc_connection v = tc_connection u"

lemma client_lets_go:
  fixes s :: "'m client_state_scheme"
  assumes inv: "conn_inv p k c s" and st: "conn_state k = kConnected \<or> conn_state k = kDisconnecting"
    and tc: "tc_connection s = Some p" and cl: "conn_closeCallback k = Some ClientRemoveConnection"
    and cb: "callback_lets_close keeps_connection (client_ucall tid user) p (k\<lparr>conn_state := kDisconnected\<rparr>)"
  obtains u v where
    "poll_frame (put_conn p (k\<lparr>conn_state := kDisconnected\<rparr>) s) u"
    "call_cb (client_ucall tid user) (connectionCallback k) p 0 u = Inr v" "lets_close p (conn_channel k) u v"
    "handleClose (client_ucall tid user) p s =
      (let s1 = queueInLoop tid (ConnDestroyed p) (v\<lparr>tc_connection := None\<rparr>) in
       if tc_retry v \<and> tc_connect v then Connector_restart tid s1 else Inr s1)"
    "loop_inv v" "ep_armed (conn_channel k) v = 0" "conns v p = Some (k\<lparr>conn_state := kDisconnected\<rparr>)"
proof -
  let ?k = "k\<lparr>conn_state := kDisconnected\<rparr>"
  obtain u d where close: "handleClose (client_ucall tid user) p s =
      bindR (call_cb (client_ucall tid user) (connectionCallback k) p 0 u) (\<lambda>s2.
        with_conn p s2 (\<lambda>k2. call_cb (client_ucall tid user) (conn_closeCallback k2) p 0 s2))"
    and k: "conns u p = Some ?k" and u: "loop_inv u" "ep_registered (conn_channel k) u"
    "chans u (conn_channel k) = Some d" "ch_loop d = lp_this u" "ep_armed (conn_channel k) u = 0" "poll_frame (put_conn p ?k s) u"
    by (rule handleClose_ok [OF inv st]) blast
  note fr = poll_frame_conn [OF u(6)] and fc = poll_frame_client [OF u(6)]
  obtain v where v: "call_cb (client_ucall tid user) (connectionCallback k) p 0 u = Inr v" "lets_close p (conn_channel k) u v" "keeps_connection u v"
    using callback_lets_closeD [OF cb u(1) k] by auto
  then have vf: "conns v p = Some ?k" "loop_inv v" "chans v (conn_channel k) = Some d" "lp_this v = lp_this u" "tc_connection v = Some p"
    "ep_armed (conn_channel k) v = 0"
    using k u(3,5) fc(1) tc by (simp_all add: lets_close_def keeps_connection_def)
  have flags: "tc_retry (queueInLoop tid f (v\<lparr>tc_connection := None\<rparr>)) = tc_retry v" "tc_connect (queueInLoop tid f (v\<lparr>tc_connection := None\<rparr>)) = tc_connect v" for f
    by (simp_all add: queueInLoop_def wakeup_def Let_def)
  have "handleClose (client_ucall tid user) p s = TcpClient_removeConnection tid p v"
    using close v(1) vf(1) cl by (simp add: call_cb_def client_ucall_def)
  also have "\<dots> = (let s1 = queueInLoop tid (ConnDestroyed p) (v\<lparr>tc_connection := None\<rparr>) in
       if tc_retry v \<and> tc_connect v then Connector_restart tid s1 else Inr s1)"
    using vf(1,3-5) u(4) flags by (simp add: TcpClient_removeConnection_def Let_def)
  finally show thesis using u(6) v vf by (intro that [of u v])
qed

subsection \<open>Properties\<close>

text \<open>
  C24: When the peer closes the connection of a client, the connection is disabled and marked and its
  connection callback runs, which may be any that succeeds there and leaves the connection, its channel and the client's hold
  on it alone.  Then the client lets go of the connection and queues its destruction exactly once, behind what the callback has queued; and then
  the connector starts a new attempt, with its back-off reset, exactly when, as the callback leaves the client, retrying is enabled and the
  client was not told to disconnect.
\<close>

theorem client_close_reconnects:
  fixes s :: "'m client_state_scheme"
  assumes "conn_inv p k c s" and "conn_state k = kConnected \<or> conn_state k = kDisconnecting"
    and "tc_connection s = Some p" and "conn_closeCallback k = Some ClientRemoveConnection"
    and "callback_lets_close keeps_connection (client_ucall tid user) p (k\<lparr>conn_state := kDisconnected\<rparr>)"
  shows "\<exists>u v s1. conns u p = Some (k\<lparr>conn_state := kDisconnected\<rparr>) \<and> ep_armed (conn_channel k) u = 0 \<and>
      tc_retry u = tc_retry s \<and> tc_connect u = tc_connect s \<and> pendingFunctors u = pendingFunctors s \<and>
      call_cb (client_ucall tid user) (connectionCallback k) p 0 u = Inr v \<and>
    handleClose (client_ucall tid user) p s = (if tc_retry v \<and> tc_connect v then Connector_restart tid s1 else Inr s1) \<and>
    conns s1 p = Some (k\<lparr>conn_state := kDisconnected\<rparr>) \<and> tc_connection s1 = None \<and> loop_inv s1 \<and>
    ep_armed (conn_channel k) s1 = 0 \<and> pendingFunctors s1 = pendingFunctors v @ [ConnDestroyed p]"
proof -
  obtain u v where u: "poll_frame (put_conn p (k\<lparr>conn_state := kDisconnected\<rparr>) s) u"
    "call_cb (client_ucall tid user) (connectionCallback k) p 0 u = Inr v" "lets_close p (conn_channel k) u v"
    "handleClose (client_ucall tid user) p s =
      (let s1 = queueInLoop tid (ConnDestroyed p) (v\<lparr>tc_connection := None\<rparr>) in
       if tc_retry v \<and> tc_connect v then Connector_restart tid s1 else Inr s1)"
    "loop_inv v" "ep_armed (conn_channel k) v = 0" "conns v p = Some (k\<lparr>conn_state := kDisconnected\<rparr>)"
    by (rule client_lets_go [OF assms])
  note fr = poll_frame_conn [OF u(1)] and fc = poll_frame_client [OF u(1)]
  have a: "conns u p = Some (k\<lparr>conn_state := kDisconnected\<rparr>)" "ep_armed (conn_channel k) u = 0"
    using u(3,6,7) by (simp_all add: lets_close_def)
  let ?v = "v\<lparr>tc_connection := None\<rparr>" let ?s1 = "queueInLoop tid (ConnDestroyed p) ?v"
  have "loop_inv ?v" "ep_armed (conn_channel k) ?v = 0"
    using loop_inv_cong(1) [of ?v v] u(5,6) by (simp_all add: ep_armed_cong [of ?v v])
  moreover have "ep_armed (conn_channel k) ?s1 = ep_armed (conn_channel k) ?v" by (rule ep_armed_cong) simp_all
  moreover have "tc_connection ?s1 = None" by (simp add: queueInLoop_def wakeup_def Let_def)
  ultimately show ?thesis using a u(2,4,7) fc(2,3) fr(7)
    by (intro exI [of _ u] exI [of _ v] exI [of _ ?s1]) (simp add: Let_def)
qed

text \<open>
  A socket handed over by the connector becomes the client's connection: up, registered for reading,
  with the client's callbacks.  Its name ends in a counter that \<open>newConnection\<close> never advances, so the
  next connection to the same peer gets the same name.
\<close>

theorem client_newConnection:
  assumes "loop_inv s" and "newConn s (connsMade s) = (p, q)" and "chans s q = None" and "0 \<le> fd"
    and "ep_free_fd fd s" and "tc_connectionCallback s = Some DefaultConnection"
  shows "\<exists>s1 k. TcpClient_newConnection ucall fd s = Inr s1 \<and> loop_inv s1 \<and> conns s1 p = Some k \<and>
    tc_connection s1 = Some p \<and> conn_state k = kConnected \<and> conn_sockfd k = fd \<and> conn_channel k = q \<and>
    ep_registered q s1 \<and> ep_armed q s1 = kReadEvent \<and> messageCallback k = tc_messageCallback s \<and>
    conn_closeCallback k = Some ClientRemoveConnection \<and>
    conn_name k = connName fd s \<and> connName fd s1 = connName fd s"
proof -
  obtain s1 where s1: "TcpClient_newConnection ucall fd s = call_cb ucall (tc_connectionCallback s) p 0 s1" "loop_inv s1"
    "poll_frame (s\<lparr>connsMade := Suc (connsMade s), tc_connection := Some p, conns := (conns s)(p \<mapsto> client_conn s q fd)\<rparr>) s1"
    "ep_registered q s1" "ep_armed q s1 = kReadEvent"
    by (rule newConnection_up [OF assms(1-5), where ucall = ucall]) blast
  have fr: "conns s1 p = Some (client_conn s q fd)" "tc_connection s1 = Some p" "connName fd s1 = connName fd s"
    using s1(3) by (cases s; cases s1; simp add: poll_frame_def connName_def)+
  have "TcpClient_newConnection ucall fd s = Inr s1" using s1(1) assms(6) by (simp add: call_cb_def)
  with s1(2-5) fr show ?thesis by (intro exI [of _ s1] exI [of _ "client_conn s q fd"]) (simp add: client_conn_def)
qed

subsection \<open>Witnesses\<close>

definition tc_demo :: client_state where
  "tc_demo = connector_state.extend cr_demo
     \<lparr>tc_connectionCallback = Some DefaultConnection, tc_messageCallback = Some (UserCb 1), tc_writeCompleteCallback = None,
      tc_retry = False, tc_connect = True, tc_nextConnId = 1, tc_connection = Some 1, tc_name = ''client'', connsMade = 0,
      newConn = (\<lambda>n. (n + 10, n + 20)), osPeer = (\<lambda>_. None), osLocal = (\<lambda>_. None), osNtop = (\<lambda>_. None),
      osLittleEndian = True\<rparr>"

lemmas tc_demo_defs = tc_demo_def connector_state.defs cr_demo_defs

lemma tc_demo_loop: "loop_inv tc_demo"
proof -
  have "epoll_inv tc_demo"
    unfolding epoll_inv_def
    by (auto simp: tc_demo_defs epoll_chan_ok_def interest_def ctl_legal_def index_consts split: if_splits)
  then show ?thesis by (auto simp: loop_inv_def own_chans_def tc_demo_defs split: if_splits)
qed

text \<open>A callback that queues a functor of its own.\<close>

definition tc_demo_user :: "conn_cb \<Rightarrow> nat \<Rightarrow> int \<Rightarrow> client_state \<Rightarrow> client_state res" where
  "tc_demo_user cb p arg s = Inr (queueInLoop 1 (UserFn 5) s)"

lemma tc_demo_with:
  assumes "k = (cn_demo_conn kConnected Buffer_new)\<lparr>conn_closeCallback := Some ClientRemoveConnection, connectionCallback := cb\<rparr>"
  shows "conn_inv 1 k cn_demo_chan (tc_demo\<lparr>conns := [1 \<mapsto> k]\<rparr>)"
proof -
  let ?s = "tc_demo\<lparr>conns := [1 \<mapsto> k]\<rparr>"
  have "loop_inv ?s" using tc_demo_loop loop_inv_cong(1) [of ?s tc_demo] by simp
  moreover have "ep_registered 1 ?s" "\<not> isWriting cn_demo_chan"
    by (auto simp: ep_registered_def tc_demo_defs isWriting_def masks_disjoint)
  ultimately show ?thesis by (simp add: assms conn_inv_def tc_demo_defs buffer_inv_new)
qed

theorem client_close_reconnects_witness:
  "\<exists>s1. handleClose (client_ucall 1 tc_demo_user) 1
      (tc_demo\<lparr>conns := [1 \<mapsto> (cn_demo_conn kConnected Buffer_new)\<lparr>conn_closeCallback := Some ClientRemoveConnection,
        connectionCallback := Some (UserCb 3)\<rparr>]\<rparr>) = Inr s1 \<and>
    tc_connection s1 = None \<and> pendingFunctors s1 = [UserFn 5, ConnDestroyed 1]"
proof -
  let ?k = "(cn_demo_conn kConnected Buffer_new)\<lparr>conn_closeCallback := Some ClientRemoveConnection, connectionCallback := Some (UserCb 3)\<rparr>"
  let ?s = "tc_demo\<lparr>conns := [1 \<mapsto> ?k]\<rparr>"
  have f: "conn_state ?k = kConnected" "tc_connection ?s = Some 1" "conn_closeCallback ?k = Some ClientRemoveConnection"
    "\<not> tc_retry ?s" "pendingFunctors ?s = []" "connectionCallback ?k = Some (UserCb 3)"
    by (simp_all add: tc_demo_defs)
  have cbk: "call_cb (client_ucall i tc_demo_user) (Some (UserCb 3)) p 0 u = Inr (queueInLoop 1 (UserFn 5) u)" for i p u
    by (simp add: call_cb_def client_ucall_def tc_demo_user_def)
  have q: "tc_connection (queueInLoop 1 g u) = tc_connection u" "tc_retry (queueInLoop 1 g u) = tc_retry u" for g and u :: client_state
    by (simp_all add: queueInLoop_def wakeup_def Let_def)
  have cb: "callback_lets_close keeps_connection (client_ucall 1 tc_demo_user) 1 (?k\<lparr>conn_state := kDisconnected\<rparr>)"
    unfolding callback_lets_close_def by (auto simp: cbk keeps_connection_def queueInLoop_lets_close q)
  obtain u v s1 where r: "tc_retry u = tc_retry ?s" "pendingFunctors u = pendingFunctors ?s"
    "call_cb (client_ucall 1 tc_demo_user) (connectionCallback ?k) 1 0 u = Inr v"
    "handleClose (client_ucall 1 tc_demo_user) 1 ?s = (if tc_retry v \<and> tc_connect v then Connector_restart 1 s1 else Inr s1)"
    "tc_connection s1 = None" "pendingFunctors s1 = pendingFunctors v @ [ConnDestroyed 1]"
    using client_close_reconnects [OF tc_demo_with [OF refl] disjI1 [OF f(1)] f(2,3) cb] by auto
  have "v = queueInLoop 1 (UserFn 5) u" using r(3) unfolding f(6) cbk by simp
  with r f(4,5) show ?thesis by (auto simp: q)
qed

theorem client_newConnection_witness:
  "\<exists>s1 k. TcpClient_newConnection (client_ucall 1 (\<lambda>_ _ _. Inr)) 9 tc_demo = Inr s1 \<and> conns s1 10 = Some k \<and>
    conn_state k = kConnected \<and> tc_connection s1 = Some 10 \<and> connName 9 s1 = conn_name k"
proof -
  have f: "newConn tc_demo (connsMade tc_demo) = (10, 20)" "chans tc_demo 20 = None" "(0::int) \<le> 9" "ep_free_fd 9 tc_demo"
    "tc_connectionCallback tc_demo = Some DefaultConnection"
    by (simp_all add: tc_demo_defs ep_free_fd_def)
  from client_newConnection [OF tc_demo_loop f, of "client_ucall 1 (\<lambda>_ _ _. Inr)"] show ?thesis by auto
qed

end
