(* ===== verification/PingPong.thy ===== *)
theory PingPong
  imports Streams TcpClient EventLoopThread
begin

section \<open>The client of the pingpong example\<close>

text \<open>
  \<open>examples/pingpong/client.cpp\<close>: a session sends the block when it is connected and returns every message that it
  gets; the client counts the connected sessions and stops its loop when the last one goes.  The counters of one session
  extend the state of its client and loop; \<open>numConnected_\<close> is a 32-bit integer, the session's counters are 64-bit.
\<close>

record session_state = client_state +
  bytesRead :: "64 word"
  bytesWritten :: "64 word"
  messagesRead :: "64 word"

record pp_client =
  pp_message :: string
  sessionCount :: int
  numConnected :: "32 word"

definition pp_block :: "nat \<Rightarrow> string" where
  "pp_block blockSize = map (\<lambda>i. char_of (i mod 128)) [0..<blockSize]"

definition Client_new :: "nat \<Rightarrow> int \<Rightarrow> pp_client" where
  "Client_new blockSize n = \<lparr>pp_message = pp_block blockSize, sessionCount = n, numConnected = 0\<rparr>"

definition sessionConnection :: conn_cb where "sessionConnection = UserCb 1"
definition sessionMessage :: conn_cb where "sessionMessage = UserCb 0"

definition Session_new :: "sockaddr_in \<Rightarrow> string \<Rightarrow> 'm session_state_scheme \<Rightarrow> 'm session_state_scheme" where
  "Session_new addr name s =
     client_setMessageCallback (Some sessionMessage) (client_setConnectionCallback (Some sessionConnection)
       ((TcpClient_new addr name s)\<lparr>bytesRead := 0, bytesWritten := 0, messagesRead := 0\<rparr>))"

definition Session_start where
  "Session_start tid s = TcpClient_connect tid s"

definition Session_stop where
  "Session_stop tid s = TcpClient_disconnect tid s"

text \<open>
  \<open>onConnect\<close> only counts; \<open>onDisconnect\<close> queues \<open>Client::quit\<close>, the functor \<open>clientQuit\<close>, in the loop of the connection,
  and that queues \<open>EventLoop::quit\<close>, the functor \<open>loopQuit\<close>, in the loop of the client.
\<close>

definition clientQuit :: loop_functor where "clientQuit = UserFn 0"
definition loopQuit :: loop_functor where "loopQuit = UserFn 1"

definition onConnect :: "pp_client \<Rightarrow> pp_client" where
  "onConnect c = c\<lparr>numConnected := numConnected c + 1\<rparr>"

text \<open>\<open>onDisconnect\<close> subtracts and reads again: two steps, between which other threads may count.\<close>

definition disconnect_count :: "pp_client \<Rightarrow> pp_client" where
  "disconnect_count c = c\<lparr>numConnected := numConnected c - 1\<rparr>"

definition disconnect_report where
  "disconnect_report tid c s = (if numConnected c = 0 then queueInLoop tid clientQuit s else s)"

definition onDisconnect where
  "onDisconnect tid c s = (let c1 = disconnect_count c in (c1, disconnect_report tid c1 s))"

definition Client_quit where
  "Client_quit tid base = queueInLoop tid loopQuit base"

definition Session_onConnection where
  "Session_onConnection tid c p s =
     with_conn p s (\<lambda>k.
       if connected k then
         bindR (TcpConnection_setTcpNoDelay p True s) (\<lambda>s1.
         bindR (TcpConnection_send tid p (pp_message c) s1) (\<lambda>s2. Inr (onConnect c, s2)))
       else Inr (onDisconnect tid c s))"

definition Session_onMessage where
  "Session_onMessage tid p s =
     with_conn p s (\<lambda>k.
       let len = of_nat (readableBytes (inputBuffer k));
           s1 = s\<lparr>messagesRead := messagesRead s + 1, bytesRead := bytesRead s + len, bytesWritten := bytesWritten s + len\<rparr> in
       bindR (TcpConnection_sendBuffer tid p (inputBuffer k) s1) (\<lambda>(buf, s2).
       with_conn p s2 (\<lambda>k2. Inr (put_conn p (k2\<lparr>inputBuffer := buf\<rparr>) s2))))"

definition session_ucall :: "int \<Rightarrow> conn_cb \<Rightarrow> nat \<Rightarrow> int \<Rightarrow> 'm session_state_scheme \<Rightarrow> 'm session_state_scheme res" where
  "session_ucall tid cb p arg s = (if cb = sessionMessage then Session_onMessage tid p s else Inr s)"

subsection \<open>A session\<close>

text \<open>A session whose connection is up, with its input consumed and room for \<open>n\<close> more reads.\<close>

definition session_ready :: "int \<Rightarrow> nat \<Rightarrow> nat \<Rightarrow> connection \<Rightarrow> channel \<Rightarrow> 'm session_state_scheme \<Rightarrow> bool" where
  "session_ready tid p n k c s \<longleftrightarrow> up tid p k c s \<and> messageCallback k = Some sessionMessage \<and>
     buffer_inv (inputBuffer k) \<and> content (inputBuffer k) = [] \<and>
     length (storage (inputBuffer k)) + n * extrabufSize \<le> VEC_MAX \<and>
     writerIndex (outputBuffer k) + n * extrabufSize \<le> VEC_MAX"

lemma up_session:
  "up tid p k c (s\<lparr>messagesRead := a, bytesRead := b, bytesWritten := d\<rparr>) = up tid p k c s"
  "stream k (s\<lparr>messagesRead := a, bytesRead := b, bytesWritten := d\<rparr>) = stream k s"
  by (simp_all add: up_def conn_inv_def loop_inv_def own_chans_def ep_registered_def os_write_ok_def epoll_inv_def
      epoll_chan_ok_def stream_def)

lemma session_message:
  fixes s :: "'m session_state_scheme"
  assumes "up tid p k c s" "buffer_inv (inputBuffer k)" "writerIndex (outputBuffer k) + length (content (inputBuffer k)) \<le> VEC_MAX"
  shows "\<exists>s' k' c'. Session_onMessage tid p s = Inr s' \<and> up tid p k' c' s' \<and>
    k'\<lparr>outputBuffer := outputBuffer k\<rparr> = k\<lparr>inputBuffer := retrieveAll (inputBuffer k)\<rparr> \<and>
    stream k' s' = stream k s @ content (inputBuffer k) \<and>
    writerIndex (outputBuffer k') \<le> writerIndex (outputBuffer k) + length (content (inputBuffer k)) \<and>
    bytesRead s' = bytesRead s + of_nat (length (content (inputBuffer k))) \<and>
    bytesWritten s' = bytesWritten s + of_nat (length (content (inputBuffer k))) \<and> messagesRead s' = messagesRead s + 1"
proof -
  let ?msg = "content (inputBuffer k)" let ?len = "of_nat (length ?msg) :: 64 word" let ?b = "retrieveAll (inputBuffer k)"
  let ?s = "s\<lparr>messagesRead := messagesRead s + 1, bytesRead := bytesRead s + ?len, bytesWritten := bytesWritten s + ?len\<rparr>"
  have up: "up tid p k c ?s" using assms(1) by (simp only: up_session)
  from sends_send [of tid p ?msg, unfolded sends_def, rule_format, OF conjI [OF up assms(3)]] obtain k1 c1 s1 where s1:
    "TcpConnection_send tid p ?msg ?s = Inr s1" "up tid p k1 c1 s1" "conn_same k k1" "stream k1 s1 = stream k ?s @ ?msg"
    "writerIndex (outputBuffer k1) \<le> writerIndex (outputBuffer k) + length ?msg" by blast
  have "apart (Suc p) (Suc (conn_channel k)) (conn_sockfd k + 1) ?s s1"
    by (rule apart_send [OF up assms(3) _ _ _ s1(1)]) simp_all
  then have cnt: "bytesRead s1 = bytesRead ?s" "bytesWritten s1 = bytesWritten ?s" "messagesRead s1 = messagesRead ?s"
    by (cases s; cases s1; simp add: apart_def)+
  have conns: "conns ?s p = Some k" "conns s p = Some k" "conn_state k = kConnected" "conns s1 p = Some k1"
    using up s1(2) assms(1) by (simp_all add: up_def conn_inv_def)
  then have "TcpConnection_sendBuffer tid p (inputBuffer k) ?s = Inr (?b, s1)"
    using s1(1) retrieveAsString_ok [OF assms(2)]
    by (cases "isInLoopThread tid ?s") (simp_all add: TcpConnection_sendBuffer_def TcpConnection_send_def)
  then have "Session_onMessage tid p s = Inr (put_conn p (k1\<lparr>inputBuffer := ?b\<rparr>) s1)"
    using conns readableBytes_eq [OF assms(2)] by (simp add: Session_onMessage_def Let_def del: length_content)
  moreover have "k1\<lparr>inputBuffer := ?b, outputBuffer := outputBuffer k\<rparr> = k\<lparr>inputBuffer := ?b\<rparr>"
    using s1(3) by (cases k; cases k1) (simp add: conn_same_def)
  moreover note up_input [OF s1(2), of ?b]
  moreover have "stream k ?s = stream k s" by (simp only: up_session)
  ultimately show ?thesis using s1(4,5) cnt
    by (intro exI [of _ "put_conn p (k1\<lparr>inputBuffer := ?b\<rparr>) s1"] exI [of _ "k1\<lparr>inputBuffer := ?b\<rparr>"] exI [of _ c1])
      (simp add: put_conn_def del: length_content)
qed

lemma session_read:
  fixes s :: "'m session_state_scheme"
  assumes ready: "session_ready tid p (Suc n) k c s" and got: "osRead s (osCalls s) (conn_sockfd k) = ReadvGot bytes"
    and bytes: "bytes \<noteq> []" "length bytes \<le> extrabufSize"
  shows "\<exists>s' k' c'. TcpConnection_handleRead (session_ucall tid) t p s = Inr s' \<and> session_ready tid p n k' c' s' \<and>
    stream k' s' = stream k s @ bytes \<and> bytesRead s' = bytesRead s + of_nat (length bytes) \<and>
    bytesWritten s' = bytesWritten s + of_nat (length bytes) \<and> messagesRead s' = messagesRead s + 1"
proof -
  have up: "up tid p k c s" and cb: "messageCallback k = Some sessionMessage" and buf: "buffer_inv (inputBuffer k)"
    "content (inputBuffer k) = []" "length (storage (inputBuffer k)) + Suc n * extrabufSize \<le> VEC_MAX"
    "writerIndex (outputBuffer k) + Suc n * extrabufSize \<le> VEC_MAX"
    using ready by (simp_all add: session_ready_def)
  have room: "length (storage (inputBuffer k)) + extrabufSize \<le> VEC_MAX" using buf(3) by simp
  have fit: "length bytes \<le> writableBytes (inputBuffer k) + extrabufSize" using bytes(2) by simp
  obtain b where b: "TcpConnection_handleRead (session_ucall tid) t p s =
      call_cb (session_ucall tid) (messageCallback k) p t (put_conn p (k\<lparr>inputBuffer := b\<rparr>) (s\<lparr>osCalls := Suc (osCalls s)\<rparr>))"
    "buffer_inv b" "content b = content (inputBuffer k) @ bytes" "length (storage b) \<le> length (storage (inputBuffer k)) + extrabufSize"
    by (rule handleRead_got [OF up buf(1) room got bytes(1) fit])
  let ?k = "k\<lparr>inputBuffer := b\<rparr>" let ?s = "put_conn p ?k (s\<lparr>osCalls := Suc (osCalls s)\<rparr>)"
  have up1: "up tid p ?k c ?s" using up by (simp add: up_def conn_inv_def os_write_ok_def)
  have cont: "content (inputBuffer ?k) = bytes" using b(3) buf(2) by simp
  have b1: "buffer_inv (inputBuffer ?k)" using b(2) by simp
  have r1: "writerIndex (outputBuffer ?k) + length (content (inputBuffer ?k)) \<le> VEC_MAX" unfolding cont using buf(4) bytes(2) by simp
  from session_message [OF up1 b1 r1, unfolded cont] obtain s' k' c' where s': "Session_onMessage tid p ?s = Inr s'" "up tid p k' c' s'"
    "k'\<lparr>outputBuffer := outputBuffer ?k\<rparr> = ?k\<lparr>inputBuffer := retrieveAll (inputBuffer ?k)\<rparr>"
    "stream k' s' = stream ?k ?s @ bytes" "writerIndex (outputBuffer k') \<le> writerIndex (outputBuffer ?k) + length bytes"
    "bytesRead s' = bytesRead ?s + of_nat (length bytes)" "bytesWritten s' = bytesWritten ?s + of_nat (length bytes)"
    "messagesRead s' = messagesRead ?s + 1" by blast
  have "TcpConnection_handleRead (session_ucall tid) t p s = Inr s'"
    using b(1) cb s'(1) by (simp add: call_cb_def session_ucall_def sessionMessage_def)
  moreover have f: "inputBuffer k' = retrieveAll b" "messageCallback k' = messageCallback k"
    using s'(3) by (cases k; cases k'; simp)+
  have "session_ready tid p n k' c' s'"
    using s'(2,5) f cb bytes(2) buf(3,4) b(4) retrieveAll_inv [OF b(2)]
    by (simp add: session_ready_def) (simp add: retrieveAll_def)
  ultimately show ?thesis using s'(4,6-8)
    by (intro exI [of _ s'] exI [of _ k'] exI [of _ c']) (simp add: stream_def put_conn_def)
qed

text \<open>Runs of read events that bring the given messages, each of between one and 65536 bytes.\<close>

definition brings :: "nat \<Rightarrow> string \<Rightarrow> 'm session_state_scheme \<Rightarrow> bool" where
  "brings p bytes s \<longleftrightarrow> bytes \<noteq> [] \<and> length bytes \<le> extrabufSize \<and>
     (case conns s p of None \<Rightarrow> False | Some k \<Rightarrow> osRead s (osCalls s) (conn_sockfd k) = ReadvGot bytes)"

inductive session_reads :: "int \<Rightarrow> nat \<Rightarrow> 'm session_state_scheme \<Rightarrow> string list \<Rightarrow> 'm session_state_scheme \<Rightarrow> bool"
  for tid p s where
  start: "session_reads tid p s [] s"
| read: "session_reads tid p s msgs s1 \<Longrightarrow> brings p bytes s1 \<Longrightarrow>
    TcpConnection_handleRead (session_ucall tid) t p s1 = Inr s2 \<Longrightarrow> session_reads tid p s (msgs @ [bytes]) s2"

lemma session_next:
  assumes "session_ready tid p (Suc n) k c s" "brings p bytes s"
  shows "\<exists>s' k' c'. TcpConnection_handleRead (session_ucall tid) t p s = Inr s' \<and> session_ready tid p n k' c' s' \<and>
    stream k' s' = stream k s @ bytes \<and> bytesRead s' = bytesRead s + of_nat (length bytes) \<and>
    bytesWritten s' = bytesWritten s + of_nat (length bytes) \<and> messagesRead s' = messagesRead s + 1"
proof -
  have "conns s p = Some k" using assms(1) by (simp add: session_ready_def up_def conn_inv_def)
  with assms(2) have "osRead s (osCalls s) (conn_sockfd k) = ReadvGot bytes" "bytes \<noteq> []" "length bytes \<le> extrabufSize"
    by (simp_all add: brings_def)
  from session_read [OF assms(1) this] show ?thesis .
qed

lemma session_reads_ok:
  assumes "session_reads tid p s msgs s'" "session_ready tid p n k c s" "length msgs \<le> n"
  shows "\<exists>k' c'. session_ready tid p (n - length msgs) k' c' s' \<and> stream k' s' = stream k s @ concat msgs \<and>
    bytesRead s' = bytesRead s + of_nat (length (concat msgs)) \<and>
    bytesWritten s' = bytesWritten s + of_nat (length (concat msgs)) \<and> messagesRead s' = messagesRead s + of_nat (length msgs)"
  using assms
proof (induction rule: session_reads.induct)
  case start
  then show ?case by auto
next
  case (read msgs s1 bytes t s2)
  then obtain k1 c1 where 1: "session_ready tid p (n - length msgs) k1 c1 s1" "stream k1 s1 = stream k s @ concat msgs"
    "bytesRead s1 = bytesRead s + of_nat (length (concat msgs))"
    "bytesWritten s1 = bytesWritten s + of_nat (length (concat msgs))" "messagesRead s1 = messagesRead s + of_nat (length msgs)"
    by auto
  have "n - length msgs = Suc (n - length (msgs @ [bytes]))" using read.prems(2) by simp
  from session_next [OF 1(1) [unfolded this] read.hyps(2), of t] read.hyps(3) 1 show ?case by (auto simp: algebra_simps)
qed

text \<open>
  A session of the pingpong client: when it is connected its block joins the bytes of the connection and the client
  counts it; from then on every message that a read brings is sent back whole, in order, so the bytes sent are the block
  followed by all bytes received, and the counters are, modulo \<open>2^64\<close>, the numbers of bytes and of reads.
\<close>

theorem session_returns:
  fixes s :: "'m session_state_scheme"
  assumes "session_ready tid p 0 k c s" "length (storage (inputBuffer k)) + n * extrabufSize \<le> VEC_MAX"
    and "writerIndex (outputBuffer k) + length (pp_message cl) + n * extrabufSize \<le> VEC_MAX"
  shows "\<exists>s1. Session_onConnection tid cl p s = Inr (cl\<lparr>numConnected := numConnected cl + 1\<rparr>, s1) \<and>
    (\<forall>msgs s2. session_reads tid p s1 msgs s2 \<and> length msgs \<le> n \<longrightarrow>
      (\<exists>k2 c2. up tid p k2 c2 s2 \<and> stream k2 s2 = stream k s @ pp_message cl @ concat msgs \<and>
        bytesRead s2 = bytesRead s + of_nat (length (concat msgs)) \<and> bytesWritten s2 = bytesWritten s + of_nat (length (concat msgs)) \<and>
        messagesRead s2 = messagesRead s + of_nat (length msgs)) \<and>
      (\<forall>bytes t. length msgs < n \<and> brings p bytes s2 \<longrightarrow>
        (\<exists>s3. TcpConnection_handleRead (session_ucall tid) t p s2 = Inr s3)))"
proof -
  let ?s = "net (NetNoDelay (conn_sockfd k) True) s"
  have k: "up tid p k c s" "conns s p = Some k" "connected k"
    using assms(1) by (simp_all add: session_ready_def up_def conn_inv_def connected_def)
  have up: "up tid p k c ?s" "stream k ?s = stream k s" using k(1) by (simp_all add: up_def os_write_ok_def stream_def)
  have room: "writerIndex (outputBuffer k) + length (pp_message cl) \<le> VEC_MAX" using assms(3) by simp
  from sends_send [of tid p "pp_message cl", unfolded sends_def, rule_format, OF conjI [OF up(1) room]] obtain k1 c1 s1 where s1:
    "TcpConnection_send tid p (pp_message cl) ?s = Inr s1" "up tid p k1 c1 s1" "conn_same k k1"
    "stream k1 s1 = stream k ?s @ pp_message cl" "writerIndex (outputBuffer k1) \<le> writerIndex (outputBuffer k) + length (pp_message cl)"
    by blast
  have "apart (Suc p) (Suc (conn_channel k)) (conn_sockfd k + 1) ?s s1"
    by (rule apart_send [OF up(1) room _ _ _ s1(1)]) simp_all
  then have cnt: "bytesRead s1 = bytesRead s" "bytesWritten s1 = bytesWritten s" "messagesRead s1 = messagesRead s"
    by (cases s; cases s1; simp add: apart_def net_def)+
  have same: "inputBuffer k1 = inputBuffer k" "messageCallback k1 = messageCallback k"
    using s1(3) by (cases k; cases k1; simp add: conn_same_def)+
  have ready: "session_ready tid p n k1 c1 s1" using assms s1(2,5) same by (simp add: session_ready_def)
  have "Session_onConnection tid cl p s = Inr (cl\<lparr>numConnected := numConnected cl + 1\<rparr>, s1)"
    using k(2,3) s1(1)
    by (simp add: Session_onConnection_def TcpConnection_setTcpNoDelay_def Socket_setTcpNoDelay_def onConnect_def)
  moreover have "(\<exists>k2 c2. up tid p k2 c2 s2 \<and> stream k2 s2 = stream k s @ pp_message cl @ concat msgs \<and>
        bytesRead s2 = bytesRead s + of_nat (length (concat msgs)) \<and> bytesWritten s2 = bytesWritten s + of_nat (length (concat msgs)) \<and>
        messagesRead s2 = messagesRead s + of_nat (length msgs)) \<and>
      (\<forall>bytes t. length msgs < n \<and> brings p bytes s2 \<longrightarrow> (\<exists>s3. TcpConnection_handleRead (session_ucall tid) t p s2 = Inr s3))"
    if r: "session_reads tid p s1 msgs s2" "length msgs \<le> n" for msgs s2
  proof -
    from session_reads_ok [OF r(1) ready r(2)] obtain k2 c2 where 2: "session_ready tid p (n - length msgs) k2 c2 s2"
      "stream k2 s2 = stream k1 s1 @ concat msgs" "bytesRead s2 = bytesRead s1 + of_nat (length (concat msgs))"
      "bytesWritten s2 = bytesWritten s1 + of_nat (length (concat msgs))" "messagesRead s2 = messagesRead s1 + of_nat (length msgs)" by blast
    have "\<exists>s3. TcpConnection_handleRead (session_ucall tid) t p s2 = Inr s3" if "length msgs < n" "brings p bytes s2" for bytes t
    proof -
      have "n - length msgs = Suc (n - Suc (length msgs))" using that(1) by simp
      from session_next [OF 2(1) [unfolded this] that(2), of t] show ?thesis by blast
    qed
    moreover have "up tid p k2 c2 s2" using 2(1) by (simp add: session_ready_def)
    ultimately show ?thesis using 2(2-5) s1(4) up(2) cnt by auto
  qed
  ultimately show ?thesis by blast
qed

definition pp_demo :: session_state where
  "pp_demo = client_state.extend (tc_demo\<lparr>conns := [1 \<mapsto> (cn_demo_conn kConnected Buffer_new)\<lparr>messageCallback := Some sessionMessage\<rparr>]\<rparr>)
     \<lparr>bytesRead = 0, bytesWritten = 0, messagesRead = 0\<rparr>"

lemmas pp_demo_defs = pp_demo_def client_state.defs tc_demo_defs

lemma pp_demo_ready:
  "session_ready 1 1 0 ((cn_demo_conn kConnected Buffer_new)\<lparr>messageCallback := Some sessionMessage\<rparr>) cn_demo_chan pp_demo"
proof -
  have "loop_inv pp_demo" "ep_registered 1 pp_demo" by (rule demo_loop; simp add: pp_demo_defs)+
  with cn_demo_up show ?thesis
    by (simp add: session_ready_def up_def conn_inv_def os_write_ok_def pp_demo_defs buffer_inv_new)
qed

theorem session_returns_witness:
  "\<exists>s1 s2 k2 c2 t. Session_onConnection 1 (Client_new 3 1) 1 pp_demo = Inr ((Client_new 3 1)\<lparr>numConnected := 1\<rparr>, s1) \<and>
    session_reads 1 1 s1 [] s2 \<and> up 1 1 k2 c2 s2 \<and> stream k2 s2 = pp_block 3"
proof -
  let ?k = "(cn_demo_conn kConnected Buffer_new)\<lparr>messageCallback := Some sessionMessage\<rparr>"
  have "length (storage (inputBuffer ?k)) + 1 * extrabufSize \<le> VEC_MAX"
    "writerIndex (outputBuffer ?k) + length (pp_message (Client_new 3 1)) + 1 * extrabufSize \<le> VEC_MAX" "stream ?k pp_demo = []"
    by (simp_all add: cn_demo_conn_def extrabufSize_def Client_new_def pp_block_def stream_def pp_demo_defs)
  with session_returns [OF pp_demo_ready this(1,2)] session_reads.start show ?thesis
    by (fastforce simp: Client_new_def)
qed

end
