(* ===== verification/PingPongClient.thy ===== *)
theory PingPongClient
  imports PingPong LoopSetup
begin

section \<open>The pingpong client as a whole\<close>

text \<open>
  Class \<open>Client\<close> of \<open>examples/pingpong/client.cpp\<close>: its constructor makes the sessions and hands them to the loops of
  its pool, a timer stops them, and the last one that goes asks the base loop to quit.  The sessions run in the threads
  of their loops: \<open>pp_step\<close> interleaves what they do with the atomic counter, the queues of the loops and the timer.
\<close>

subsection \<open>Construction\<close>

text \<open>\<open>snprintf\<close> of \<open>C%05d\<close>.\<close>

definition session_name :: "nat \<Rightarrow> string" where
  "session_name i = ''C'' @ replicate (5 - length (show_nat i)) (CHR ''0'') @ show_nat i"

record 'm pp_program =
  pg_client :: pp_client
  pg_pool :: pool
  pg_timeout :: int
  pg_sessions :: "(nat \<times> 'm session_state_scheme) list"

definition clientTimeout :: loop_functor where "clientTimeout = UserFn 2"

text \<open>\<open>view i l\<close> is what the \<open>i\<close>-th session finds in loop \<open>l\<close> and at the addresses of its new objects.\<close>

definition make_session where
  "make_session tid addr view i ss_pl =
     (case ss_pl of (ss, pl) \<Rightarrow>
        bindR (getNextLoop pl) (\<lambda>(l, pl1).
        bindR (Session_start tid (Session_new addr (session_name i) (view i l))) (\<lambda>s.
          Inr (ss @ [(l, s)], pl1))))"

definition Client_construct where
  "Client_construct tid newLoop addr blockSize n timeout threadCount view base =
     bindR (runAfter own_call tid (of_int timeout) clientTimeout base) (\<lambda>(_, base1).
     (let pl = Pool_new (lp_this base1); pl1 = (if 1 < threadCount then Pool_setThreadNum threadCount pl else pl) in
      bindR (Pool_start newLoop pl1) (\<lambda>pl2.
      bindR (foldR (make_session tid addr view) [0..<nat n] ([], pl2)) (\<lambda>(ss, pl3).
        Inr (\<lparr>pg_client = Client_new (nat blockSize) n, pg_pool = pl3, pg_timeout = timeout, pg_sessions = ss\<rparr>, base1)))))"

text \<open>\<open>main\<close>, with the arguments of the command line, up to \<open>loop.loop()\<close>.\<close>

definition pingpong_main where
  "pingpong_main this tid epfd tfd tq wfd wq uninit newLoop addr threadCount blockSize n timeout view s =
     bindR (EventLoop_construct this tid epfd tfd tq wfd wq uninit s) (\<lambda>s1.
       Client_construct tid newLoop addr blockSize n timeout threadCount view s1)"

definition handleTimeout where
  "handleTimeout tid c =
     bindR (foldR (\<lambda>(l, s) ss. bindR (Session_stop tid s) (\<lambda>s1. Inr (ss @ [(l, s1)]))) (pg_sessions c) []) (\<lambda>ss.
       Inr (c\<lparr>pg_sessions := ss\<rparr>))"

text \<open>What \<open>onDisconnect\<close> reports: the total of the bytes and of the messages of the sessions.\<close>

definition client_totals :: "(nat \<times> 'm session_state_scheme) list \<Rightarrow> 64 word \<times> 64 word" where
  "client_totals ss =
     foldl (\<lambda>(totalBytesRead, totalMessagesRead) (l, s). (totalBytesRead + bytesRead s, totalMessagesRead + messagesRead s)) (0, 0) ss"

subsection \<open>The threads\<close>

text \<open>
  The life of a session's connection: \<open>Ready\<close> when \<open>newConnection\<close> has run up to the call of \<open>onConnect\<close>, that is, the connection is up, is the one
  of the \<open>TcpClient\<close> and has been sent the block, but the session has not counted
  itself, \<open>Leaving\<close> between the subtraction and the second reading of \<open>onDisconnect\<close>.
\<close>

datatype phase = Waiting | Ready | Counted | Leaving | Gone

text \<open>
  The client, the loops with their queues, how many sessions the timeout has gone through, and the sessions, each with what it
  sees of its own loop.
\<close>

record pp_system =
  sy_client :: pp_client
  sy_phase :: "nat \<Rightarrow> phase"
  sy_loops :: "nat \<Rightarrow> loop_state"
  sy_stopped :: nat
  sy_sessions :: "nat \<Rightarrow> session_state"

text \<open>The part of \<open>onConnection\<close> that concerns the session alone, without the atomic counter.\<close>

definition Session_greet where
  "Session_greet tid c p s = bindR (TcpConnection_setTcpNoDelay p True s) (TcpConnection_send tid p (pp_message c))"


lemma Session_onConnection_eq:
  "Session_onConnection tid c p s = with_conn p s (\<lambda>k.
     if connected k then bindR (Session_greet tid c p s) (\<lambda>s1. Inr (onConnect c, s1)) else Inr (onDisconnect tid c s))"
  unfolding Session_onConnection_def Session_greet_def bindR_assoc ..




text \<open>Before any session is connected; the block is one that fits an \<open>int\<close>, and for each session there is a way to be connected.\<close>

definition session_waits :: "session_state \<Rightarrow> bool" where
  "session_waits u \<longleftrightarrow> loop_inv u \<and> os_write_ok u \<and> tc_connection u = None \<and> tc_connectionCallback u = Some sessionConnection"





subsection \<open>The counter and the quits\<close>

lemma EventLoop_quit_fields [simp]:
  "quit_flag (EventLoop_quit tid s)" "pendingFunctors (EventLoop_quit tid s) = pendingFunctors s"
  by (simp_all add: EventLoop_quit_def wakeup_def Let_def)

lemma quit_functors [simp]: "clientQuit \<noteq> loopQuit" "loopQuit \<noteq> clientQuit"
  by (simp_all add: clientQuit_def loopQuit_def)

definition counted :: "nat \<Rightarrow> pp_system \<Rightarrow> nat set" where
  "counted n s = {i. i < n \<and> sy_phase s i = Counted}"



text \<open>The queues hold quits only; the loops \<open>0\<close> to \<open>m\<close> are those of the program.\<close>

definition queues :: "pp_system \<Rightarrow> nat \<Rightarrow> loop_functor list" where
  "queues s l = pendingFunctors (sy_loops s l)"








lemma queues_upd [simp]:
  "queues (s\<lparr>sy_loops := (sy_loops s)(l := x)\<rparr>) = (queues s)(l := pendingFunctors x)"
  "queues (s\<lparr>sy_phase := ph, sy_loops := (sy_loops s)(l := x)\<rparr>) = (queues s)(l := pendingFunctors x)"
  "queues (s\<lparr>sy_loops := (sy_loops s)(l := x, l' := y)\<rparr>) = (queues s)(l := pendingFunctors x, l' := pendingFunctors y)"
  "queues (s\<lparr>sy_phase := ph\<rparr>) = queues s" "queues (s\<lparr>sy_phase := ph, sy_client := c\<rparr>) = queues s"
  "queues (s\<lparr>sy_stopped := k, sy_sessions := a\<rparr>) = queues s" "queues (s\<lparr>sy_phase := ph, sy_sessions := a\<rparr>) = queues s"
  "queues (s\<lparr>sy_phase := ph, sy_client := c, sy_sessions := a\<rparr>) = queues s" "queues (s\<lparr>sy_sessions := a\<rparr>) = queues s" "queues (s\<lparr>sy_stopped := k\<rparr>) = queues s"
  by (simp_all add: queues_def fun_eq_iff)




lemma finite_counted [simp]: "finite (counted n s)"
  by (simp add: counted_def)



subsection \<open>The end of the program\<close>

text \<open>Once every session is gone the steps that are left use up what is in the queues and the stops.\<close>

fun quit_work :: "loop_functor list \<Rightarrow> nat" where
  "quit_work [] = 0"
| "quit_work (f # fs) = (if f = clientQuit then 2 else 1) + quit_work fs"

lemma quit_work_append [simp]: "quit_work (fs @ gs) = quit_work fs + quit_work gs"
  by (induction fs) simp_all





subsection \<open>What the steps do to a session\<close>

















subsection \<open>Some runs\<close>





subsection \<open>The sessions that the constructor makes\<close>

definition session_started where
  "session_started tid addr view l i = queueInLoop tid ConnectorStartInLoop
     ((Session_new addr (session_name i) (view i l))\<lparr>tc_connect := True, cr_connect := True\<rparr>)"

lemma Session_start_elsewhere:
  "threadId (view i l) \<noteq> tid \<Longrightarrow> Session_start tid (Session_new addr (session_name i) (view i l)) = Inr (session_started tid addr view l i)"
  by (simp add: Session_start_def TcpClient_connect_def Connector_start_def runInLoop_def isInLoopThread_def session_started_def
      Session_new_def TcpClient_new_def Connector_new_def client_setMessageCallback_def client_setConnectionCallback_def
      setNewConnectionCallback_def)

lemma make_sessions_ok:
  assumes "pool_inv pl" and "\<And>i l. threadId (view i l) \<noteq> tid"
  shows "\<exists>pl'. foldR (make_session tid addr view) [0..<n] ([], pl) =
      Inr (map (\<lambda>i. (pool_loop pl i, session_started tid addr view (pool_loop pl i) i)) [0..<n], pl') \<and> pool_inv pl' \<and>
    (\<forall>i. pool_loop pl' i = pool_loop pl (n + i))"
proof (induction n)
  case (Suc n)
  then obtain pl1 where 1: "foldR (make_session tid addr view) [0..<n] ([], pl) =
      Inr (map (\<lambda>i. (pool_loop pl i, session_started tid addr view (pool_loop pl i) i)) [0..<n], pl1)"
    "pool_inv pl1" "\<And>i. pool_loop pl1 i = pool_loop pl (n + i)" by blast
  from getNextLoop_ok [OF 1(2)] obtain pl2 where 2: "getNextLoop pl1 = Inr (pool_loop pl1 0, pl2)" "pool_inv pl2"
    "\<And>i. pool_loop pl2 i = pool_loop pl1 (Suc i)" by blast
  have "make_session tid addr view n (ss, pl1) = Inr (ss @ [(pool_loop pl n, session_started tid addr view (pool_loop pl n) n)], pl2)" for ss
    using 1(3) 2(1) assms(2) by (simp add: make_session_def Session_start_elsewhere)
  with 1 2 show ?case by (intro exI [of _ pl2]) (simp add: foldR_append)
qed (use assms(1) in simp)

lemma pool_started_loops:
  "1 < n \<Longrightarrow> Pool_start newLoop (Pool_setThreadNum n (Pool_new base)) = Inr pl \<Longrightarrow>
    pool_inv pl \<and> pool_loop pl i = newLoop (i mod nat n)"
  by (auto simp: Pool_start_def Pool_setThreadNum_def Pool_new_def pool_inv_def pool_loop_def)

lemma session_started_fields:
  "tc_name (session_started tid addr view l i) = session_name i" "serverAddr (session_started tid addr view l i) = addr"
  "cr_connect (session_started tid addr view l i)" "bytesRead (session_started tid addr view l i) = 0"
  "messagesRead (session_started tid addr view l i) = 0"
  "pendingFunctors (session_started tid addr view l i) = pendingFunctors (view i l) @ [ConnectorStartInLoop]"
  by (simp_all add: session_started_def queueInLoop_def wakeup_def Session_new_def TcpClient_new_def Connector_new_def
      client_setMessageCallback_def client_setConnectionCallback_def setNewConnectionCallback_def Let_def)

text \<open>The sessions start as \<open>pp_start\<close> has them.\<close>

lemma session_started_waits:
  assumes "loop_inv (view i l)" "os_write_ok (view i l)"
  shows "session_waits (session_started tid addr view l i)" "\<not> tc_retry (session_started tid addr view l i)"
proof -
  note defs = session_started_def queueInLoop_def wakeup_def Session_new_def TcpClient_new_def Connector_new_def
    client_setMessageCallback_def client_setConnectionCallback_def setNewConnectionCallback_def Let_def
  have "loop_inv (session_started tid addr view l i) = loop_inv (view i l)"
    by (rule loop_inv_cong) (simp_all add: defs)
  with assms show "session_waits (session_started tid addr view l i)" by (simp add: session_waits_def os_write_ok_def defs)
  show "\<not> tc_retry (session_started tid addr view l i)" by (simp add: defs)
qed

subsection \<open>What the constructor makes\<close>

text \<open>
  With more than one thread, called in the thread of the loop: the timeout is in the
  timer queue of the base loop, the block has its size, no session is counted, and the \<open>i\<close>-th of the \<open>n\<close> sessions
  is called \<open>C\<close> and its number, belongs to loop \<open>i mod threads\<close> of the pool and has asked it to start its connector.
\<close>

lemma client_constructs:
  assumes "timer_inv base" and "isInLoopThread tid base" and "1 < threads" and "0 \<le> n" and "\<forall>i l. threadId (view i l) \<noteq> tid"
    and "0 \<le> blockSize"
  shows "\<exists>c base'. Client_construct tid newLoop addr blockSize n timeout threads view base = Inr (c, base') \<and> timer_inv base' \<and>
    timers base' = oset_insert (addTime (clock base (ticks base)) (of_int timeout), alloc base (numCreated base)) (timers base) \<and>
    tm_callback (the (timerHeap base' (alloc base (numCreated base)))) = clientTimeout \<and>
    int (length (pp_message (pg_client c))) = blockSize \<and> numConnected (pg_client c) = 0 \<and> int (length (pg_sessions c)) = n \<and>
    (\<forall>i < nat n. \<exists>s. pg_sessions c ! i = (newLoop (i mod nat threads), s) \<and> tc_name s = session_name i \<and> serverAddr s = addr \<and>
      cr_connect s \<and> pendingFunctors s = pendingFunctors (view i (newLoop (i mod nat threads))) @ [ConnectorStartInLoop])"
proof -
  let ?b = "base\<lparr>ticks := Suc (ticks base)\<rparr>" let ?w = "addTime (clock base (ticks base)) (of_int timeout)"
  let ?p = "alloc base (numCreated base)"
  obtain base' where b: "addTimer own_call tid clientTimeout ?w 0 ?b = Inr ((?p, int (numCreated base)), base')" "timer_inv base'"
    "timers base' = oset_insert (?w, ?p) (timers base)" "timerHeap base' ?p = Some (Timer_new clientTimeout ?w 0 (numCreated base))"
    using addTimer_ok [of ?b tid clientTimeout ?w 0] assms(1,2) by (auto simp: isInLoopThread_def)
  obtain pl where pl: "Pool_start newLoop (Pool_setThreadNum threads (Pool_new (lp_this base'))) = Inr pl"
    by (simp add: Pool_start_def Pool_setThreadNum_def Pool_new_def)
  note loops = pool_started_loops [OF assms(3) pl]
  from make_sessions_ok [of pl view tid addr "nat n"] loops assms(5) obtain pl' where m: "foldR (make_session tid addr view) [0..<nat n] ([], pl) =
      Inr (map (\<lambda>i. (newLoop (i mod nat threads), session_started tid addr view (newLoop (i mod nat threads)) i)) [0..<nat n], pl')"
    by auto
  have "Client_construct tid newLoop addr blockSize n timeout threads view base =
      Inr (\<lparr>pg_client = Client_new (nat blockSize) n, pg_pool = pl', pg_timeout = timeout,
        pg_sessions = map (\<lambda>i. (newLoop (i mod nat threads), session_started tid addr view (newLoop (i mod nat threads)) i)) [0..<nat n]\<rparr>, base')"
    using b(1) pl m assms(3) by (simp add: Client_construct_def runAfter_def runAt_def read_clock_def Let_def)
  then show ?thesis
    using b assms(4,6) by (simp add: session_started_fields Client_new_def pp_block_def Timer_new_def)
qed

subsection \<open>Properties\<close>



subsection \<open>Witnesses\<close>






end
