(* ===== verification/Tunnel.thy ===== *)
theory Tunnel
  imports TcpClient Streams
begin

section \<open>Tunnel\<close>

text \<open>
  \<open>examples/socks4a/tunnel.h\<close> and the message callback of \<open>tcprelay.cpp\<close>: a connection of the server and a
  client to another host in the same loop, which pass on what they receive and stop reading on one side while the
  other side cannot keep up.  The state is that of one tunnel and its client; \<open>tn_context p\<close> is the \<open>std::any\<close>
  context of connection \<open>p\<close>, and \<open>tn_alive\<close> whether the weak pointers still find the tunnel.
\<close>

datatype ServerClient = kServer | kClient

record tunnel_state = client_state +
  tn_serverConn :: "nat option"
  tn_clientConn :: "nat option"
  tn_context :: "nat \<Rightarrow> nat option"
  tn_alive :: bool

text \<open>The callbacks bound to the tunnel, as tags.\<close>

definition onClientConnectionCb :: conn_cb where "onClientConnectionCb = UserCb 0"
definition onClientMessageCb :: conn_cb where "onClientMessageCb = UserCb 1"
definition onServerMessageCb :: conn_cb where "onServerMessageCb = UserCb 2"

fun side_cb :: "ServerClient \<Rightarrow> nat" where
  "side_cb kServer = 0"
| "side_cb kClient = 1"

definition with_ptr :: "nat option \<Rightarrow> (nat \<Rightarrow> 'a res) \<Rightarrow> 'a res" where
  "with_ptr ptr f = (case ptr of None \<Rightarrow> Inl DanglingPointer | Some p \<Rightarrow> f p)"

definition set_conn :: "nat \<Rightarrow> (connection \<Rightarrow> connection) \<Rightarrow> ('m) conn_state_t_scheme \<Rightarrow> 'm conn_state_t_scheme res" where
  "set_conn p f s = with_conn p s (\<lambda>k. Inr (put_conn p (f k) s))"

definition tunnelHighWaterMark :: nat where
  "tunnelHighWaterMark = 1024 * 1024"

definition Tunnel_new :: "sockaddr_in \<Rightarrow> nat \<Rightarrow> ('m) tunnel_state_scheme \<Rightarrow> 'm tunnel_state_scheme res" where
  "Tunnel_new dest p s =
     with_conn p s (\<lambda>k. Inr ((TcpClient_new dest (conn_name k) s)
       \<lparr>tn_serverConn := Some p, tn_clientConn := None, tn_alive := True\<rparr>))"

definition Tunnel_setup :: "('m) tunnel_state_scheme \<Rightarrow> 'm tunnel_state_scheme res" where
  "Tunnel_setup s =
     (let s1 = client_setMessageCallback (Some onClientMessageCb)
                 (client_setConnectionCallback (Some onClientConnectionCb) s) in
      with_ptr (tn_serverConn s1) (\<lambda>p.
        set_conn p (setHighWaterMarkCallback (Some (side_cb kServer)) tunnelHighWaterMark) s1))"

definition Tunnel_connect :: "int \<Rightarrow> ('m) tunnel_state_scheme \<Rightarrow> 'm tunnel_state_scheme res" where
  "Tunnel_connect tid s = TcpClient_connect tid s"

definition Tunnel_disconnect :: "int \<Rightarrow> ('m) tunnel_state_scheme \<Rightarrow> 'm tunnel_state_scheme res" where
  "Tunnel_disconnect tid s = TcpClient_disconnect tid s"

definition teardown :: "int \<Rightarrow> ('m) tunnel_state_scheme \<Rightarrow> 'm tunnel_state_scheme res" where
  "teardown tid s =
     (let s1 = client_setMessageCallback (Some DefaultMessage)
                 (client_setConnectionCallback (Some DefaultConnection) s) in
      bindR (case tn_serverConn s1 of
               None \<Rightarrow> Inr s1
             | Some p \<Rightarrow> TcpConnection_shutdown tid p (s1\<lparr>tn_context := (tn_context s1)(p := None)\<rparr>))
        (\<lambda>s2. Inr (s2\<lparr>tn_clientConn := None\<rparr>)))"

text \<open>
  Passing on the input buffer of connection \<open>p\<close>: \<open>send(buf)\<close> on connection \<open>q\<close> with the buffer of \<open>p\<close>.
\<close>

definition forward :: "int \<Rightarrow> nat \<Rightarrow> nat \<Rightarrow> ('m) conn_state_t_scheme \<Rightarrow> 'm conn_state_t_scheme res" where
  "forward tid p q s =
     with_conn p s (\<lambda>k.
     bindR (TcpConnection_sendBuffer tid q (inputBuffer k) s) (\<lambda>(buf, s1).
       set_conn p (\<lambda>k1. k1\<lparr>inputBuffer := buf\<rparr>) s1))"

definition onClientConnection :: "int \<Rightarrow> nat \<Rightarrow> ('m) tunnel_state_scheme \<Rightarrow> 'm tunnel_state_scheme res" where
  "onClientConnection tid q s =
     with_conn q s (\<lambda>k.
       if connected k then
         bindR (TcpConnection_setTcpNoDelay q True s) (\<lambda>s1.
         bindR (set_conn q (setHighWaterMarkCallback (Some (side_cb kClient)) tunnelHighWaterMark) s1) (\<lambda>s2.
         with_ptr (tn_serverConn s2) (\<lambda>p.
         bindR (startRead tid p (s2\<lparr>tn_context := (tn_context s2)(p \<mapsto> q)\<rparr>)) (\<lambda>s3.
           let s4 = s3\<lparr>tn_clientConn := Some q\<rparr> in
           with_conn p s4 (\<lambda>k4. if 0 < readableBytes (inputBuffer k4) then forward tid p q s4 else Inr s4)))))
       else teardown tid s)"

definition onClientMessage :: "int \<Rightarrow> nat \<Rightarrow> ('m) tunnel_state_scheme \<Rightarrow> 'm tunnel_state_scheme res" where
  "onClientMessage tid q s =
     (case tn_serverConn s of
        Some p \<Rightarrow> forward tid q p s
      | None \<Rightarrow> Inl (AssertFailed ''abort()''))"

text \<open>\<open>onServerMessage\<close> of \<open>tcprelay.cpp\<close>.\<close>

definition onServerMessage :: "int \<Rightarrow> nat \<Rightarrow> ('m) tunnel_state_scheme \<Rightarrow> 'm tunnel_state_scheme res" where
  "onServerMessage tid p s = (case tn_context s p of Some q \<Rightarrow> forward tid p q s | None \<Rightarrow> Inr s)"

definition onHighWaterMark :: "int \<Rightarrow> ServerClient \<Rightarrow> ('m) tunnel_state_scheme \<Rightarrow> 'm tunnel_state_scheme res" where
  "onHighWaterMark tid which s =
     (if which = kServer then
        with_ptr (tn_serverConn s) (\<lambda>p. with_conn p s (\<lambda>k.
          if 0 < readableBytes (outputBuffer k) then
            with_ptr (tn_clientConn s) (\<lambda>q.
            bindR (stopRead tid q s) (\<lambda>s1. set_conn p (setWriteCompleteCallback (Some (side_cb kServer))) s1))
          else Inr s))
      else
        with_ptr (tn_clientConn s) (\<lambda>q. with_conn q s (\<lambda>k.
          if 0 < readableBytes (outputBuffer k) then
            with_ptr (tn_serverConn s) (\<lambda>p.
            bindR (stopRead tid p s) (\<lambda>s1. set_conn q (setWriteCompleteCallback (Some (side_cb kClient))) s1))
          else Inr s)))"

definition onWriteComplete :: "int \<Rightarrow> ServerClient \<Rightarrow> ('m) tunnel_state_scheme \<Rightarrow> 'm tunnel_state_scheme res" where
  "onWriteComplete tid which s =
     (if which = kServer then
        with_ptr (tn_clientConn s) (\<lambda>q. bindR (startRead tid q s) (\<lambda>s1.
        with_ptr (tn_serverConn s1) (\<lambda>p. set_conn p (setWriteCompleteCallback None) s1)))
      else
        with_ptr (tn_serverConn s) (\<lambda>p. bindR (startRead tid p s) (\<lambda>s1.
        with_ptr (tn_clientConn s1) (\<lambda>q. set_conn q (setWriteCompleteCallback None) s1))))"

definition onHighWaterMarkWeak :: "int \<Rightarrow> ServerClient \<Rightarrow> ('m) tunnel_state_scheme \<Rightarrow> 'm tunnel_state_scheme res" where
  "onHighWaterMarkWeak tid which s = (if tn_alive s then onHighWaterMark tid which s else Inr s)"

definition onWriteCompleteWeak :: "int \<Rightarrow> ServerClient \<Rightarrow> ('m) tunnel_state_scheme \<Rightarrow> 'm tunnel_state_scheme res" where
  "onWriteCompleteWeak tid which s = (if tn_alive s then onWriteComplete tid which s else Inr s)"

text \<open>What the tags mean.\<close>

definition tunnel_ucall :: "int \<Rightarrow> conn_cb \<Rightarrow> nat \<Rightarrow> 't \<Rightarrow> ('m) tunnel_state_scheme \<Rightarrow> 'm tunnel_state_scheme res" where
  "tunnel_ucall tid cb p arg s =
     (if cb = onClientConnectionCb then onClientConnection tid p s
      else if cb = onClientMessageCb then onClientMessage tid p s
      else if cb = onServerMessageCb then onServerMessage tid p s
      else Inr s)"

subsection \<open>Two connections that are up\<close>

definition pair :: "int \<Rightarrow> nat \<Rightarrow> connection \<Rightarrow> channel \<Rightarrow> nat \<Rightarrow> connection \<Rightarrow> channel \<Rightarrow> ('m) conn_state_t_scheme \<Rightarrow> bool" where
  "pair tid p kp cp q kq cq s \<longleftrightarrow> up tid p kp cp s \<and> up tid q kq cq s \<and> p \<noteq> q \<and>
     conn_channel kp \<noteq> conn_channel kq \<and> conn_sockfd kp \<noteq> conn_sockfd kq"

lemma pair_sym: "pair tid p kp cp q kq cq s \<longleftrightarrow> pair tid q kq cq p kp cp s"
  by (auto simp: pair_def)

text \<open>What leaves a connection alone keeps it up.\<close>

lemma up_apart:
  assumes "up tid q k c s" "apart q (conn_channel k) (conn_sockfd k) s t" "loop_inv t" "os_write_ok t" "threadId t = tid"
  obtains c' where "up tid q k c' t" "same_but_index c c'" "stream k t = stream k s"
  using conn_inv_apart [of q k c s t] assms by (auto simp: up_def)

lemma conn_same_fields:
  "conn_same k k' \<Longrightarrow> inputBuffer k' = inputBuffer k \<and> messageCallback k' = messageCallback k \<and>
     conn_channel k' = conn_channel k \<and> conn_sockfd k' = conn_sockfd k \<and> conn_reading k' = conn_reading k"
  by (cases k; cases k'; simp add: conn_same_def)

lemma forward_ok:
  assumes pr: "pair tid p kp cp q kq cq s" and buf: "buffer_inv (inputBuffer kp)"
    and room: "writerIndex (outputBuffer kq) + length (content (inputBuffer kp)) \<le> VEC_MAX"
  obtains s' kq' cp' cq' b where "forward tid p q s = Inr s'" "pair tid p (kp\<lparr>inputBuffer := b\<rparr>) cp' q kq' cq' s'"
    "buffer_inv b" "content b = []" "conn_same kq kq'" "stream kq' s' = stream kq s @ content (inputBuffer kp)"
    "stream (kp\<lparr>inputBuffer := b\<rparr>) s' = stream kp s" "conn_state_t.more s' = conn_state_t.more s"
proof -
  let ?msg = "content (inputBuffer kp)" let ?b = "retrieveAll (inputBuffer kp)" let ?k = "kp\<lparr>inputBuffer := ?b\<rparr>"
  have up: "up tid p kp cp s" "up tid q kq cq s" and ne: "p \<noteq> q" "conn_channel kp \<noteq> conn_channel kq" "conn_sockfd kp \<noteq> conn_sockfd kq"
    using pr by (simp_all add: pair_def)
  from sends_send [of tid q ?msg, unfolded sends_def, rule_format, OF conjI [OF up(2) room]]
  obtain kq' cq' s1 where s1: "TcpConnection_send tid q ?msg s = Inr s1" "up tid q kq' cq' s1" "conn_same kq kq'"
    "stream kq' s1 = stream kq s @ ?msg" by blast
  have ap: "apart p (conn_channel kp) (conn_sockfd kp) s s1"
    by (rule apart_send [OF up(2) room _ _ _ s1(1)]) (use ne in simp_all)
  from s1(2) obtain c1 where c1: "up tid p kp c1 s1" "stream kp s1 = stream kp s"
    using up_apart [OF up(1) ap] by (auto simp: up_def conn_inv_def)
  note up1 = up_input [OF c1(1), of ?b]
  let ?s = "put_conn p ?k s1"
  have q: "up tid q kq' cq' ?s" "stream kq' ?s = stream kq' s1"
    using s1(2) ne(1) by (simp_all add: up_def conn_inv_def os_write_ok_def stream_def)
  have conns: "conns s p = Some kp" "conns s1 p = Some kp" "conns s q = Some kq" "conn_state kq = kConnected"
    using up c1(1) by (simp_all add: up_def conn_inv_def)
  then have "TcpConnection_sendBuffer tid q (inputBuffer kp) s = Inr (?b, s1)"
    using s1(1) retrieveAsString_ok [OF buf]
    by (cases "isInLoopThread tid s") (simp_all add: TcpConnection_sendBuffer_def TcpConnection_send_def)
  then have "forward tid p q s = Inr ?s" using conns by (simp add: forward_def set_conn_def)
  moreover have "pair tid p ?k c1 q kq' cq' ?s"
    using up1(1) q(1) ne conn_same_fields [OF s1(3)] by (simp add: pair_def)
  moreover have "conn_state_t.more ?s = conn_state_t.more s" using ap by (simp add: apart_def)
  ultimately show thesis
    using that [of ?s ?b c1 kq' cq'] retrieveAll_inv [OF buf] s1(3,4) q(2) up1(2) c1(2) by simp
qed

text \<open>A read event that brings bytes.\<close>

text \<open>The tunnel when both connections are up.\<close>

definition tunnel_open where
  "tunnel_open tid p kp cp q kq cq s \<longleftrightarrow> pair tid p kp cp q kq cq s \<and> buffer_inv (inputBuffer kp) \<and> buffer_inv (inputBuffer kq) \<and>
     messageCallback kp = Some onServerMessageCb \<and> messageCallback kq = Some onClientMessageCb \<and>
     tn_serverConn s = Some p \<and> tn_clientConn s = Some q \<and> tn_context s p = Some q \<and> tn_alive s"

lemma tunnel_more:
  "conn_state_t.more u = conn_state_t.more v \<Longrightarrow> tn_serverConn u = tn_serverConn v \<and> tn_clientConn u = tn_clientConn v \<and>
     tn_context u = tn_context v \<and> tn_alive u = tn_alive v"
  by (cases u; cases v) simp

lemma relay_step:
  fixes s :: "'m tunnel_state_scheme"
  assumes pr: "pair tid a ka ca b kb cb s"
    and buf: "buffer_inv (inputBuffer ka)" "length (storage (inputBuffer ka)) + extrabufSize \<le> VEC_MAX"
    and got: "osRead s (osCalls s) (conn_sockfd ka) = ReadvGot bytes" "bytes \<noteq> []"
      "length bytes \<le> writableBytes (inputBuffer ka) + extrabufSize"
    and call: "\<And>u. conn_state_t.more u = conn_state_t.more s \<Longrightarrow>
      call_cb (tunnel_ucall tid) (messageCallback ka) a t u = forward tid a b u"
    and room: "writerIndex (outputBuffer kb) + length (content (inputBuffer ka)) + length bytes \<le> VEC_MAX"
  obtains s' ka' ca' kb' cb' where "TcpConnection_handleRead (tunnel_ucall tid) t a s = Inr s'"
    "pair tid a ka' ca' b kb' cb' s'" "stream kb' s' = stream kb s @ content (inputBuffer ka) @ bytes"
    "stream ka' s' = stream ka s" "content (inputBuffer ka') = []" "buffer_inv (inputBuffer ka')"
    "inputBuffer kb' = inputBuffer kb" "messageCallback ka' = messageCallback ka" "messageCallback kb' = messageCallback kb"
    "conn_state_t.more s' = conn_state_t.more s"
proof -
  have up: "up tid a ka ca s" using pr by (simp add: pair_def)
  obtain b0 where b0: "TcpConnection_handleRead (tunnel_ucall tid) t a s = call_cb (tunnel_ucall tid) (messageCallback ka) a t
      (put_conn a (ka\<lparr>inputBuffer := b0\<rparr>) (s\<lparr>osCalls := Suc (osCalls s)\<rparr>))"
    "buffer_inv b0" "content b0 = content (inputBuffer ka) @ bytes"
    by (rule handleRead_got [OF up buf got]) blast
  let ?k = "ka\<lparr>inputBuffer := b0\<rparr>" let ?u = "put_conn a ?k (s\<lparr>osCalls := Suc (osCalls s)\<rparr>)"
  have pr': "pair tid a ?k ca b kb cb ?u"
    using pr by (simp add: pair_def up_def conn_inv_def os_write_ok_def)
  have st: "stream ?k ?u = stream ka s" "stream kb ?u = stream kb s" by (simp_all add: stream_def)
  have buf': "buffer_inv (inputBuffer ?k)" using b0(2) by simp
  have room': "writerIndex (outputBuffer kb) + length (content (inputBuffer ?k)) \<le> VEC_MAX"
    using room b0(3) by (simp del: length_content)
  obtain s' kb' ca' cb' b1 where s': "forward tid a b ?u = Inr s'" "pair tid a (?k\<lparr>inputBuffer := b1\<rparr>) ca' b kb' cb' s'"
    "buffer_inv b1" "content b1 = []" "conn_same kb kb'" "stream kb' s' = stream kb ?u @ content (inputBuffer ?k)"
    "stream (?k\<lparr>inputBuffer := b1\<rparr>) s' = stream ?k ?u" "conn_state_t.more s' = conn_state_t.more ?u"
    by (rule forward_ok [OF pr' buf' room'])
  have "TcpConnection_handleRead (tunnel_ucall tid) t a s = Inr s'"
    using b0(1) call [of ?u] s'(1) by simp
  with s' that [of s' "?k\<lparr>inputBuffer := b1\<rparr>" ca' kb' cb'] b0(3) st conn_same_fields [OF s'(5)] show thesis by simp
qed

lemma tunnel_cbs [simp]:
  "onClientMessageCb \<noteq> onClientConnectionCb" "onServerMessageCb \<noteq> onClientConnectionCb" "onServerMessageCb \<noteq> onClientMessageCb"
  by (simp_all add: onClientMessageCb_def onClientConnectionCb_def onServerMessageCb_def)

lemma call_tunnel:
  "call_cb (tunnel_ucall tid) (Some onClientMessageCb) a t u = onClientMessage tid a u"
  "call_cb (tunnel_ucall tid) (Some onServerMessageCb) a t u = onServerMessage tid a u"
  by (simp_all add: call_cb_def tunnel_ucall_def onClientMessageCb_def onServerMessageCb_def onClientConnectionCb_def)

text \<open>Stopping or starting to read on one side, then changing the write-complete callback of the other.\<close>

lemma pair_reading:
  assumes pr: "pair tid a ka ca b kb cb s" and run: "f s = Inr s1" "conn_inv b (kb\<lparr>conn_reading := v\<rparr>) cb1 s1"
    "\<And>q ch fd. q \<noteq> b \<Longrightarrow> ch \<noteq> conn_channel kb \<Longrightarrow> apart q ch fd s s1"
    "netLog s1 = netLog s" "osWrite s1 = osWrite s" "threadId s1 = threadId s"
  obtains s' ca' where "bindR (f s) (set_conn a (setWriteCompleteCallback wc)) = Inr s'"
    "pair tid a (setWriteCompleteCallback wc ka) ca' b (kb\<lparr>conn_reading := v\<rparr>) cb1 s'"
    "stream (setWriteCompleteCallback wc ka) s' = stream ka s" "stream (kb\<lparr>conn_reading := v\<rparr>) s' = stream kb s"
    "conn_state_t.more s' = conn_state_t.more s" "isReading ca' = isReading ca"
proof -
  have up: "up tid a ka ca s" "up tid b kb cb s" and ne: "a \<noteq> b" "conn_channel ka \<noteq> conn_channel kb" "conn_sockfd ka \<noteq> conn_sockfd kb"
    using pr by (simp_all add: pair_def)
  have ap: "apart a (conn_channel ka) (conn_sockfd ka) s s1" by (rule run(3)) (use ne in simp_all)
  have "loop_inv s1" "os_write_ok s1" "threadId s1 = tid"
    using up run(2,5,6) by (simp_all add: up_def conn_inv_def os_write_ok_def)
  then obtain ca' where ca': "up tid a ka ca' s1" "same_but_index ca ca'" "stream ka s1 = stream ka s"
    using up_apart [OF up(1) ap] by blast
  let ?k = "setWriteCompleteCallback wc ka" let ?s = "put_conn a ?k s1"
  have "bindR (f s) (set_conn a (setWriteCompleteCallback wc)) = Inr ?s"
    using run(1) ca'(1) by (simp add: set_conn_def up_def conn_inv_def)
  moreover have "pair tid a ?k ca' b (kb\<lparr>conn_reading := v\<rparr>) cb1 ?s"
    using ca'(1) up(2) run(2) ne \<open>os_write_ok s1\<close> \<open>threadId s1 = tid\<close>
    by (simp add: pair_def up_def conn_inv_def setWriteCompleteCallback_def os_write_ok_def)
  moreover have "stream ?k ?s = stream ka s" "stream (kb\<lparr>conn_reading := v\<rparr>) ?s = stream kb s"
    using ca'(3) run(4) by (simp_all add: stream_def setWriteCompleteCallback_def)
  moreover have "isReading ca' = isReading ca" using same_but_index_simps(2) [OF ca'(2)] by (simp add: isReading_def)
  ultimately show thesis using that [of ?s ca'] ap by (simp add: apart_def)
qed

lemma pair_stop:
  assumes pr: "pair tid a ka ca b kb cb s"
  obtains s' ca' cb' where "bindR (stopRead tid b s) (set_conn a (setWriteCompleteCallback wc)) = Inr s'"
    "pair tid a (setWriteCompleteCallback wc ka) ca' b (kb\<lparr>conn_reading := False\<rparr>) cb' s'" "\<not> isReading cb'"
    "stream (setWriteCompleteCallback wc ka) s' = stream ka s" "stream (kb\<lparr>conn_reading := False\<rparr>) s' = stream kb s"
    "conn_state_t.more s' = conn_state_t.more s" "isReading ca' = isReading ca"
proof -
  have "conn_inv b kb cb s" "threadId s = tid" using pr by (simp_all add: pair_def up_def)
  then show thesis by (rule stopRead_ok) (rule pair_reading [OF pr, of "stopRead tid b"], assumption+, rule that)
qed

lemma pair_start:
  assumes pr: "pair tid a ka ca b kb cb s"
  obtains s' ca' cb' where "bindR (startRead tid b s) (set_conn a (setWriteCompleteCallback wc)) = Inr s'"
    "pair tid a (setWriteCompleteCallback wc ka) ca' b (kb\<lparr>conn_reading := True\<rparr>) cb' s'" "isReading cb'"
    "stream (setWriteCompleteCallback wc ka) s' = stream ka s" "stream (kb\<lparr>conn_reading := True\<rparr>) s' = stream kb s"
    "conn_state_t.more s' = conn_state_t.more s" "isReading ca' = isReading ca"
proof -
  have "conn_inv b kb cb s" "threadId s = tid" using pr by (simp_all add: pair_def up_def)
  then show thesis by (rule startRead_ok) (rule pair_reading [OF pr, of "startRead tid b"], assumption+, rule that)
qed

lemma startRead_more:
  assumes "up tid b kb cb s" "startRead tid b s = Inr s1"
  shows "conn_state_t.more s1 = conn_state_t.more s"
  by (rule startRead_ok [of b kb cb s tid]) (use assms in \<open>simp_all add: up_def\<close>)

lemma writeComplete_fields [simp]:
  "inputBuffer (setWriteCompleteCallback wc k) = inputBuffer k" "outputBuffer (setWriteCompleteCallback wc k) = outputBuffer k"
  "messageCallback (setWriteCompleteCallback wc k) = messageCallback k"
  "writeCompleteCallback (setWriteCompleteCallback wc k) = wc"
  by (simp_all add: setWriteCompleteCallback_def)

lemma tunnel_openD:
  assumes "tunnel_open tid p kp cp q kq cq s"
  shows "pair tid p kp cp q kq cq s" "pair tid q kq cq p kp cp s" "conns s p = Some kp" "conns s q = Some kq"
    "buffer_inv (outputBuffer kp)" "buffer_inv (outputBuffer kq)"
    "tn_serverConn s = Some p" "tn_clientConn s = Some q" "tn_context s p = Some q" "tn_alive s"
  using assms by (auto simp: tunnel_open_def pair_def up_def conn_inv_def)

lemma highWaterMark_ok:
  assumes op: "tunnel_open tid p kp cp q kq cq s"
    and out: "content (outputBuffer (if which = kServer then kp else kq)) \<noteq> []"
  obtains s1 kp1 cp1 kq1 cq1 where "onHighWaterMarkWeak tid which s = Inr s1" "tunnel_open tid p kp1 cp1 q kq1 cq1 s1"
    "isReading cp1 = (which = kServer \<and> isReading cp)" "isReading cq1 = (which = kClient \<and> isReading cq)"
    "writeCompleteCallback (if which = kServer then kp1 else kq1) = Some (side_cb which)"
    "stream kp1 s1 = stream kp s" "stream kq1 s1 = stream kq s"
proof (cases which)
  case kServer
  note d = tunnel_openD [OF op]
  obtain s1 cp1 cq1 where 1: "bindR (stopRead tid q s) (set_conn p (setWriteCompleteCallback (Some 0))) = Inr s1"
    "pair tid p (setWriteCompleteCallback (Some 0) kp) cp1 q (kq\<lparr>conn_reading := False\<rparr>) cq1 s1" "\<not> isReading cq1"
    "stream (setWriteCompleteCallback (Some 0) kp) s1 = stream kp s" "stream (kq\<lparr>conn_reading := False\<rparr>) s1 = stream kq s"
    "conn_state_t.more s1 = conn_state_t.more s" "isReading cp1 = isReading cp"
    by (rule pair_stop [OF d(1)])
  have "onHighWaterMarkWeak tid which s = Inr s1"
    using kServer d out 1(1) by (simp add: onHighWaterMarkWeak_def onHighWaterMark_def with_ptr_def del: length_content)
  with that [of s1 "setWriteCompleteCallback (Some 0) kp" cp1 "kq\<lparr>conn_reading := False\<rparr>" cq1] 1 kServer op tunnel_more [OF 1(6)]
  show thesis by (simp add: tunnel_open_def)
next
  case kClient
  note d = tunnel_openD [OF op]
  obtain s1 cq1 cp1 where 1: "bindR (stopRead tid p s) (set_conn q (setWriteCompleteCallback (Some 1))) = Inr s1"
    "pair tid q (setWriteCompleteCallback (Some 1) kq) cq1 p (kp\<lparr>conn_reading := False\<rparr>) cp1 s1" "\<not> isReading cp1"
    "stream (setWriteCompleteCallback (Some 1) kq) s1 = stream kq s" "stream (kp\<lparr>conn_reading := False\<rparr>) s1 = stream kp s"
    "conn_state_t.more s1 = conn_state_t.more s" "isReading cq1 = isReading cq"
    by (rule pair_stop [OF d(2)])
  have "onHighWaterMarkWeak tid which s = Inr s1"
    using kClient d out 1(1) by (simp add: onHighWaterMarkWeak_def onHighWaterMark_def with_ptr_def del: length_content)
  with that [of s1 "kp\<lparr>conn_reading := False\<rparr>" cp1 "setWriteCompleteCallback (Some 1) kq" cq1] 1 kClient op tunnel_more [OF 1(6)]
    1(2) [unfolded pair_sym [of tid q]]
  show thesis by (simp add: tunnel_open_def)
qed

lemma writeComplete_ok:
  assumes op: "tunnel_open tid p kp cp q kq cq s"
  obtains s1 kp1 cp1 kq1 cq1 where "onWriteCompleteWeak tid which s = Inr s1" "tunnel_open tid p kp1 cp1 q kq1 cq1 s1"
    "isReading cp1 = (which = kClient \<or> isReading cp)" "isReading cq1 = (which = kServer \<or> isReading cq)"
    "writeCompleteCallback (if which = kServer then kp1 else kq1) = None"
    "stream kp1 s1 = stream kp s" "stream kq1 s1 = stream kq s"
proof (cases which)
  case kServer
  note d = tunnel_openD [OF op]
  obtain s1 cp1 cq1 where 1: "bindR (startRead tid q s) (set_conn p (setWriteCompleteCallback None)) = Inr s1"
    "pair tid p (setWriteCompleteCallback None kp) cp1 q (kq\<lparr>conn_reading := True\<rparr>) cq1 s1" "isReading cq1"
    "stream (setWriteCompleteCallback None kp) s1 = stream kp s" "stream (kq\<lparr>conn_reading := True\<rparr>) s1 = stream kq s"
    "conn_state_t.more s1 = conn_state_t.more s" "isReading cp1 = isReading cp"
    by (rule pair_start [OF d(1)])
  from 1(1) obtain t where t: "startRead tid q s = Inr t" "set_conn p (setWriteCompleteCallback None) t = Inr s1"
    by (auto simp: res_simps)
  have "tn_serverConn t = Some p" using tunnel_more [OF startRead_more [OF _ t(1), of kq cq]] d(2,7) by (simp add: pair_def)
  then have "onWriteCompleteWeak tid which s = Inr s1"
    using kServer d t by (simp add: onWriteCompleteWeak_def onWriteComplete_def with_ptr_def)
  with that [of s1 "setWriteCompleteCallback None kp" cp1 "kq\<lparr>conn_reading := True\<rparr>" cq1] 1 kServer op tunnel_more [OF 1(6)]
  show thesis by (simp add: tunnel_open_def)
next
  case kClient
  note d = tunnel_openD [OF op]
  obtain s1 cq1 cp1 where 1: "bindR (startRead tid p s) (set_conn q (setWriteCompleteCallback None)) = Inr s1"
    "pair tid q (setWriteCompleteCallback None kq) cq1 p (kp\<lparr>conn_reading := True\<rparr>) cp1 s1" "isReading cp1"
    "stream (setWriteCompleteCallback None kq) s1 = stream kq s" "stream (kp\<lparr>conn_reading := True\<rparr>) s1 = stream kp s"
    "conn_state_t.more s1 = conn_state_t.more s" "isReading cq1 = isReading cq"
    by (rule pair_start [OF d(2)])
  from 1(1) obtain t where t: "startRead tid p s = Inr t" "set_conn q (setWriteCompleteCallback None) t = Inr s1"
    by (auto simp: res_simps)
  have "tn_clientConn t = Some q" using tunnel_more [OF startRead_more [OF _ t(1), of kp cp]] d(1,8) by (simp add: pair_def)
  then have "onWriteCompleteWeak tid which s = Inr s1"
    using kClient d t by (simp add: onWriteCompleteWeak_def onWriteComplete_def with_ptr_def)
  with that [of s1 "kp\<lparr>conn_reading := True\<rparr>" cp1 "setWriteCompleteCallback None kq" cq1] 1 kClient op tunnel_more [OF 1(6)]
    1(2) [unfolded pair_sym [of tid q]]
  show thesis by (simp add: tunnel_open_def)
qed

text \<open>Opening the tunnel: the steps of \<open>onClientConnection\<close> before the early data are passed on.\<close>

lemma pair_startRead:
  assumes pr: "pair tid a ka ca b kb cb s"
  obtains s' ca' cb' where "startRead tid a s = Inr s'" "pair tid a (ka\<lparr>conn_reading := True\<rparr>) ca' b kb cb' s'" "isReading ca'"
    "stream (ka\<lparr>conn_reading := True\<rparr>) s' = stream ka s" "stream kb s' = stream kb s"
    "conn_state_t.more s' = conn_state_t.more s" "netLog s' = netLog s"
proof -
  have up: "up tid a ka ca s" "up tid b kb cb s" and ne: "a \<noteq> b" "conn_channel ka \<noteq> conn_channel kb" "conn_sockfd ka \<noteq> conn_sockfd kb"
    using pr by (simp_all add: pair_def)
  then have "conn_inv a ka ca s" "threadId s = tid" by (simp_all add: up_def)
  then obtain s' ca' where s': "startRead tid a s = Inr s'" "conn_inv a (ka\<lparr>conn_reading := True\<rparr>) ca' s'" "isReading ca'"
    "\<And>q ch fd. q \<noteq> a \<Longrightarrow> ch \<noteq> conn_channel ka \<Longrightarrow> apart q ch fd s s'"
    "netLog s' = netLog s" "osWrite s' = osWrite s" "threadId s' = threadId s" "conn_state_t.more s' = conn_state_t.more s"
    by (rule startRead_ok) blast
  have "apart b (conn_channel kb) (conn_sockfd kb) s s'" by (rule s'(4)) (use ne in simp_all)
  moreover have ok: "loop_inv s'" "os_write_ok s'" "threadId s' = tid"
    using up s'(2,6,7) by (simp_all add: up_def conn_inv_def os_write_ok_def)
  ultimately obtain cb' where cb': "up tid b kb cb' s'" "stream kb s' = stream kb s"
    using up_apart [OF up(2)] by blast
  have "pair tid a (ka\<lparr>conn_reading := True\<rparr>) ca' b kb cb' s'"
    using s'(2) ok up(1) cb'(1) ne by (simp add: pair_def up_def)
  moreover have "stream (ka\<lparr>conn_reading := True\<rparr>) s' = stream ka s" using s'(5) by (simp add: stream_def)
  ultimately show thesis using that s'(1,3,5,8) cb'(2) by blast
qed

lemma onClientConnection_steps:
  assumes pr: "pair tid p kp cp q kq cq s" and sv: "tn_serverConn s = Some p"
  obtains s4 cp' cq' where
    "onClientConnection tid q s =
       (if 0 < readableBytes (inputBuffer kp) then forward tid p q s4 else Inr s4)"
    "pair tid p (kp\<lparr>conn_reading := True\<rparr>) cp' q (setHighWaterMarkCallback (Some 1) tunnelHighWaterMark kq) cq' s4"
    "isReading cp'" "stream (kp\<lparr>conn_reading := True\<rparr>) s4 = stream kp s"
    "stream (setHighWaterMarkCallback (Some 1) tunnelHighWaterMark kq) s4 = stream kq s"
    "tn_serverConn s4 = Some p" "tn_clientConn s4 = Some q" "tn_context s4 p = Some q" "tn_alive s4 = tn_alive s"
proof -
  let ?kq = "setHighWaterMarkCallback (Some 1) tunnelHighWaterMark kq"
  let ?s1 = "net (NetNoDelay (conn_sockfd kq) True) s" let ?s2 = "put_conn q ?kq ?s1"
  let ?t = "?s2\<lparr>tn_context := (tn_context ?s2)(p \<mapsto> q)\<rparr>"
  have same: "loop_inv ?t = loop_inv s" "ep_registered ch ?t = ep_registered ch s" for ch
    by (rule loop_inv_cong; simp add: put_conn_def net_def)+
  have up: "conns s p = Some kp" "conns s q = Some kq" "conn_state kq = kConnected"
    using pr by (simp_all add: pair_def up_def conn_inv_def)
  have pr': "pair tid p kp cp q ?kq cq ?t"
    using pr same by (simp add: pair_def up_def conn_inv_def os_write_ok_def setHighWaterMarkCallback_def)
  obtain s3 cp' cq' where s3: "startRead tid p ?t = Inr s3" "pair tid p (kp\<lparr>conn_reading := True\<rparr>) cp' q ?kq cq' s3" "isReading cp'"
    "stream (kp\<lparr>conn_reading := True\<rparr>) s3 = stream kp ?t" "stream ?kq s3 = stream ?kq ?t"
    "conn_state_t.more s3 = conn_state_t.more ?t" "netLog s3 = netLog ?t"
    by (rule pair_startRead [OF pr'])
  let ?s4 = "s3\<lparr>tn_clientConn := Some q\<rparr>"
  note m = tunnel_more [OF s3(6)]
  have same4: "loop_inv ?s4 = loop_inv s3" "ep_registered ch ?s4 = ep_registered ch s3" for ch
    by (rule loop_inv_cong; simp)+
  have pr4: "pair tid p (kp\<lparr>conn_reading := True\<rparr>) cp' q ?kq cq' ?s4"
    using s3(2) same4 by (simp add: pair_def up_def conn_inv_def os_write_ok_def)
  have ptr: "tn_serverConn ?s2 = Some p" using sv by (simp add: put_conn_def net_def)
  have k4: "conns s3 p = Some (kp\<lparr>conn_reading := True\<rparr>)" using s3(2) by (simp add: pair_def up_def conn_inv_def)
  have "onClientConnection tid q s =
      bindR (startRead tid p ?t) (\<lambda>s3. let s4 = s3\<lparr>tn_clientConn := Some q\<rparr> in
        with_conn p s4 (\<lambda>k4. if 0 < readableBytes (inputBuffer k4) then forward tid p q s4 else Inr s4))"
    using up ptr by (simp add: onClientConnection_def TcpConnection_setTcpNoDelay_def Socket_setTcpNoDelay_def connected_def
        set_conn_def with_ptr_def net_def)
  then have "onClientConnection tid q s = (if 0 < readableBytes (inputBuffer kp) then forward tid p q ?s4 else Inr ?s4)"
    using s3(1) k4 by (simp add: with_conn_def)
  moreover have "stream kp ?t = stream kp s" "stream ?kq ?t = stream kq s"
    by (simp_all add: stream_def put_conn_def net_def setHighWaterMarkCallback_def)
  moreover have "stream k ?s4 = stream k s3" for k by (simp add: stream_def)
  moreover have "tn_serverConn ?s4 = Some p" "tn_context ?s4 p = Some q" "tn_alive ?s4 = tn_alive s"
    using m sv by (simp_all add: put_conn_def net_def)
  ultimately show thesis using that [of ?s4 cp' cq'] pr4 s3(3,4,5) by simp
qed

subsection \<open>Properties\<close>

text \<open>
  C18: An open tunnel relays: bytes that arrive on either connection leave its input buffer at once and join, after
  what was already waiting there, the bytes of the other connection; nothing else is sent, and the tunnel stays
  open.
\<close>

theorem tunnel_relays:
  assumes "tunnel_open tid p kp cp q kq cq s"
    and "ka = (if which = kServer then kp else kq)" "kb = (if which = kServer then kq else kp)"
    and "length (storage (inputBuffer ka)) + extrabufSize \<le> VEC_MAX"
    and "osRead s (osCalls s) (conn_sockfd ka) = ReadvGot bytes" "bytes \<noteq> []"
    and "length bytes \<le> writableBytes (inputBuffer ka) + extrabufSize"
    and "writerIndex (outputBuffer kb) + length (content (inputBuffer ka)) + length bytes \<le> VEC_MAX"
  shows "\<exists>s' kp' cp' kq' cq'.
    TcpConnection_handleRead (tunnel_ucall tid) t (if which = kServer then p else q) s = Inr s' \<and>
    tunnel_open tid p kp' cp' q kq' cq' s' \<and>
    stream kp' s' = stream kp s @ (if which = kServer then [] else content (inputBuffer kq) @ bytes) \<and>
    stream kq' s' = stream kq s @ (if which = kServer then content (inputBuffer kp) @ bytes else []) \<and>
    content (inputBuffer (if which = kServer then kp' else kq')) = []"
proof -
  have op: "pair tid p kp cp q kq cq s" "buffer_inv (inputBuffer kp)" "buffer_inv (inputBuffer kq)"
    "messageCallback kp = Some onServerMessageCb" "messageCallback kq = Some onClientMessageCb"
    "tn_serverConn s = Some p" "tn_context s p = Some q"
    using assms(1) by (simp_all add: tunnel_open_def)
  show ?thesis
  proof (cases which)
    case kServer
    then have k: "ka = kp" "kb = kq" using assms(2,3) by simp_all
    have call: "call_cb (tunnel_ucall tid) (messageCallback kp) p t u = forward tid p q u"
      if "conn_state_t.more u = conn_state_t.more s" for u
      using op(4,7) tunnel_more [OF that] by (simp add: call_tunnel onServerMessage_def)
    obtain s' kp' cp' kq' cq' where "TcpConnection_handleRead (tunnel_ucall tid) t p s = Inr s'"
      "pair tid p kp' cp' q kq' cq' s'" "stream kq' s' = stream kq s @ content (inputBuffer kp) @ bytes"
      "stream kp' s' = stream kp s" "content (inputBuffer kp') = []" "buffer_inv (inputBuffer kp')"
      "inputBuffer kq' = inputBuffer kq" "messageCallback kp' = messageCallback kp" "messageCallback kq' = messageCallback kq"
      "conn_state_t.more s' = conn_state_t.more s"
      by (rule relay_step [OF op(1,2) _ _ assms(6) _ call]) (use assms(4,5,7,8) k in simp_all)
    with kServer assms(1) tunnel_more [of s' s] show ?thesis
      by (intro exI [of _ s'] exI [of _ kp'] exI [of _ cp'] exI [of _ kq'] exI [of _ cq']) (simp add: tunnel_open_def)
  next
    case kClient
    then have k: "ka = kq" "kb = kp" using assms(2,3) by simp_all
    have call: "call_cb (tunnel_ucall tid) (messageCallback kq) q t u = forward tid q p u"
      if "conn_state_t.more u = conn_state_t.more s" for u
      using op(5,6) tunnel_more [OF that] by (simp add: call_tunnel onClientMessage_def)
    obtain s' kq' cq' kp' cp' where s': "TcpConnection_handleRead (tunnel_ucall tid) t q s = Inr s'"
      "pair tid q kq' cq' p kp' cp' s'" "stream kp' s' = stream kp s @ content (inputBuffer kq) @ bytes"
      "stream kq' s' = stream kq s" "content (inputBuffer kq') = []" "buffer_inv (inputBuffer kq')"
      "inputBuffer kp' = inputBuffer kp" "messageCallback kq' = messageCallback kq" "messageCallback kp' = messageCallback kp"
      "conn_state_t.more s' = conn_state_t.more s"
      by (rule relay_step [OF op(1) [unfolded pair_sym [of tid p]] op(3) _ _ assms(6) _ call]) (use assms(4,5,7,8) k in simp_all)
    with kClient assms(1) tunnel_more [of s' s] s'(2) [unfolded pair_sym [of tid q]] show ?thesis
      by (intro exI [of _ s'] exI [of _ kp'] exI [of _ cp'] exI [of _ kq'] exI [of _ cq']) (simp add: tunnel_open_def)
  qed
qed

text \<open>
  C37: Flow control of a tunnel: when the output of one side passes the mark and is still waiting, exactly the
  other side's channel stops watching for readability and the write-complete callback is set; when that callback
  runs, the other side is read again and the callback is removed.  Neither step loses or adds a byte, and the
  tunnel stays open.
\<close>

theorem tunnel_backpressure:
  assumes "tunnel_open tid p kp cp q kq cq s" and "content (outputBuffer (if which = kServer then kp else kq)) \<noteq> []"
  shows "\<exists>s1 kp1 cp1 kq1 cq1 s2 kp2 cp2 kq2 cq2.
    onHighWaterMarkWeak tid which s = Inr s1 \<and> tunnel_open tid p kp1 cp1 q kq1 cq1 s1 \<and>
    isReading cp1 = (which = kServer \<and> isReading cp) \<and> isReading cq1 = (which = kClient \<and> isReading cq) \<and>
    writeCompleteCallback (if which = kServer then kp1 else kq1) = Some (side_cb which) \<and>
    stream kp1 s1 = stream kp s \<and> stream kq1 s1 = stream kq s \<and>
    onWriteCompleteWeak tid which s1 = Inr s2 \<and> tunnel_open tid p kp2 cp2 q kq2 cq2 s2 \<and>
    isReading (if which = kServer then cq2 else cp2) \<and>
    isReading (if which = kServer then cp2 else cq2) = isReading (if which = kServer then cp else cq) \<and>
    writeCompleteCallback (if which = kServer then kp2 else kq2) = None \<and>
    stream kp2 s2 = stream kp s \<and> stream kq2 s2 = stream kq s"
proof -
  obtain s1 kp1 cp1 kq1 cq1 where 1: "onHighWaterMarkWeak tid which s = Inr s1" "tunnel_open tid p kp1 cp1 q kq1 cq1 s1"
    "isReading cp1 = (which = kServer \<and> isReading cp)" "isReading cq1 = (which = kClient \<and> isReading cq)"
    "writeCompleteCallback (if which = kServer then kp1 else kq1) = Some (side_cb which)"
    "stream kp1 s1 = stream kp s" "stream kq1 s1 = stream kq s"
    by (rule highWaterMark_ok [OF assms])
  obtain s2 kp2 cp2 kq2 cq2 where 2: "onWriteCompleteWeak tid which s1 = Inr s2" "tunnel_open tid p kp2 cp2 q kq2 cq2 s2"
    "isReading cp2 = (which = kClient \<or> isReading cp1)" "isReading cq2 = (which = kServer \<or> isReading cq1)"
    "writeCompleteCallback (if which = kServer then kp2 else kq2) = None"
    "stream kp2 s2 = stream kp1 s1" "stream kq2 s2 = stream kq1 s1"
    by (rule writeComplete_ok [OF 1(2)])
  have "isReading (if which = kServer then cq2 else cp2) \<and>
      isReading (if which = kServer then cp2 else cq2) = isReading (if which = kServer then cp else cq)"
    using 1(3,4) 2(3,4) by (cases which) simp_all
  moreover have "stream kp2 s2 = stream kp s" "stream kq2 s2 = stream kq s" using 1(6,7) 2(6,7) by simp_all
  ultimately show ?thesis using 1 2(1,2,5) by blast
qed

text \<open>
  Opening: when the client's connection is up, the tunnel is open, the server's connection is read, both sides
  have their high-water marks, and what the server's connection had received before, and nothing else, has joined
  the bytes of the client's connection.
\<close>

theorem tunnel_opens:
  assumes "pair tid p kp cp q kq cq s" and "buffer_inv (inputBuffer kp)" "buffer_inv (inputBuffer kq)"
    and "messageCallback kp = Some onServerMessageCb" "messageCallback kq = Some onClientMessageCb"
    and "tn_serverConn s = Some p" "tn_alive s"
    and "writerIndex (outputBuffer kq) + length (content (inputBuffer kp)) \<le> VEC_MAX"
  shows "\<exists>s' kp' cp' kq' cq'. onClientConnection tid q s = Inr s' \<and> tunnel_open tid p kp' cp' q kq' cq' s' \<and> conn_reading kp' \<and>
    highWaterMark kq' = 1024 * 1024 \<and> highWaterMarkCallback kq' = Some (side_cb kClient) \<and>
    stream kq' s' = stream kq s @ content (inputBuffer kp) \<and> stream kp' s' = stream kp s \<and> content (inputBuffer kp') = []"
proof -
  let ?kp = "kp\<lparr>conn_reading := True\<rparr>" let ?kq = "setHighWaterMarkCallback (Some 1) tunnelHighWaterMark kq"
  obtain s4 cp4 cq4 where 4: "onClientConnection tid q s = (if 0 < readableBytes (inputBuffer kp) then forward tid p q s4 else Inr s4)"
    "pair tid p ?kp cp4 q ?kq cq4 s4" "isReading cp4" "stream ?kp s4 = stream kp s" "stream ?kq s4 = stream kq s"
    "tn_serverConn s4 = Some p" "tn_clientConn s4 = Some q" "tn_context s4 p = Some q" "tn_alive s4 = tn_alive s"
    by (rule onClientConnection_steps [OF assms(1,6)])
  note hw = setHighWaterMarkCallback_def tunnelHighWaterMark_def
  show ?thesis
  proof (cases "content (inputBuffer kp) = []")
    case True
    with 4(1) assms(2) have "onClientConnection tid q s = Inr s4" by (simp del: length_content)
    with True 4 assms show ?thesis
      by (intro exI [of _ s4] exI [of _ ?kp] exI [of _ cp4] exI [of _ ?kq] exI [of _ cq4]) (simp add: tunnel_open_def hw)
  next
    case False
    have "buffer_inv (inputBuffer ?kp)" "writerIndex (outputBuffer ?kq) + length (content (inputBuffer ?kp)) \<le> VEC_MAX"
      using assms(2,8) by (simp_all add: hw del: length_content)
    from forward_ok [OF 4(2) this] obtain s' kq' cp' cq' b where f: "forward tid p q s4 = Inr s'"
      "pair tid p (?kp\<lparr>inputBuffer := b\<rparr>) cp' q kq' cq' s'" "buffer_inv b" "content b = []" "conn_same ?kq kq'"
      "stream kq' s' = stream ?kq s4 @ content (inputBuffer ?kp)" "stream (?kp\<lparr>inputBuffer := b\<rparr>) s' = stream ?kp s4"
      "conn_state_t.more s' = conn_state_t.more s4" .
    have "onClientConnection tid q s = Inr s'" using 4(1) f(1) False assms(2) by (simp del: length_content)
    moreover have "inputBuffer kq' = inputBuffer kq" "messageCallback kq' = messageCallback kq" "highWaterMark kq' = 1024 * 1024"
        "highWaterMarkCallback kq' = Some 1"
      using f(5) by (cases kq; cases kq'; simp add: conn_same_def hw)+
    ultimately show ?thesis using f 4 assms tunnel_more [OF f(8)]
      by (intro exI [of _ s'] exI [of _ "?kp\<lparr>inputBuffer := b\<rparr>"] exI [of _ cp'] exI [of _ kq'] exI [of _ cq'])
        (simp add: tunnel_open_def)
  qed
qed

subsection \<open>Witnesses\<close>

text \<open>A tunnel whose server side has \<open>out\<close> waiting.\<close>

definition td_chan :: "int \<Rightarrow> 32 word \<Rightarrow> channel" where
  "td_chan fd ev = (Channel_new 0 fd False)\<lparr>ch_events := ev, ch_index := kAdded\<rparr>"

definition td_server :: "buffer \<Rightarrow> connection" where
  "td_server out = (cn_demo_conn kConnected out)\<lparr>messageCallback := Some onServerMessageCb\<rparr>"

definition td_client :: connection where
  "td_client = (cn_demo_conn kConnected Buffer_new)\<lparr>conn_sockfd := 8, conn_channel := 2,
     messageCallback := Some onClientMessageCb, connectionCallback := Some onClientConnectionCb\<rparr>"

definition td_demo :: "32 word \<Rightarrow> buffer \<Rightarrow> tunnel_state" where
  "td_demo ev out = client_state.extend
     (tc_demo\<lparr>chans := [1 \<mapsto> td_chan 7 ev, 2 \<mapsto> td_chan 8 kReadEvent], channelMap := [7 \<mapsto> 1, 8 \<mapsto> 2],
        ctlLog := [(EPOLL_CTL_ADD, 7, ev, 1), (EPOLL_CTL_ADD, 8, kReadEvent, 2)],
        conns := [1 \<mapsto> td_server out, 2 \<mapsto> td_client]\<rparr>)
     \<lparr>tn_serverConn = Some 1, tn_clientConn = Some 2, tn_context = [1 \<mapsto> 2], tn_alive = True\<rparr>"

lemmas td_demo_defs = td_demo_def client_state.defs tc_demo_defs td_chan_def td_server_def td_client_def

lemma td_demo_loop: "loop_inv (td_demo ev out)"
proof -
  have "epoll_inv (td_demo ev out)"
    unfolding epoll_inv_def
    by (auto simp: td_demo_defs epoll_chan_ok_def interest_def ctl_legal_def index_consts split: if_splits)
  then show ?thesis by (auto simp: loop_inv_def own_chans_def td_demo_defs split: if_splits)
qed

lemma td_demo_open:
  assumes "buffer_inv out" "ev AND kWriteEvent \<noteq> 0 \<longleftrightarrow> content out \<noteq> []"
  shows "tunnel_open 1 1 (td_server out) (td_chan 7 ev) 2 td_client (td_chan 8 kReadEvent) (td_demo ev out)"
proof -
  have "ep_registered 1 (td_demo ev out)" "ep_registered 2 (td_demo ev out)"
    by (auto simp: ep_registered_def td_demo_defs intro: exI [of _ 8])
  moreover have "isWriting (td_chan 7 ev) \<longleftrightarrow> content out \<noteq> []" "\<not> isWriting (td_chan 8 kReadEvent)"
    using assms(2) by (simp_all add: isWriting_def td_chan_def masks_disjoint)
  moreover have "os_write_ok (td_demo ev out)" by (simp add: os_write_ok_def td_demo_defs)
  ultimately show ?thesis
    using assms(1) td_demo_loop [of ev out] buffer_inv_new
    by (simp add: tunnel_open_def pair_def up_def conn_inv_def td_demo_defs)
qed

theorem tunnel_relays_witness:
  "\<exists>s' kp' kq'. TcpConnection_handleRead (tunnel_ucall 1) 0 1 (td_demo kReadEvent Buffer_new) = Inr s' \<and>
    conns s' 1 = Some kp' \<and> conns s' 2 = Some kq' \<and> content (inputBuffer kp') = [] \<and> stream kq' s' = ''hi''"
proof -
  let ?s = "td_demo kReadEvent Buffer_new" let ?kp = "td_server Buffer_new"
  have op: "tunnel_open 1 1 ?kp (td_chan 7 kReadEvent) 2 td_client (td_chan 8 kReadEvent) ?s"
    by (rule td_demo_open) (simp_all add: buffer_inv_new masks_disjoint)
  have f: "length (storage (inputBuffer ?kp)) + extrabufSize \<le> VEC_MAX"
    "osRead ?s (osCalls ?s) (conn_sockfd ?kp) = ReadvGot ''hi''" "''hi'' \<noteq> []"
    "length ''hi'' \<le> writableBytes (inputBuffer ?kp) + extrabufSize"
    "writerIndex (outputBuffer td_client) + length (content (inputBuffer ?kp)) + length ''hi'' \<le> VEC_MAX"
    by (simp_all add: td_demo_defs extrabufSize_def)
  have st: "stream td_client ?s = []" "content (inputBuffer ?kp) = []" by (simp_all add: stream_def td_demo_defs)
  from tunnel_relays [OF op, of ?kp kServer td_client "''hi''" 0] f st obtain s' kp' cp' kq' cq' where s':
    "TcpConnection_handleRead (tunnel_ucall 1) 0 1 ?s = Inr s'" "tunnel_open 1 1 kp' cp' 2 kq' cq' s'"
    "stream kq' s' = ''hi''" "content (inputBuffer kp') = []" by auto
  with tunnel_openD(3,4) [OF s'(2)] show ?thesis by blast
qed

theorem tunnel_backpressure_witness:
  "\<exists>out s1 s2 kp1 cp1 kq1 cq1. content out = ''ab'' \<and>
    onHighWaterMarkWeak 1 kServer (td_demo (kReadEvent OR kWriteEvent) out) = Inr s1 \<and>
    tunnel_open 1 1 kp1 cp1 2 kq1 cq1 s1 \<and> isReading cp1 \<and> \<not> isReading cq1 \<and> onWriteCompleteWeak 1 kServer s1 = Inr s2"
proof -
  obtain out where out: "buffer_inv out" "content out = ''ab''" by (rule buffer_with [of "''ab''"]) simp_all
  let ?ev = "kReadEvent OR kWriteEvent"
  have op: "tunnel_open 1 1 (td_server out) (td_chan 7 ?ev) 2 td_client (td_chan 8 kReadEvent) (td_demo ?ev out)"
    by (rule td_demo_open) (simp_all add: out masks_disjoint)
  have "isReading (td_chan 7 ?ev)" using mask_bits masks_disjoint by (simp add: isReading_def td_chan_def word_bw_comms)
  moreover have "content (outputBuffer (if kServer = kServer then td_server out else td_client)) \<noteq> []"
    using out by (simp add: td_server_def cn_demo_conn_def)
  ultimately show ?thesis using tunnel_backpressure [OF op, of kServer] out(2) by (simp del: length_content) blast
qed

theorem tunnel_opens_witness:
  "\<exists>b s' kp' cp' kq' cq'. content b = ''early'' \<and>
    onClientConnection 1 2 (put_conn 1 ((td_server Buffer_new)\<lparr>inputBuffer := b\<rparr>) (td_demo kReadEvent Buffer_new)) = Inr s' \<and>
    tunnel_open 1 1 kp' cp' 2 kq' cq' s' \<and> stream kq' s' = ''early''"
proof -
  obtain b where b: "buffer_inv b" "content b = ''early''" by (rule buffer_with [of "''early''"]) simp_all
  let ?s = "td_demo kReadEvent Buffer_new" let ?kp = "(td_server Buffer_new)\<lparr>inputBuffer := b\<rparr>"
  have op: "tunnel_open 1 1 (td_server Buffer_new) (td_chan 7 kReadEvent) 2 td_client (td_chan 8 kReadEvent) ?s"
    by (rule td_demo_open) (simp_all add: buffer_inv_new masks_disjoint)
  have pr: "pair 1 1 ?kp (td_chan 7 kReadEvent) 2 td_client (td_chan 8 kReadEvent) (put_conn 1 ?kp ?s)"
    using tunnel_openD(1) [OF op] by (simp add: pair_def up_def conn_inv_def os_write_ok_def)
  have f: "buffer_inv (inputBuffer ?kp)" "buffer_inv (inputBuffer td_client)" "messageCallback ?kp = Some onServerMessageCb"
    "messageCallback td_client = Some onClientMessageCb" "tn_serverConn (put_conn 1 ?kp ?s) = Some 1" "tn_alive (put_conn 1 ?kp ?s)"
    "writerIndex (outputBuffer td_client) + length (content (inputBuffer ?kp)) \<le> VEC_MAX"
    using b by (simp_all add: put_conn_def td_demo_defs buffer_inv_new del: length_content)
  have st: "stream td_client (put_conn 1 ?kp ?s) = []" by (simp add: stream_def td_demo_defs)
  from tunnel_opens [OF pr f] obtain s' kp' cp' kq' cq' where "onClientConnection 1 2 (put_conn 1 ?kp ?s) = Inr s'"
    "tunnel_open 1 1 kp' cp' 2 kq' cq' s'" "stream kq' s' = stream td_client (put_conn 1 ?kp ?s) @ content (inputBuffer ?kp)"
    by blast
  with b(2) st show ?thesis
    by (intro exI [of _ b] exI [of _ s'] exI [of _ kp'] exI [of _ cp'] exI [of _ kq'] exI [of _ cq']) simp
qed

end
