(* ===== verification/Socks.thy ===== *)
theory Socks
  imports Tunnel
begin

section \<open>The SOCKS4a server and the relay\<close>

text \<open>
  \<open>examples/socks4a/socks4a.cpp\<close> and \<open>tcprelay.cpp\<close>: servers that open a tunnel for each of their
  connections.  The tunnel objects are kept in \<open>tunnelObjs\<close> under the names of their connections, which are unique;
  \<open>g_tunnels\<close> are the names that the global map holds.  A tunnel object is what \<open>tunnel_state\<close> adds to the state of the
  loop; \<open>blank\<close> is a new one before its constructor runs, with the results of its system calls.
\<close>

type_synonym tunnel_obj = "unit tunnel_state_ext client_state_ext connector_state_ext"

record socks_state = conn_state_t +
  tunnelObjs :: "string \<Rightarrow> tunnel_obj option"
  g_tunnels :: "string set"

text \<open>An operation of a tunnel object in the loop of the server.\<close>

definition on_tunnel_obj :: "string \<Rightarrow> tunnel_obj \<Rightarrow> (tunnel_state \<Rightarrow> tunnel_state res) \<Rightarrow> socks_state \<Rightarrow> socks_state res" where
  "on_tunnel_obj name obj f s =
     bindR (f (conn_state_t.extend (conn_state_t.truncate s) obj)) (\<lambda>t.
       Inr ((conn_state_t.extend (conn_state_t.truncate t) (conn_state_t.more s))
         \<lparr>tunnelObjs := (tunnelObjs s)(name \<mapsto> conn_state_t.more t)\<rparr>))"

definition on_tunnel where
  "on_tunnel name f s =
     (case tunnelObjs s name of None \<Rightarrow> Inl DanglingPointer | Some obj \<Rightarrow> on_tunnel_obj name obj f s)"

text \<open>\<open>std::make_shared<Tunnel>\<close>, \<open>setup()\<close>, \<open>connect()\<close> and the entry in the map.\<close>

definition open_tunnel where
  "open_tunnel tid blank dest p s =
     with_conn p s (\<lambda>k.
     bindR (on_tunnel_obj (conn_name k) blank (Tunnel_new dest p) s) (\<lambda>s1.
     bindR (on_tunnel (conn_name k) Tunnel_setup s1) (\<lambda>s2.
     bindR (on_tunnel (conn_name k) (Tunnel_connect tid) s2) (\<lambda>s3.
       Inr (s3\<lparr>g_tunnels := insert (conn_name k) (g_tunnels s3)\<rparr>)))))"

text \<open>The connection callback of the SOCKS server, and that of the relay, whose tunnels go to one host.\<close>

definition socks_onServerConnection where
  "socks_onServerConnection tid p s =
     with_conn p s (\<lambda>k.
       if connected k then TcpConnection_setTcpNoDelay p True s
       else if conn_name k \<in> g_tunnels s then
         bindR (on_tunnel (conn_name k) (Tunnel_disconnect tid) s) (\<lambda>s1.
           Inr (s1\<lparr>g_tunnels := g_tunnels s1 - {conn_name k}\<rparr>))
       else Inr s)"

definition relay_onServerConnection where
  "relay_onServerConnection tid blank dest p s =
     with_conn p s (\<lambda>k.
       if connected k then
         bindR (TcpConnection_setTcpNoDelay p True s) (\<lambda>s1.
         bindR (stopRead tid p s1) (open_tunnel tid blank dest p))
       else
         check (conn_name k \<in> g_tunnels s) ''g_tunnels.find(conn->name()) != g_tunnels.end()''
           (bindR (on_tunnel (conn_name k) (Tunnel_disconnect tid) s) (\<lambda>s1.
             Inr (s1\<lparr>g_tunnels := g_tunnels s1 - {conn_name k}\<rparr>))))"

subsection \<open>The request\<close>

text \<open>
  What the readable bytes ask for: nothing yet, a connection to an address (with the number of bytes of the request),
  or something that is refused.  \<open>resolve\<close> is what \<open>gethostbyname_r\<close> answers for a name.
\<close>

abbreviation NUL :: char where
  "NUL \<equiv> CHR 0x00"

datatype socks_request = Wait | Refuse | Open sockaddr_in nat

definition socks_addr :: "bool \<Rightarrow> string \<Rightarrow> sockaddr_in" where
  "socks_addr le bytes =
     zero_addr\<lparr>sin_family := AF_INET, sin_port := of_mem le (take 2 (drop 2 bytes)), s_addr := of_mem le (take 4 (drop 4 bytes))\<rparr>"

definition socks_request :: "bool \<Rightarrow> (string \<Rightarrow> int \<times> hostent option) \<Rightarrow> string \<Rightarrow> socks_request res" where
  "socks_request le resolve bytes =
     (let whr = 8 + find_char NUL (drop 8 bytes) in
      if whr \<noteq> length bytes then
        (let ver = bytes ! 0; cmd = bytes ! 1; addr = socks_addr le bytes;
             answer = (\<lambda>okay addr whr. if ver = CHR 0x04 \<and> cmd = CHR 0x01 \<and> okay then Open addr (whr + 1) else Refuse) in
         if networkToHost32 le (s_addr addr) < 256 then
           (let endOfHostName = whr + 1 + find_char NUL (drop (whr + 1) bytes) in
            if endOfHostName \<noteq> length bytes then
              (let hostname = take (endOfHostName - (whr + 1)) (drop (whr + 1) bytes) in
               bindR (InetAddress_resolve (resolve hostname) (InetAddress_port le 0)) (\<lambda>(found, tmp).
               if found then bindR (ipv4NetEndian tmp) (\<lambda>ip. Inr (answer True (addr\<lparr>s_addr := ip\<rparr>) endOfHostName))
               else Inr (answer False addr endOfHostName)))
            else Inr Wait)
         else Inr (answer True addr whr))
      else Inr Wait)"

definition socks_granted :: "bool \<Rightarrow> sockaddr_in \<Rightarrow> string" where
  "socks_granted le addr = [NUL, CHR 0x5A] @ to_mem le 2 (sin_port addr) @ to_mem le 4 (s_addr addr)"

definition socks_refused :: string where
  "socks_refused = [NUL, CHR 0x5B] @ ''UVWXYZ''"

definition socks_onServerMessage where
  "socks_onServerMessage le resolve tid blank p s =
     with_conn p s (\<lambda>k. let buf = inputBuffer k in
       if conn_name k \<notin> g_tunnels s then
         if 128 < readableBytes buf then TcpConnection_shutdown tid p s
         else if 8 < readableBytes buf then
           bindR (read_at (peek buf) (readableBytes buf) (storage buf)) (\<lambda>bytes.
           bindR (socks_request le resolve bytes) (\<lambda>req.
             case req of
               Wait \<Rightarrow> Inr s
             | Open addr n \<Rightarrow>
                 bindR (open_tunnel tid blank addr p s) (\<lambda>s1. with_conn p s1 (\<lambda>k1.
                 bindR (retrieveUntil (peek buf + n) (inputBuffer k1)) (\<lambda>buf1.
                   TcpConnection_send tid p (socks_granted le addr) (put_conn p (k1\<lparr>inputBuffer := buf1\<rparr>) s1))))
             | Refuse \<Rightarrow>
                 bindR (TcpConnection_send tid p socks_refused s) (\<lambda>s1. TcpConnection_shutdown tid p s1)))
         else Inr s
       else on_tunnel (conn_name k) (onServerMessage tid p) s)"

subsection \<open>What is understood\<close>

text \<open>A request up to the user's name, and one with a host name behind it.\<close>

definition socks4_text :: "char \<Rightarrow> char \<Rightarrow> string \<Rightarrow> string \<Rightarrow> string \<Rightarrow> string" where
  "socks4_text ver cmd pb ib user = [ver, cmd] @ pb @ ib @ user @ [NUL]"

lemma socks4_text_shape:
  assumes "length pb = 2" "length ib = 4" "NUL \<notin> set user"
  shows "8 + find_char NUL (drop 8 (socks4_text ver cmd pb ib user @ rest)) = 8 + length user"
    "drop (9 + length user) (socks4_text ver cmd pb ib user @ rest) = rest"
    "length (socks4_text ver cmd pb ib user) = 9 + length user"
    "(socks4_text ver cmd pb ib user @ rest) ! 0 = ver" "(socks4_text ver cmd pb ib user @ rest) ! 1 = cmd"
    "socks_addr le (socks4_text ver cmd pb ib user @ rest) = \<lparr>sin_family = AF_INET, sin_port = of_mem le pb, s_addr = of_mem le ib\<rparr>"
proof -
  obtain p1 p2 where p: "pb = [p1, p2]" using assms(1) by (auto simp: length_Suc_conv numeral_2_eq_2)
  obtain i1 i2 i3 i4 where i: "ib = [i1, i2, i3, i4]" using assms(2) by (auto simp: length_Suc_conv eval_nat_numeral)
  have eight: "drop 8 (socks4_text ver cmd pb ib user @ rest) = user @ NUL # rest" by (simp add: socks4_text_def p i)
  then show "8 + find_char NUL (drop 8 (socks4_text ver cmd pb ib user @ rest)) = 8 + length user"
    by (simp add: find_char_append [OF assms(3)])
  have "drop (9 + length user) (socks4_text ver cmd pb ib user @ rest) =
      drop (Suc (length user)) (drop 8 (socks4_text ver cmd pb ib user @ rest))" by (simp only: drop_drop) simp
  then show "drop (9 + length user) (socks4_text ver cmd pb ib user @ rest) = rest" unfolding eight by simp
qed (simp_all add: socks4_text_def assms socks_addr_def zero_addr_def)

lemma ipv4_fresh: "ipv4NetEndian ((InetAddress_port le 0)\<lparr>s_addr := a\<rparr>) = Inr a"
  by (simp add: ipv4NetEndian_def InetAddress_port_def)

text \<open>
  C22: SOCKS4 and SOCKS4a requests.  With a port, an address and a user, version 4 and command 1 are granted and anything
  else is refused; an address \<open>0.0.0.x\<close> is followed by a host name, which must resolve.  Whatever follows the
  request, exactly its bytes count as consumed, and until the host name is complete nothing is decided.
\<close>

theorem socks_understands:
  assumes "length pb = 2" "length ib = 4" "NUL \<notin> set user" "NUL \<notin> set host"
    and "resolve host = (if found then 0 else 1, if found then Some \<lparr>h_addrtype = AF_INET, h_length = 4, h_addr = a\<rparr> else None)"
  shows "if 256 \<le> (of_mem False ib :: 32 word)
    then socks_request le resolve (socks4_text ver cmd pb ib user @ rest) =
      Inr (if ver = CHR 0x04 \<and> cmd = CHR 0x01
        then Open \<lparr>sin_family = AF_INET, sin_port = of_mem le pb, s_addr = of_mem le ib\<rparr> (9 + length user) else Refuse)
    else socks_request le resolve (socks4_text ver cmd pb ib user @ host @ [NUL] @ rest) =
      Inr (if ver = CHR 0x04 \<and> cmd = CHR 0x01 \<and> found
        then Open \<lparr>sin_family = AF_INET, sin_port = of_mem le pb, s_addr = a\<rparr> (10 + length user + length host) else Refuse) \<and>
      socks_request le resolve (socks4_text ver cmd pb ib user @ host) = Inr Wait"
proof -
  note shape = socks4_text_shape [OF assms(1-3)]
  have ip: "networkToHost32 le (of_mem le ib) = of_mem False ib" by (rule networkToHost32_of_mem [OF assms(2)])
  have len: "8 + length user \<noteq> length (socks4_text ver cmd pb ib user @ more)" for more using shape(3) by simp
  show ?thesis
  proof (cases "256 \<le> (of_mem False ib :: 32 word)")
    case True
    then have "\<not> (of_mem False ib :: 32 word) < 256" by (simp only: not_less)
    with True shape ip len [of rest] show ?thesis by (simp add: socks_request_def Let_def)
  next
    case False
    then have small: "(of_mem False ib :: 32 word) < 256" by (simp only: not_le)
    have nine: "8 + length user + 1 = 9 + length user" by simp
    have "find_char NUL (host @ [NUL] @ rest) = length host" "find_char NUL host = length host"
      using find_char_append [OF assms(4), of rest] assms(4) by (simp_all add: find_char_eq_length_iff)
    with False small shape ip len [of host] len [of "host @ [NUL] @ rest"] assms(5) show ?thesis
      unfolding socks_request_def Let_def nine
      by (simp add: InetAddress_resolve_def ipv4_fresh check_def)
  qed
qed

subsection \<open>Opening a tunnel\<close>

lemma up_view:
  "up tid p k c (conn_state_t.extend t m) = up tid p k c t" "stream k (conn_state_t.extend t m) = stream k t"
proof -
  have "loop_inv (conn_state_t.extend t m) = loop_inv t" "ep_registered q (conn_state_t.extend t m) = ep_registered q t" for q
    by (rule loop_inv_cong; simp)+
  then show "up tid p k c (conn_state_t.extend t m) = up tid p k c t" "stream k (conn_state_t.extend t m) = stream k t"
    by (simp_all add: up_def conn_inv_def os_write_ok_def stream_def)
qed

lemma truncate_socks [simp]:
  "conn_state_t.truncate (s\<lparr>tunnelObjs := f\<rparr>) = conn_state_t.truncate s"
  "conn_state_t.truncate (s\<lparr>g_tunnels := g\<rparr>) = conn_state_t.truncate s"
  by (simp_all add: conn_state_t.defs)

lemma up_truncate:
  "up tid p k c (conn_state_t.truncate s) = up tid p k c s" "stream k (conn_state_t.truncate s) = stream k s"
  using up_view(1) [of tid p k c "conn_state_t.truncate s" "conn_state_t.more s"]
    up_view(2) [of k "conn_state_t.truncate s" "conn_state_t.more s"] by simp_all

lemma to_mem_of_mem:
  assumes "length cs = n" "LENGTH('a::len) = 8 * n"
  shows "to_mem le n (of_mem le cs :: 'a word) = cs"
proof -
  have "unat (word_of_nat (of_le_bytes ds) :: 'a word) = of_le_bytes ds" if "length ds = n" for ds
    using of_le_bytes_less [of ds] that assms(2) by (simp add: unat_of_nat take_bit_nat_eq_self power_mult)
  then show ?thesis using le_bytes_of_le [of cs] le_bytes_of_le [of "rev cs"] assms(1)
    by (cases le) (simp_all add: to_mem_def of_mem_def)
qed

text \<open>The three calls on the new object act on one view of it.\<close>

lemma open_tunnel_view:
  fixes s :: socks_state
  assumes "conns s p = Some k"
    and "Tunnel_new dest p (conn_state_t.extend (conn_state_t.truncate s) blank) = Inr t1"
    and "Tunnel_setup t1 = Inr t2" "Tunnel_connect tid t2 = Inr t3"
  shows "\<exists>s'. open_tunnel tid blank dest p s = Inr s' \<and> conn_state_t.truncate s' = conn_state_t.truncate t3 \<and>
    tunnelObjs s' = (tunnelObjs s)(conn_name k \<mapsto> conn_state_t.more t3) \<and> g_tunnels s' = insert (conn_name k) (g_tunnels s)"
proof -
  have "tunnelObjs (conn_state_t.extend u (conn_state_t.more v)) = tunnelObjs v" "g_tunnels (conn_state_t.extend u (conn_state_t.more v)) = g_tunnels v"
    for u and v :: socks_state by (cases v; simp add: conn_state_t.defs)+
  with assms show ?thesis
    by (simp add: open_tunnel_def on_tunnel_def on_tunnel_obj_def)
qed

text \<open>A new tunnel whose connection attempt is in progress.\<close>

lemma up_fields:
  fixes t :: "'m conn_state_t_scheme"
  assumes "up tid p k c s" "chans t = chans s" "channelMap t = channelMap s" "ctlLog t = ctlLog s" "eventListSize t = eventListSize s"
    "lp_this t = lp_this s" "osWrite t = osWrite s" "threadId t = threadId s" "netLog t = netLog s"
    and "conns t p = Some k'" "k' = k\<lparr>highWaterMarkCallback := hc, highWaterMark := hm\<rparr>"
  shows "up tid p k' c t" "stream k' t = stream k s"
proof -
  have "loop_inv t = loop_inv s" "ep_registered q t = ep_registered q s" for q using loop_inv_cong [of t s] assms(2-6) by blast+
  with assms show "up tid p k' c t" "stream k' t = stream k s" by (simp_all add: up_def conn_inv_def os_write_ok_def stream_def)
qed

lemma tunnel_attempt:
  fixes t :: "'m tunnel_state_scheme"
  assumes up: "up tid p k c t" and os: "osConnect t (attempts t) = (fd, EINPROGRESS)" "q = newChannel t (attempts t)" "\<not> channelGarbage t"
    and fresh: "chans t q = None" "0 \<le> fd" "ep_free_fd fd t"
  obtains t1 t2 t3 c' k' where "Tunnel_new dest p t = Inr t1" "Tunnel_setup t1 = Inr t2" "Tunnel_connect tid t2 = Inr t3"
    "up tid p k' c' t3" "stream k' t3 = stream k t" "k' = setHighWaterMarkCallback (Some (side_cb kServer)) tunnelHighWaterMark k"
    "waiting q fd t3" "serverAddr t3 = dest" "tn_serverConn t3 = Some p"
proof -
  let ?k = "setHighWaterMarkCallback (Some (side_cb kServer)) tunnelHighWaterMark k"
  have k: "conns t p = Some k" "threadId t = tid" "chans t (conn_channel k) = Some c" using up by (simp_all add: up_def conn_inv_def)
  define t1 where "t1 = (TcpClient_new dest (conn_name k) t)\<lparr>tn_serverConn := Some p, tn_clientConn := None, tn_alive := True\<rparr>"
  have 1: "Tunnel_new dest p t = Inr t1" using k(1) by (simp add: Tunnel_new_def t1_def)
  define t2 where "t2 = put_conn p ?k (client_setMessageCallback (Some onClientMessageCb)
    (client_setConnectionCallback (Some onClientConnectionCb) t1))"
  note new = TcpClient_new_def Connector_new_def setNewConnectionCallback_def client_setMessageCallback_def client_setConnectionCallback_def
  have 2: "Tunnel_setup t1 = Inr t2"
    using k(1) by (simp add: Tunnel_setup_def with_ptr_def set_conn_def t1_def t2_def new put_conn_def Let_def)
  let ?u = "t2\<lparr>tc_connect := True, cr_connect := True\<rparr>"
  have u: "chans ?u = chans t" "channelMap ?u = channelMap t" "ctlLog ?u = ctlLog t" "eventListSize ?u = eventListSize t"
    "lp_this ?u = lp_this t" "osWrite ?u = osWrite t" "threadId ?u = threadId t" "netLog ?u = netLog t" "conns ?u p = Some ?k"
    "cr_state ?u = CDisconnected" "cr_connect ?u" "cr_channel ?u = None" "osConnect ?u = osConnect t" "attempts ?u = attempts t"
    "newChannel ?u = newChannel t" "channelGarbage ?u = channelGarbage t" "serverAddr ?u = dest" "tn_serverConn ?u = Some p"
    by (simp_all add: t2_def t1_def new put_conn_def)
  have upu: "up tid p ?k c ?u" "stream ?k ?u = stream k t"
    using up_fields [OF up u(1-9)] by (simp_all add: setHighWaterMarkCallback_def)
  have free: "ep_free_fd fd ?u" using fresh(3) loop_inv_cong(3) [OF u(1-5)] by simp
  have "loop_inv ?u" using upu(1) by (simp add: up_def conn_inv_def)
  from connecting_ok [OF this u(12) _ _ fresh(2) free, of q] obtain t3 where t3: "connecting fd ?u = Inr t3" "waiting q fd t3"
    "conn_state_t.more t3 = conn_state_t.more (?u\<lparr>cr_state := CConnecting, cr_channel := Some q\<rparr>)"
    "conns t3 = conns ?u" "netLog t3 = netLog ?u" "osWrite t3 = osWrite ?u" "threadId t3 = threadId ?u"
    "\<forall>r. r \<noteq> q \<longrightarrow> ep_registered r t3 = ep_registered r ?u \<and> rel_option same_but_index (chans ?u r) (chans t3 r)"
    using u(1,14,15,16) os(2,3) fresh(1) by auto
  have "conn_channel k \<noteq> q" using k(3) fresh(1) by auto
  with t3(8) u(1) k(3) obtain c' where c': "chans t3 (conn_channel k) = Some c'" "same_but_index c c'"
    "ep_registered (conn_channel k) t3 = ep_registered (conn_channel k) ?u"
    by (cases "chans t3 (conn_channel k)") (auto dest!: spec [of _ "conn_channel k"])
  note same = same_but_index_simps(2) [OF c'(2)]
  let ?t = "t3\<lparr>attempts := Suc (attempts t3)\<rparr>"
  have "up tid p ?k c' ?t" "stream ?k ?t = stream k t"
    using upu t3(2,4-7) c' same by (simp_all add: up_def conn_inv_def os_write_ok_def isWriting_def stream_def waiting_def setHighWaterMarkCallback_def)
  moreover have "Tunnel_connect tid t2 = Inr ?t"
    using u k(2) os(1) t3(1)
    by (simp add: Tunnel_connect_def TcpClient_connect_def Connector_start_def runInLoop_def isInLoopThread_def startInLoop_def
        Connector_connect_def errno_defs)
  moreover have "waiting q fd ?t" using t3(2) by (auto simp: waiting_def)
  moreover have "serverAddr t3 = serverAddr ?u" "tn_serverConn t3 = tn_serverConn ?u" using t3(3) by (cases t3; cases t2; simp)+
  then have "serverAddr ?t = dest" "tn_serverConn ?t = Some p" using u(17,18) by simp_all
  ultimately show thesis using that [OF 1 2, of ?t ?k c'] by blast
qed

lemma socks_request_length: "socks_request le resolve bytes = Inr (Open addr n) \<Longrightarrow> 8 \<le> length bytes \<Longrightarrow> n \<le> length bytes"
proof -
  assume run: "socks_request le resolve bytes = Inr (Open addr n)" and len: "8 \<le> length bytes"
  let ?w = "8 + find_char NUL (drop 8 bytes)"
  have w: "?w \<noteq> length bytes" using run by (auto simp: socks_request_def Let_def)
  then have "Suc ?w \<le> length bytes" using find_char_le [of NUL "drop 8 bytes"] len by simp
  moreover have "?w + 1 + find_char NUL (drop (?w + 1) bytes) \<le> length bytes"
    using find_char_le [of NUL "drop (?w + 1) bytes"] calculation by simp
  ultimately show ?thesis
    using run w by (auto simp: socks_request_def Let_def bindR_Inr_iff split: if_splits)
qed

lemma waiting_kept:
  assumes w: "waiting q fd t" and v: "conn_state_t.truncate s = conn_state_t.truncate t"
    and ap: "apart x q y (put_conn p k s) s'" and inv: "loop_inv s'"
  shows "waiting q fd (conn_state_t.extend (conn_state_t.truncate s') (conn_state_t.more t))"
proof -
  let ?t = "conn_state_t.extend (conn_state_t.truncate s') (conn_state_t.more t)"
  have more: "cr_state ?t = cr_state t" "cr_channel ?t = cr_channel t" by (cases t; simp add: conn_state_t.defs)+
  have "chans (conn_state_t.truncate s) = chans t" "channelMap (conn_state_t.truncate s) = channelMap t"
    "ctlLog (conn_state_t.truncate s) = ctlLog t" unfolding v by simp_all
  then have c: "chans s q = chans t q" "ep_registered q s = ep_registered q t" by (simp_all add: ep_registered_def)
  obtain d where d: "chans t q = Some d" "ch_fd d = fd" "ch_events d = kWriteEvent" "\<not> eventHandling d" "ep_registered q t"
    "cr_state t = CConnecting" "cr_channel t = Some q" using w by (auto simp: waiting_def)
  from ap d(1) c(1) obtain d' where d': "chans s' q = Some d'" "same_but_index d d'" by (cases "chans s' q") (auto simp: apart_def)
  have "ep_registered q s'" using ap d(5) c(2) by (simp add: apart_def)
  moreover have "loop_inv ?t = loop_inv s'" "ep_registered q ?t = ep_registered q s'" by (rule loop_inv_cong; simp)+
  ultimately show ?thesis using inv d d' same_but_index_simps(2) [OF d'(2)] more by (simp add: waiting_def)
qed

lemma tunnel_opened:
  assumes "up tid p k c s" "conn_name k = name" and t: "t = conn_state_t.extend (conn_state_t.truncate s) blank"
    and "osConnect t (attempts t) = (fd, EINPROGRESS)" "q = newChannel t (attempts t)" "\<not> channelGarbage t" "chans s q = None" "0 \<le> fd"
    "ep_free_fd fd s"
  obtains s1 k3 c3 t3 where "open_tunnel tid blank addr p s = Inr s1" "up tid p k3 c3 s1" "stream k3 s1 = stream k s"
    "k3 = setHighWaterMarkCallback (Some (side_cb kServer)) tunnelHighWaterMark k" "waiting q fd t3" "serverAddr t3 = addr"
    "tn_serverConn t3 = Some p" "conn_state_t.truncate s1 = conn_state_t.truncate t3"
    "tunnelObjs s1 = (tunnelObjs s)(name \<mapsto> conn_state_t.more t3)" "g_tunnels s1 = insert name (g_tunnels s)"
proof -
  have u: "up tid p k c t" "stream k t = stream k s" "chans t q = None" "ep_free_fd fd t"
    using assms(1,7,9) up_view(1) [of tid p k c "conn_state_t.truncate s" blank] up_view(2) [of k "conn_state_t.truncate s" blank]
      loop_inv_cong(3) [of t s fd] by (simp_all add: t up_truncate)
  obtain t1 t2 t3 c3 k3 where 3: "Tunnel_new addr p t = Inr t1" "Tunnel_setup t1 = Inr t2" "Tunnel_connect tid t2 = Inr t3"
    "up tid p k3 c3 t3" "stream k3 t3 = stream k t" "k3 = setHighWaterMarkCallback (Some (side_cb kServer)) tunnelHighWaterMark k"
    "waiting q fd t3" "serverAddr t3 = addr" "tn_serverConn t3 = Some p"
    by (rule tunnel_attempt [OF u(1) assms(4-6) u(3) assms(8) u(4)])
  have conn: "conns s p = Some k" using assms(1) by (simp add: up_def conn_inv_def)
  from open_tunnel_view [OF conn 3(1) [unfolded t] 3(2,3)] obtain s1 where s1: "open_tunnel tid blank addr p s = Inr s1"
    "conn_state_t.truncate s1 = conn_state_t.truncate t3" "tunnelObjs s1 = (tunnelObjs s)(name \<mapsto> conn_state_t.more t3)"
    "g_tunnels s1 = insert name (g_tunnels s)" unfolding assms(2) by blast
  have "up tid p k3 c3 s1" "stream k3 s1 = stream k s"
    using 3(4,5) u(2) up_truncate(1) [of tid p k3 c3 s1] up_truncate(1) [of tid p k3 c3 t3] up_truncate(2) [of k3 s1] up_truncate(2) [of k3 t3]
    by (simp_all add: s1(2))
  with s1 3(6-9) show thesis by (intro that)
qed

text \<open>
  C21: A request that is granted: a new tunnel to the address asked for exists under the name of the connection and waits
  for its socket, exactly the request has been taken out of the input, and the reply with the port and the
  address has joined the bytes of the connection.
\<close>

theorem socks_grants:
  assumes "up tid p k c s" "buffer_inv (inputBuffer k)" "conn_name k \<notin> g_tunnels s" "conn_name k = name"
    and "8 < length (content (inputBuffer k))" "length (content (inputBuffer k)) \<le> 128"
    and "socks_request le resolve (content (inputBuffer k)) = Inr (Open addr n)"
    and "t = conn_state_t.extend (conn_state_t.truncate s) blank" "osConnect t (attempts t) = (fd, EINPROGRESS)"
    and "q = newChannel t (attempts t)" "\<not> channelGarbage t" "chans s q = None" "0 \<le> fd" "ep_free_fd fd s"
    and "writerIndex (outputBuffer k) + 8 \<le> VEC_MAX"
  shows "\<exists>s' k' c' obj t'. socks_onServerMessage le resolve tid blank p s = Inr s' \<and> up tid p k' c' s' \<and>
    content (inputBuffer k') = drop n (content (inputBuffer k)) \<and> stream k' s' = stream k s @ socks_granted le addr \<and>
    name \<in> g_tunnels s' \<and> tunnelObjs s' name = Some obj \<and> t' = conn_state_t.extend (conn_state_t.truncate s') obj \<and>
    waiting q fd t' \<and> serverAddr t' = addr \<and> tn_serverConn t' = Some p"
proof -
  obtain s1 k3 c3 t3 where 3: "open_tunnel tid blank addr p s = Inr s1" "up tid p k3 c3 s1" "stream k3 s1 = stream k s"
    "k3 = setHighWaterMarkCallback (Some (side_cb kServer)) tunnelHighWaterMark k" "waiting q fd t3" "serverAddr t3 = addr"
    "tn_serverConn t3 = Some p" and v: "conn_state_t.truncate s1 = conn_state_t.truncate t3"
    and s1: "tunnelObjs s1 = (tunnelObjs s)(name \<mapsto> conn_state_t.more t3)" "g_tunnels s1 = insert name (g_tunnels s)"
    by (rule tunnel_opened [OF assms(1,4,8-14)])
  have conn: "conns s p = Some k" using assms(1) by (simp add: up_def conn_inv_def)
  have k3: "inputBuffer k3 = inputBuffer k" "outputBuffer k3 = outputBuffer k" "conn_channel k3 = conn_channel k"
    using 3(4) by (simp_all add: setHighWaterMarkCallback_def)
  have n: "n \<le> length (content (inputBuffer k))" by (rule socks_request_length [OF assms(7)]) (use assms(5) in simp)
  from retrieve_ok [OF assms(2) n] obtain b where b: "retrieveUntil (peek (inputBuffer k) + n) (inputBuffer k) = Inr b" "buffer_inv b"
    "content b = drop n (content (inputBuffer k))" using retrieveUntil_eq [OF assms(2) n] by auto
  note up2 = up_input [OF 3(2), of b]
  let ?k = "k3\<lparr>inputBuffer := b\<rparr>" let ?s = "put_conn p ?k s1"
  have room: "writerIndex (outputBuffer ?k) + length (socks_granted le addr) \<le> VEC_MAX"
    using assms(15) k3(2) by (simp add: socks_granted_def)
  from sends_send [of tid p "socks_granted le addr", unfolded sends_def, rule_format, OF conjI [OF up2(1) room]] obtain k' c' s' where s':
    "TcpConnection_send tid p (socks_granted le addr) ?s = Inr s'" "up tid p k' c' s'" "conn_same ?k k'"
    "stream k' s' = stream ?k ?s @ socks_granted le addr" by blast
  have "q \<noteq> conn_channel ?k" using assms(1,12) k3(3) by (auto simp: up_def conn_inv_def)
  then have ap: "apart (Suc p) q (conn_sockfd ?k + 1) ?s s'"
    by (intro apart_send [OF up2(1) room _ _ _ s'(1)]) simp_all
  then have "conn_state_t.more s' = conn_state_t.more s1" by (simp add: apart_def)
  then have obj: "tunnelObjs s' = tunnelObjs s1" "g_tunnels s' = g_tunnels s1" by (cases s'; cases s1; simp)+
  let ?t = "conn_state_t.extend (conn_state_t.truncate s') (conn_state_t.more t3)"
  have more: "serverAddr ?t = serverAddr t3" "tn_serverConn ?t = tn_serverConn t3" by (cases t3; simp add: conn_state_t.defs)+
  have "loop_inv s'" using s'(2) by (simp add: up_def conn_inv_def)
  then have "waiting q fd ?t" by (rule waiting_kept [OF 3(5) v ap])
  moreover have "socks_onServerMessage le resolve tid blank p s = Inr s'"
    using conn assms(2,3,5-7) 3(1,2) k3(1) b(1) s'(1) take_4_content [OF assms(2) order_refl]
    by (simp add: socks_onServerMessage_def Let_def up_def conn_inv_def del: length_content)
  moreover have "content (inputBuffer k') = drop n (content (inputBuffer k))"
    using s'(3) b(3) by (cases k3; cases k'; simp add: conn_same_def)
  ultimately show ?thesis
    using s'(2,4) up2(2) 3(3,6,7) obj s1 more
    by (intro exI [of _ s'] exI [of _ k'] exI [of _ c'] exI [of _ "conn_state_t.more t3"] exI [of _ ?t]) simp
qed

text \<open>
  Anything else: a refused request is answered with the refusal and the connection shuts down; more than 128
  bytes without a tunnel shut it down without an answer; a request that is not complete changes nothing.
\<close>

theorem socks_refuses:
  assumes "up tid p k c s" "buffer_inv (inputBuffer k)" "conn_name k \<notin> g_tunnels s" "writerIndex (outputBuffer k) + 8 \<le> VEC_MAX"
    and "bytes = content (inputBuffer k)"
  shows "if 128 < length bytes then
      \<exists>s' k'. socks_onServerMessage le resolve tid blank p s = Inr s' \<and> conn_inv p k' c s' \<and> conn_state k' = kDisconnecting \<and>
        stream k' s' = stream k s
    else if length bytes \<le> 8 \<or> socks_request le resolve bytes = Inr Wait then
      socks_onServerMessage le resolve tid blank p s = Inr s
    else socks_request le resolve bytes = Inr Refuse \<longrightarrow>
      (\<exists>s' k' c'. socks_onServerMessage le resolve tid blank p s = Inr s' \<and> conn_inv p k' c' s' \<and> conn_state k' = kDisconnecting \<and>
        stream k' s' = stream k s @ socks_refused)"
proof -
  have conn: "conns s p = Some k" using assms(1) by (simp add: up_def conn_inv_def)
  note msg = socks_onServerMessage_def Let_def
  consider "128 < length bytes" | "\<not> 128 < length bytes" "length bytes \<le> 8 \<or> socks_request le resolve bytes = Inr Wait"
    | "8 < length bytes" "\<not> 128 < length bytes" "socks_request le resolve bytes = Inr Refuse"
    | "8 < length bytes" "\<not> 128 < length bytes" "socks_request le resolve bytes \<noteq> Inr Wait" "socks_request le resolve bytes \<noteq> Inr Refuse"
    by linarith
  then show ?thesis
  proof cases
    case 1
    then have "socks_onServerMessage le resolve tid blank p s = TcpConnection_shutdown tid p s"
      using conn assms(2,3,5) by (simp add: msg del: length_content)
    with shutdown_up [OF assms(1)] 1 show ?thesis by auto
  next
    case 2
    then have "socks_onServerMessage le resolve tid blank p s = Inr s"
      using conn assms(2,3,5) take_4_content [OF assms(2) order_refl] by (auto simp: msg simp del: length_content)
    with 2 show ?thesis by auto
  next
    case 3
    have "up tid p k c s \<and> writerIndex (outputBuffer k) + length socks_refused \<le> VEC_MAX"
      using assms(1,4) by (simp add: socks_refused_def)
    from sends_send [of tid p socks_refused, unfolded sends_def, rule_format, OF this] obtain k1 c1 s1 where s1:
      "TcpConnection_send tid p socks_refused s = Inr s1" "up tid p k1 c1 s1" "stream k1 s1 = stream k s @ socks_refused" by blast
    from shutdown_up [OF s1(2)] obtain k' s' where s': "TcpConnection_shutdown tid p s1 = Inr s'" "conn_inv p k' c1 s'"
      "conn_state k' = kDisconnecting" "stream k' s' = stream k1 s1" by blast
    have "socks_onServerMessage le resolve tid blank p s = Inr s'"
      using conn assms(2,3,5) 3 take_4_content [OF assms(2) order_refl] s1(1) s'(1) by (simp add: msg del: length_content)
    with 3 s' s1(3) show ?thesis by auto
  next
    case 4
    then show ?thesis by auto
  qed
qed

subsection \<open>Witnesses\<close>

definition socks_demo :: socks_state where
  "socks_demo = conn_state_t.extend (cn_demo kConnected) \<lparr>tunnelObjs = (\<lambda>_. None), g_tunnels = {}\<rparr>"

definition socks_blank :: tunnel_obj where
  "socks_blank = conn_state_t.more (td_demo kReadEvent Buffer_new)"

lemma socks_demo_up:
  "up 1 1 (cn_demo_conn kConnected Buffer_new) cn_demo_chan socks_demo" "stream (cn_demo_conn kConnected Buffer_new) socks_demo = []"
  using cn_demo_up by (simp_all add: socks_demo_def up_view) (simp add: stream_def cn_demo_defs)

definition socks_demo_request :: string where
  "socks_demo_request = socks4_text (CHR 0x04) (CHR 0x01) [CHR 0x00, CHR 0x50] [CHR 0x0A, CHR 0x00, CHR 0x00, CHR 0x01] ''me''"

lemma socks_demo_request_ok:
  "256 \<le> (of_mem False [CHR 0x0A, CHR 0x00, CHR 0x00, CHR 0x01] :: 32 word)"
  by (simp add: of_mem_def)

theorem socks_understands_witness:
  "socks_request True (\<lambda>_. (0, Some \<lparr>h_addrtype = AF_INET, h_length = 4, h_addr = 77\<rparr>))
     (socks4_text (CHR 0x04) (CHR 0x01) [CHR 0x00, CHR 0x50] [CHR 0x00, CHR 0x00, CHR 0x00, CHR 0x01] ''me'' @ ''host'' @ [NUL] @ ''GET'') =
   Inr (Open \<lparr>sin_family = AF_INET, sin_port = of_mem True [CHR 0x00, CHR 0x50], s_addr = 77\<rparr> 16)"
proof -
  have "\<not> 256 \<le> (of_mem False [CHR 0x00, CHR 0x00, CHR 0x00, CHR 0x01] :: 32 word)" by (simp add: of_mem_def word_le_nat_alt)
  with socks_understands [where pb = "[CHR 0x00, CHR 0x50]" and ib = "[CHR 0x00, CHR 0x00, CHR 0x00, CHR 0x01]" and user = "''me''"
      and host = "''host''" and resolve = "\<lambda>_. (0, Some \<lparr>h_addrtype = AF_INET, h_length = 4, h_addr = 77\<rparr>)" and found = True
      and a = 77 and le = True and ver = "CHR 0x04" and cmd = "CHR 0x01" and rest = "''GET''"]
  show ?thesis by simp
qed

theorem socks_grants_witness:
  "\<exists>b s' k' c' obj. content b = socks_demo_request @ ''GET'' \<and>
    socks_onServerMessage True (\<lambda>_. (1, None)) 1 socks_blank 1
      (put_conn 1 ((cn_demo_conn kConnected Buffer_new)\<lparr>inputBuffer := b\<rparr>) socks_demo) = Inr s' \<and>
    up 1 1 k' c' s' \<and> content (inputBuffer k') = ''GET'' \<and>
    stream k' s' = [CHR 0x00, CHR 0x5A, CHR 0x00, CHR 0x50, CHR 0x0A, CHR 0x00, CHR 0x00, CHR 0x01] \<and>
    tunnelObjs s' ''c'' = Some obj \<and> waiting 5 9 (conn_state_t.extend (conn_state_t.truncate s') obj)"
proof -
  let ?bytes = "socks_demo_request @ ''GET''"
  let ?addr = "\<lparr>sin_family = AF_INET, sin_port = of_mem True [CHR 0x00, CHR 0x50], s_addr = of_mem True [CHR 0x0A, CHR 0x00, CHR 0x00, CHR 0x01]\<rparr>"
  have len: "length socks_demo_request = 11" by (simp add: socks_demo_request_def socks4_text_def)
  then have "length ?bytes \<le> 1000" by simp
  then obtain b where b: "buffer_inv b" "content b = ?bytes" by (rule buffer_with)
  let ?k = "(cn_demo_conn kConnected Buffer_new)\<lparr>inputBuffer := b\<rparr>" let ?s = "put_conn 1 ?k socks_demo"
  let ?t = "conn_state_t.extend (conn_state_t.truncate ?s) socks_blank"
  note up = up_input [OF socks_demo_up(1), of b]
  have req: "socks_request True (\<lambda>_. (1, None)) (content (inputBuffer ?k)) = Inr (Open ?addr 11)"
    using socks_understands [where pb = "[CHR 0x00, CHR 0x50]" and ib = "[CHR 0x0A, CHR 0x00, CHR 0x00, CHR 0x01]" and user = "''me''"
      and host = "[]" and resolve = "\<lambda>_. (1, None)" and found = False and a = 0 and le = True and ver = "CHR 0x04" and cmd = "CHR 0x01"
      and rest = "''GET''"] socks_demo_request_ok b(2) by (simp add: socks_demo_request_def del: length_content)
  have g: "conn_name ?k \<notin> g_tunnels ?s" "conn_name ?k = ''c''" "writerIndex (outputBuffer ?k) + 8 \<le> VEC_MAX" "stream ?k ?s = []"
    using up(2) socks_demo_up(2) by (simp_all add: socks_demo_def put_conn_def conn_state_t.defs cn_demo_conn_def)
  have o: "osConnect ?t (attempts ?t) = (9, EINPROGRESS)" "5 = newChannel ?t (attempts ?t)" "\<not> channelGarbage ?t"
    by (simp_all add: socks_blank_def td_demo_defs conn_state_t.defs)
  have f: "chans ?s 5 = None" "ep_free_fd 9 ?s" by (simp_all add: socks_demo_def put_conn_def cn_demo_defs conn_state_t.defs ep_free_fd_def)
  have l: "8 < length (content (inputBuffer ?k))" "length (content (inputBuffer ?k)) \<le> 128" "buffer_inv (inputBuffer ?k)"
    using b len by (simp_all del: length_content)
  have "socks_granted True ?addr = [CHR 0x00, CHR 0x5A, CHR 0x00, CHR 0x50, CHR 0x0A, CHR 0x00, CHR 0x00, CHR 0x01]"
    by (simp add: socks_granted_def to_mem_of_mem)
  moreover have "drop 11 ?bytes = ''GET''" using len by simp
  moreover from socks_grants [OF up(1) l(3) g(1,2) l(1,2) req refl o f(1) _ f(2) g(3)] obtain s' k' c' obj where
    "socks_onServerMessage True (\<lambda>_. (1, None)) 1 socks_blank 1 ?s = Inr s'" "up 1 1 k' c' s'"
    "content (inputBuffer k') = drop 11 (content (inputBuffer ?k))" "stream k' s' = stream ?k ?s @ socks_granted True ?addr"
    "tunnelObjs s' ''c'' = Some obj" "waiting 5 9 (conn_state_t.extend (conn_state_t.truncate s') obj)" by auto
  ultimately show ?thesis using b(2) g(4)
    by (intro exI [of _ b] exI [of _ s'] exI [of _ k'] exI [of _ c'] exI [of _ obj]) (simp del: length_content)
qed

theorem socks_refuses_witness:
  "\<exists>b s' k' c'. content b = socks4_text (CHR 0x05) (CHR 0x01) [CHR 0x00, CHR 0x50] [CHR 0x0A, CHR 0x00, CHR 0x00, CHR 0x01] [] \<and>
    socks_onServerMessage True (\<lambda>_. (1, None)) 1 socks_blank 1
      (put_conn 1 ((cn_demo_conn kConnected Buffer_new)\<lparr>inputBuffer := b\<rparr>) socks_demo) = Inr s' \<and>
    conn_inv 1 k' c' s' \<and> conn_state k' = kDisconnecting \<and> stream k' s' = [CHR 0x00, CHR 0x5B] @ ''UVWXYZ''"
proof -
  let ?bytes = "socks4_text (CHR 0x05) (CHR 0x01) [CHR 0x00, CHR 0x50] [CHR 0x0A, CHR 0x00, CHR 0x00, CHR 0x01] []"
  have len: "length ?bytes = 9" by (simp add: socks4_text_def)
  then have "length ?bytes \<le> 1000" by simp
  then obtain b where b: "buffer_inv b" "content b = ?bytes" by (rule buffer_with)
  let ?k = "(cn_demo_conn kConnected Buffer_new)\<lparr>inputBuffer := b\<rparr>" let ?s = "put_conn 1 ?k socks_demo"
  note up = up_input [OF socks_demo_up(1), of b]
  have req: "socks_request True (\<lambda>_. (1, None)) ?bytes = Inr Refuse"
    using socks_understands [where pb = "[CHR 0x00, CHR 0x50]" and ib = "[CHR 0x0A, CHR 0x00, CHR 0x00, CHR 0x01]" and user = "[]"
      and host = "[]" and resolve = "\<lambda>_. (1, None)" and found = False and a = 0 and le = True and ver = "CHR 0x05" and cmd = "CHR 0x01"
      and rest = "[]"] socks_demo_request_ok by simp
  have g: "conn_name ?k \<notin> g_tunnels ?s" "writerIndex (outputBuffer ?k) + 8 \<le> VEC_MAX" "stream ?k ?s = []" "buffer_inv (inputBuffer ?k)"
    "?bytes = content (inputBuffer ?k)"
    using up(2) socks_demo_up(2) b by (simp_all add: socks_demo_def put_conn_def conn_state_t.defs cn_demo_conn_def del: length_content)
  from socks_refuses [OF up(1) g(4,1,2,5), of True "\<lambda>_. (1, None)" socks_blank] obtain s' k' c' where
    "socks_onServerMessage True (\<lambda>_. (1, None)) 1 socks_blank 1 ?s = Inr s'" "conn_inv 1 k' c' s'" "conn_state k' = kDisconnecting"
    "stream k' s' = stream ?k ?s @ socks_refused"
    unfolding req len by auto
  with b(2) g(3) show ?thesis unfolding socks_refused_def
    by (intro exI [of _ b] exI [of _ s'] exI [of _ k'] exI [of _ c']) simp
qed

end
