(* ===== verification/Printer.thy ===== *)
theory Printer
  imports TimerQueue
begin

section \<open>The timer examples\<close>

text \<open>
  \<open>examples/timer/timer2.cpp\<close> to \<open>timer5.cpp\<close>: callbacks that count, ask to be called again in a second, and quit.
  The first two run in one loop; the others share the counter, under a mutex, between two loops in two threads.
  What they print is the list of the counter's values.
\<close>

definition printAgain :: loop_functor where "printAgain = UserFn 0"

definition Printer_print :: "int \<Rightarrow> int \<times> int list \<Rightarrow> ('m) timer_state_scheme \<Rightarrow> ((int \<times> int list) \<times> 'm timer_state_scheme) res" where
  "Printer_print tid cs s =
     (case cs of (count, out) \<Rightarrow>
        if count < 5 then
          bindR (runAfter own_call tid 1 printAgain s) (\<lambda>(_, s1). Inr ((count + 1, out @ [count]), s1))
        else Inr ((count, out), EventLoop_quit tid s))"

text \<open>The callbacks \<open>print1\<close> and \<open>print2\<close>, run by the thread of their loop, of \<open>timer4.cpp\<close> and of \<open>timer5.cpp\<close>.\<close>

record 'm printer_state =
  loop1 :: "'m timer_state_scheme"
  loop2 :: "'m timer_state_scheme"
  count :: int
  printed :: "int list"

text \<open>
  The constructors: the main thread asks both loops for a timer, the second loop through its functor queue.
  \<open>timer5.cpp\<close> starts to count at 0; \<open>timer4.cpp\<close> leaves the counter as it is in memory.
\<close>

definition Printers_new where
  "Printers_new tid n l1 l2 =
     bindR (runAfter own_call tid 1 printAgain l1) (\<lambda>(_, a).
     bindR (runAfter own_call tid 1 printAgain l2) (\<lambda>(_, b).
       Inr \<lparr>loop1 = a, loop2 = b, count = n, printed = []\<rparr>))"

definition timer5_new where
  "timer5_new tid l1 l2 = Printers_new tid 0 l1 l2"

definition timer4_new where
  "timer4_new tid garbage l1 l2 = Printers_new tid garbage l1 l2"

definition timer4_print where
  "timer4_print first s =
     (let l = (if first then loop1 s else loop2 s); set = (\<lambda>l1. if first then s\<lparr>loop1 := l1\<rparr> else s\<lparr>loop2 := l1\<rparr>) in
      if count s < 10 then
        bindR (runAfter own_call (threadId l) 1 printAgain l) (\<lambda>(_, l1).
          Inr ((set l1)\<lparr>count := count s + 1, printed := printed s @ [count s]\<rparr>))
      else Inr (set (EventLoop_quit (threadId l) l)))"

definition timer5_print where
  "timer5_print first s =
     (let l = (if first then loop1 s else loop2 s); set = (\<lambda>l1. if first then s\<lparr>loop1 := l1\<rparr> else s\<lparr>loop2 := l1\<rparr>);
          shouldQuit = (\<not> count s < 10); n = (if shouldQuit then 0 else count s);
          s1 = (\<lambda>t. if shouldQuit then t else t\<lparr>count := count s + 1\<rparr>) in
      if shouldQuit then Inr (s\<lparr>loop1 := EventLoop_quit (threadId l) (loop1 s)\<rparr>)
      else
        bindR (runAfter own_call (threadId l) 1 printAgain l) (\<lambda>(_, l1).
          Inr ((s1 (set l1))\<lparr>printed := printed s @ [n]\<rparr>)))"

subsection \<open>What they print\<close>

lemma print_again:
  assumes "timer_inv l" "tid = threadId l"
  shows "\<exists>i l'. runAfter own_call tid cb_delay printAgain l = Inr (i, l') \<and> timer_inv l' \<and> threadId l' = tid \<and> quit_flag l' = quit_flag l"
proof -
  let ?l = "l\<lparr>ticks := Suc (ticks l)\<rparr>"
  have l: "timer_inv ?l" "isInLoopThread tid ?l" using assms by (simp_all add: isInLoopThread_def)
  from addTimer_ok [OF l(1), of tid printAgain "addTime (clock l (ticks l)) cb_delay" 0] obtain i l' where l':
    "addTimer own_call tid printAgain (addTime (clock l (ticks l)) cb_delay) 0 ?l = Inr (i, l')" "timer_inv l'" by blast
  have "timer_frame ?l l'" by (rule addTimer_frame [OF l(2) l'(1)])
  then have "threadId l' = threadId l" "quit_flag l' = quit_flag l" by (cases l; cases l'; simp add: timer_frame_def)+
  with l' assms(2) show ?thesis by (simp add: runAfter_def runAt_def read_clock_def)
qed

definition printers_ok :: "'m printer_state \<Rightarrow> bool" where
  "printers_ok s \<longleftrightarrow> timer_inv (loop1 s) \<and> timer_inv (loop2 s) \<and> 0 \<le> count s \<and> count s \<le> 10 \<and> printed s = [0..count s - 1]"

lemma asks_a_timer:
  assumes "timer_inv l"
  shows "\<exists>i l'. runAfter own_call tid d printAgain l = Inr (i, l') \<and> timer_inv l' \<and> quit_flag l' = quit_flag l \<and>
    (threadId l \<noteq> tid \<longrightarrow> timers l' = timers l \<and> (\<exists>p. pendingFunctors l' = pendingFunctors l @ [AddTimerInLoop p]))"
proof -
  let ?l = "l\<lparr>ticks := Suc (ticks l)\<rparr>"
  have l: "timer_inv ?l" using assms by simp
  from addTimer_ok [OF l, of tid printAgain "addTime (clock l (ticks l)) d" 0] obtain i l' where l':
    "addTimer own_call tid printAgain (addTime (clock l (ticks l)) d) 0 ?l = Inr (i, l')" "timer_inv l'" by blast
  have "quit_flag l' = quit_flag l \<and> (threadId l \<noteq> tid \<longrightarrow> timers l' = timers l \<and> (\<exists>p. pendingFunctors l' = pendingFunctors l @ [AddTimerInLoop p]))"
  proof (cases "threadId l = tid")
    case True
    then have "timer_frame ?l l'" using addTimer_frame [OF _ l'(1)] by (simp add: isInLoopThread_def)
    then show ?thesis using True by (cases l; cases l'; simp add: timer_frame_def)
  next
    case False
    then show ?thesis using l'(1)
      by (auto simp: addTimer_def runInLoop_def isInLoopThread_def queueInLoop_def wakeup_def Let_def)
  qed
  with l' show ?thesis by (simp add: runAfter_def runAt_def read_clock_def)
qed

lemma timer_inv_quit [simp]: "timer_inv (EventLoop_quit tid l) = timer_inv l"
  by (rule timer_inv_cong; simp add: EventLoop_quit_def wakeup_def Let_def)

lemma quit_quits [simp]: "quit_flag (EventLoop_quit tid l)"
  by (simp add: EventLoop_quit_def wakeup_def Let_def)

lemma timer5_step:
  assumes "printers_ok s"
  shows "\<exists>s'. timer5_print first s = Inr s' \<and> printers_ok s' \<and> count s' = min 10 (count s + 1) \<and>
    (quit_flag (loop1 s') \<longleftrightarrow> quit_flag (loop1 s) \<or> count s = 10) \<and> quit_flag (loop2 s') = quit_flag (loop2 s)"
proof (cases "count s < 10")
  case True
  have again: "\<exists>i l'. runAfter own_call (threadId l) 1 printAgain l = Inr (i, l') \<and> timer_inv l' \<and> quit_flag l' = quit_flag l"
    if "timer_inv l" for l :: "'a timer_state_scheme" using print_again [OF that refl, of 1] by blast
  have up: "[0..count s] = [0..count s - 1] @ [count s]" using assms upto_rec2 [of 0 "count s"] by (simp add: printers_ok_def)
  show ?thesis
  proof (cases first)
    case f: True
    from again [of "loop1 s"] assms True f up show ?thesis by (fastforce simp: timer5_print_def printers_ok_def Let_def)
  next
    case f: False
    from again [of "loop2 s"] assms True f up show ?thesis by (fastforce simp: timer5_print_def printers_ok_def Let_def)
  qed
next
  case False
  with assms show ?thesis by (auto simp: timer5_print_def printers_ok_def Let_def)
qed

lemma printers_run:
  assumes "printers_ok s"
  shows "\<exists>s'. foldR timer5_print calls s = Inr s' \<and> printers_ok s' \<and> count s' = min 10 (count s + int (length calls)) \<and>
    (quit_flag (loop1 s') \<longleftrightarrow> quit_flag (loop1 s) \<or> 10 < count s + int (length calls)) \<and> quit_flag (loop2 s') = quit_flag (loop2 s)"
  using assms
proof (induction calls arbitrary: s)
  case Nil
  then show ?case by (auto simp: printers_ok_def)
next
  case (Cons c calls)
  from timer5_step [OF Cons.prems, of c] obtain s1 where s1: "timer5_print c s = Inr s1" "printers_ok s1"
    "count s1 = min 10 (count s + 1)" "quit_flag (loop1 s1) \<longleftrightarrow> quit_flag (loop1 s) \<or> count s = 10"
    "quit_flag (loop2 s1) = quit_flag (loop2 s)" by blast
  have c: "count s \<le> 10" using Cons.prems by (simp add: printers_ok_def)
  from Cons.IH [OF s1(2)] s1 c show ?case by (cases "count s = 10"; cases calls) (auto simp: min_def split: if_splits)
qed

text \<open>
  The two printers of the last example.  Their constructor leaves the second loop's timer to the functor queue of that
  loop.  However the callbacks then interleave, the counter's values are printed once
  each and in order, ten in all; any later call, of either printer, asks the first loop to quit, and none ever
  asks the second.
\<close>

theorem printers_share_counter:
  assumes "timer_inv l1" "timer_inv l2" "threadId l1 = tid" "threadId l2 \<noteq> tid" "\<not> quit_flag l1" "\<not> quit_flag l2"
  shows "\<exists>s p. timer5_new tid l1 l2 = Inr s \<and> timers (loop2 s) = timers l2 \<and>
    pendingFunctors (loop2 s) = pendingFunctors l2 @ [AddTimerInLoop p] \<and>
    (\<forall>calls. \<exists>s'. foldR timer5_print calls s = Inr s' \<and> printed s' = [0..min 10 (int (length calls)) - 1] \<and>
      (quit_flag (loop1 s') \<longleftrightarrow> 10 < length calls) \<and> \<not> quit_flag (loop2 s'))"
proof -
  obtain i a where a: "runAfter own_call tid 1 printAgain l1 = Inr (i, a)" "timer_inv a" "\<not> quit_flag a"
    using asks_a_timer [OF assms(1), of tid 1] assms(5) by blast
  obtain j b p where b: "runAfter own_call tid 1 printAgain l2 = Inr (j, b)" "timer_inv b" "\<not> quit_flag b" "timers b = timers l2"
    "pendingFunctors b = pendingFunctors l2 @ [AddTimerInLoop p]"
    using asks_a_timer [OF assms(2), of tid 1] assms(4,6) by blast
  let ?s = "\<lparr>loop1 = a, loop2 = b, count = 0, printed = []\<rparr>"
  have new: "timer5_new tid l1 l2 = Inr ?s" using a(1) b(1) by (simp add: timer5_new_def Printers_new_def)
  have ok: "printers_ok ?s" using a(2) b(2) by (simp add: printers_ok_def)
  have "\<forall>calls. \<exists>s'. foldR timer5_print calls ?s = Inr s' \<and> printed s' = [0..min 10 (int (length calls)) - 1] \<and>
      (quit_flag (loop1 s') \<longleftrightarrow> 10 < length calls) \<and> \<not> quit_flag (loop2 s')"
  proof
    fix calls
    from printers_run [OF ok, of calls] a(3) b(3) show "\<exists>s'. foldR timer5_print calls ?s = Inr s' \<and>
        printed s' = [0..min 10 (int (length calls)) - 1] \<and> (quit_flag (loop1 s') \<longleftrightarrow> 10 < length calls) \<and> \<not> quit_flag (loop2 s')"
      by (auto simp: printers_ok_def)
  qed
  with new b(4,5) show ?thesis by (intro exI [of _ ?s] exI [of _ p]) simp
qed

theorem printers_share_counter_witness:
  "\<exists>s s'. timer5_new 1 (tq_demo\<lparr>threadId := 1\<rparr>) (tq_demo\<lparr>threadId := 2\<rparr>) = Inr s \<and>
    foldR timer5_print [True, False, True] s = Inr s' \<and> printed s' = [0, 1, 2]"
proof -
  have i: "timer_inv (tq_demo\<lparr>threadId := i\<rparr>)" "\<not> quit_flag (tq_demo\<lparr>threadId := i\<rparr>)" "threadId (tq_demo\<lparr>threadId := i\<rparr>) = i" for i
    using tq_demo_inv timer_inv_cong(4) [of "tq_demo\<lparr>threadId := i\<rparr>" tq_demo] by (simp_all add: tq_demo_def)
  obtain s where s: "timer5_new 1 (tq_demo\<lparr>threadId := 1\<rparr>) (tq_demo\<lparr>threadId := 2\<rparr>) = Inr s"
    "\<forall>calls. \<exists>s'. foldR timer5_print calls s = Inr s' \<and> printed s' = [0..min 10 (int (length calls)) - 1] \<and>
      (quit_flag (loop1 s') \<longleftrightarrow> 10 < length calls) \<and> \<not> quit_flag (loop2 s')"
    using printers_share_counter [of "tq_demo\<lparr>threadId := 1\<rparr>" "tq_demo\<lparr>threadId := 2\<rparr>" 1] i by auto
  from s(2) [rule_format, of "[True, False, True]"] s(1) show ?thesis by (auto simp: upto.simps)
qed

end
