(* ===== verification/PrinterProgram.thy ===== *)
theory PrinterProgram
  imports Printer LoopSetup
begin

section \<open>The timer programs\<close>

text \<open>
  \<open>examples/timer/timer1.cpp\<close> to \<open>timer3.cpp\<close> as programs: a loop whose timer channel is the only one that becomes
  readable.
\<close>

subsection \<open>One timer that fires\<close>

text \<open>A one-shot timer alone in the queue, whose callback leaves another one there.\<close>

lemma handleRead_one:
  assumes inv: "timer_inv s" and one: "timers s = [(w, p)]" "timerHeap s p = Some t" "\<not> tm_repeat t"
    and now: "w < clock s (ticks s)"
    and cb: "call (tm_callback t) (firing (clock s (ticks s)) s) = Inr s3" and keeps: "timer_inv s3" "timerHeap s3 p = Some t"
  obtains s4 where "TimerQueue_handleRead call s = Inr (s4\<lparr>expiring := []\<rparr>)" "timer_frame (s3\<lparr>callingExpiredTimers := False\<rparr>) s4"
    "timer_inv (s4\<lparr>expiring := []\<rparr>)" "timers s4 = timers s3" "timerHeap s4 = timerHeap s3"
proof -
  let ?now = "clock s (ticks s)" let ?t = "s3\<lparr>callingExpiredTimers := False\<rparr>"
  have due: "due ?now s = [(w, p)]" using one(1) now by (simp add: due_def)
  have "run_timer call (w, p) (firing ?now s) = Inr s3" using one(2) cb by (simp add: run_timer_def firing_fields)
  moreover have "\<forall>e \<in> set (timers s). fst e \<noteq> ?now" using one(1) now by simp
  ultimately have run: "TimerQueue_handleRead call s = bindR (TimerQueue_reset [(w, p)] ?now ?t) (\<lambda>s4. Inr (s4\<lparr>expiring := []\<rparr>))"
    by (simp add: handleRead_eq [OF inv refl] due)
  have inv3: "timer_core ?t" using keeps(1) timer_inv_cong(1) [of ?t s3] by simp
  have "reset_one ?now (w, p) ?t = Inr ?t" using keeps(2) one(3) by (simp add: reset_one_def)
  moreover have "(case timers ?t of [] \<Rightarrow> Inr Timestamp_default | e # _ \<Rightarrow> with_timer (snd e) ?t (\<lambda>t. Inr (tm_expiration t))) =
      Inr (next_expiry ?t)" using timer_coreD(4) [OF inv3] by (fastforce simp: next_expiry_def split: list.splits)
  ultimately have "TimerQueue_reset [(w, p)] ?now ?t =
      Inr (if Timestamp_valid (next_expiry ?t) then resetTimerfd (next_expiry ?t) ?t else ?t)" by (simp add: TimerQueue_reset_def)
  moreover define s4 where "s4 = (if Timestamp_valid (next_expiry ?t) then resetTimerfd (next_expiry ?t) ?t else ?t)"
  ultimately have "TimerQueue_handleRead call s = Inr (s4\<lparr>expiring := []\<rparr>)" using run by simp
  moreover have "timer_frame ?t s4"
    by (cases s3) (simp add: s4_def timer_frame_def resetTimerfd_def read_clock_def split_def Let_def)
  moreover have f: "timers s4 = timers s3" "activeTimers s4 = activeTimers s3" "timerHeap s4 = timerHeap s3" "alloc s4 = alloc s3" "numCreated s4 = numCreated s3"
    by (simp_all add: s4_def)
  have "timer_core (s4\<lparr>expiring := []\<rparr>)" "heap_ok (s4\<lparr>expiring := []\<rparr>)"
    using keeps(1) timer_inv_cong(1,3) [of "s4\<lparr>expiring := []\<rparr>" s3] f by (simp_all add: timer_inv_def)
  then have "timer_inv (s4\<lparr>expiring := []\<rparr>)" by (simp add: timer_inv_def expiring_ok_def)
  ultimately show thesis using f by (intro that)
qed

subsection \<open>The printer\<close>

record printer_loop = timer_state +
  pr_count :: int
  pr_out :: "int list"

definition printer_call where
  "printer_call tid f s =
     (if f = printAgain then
        bindR (Printer_print tid (pr_count s, pr_out s) s) (\<lambda>((n, out), s1). Inr (s1\<lparr>pr_count := n, pr_out := out\<rparr>))
      else Inr s)"

text \<open>The constructor and \<open>main\<close> of \<open>timer3.cpp\<close>, and \<open>main\<close> of \<open>timer2.cpp\<close>, whose counter is a local variable.\<close>

definition Printer_new where
  "Printer_new tid s = bindR (runAfter own_call tid 1 printAgain (s\<lparr>pr_count := 0, pr_out := []\<rparr>)) (\<lambda>(_, s1). Inr s1)"

definition printer_main where
  "printer_main this tid epfd tfd tq wfd wq uninit s = bindR (EventLoop_construct this tid epfd tfd tq wfd wq uninit s) (Printer_new tid)"

definition timer2_main where
  "timer2_main this tid epfd tfd tq wfd wq uninit s =
     bindR (EventLoop_construct this tid epfd tfd tq wfd wq uninit s) (\<lambda>s1.
     bindR (runAfter own_call tid 1 printAgain (s1\<lparr>pr_count := 0, pr_out := []\<rparr>)) (\<lambda>(_, s2). Inr s2))"

text \<open>The function \<open>print\<close> of \<open>timer2.cpp\<close>, with the value that its second argument points to.\<close>

definition timer2_print :: "int \<Rightarrow> int \<Rightarrow> int list \<Rightarrow> ('m) timer_state_scheme \<Rightarrow> ((int \<times> int list) \<times> 'm timer_state_scheme) res" where
  "timer2_print tid n out s =
     (if n < 5 then bindR (runAfter own_call tid 1 printAgain s) (\<lambda>(_, s1). Inr ((n + 1, out @ [n]), s1))
      else Inr ((n, out), EventLoop_quit tid s))"

lemma timer2_print_eq: "timer2_print tid n out s = Printer_print tid (n, out) s"
  by (simp add: timer2_print_def Printer_print_def)

text \<open>\<open>timer1.cpp\<close> prints a line when its only timer fires.\<close>

definition helloWorld :: loop_functor where "helloWorld = UserFn 1"

definition timer1_main where
  "timer1_main this tid epfd tfd tq wfd wq uninit s =
     bindR (EventLoop_construct this tid epfd tfd tq wfd wq uninit s) (\<lambda>s1.
     bindR (runAfter own_call tid 5 helloWorld s1) (\<lambda>(_, s2). Inr s2))"

text \<open>
  \<open>main\<close> of \<open>timer4.cpp\<close> and of \<open>timer5.cpp\<close>: the second loop is made by another thread, \<open>tid'\<close>, and published before
  \<open>startLoop()\<close> returns; primed arguments belong to it.  The counter of \<open>timer4.cpp\<close> is what was in memory.
\<close>

definition timer4_main where
  "timer4_main tid this epfd tfd tq wfd wq u s tid' this' epfd' tfd' tq' wfd' wq' u' s' garbage =
     bindR (EventLoop_construct this tid epfd tfd tq wfd wq u s) (\<lambda>l1.
     bindR (EventLoop_construct this' tid' epfd' tfd' tq' wfd' wq' u' s') (\<lambda>l2.
       timer4_new tid garbage l1 l2))"

definition timer5_main where
  "timer5_main tid this epfd tfd tq wfd wq u s tid' this' epfd' tfd' tq' wfd' wq' u' s' =
     bindR (EventLoop_construct this tid epfd tfd tq wfd wq u s) (\<lambda>l1.
     bindR (EventLoop_construct this' tid' epfd' tfd' tq' wfd' wq' u' s') (\<lambda>l2.
       timer5_new tid l1 l2))"

subsection \<open>A turn of its loop\<close>

text \<open>A request in the loop's thread when no timer waits: the new one is the only one.\<close>

lemma runAfter_only:
  assumes "timer_inv s" "isInLoopThread tid s" "timers s = []"
  obtains i s1 p w t where "runAfter own_call tid d cb s = Inr (i, s1)" "timer_frame s s1" "timer_inv s1" "timers s1 = [(w, p)]"
    "timerHeap s1 p = Some t" "tm_callback t = cb" "\<not> tm_repeat t" "w = addTime (clock s (ticks s)) d"
    "\<And>x. timerHeap s x \<noteq> None \<Longrightarrow> timerHeap s1 x = timerHeap s x" "expiring s1 = expiring s"
proof -
  let ?s = "s\<lparr>ticks := Suc (ticks s)\<rparr>" let ?w = "addTime (clock s (ticks s)) d" let ?p = "alloc s (numCreated s)"
  have l: "timer_inv ?s" "isInLoopThread tid ?s" using assms by (simp_all add: isInLoopThread_def)
  obtain i s1 where s1: "addTimer own_call tid cb ?w 0 ?s = Inr (i, s1)" "timer_inv s1" "timers s1 = [(?w, ?p)]" "expiring s1 = expiring s"
    "timerHeap s1 = (timerHeap s)(?p \<mapsto> Timer_new cb ?w 0 (numCreated s))" "timerHeap s ?p = None"
    using addTimer_ok [OF l(1), of tid cb ?w 0] l(2) assms(3) by auto
  have "timer_frame s s1" using addTimer_frame [OF l(2) s1(1)] by (rule timer_frame_tick)
  with s1 show thesis
    by (intro that [of i s1 ?w ?p "Timer_new cb ?w 0 (numCreated s)"]) (auto simp: runAfter_def runAt_def read_clock_def Timer_new_def)
qed

definition printer_ready :: "int \<Rightarrow> nat \<Rightarrow> 'm printer_loop_scheme \<Rightarrow> bool" where
  "printer_ready tid n s \<longleftrightarrow> loop_inv s \<and> timer_inv s \<and> expiring s = [] \<and> threadId s = tid \<and> pendingFunctors s = [] \<and> \<not> quit_flag s \<and>
     ep_registered (timerfdChannel s) s \<and> (\<exists>c. chans s (timerfdChannel s) = Some c \<and> readCallback c = Some TimerRead) \<and>
     (\<exists>w p t. timers s = [(w, p)] \<and> timerHeap s p = Some t \<and> tm_callback t = printAgain \<and> \<not> tm_repeat t) \<and>
     pr_count s = int n \<and> pr_out s = map int [0..<n]"

text \<open>The timer's part of it: who waits next, if anybody.\<close>

definition printer_waits :: "nat \<Rightarrow> 'm printer_loop_scheme \<Rightarrow> bool" where
  "printer_waits n s \<longleftrightarrow> (if n \<le> 5 then \<exists>w p t. timers s = [(w, p)] \<and> timerHeap s p = Some t \<and> tm_callback t = printAgain \<and> \<not> tm_repeat t
     else timers s = [])"

text \<open>What the printer's callback does while the timer that called it is being run.\<close>

lemma printer_prints:
  fixes s :: "'m printer_loop_scheme"
  assumes "timer_inv s" "timers s = []" "threadId s = tid" "pr_count s = int n" "n \<le> 5" "timerHeap s p = Some t" "\<not> quit_flag s"
  obtains s1 where "printer_call tid printAgain s = Inr s1" "timer_inv s1" "printer_waits (Suc n) s1" "timerHeap s1 p = Some t"
    "pr_count s1 = int (min 5 (Suc n))" "pr_out s1 = pr_out s @ (if n < 5 then [int n] else [])" "quit_flag s1 \<longleftrightarrow> n = 5"
    "s1 = s\<lparr>ticks := ticks s1, timerHeap := timerHeap s1, numCreated := numCreated s1, timers := timers s1, activeTimers := activeTimers s1,
       timerfdLog := timerfdLog s1, quit_flag := quit_flag s1, pr_count := pr_count s1, pr_out := pr_out s1\<rparr>"
proof (cases "n < 5")
  case True
  have l: "isInLoopThread tid s" using assms(3) by (simp add: isInLoopThread_def)
  obtain i s1 q w u where s1: "runAfter own_call tid 1 printAgain s = Inr (i, s1)" "timer_frame s s1" "timer_inv s1" "timers s1 = [(w, q)]"
    "timerHeap s1 q = Some u" "tm_callback u = printAgain" "\<not> tm_repeat u" "\<And>x. timerHeap s x \<noteq> None \<Longrightarrow> timerHeap s1 x = timerHeap s x"
    by (rule runAfter_only [OF assms(1) l assms(2)]) blast
  let ?s1 = "s1\<lparr>pr_count := int n + 1, pr_out := pr_out s @ [int n]\<rparr>"
  have "printer_call tid printAgain s = Inr ?s1" using s1(1) assms(4) True by (simp add: printer_call_def Printer_print_def)
  moreover have "timer_inv ?s1" using s1(3) timer_inv_cong(4) [of ?s1 s1] by simp
  moreover have "?s1 = s\<lparr>ticks := ticks s1, timerHeap := timerHeap s1, numCreated := numCreated s1, timers := timers s1, activeTimers := activeTimers s1,
       timerfdLog := timerfdLog s1, quit_flag := quit_flag s1, pr_count := pr_count ?s1, pr_out := pr_out ?s1\<rparr>"
    and "quit_flag s1 = quit_flag s"
    using s1(2) by (cases s; cases s1; simp add: timer_frame_def)+
  ultimately show thesis using s1(4-8) assms(6,7) True by (intro that [of ?s1]) (simp_all add: printer_waits_def)
next
  case False
  let ?s1 = "EventLoop_quit tid s"
  have l: "isInLoopThread tid (s\<lparr>quit_flag := True\<rparr>)" using assms(3) by (simp add: isInLoopThread_def)
  then have "?s1 = s\<lparr>quit_flag := True\<rparr>" by (simp add: EventLoop_quit_def)
  moreover have "printer_call tid printAgain s = Inr ?s1"
    using assms(4) False calculation by (cases s) (simp add: printer_call_def Printer_print_def)
  moreover have "timer_inv ?s1" using assms(1) by simp
  ultimately show thesis using False assms(2,4,5,6) by (intro that [of ?s1]) (simp_all add: printer_waits_def)
qed

text \<open>The timer's handler when the only timer is due: it is the printer's, which asks for the next one or quits.\<close>

lemma printer_handles:
  fixes s :: "'m printer_loop_scheme"
  assumes inv: "timer_inv s" and one: "timers s = [(w, p)]" "timerHeap s p = Some t" "tm_callback t = printAgain" "\<not> tm_repeat t"
    and w: "w < clock s (ticks s)" and st: "threadId s = tid" "pr_count s = int n" "pr_out s = map int [0..<n]" "\<not> quit_flag s" "n \<le> 5"
  obtains s' where "TimerQueue_handleRead (printer_call tid) s = Inr s'" "timer_inv s'" "expiring s' = []" "printer_waits (Suc n) s'"
    "pr_count s' = int (min 5 (Suc n))" "pr_out s' = map int [0..<min 5 (Suc n)]" "quit_flag s' \<longleftrightarrow> n = 5"
    "chans s' = chans s" "channelMap s' = channelMap s" "ctlLog s' = ctlLog s" "eventListSize s' = eventListSize s"
    "lp_this s' = lp_this s" "threadId s' = threadId s" "pendingFunctors s' = pendingFunctors s" "timerfdChannel s' = timerfdChannel s"
    "looping s' = looping s"
proof -
  let ?f = "firing (clock s (ticks s)) s"
  have f: "timers ?f = []" "timerHeap ?f p = Some t" "threadId ?f = tid" using one st(1) w by (simp_all add: firing_fields)
  have fr: "?f = s\<lparr>ticks := ticks ?f, timerfdLog := timerfdLog ?f, timers := timers ?f, activeTimers := activeTimers ?f,
      callingExpiredTimers := True, cancelingTimers := [], expiring := expiring ?f\<rparr>" by (cases s) (simp add: firing_def timers_taken_def readTimerfd_def)
  have "pr_count ?f = int n" "\<not> quit_flag ?f" "pr_out ?f = map int [0..<n]" using st by (subst fr; simp)+
  from printer_prints [OF firing_inv [OF inv] f(1,3) this(1) st(5) f(2) this(2)] this(3) obtain s3 where s3:
    "printer_call tid printAgain ?f = Inr s3" "timer_inv s3" "printer_waits (Suc n) s3" "timerHeap s3 p = Some t"
    "pr_count s3 = int (min 5 (Suc n))" "pr_out s3 = map int [0..<n] @ (if n < 5 then [int n] else [])" "quit_flag s3 \<longleftrightarrow> n = 5"
    "s3 = ?f\<lparr>ticks := ticks s3, timerHeap := timerHeap s3, numCreated := numCreated s3, timers := timers s3, activeTimers := activeTimers s3,
       timerfdLog := timerfdLog s3, quit_flag := quit_flag s3, pr_count := pr_count s3, pr_out := pr_out s3\<rparr>" by metis
  obtain s4 where s4: "TimerQueue_handleRead (printer_call tid) s = Inr (s4\<lparr>expiring := []\<rparr>)" "timer_frame (s3\<lparr>callingExpiredTimers := False\<rparr>) s4"
    "timer_inv (s4\<lparr>expiring := []\<rparr>)" "timers s4 = timers s3" "timerHeap s4 = timerHeap s3"
    by (rule handleRead_one [where call = "printer_call tid", OF inv one(1,2,4) w s3(1) [folded one(3)] s3(2,4)]) blast
  have a: "chans s4 = chans s3" "channelMap s4 = channelMap s3" "ctlLog s4 = ctlLog s3" "eventListSize s4 = eventListSize s3"
    "lp_this s4 = lp_this s3" "threadId s4 = threadId s3" "pendingFunctors s4 = pendingFunctors s3" "timerfdChannel s4 = timerfdChannel s3"
    "looping s4 = looping s3" "quit_flag s4 = quit_flag s3" "pr_count s4 = pr_count s3" "pr_out s4 = pr_out s3"
    using s4(2) by (cases s3; cases s4; simp add: timer_frame_def)+
  have b: "chans s3 = chans s" "channelMap s3 = channelMap s" "ctlLog s3 = ctlLog s" "eventListSize s3 = eventListSize s"
    "lp_this s3 = lp_this s" "threadId s3 = threadId s" "pendingFunctors s3 = pendingFunctors s" "timerfdChannel s3 = timerfdChannel s"
    "looping s3 = looping s"
    by (subst s3(8), subst fr, simp)+
  have "printer_waits (Suc n) (s4\<lparr>expiring := []\<rparr>)" using s3(3) s4(4,5)
    by (cases "n \<le> 4") (auto simp: printer_waits_def)
  moreover have "map int [0..<n] @ (if n < 5 then [int n] else []) = map int [0..<min 5 (Suc n)]" using st(5) by (cases "n = 5") simp_all
  ultimately show thesis using s4(1,3) s3(5-7) a b by (intro that [of "s4\<lparr>expiring := []\<rparr>"]) simp_all
qed

lemma printer_turn:
  fixes s :: "'m printer_loop_scheme"
  assumes ready: "printer_ready tid n s" and n: "n \<le> 5" and fired: "fst (hd (timers s)) < clock s (ticks s)"
  obtains s' where "loop_iteration (loop_channel_cb (printer_call tid)) call now (WaitReady [(POLLIN, timerfdChannel s)]) s = Inr s'"
    "n < 5 \<Longrightarrow> printer_ready tid (Suc n) s'" "n = 5 \<Longrightarrow> quit_flag s' \<and> pr_out s' = map int [0..<5]" "looping s' = looping s"
proof -
  let ?q = "timerfdChannel s"
  from ready obtain c w p t where c: "chans s ?q = Some c" "readCallback c = Some TimerRead" and r: "loop_inv s" "timer_inv s" "expiring s = []"
    "threadId s = tid" "pendingFunctors s = []" "\<not> quit_flag s" "ep_registered ?q s" "timers s = [(w, p)]" "timerHeap s p = Some t"
    "tm_callback t = printAgain" "\<not> tm_repeat t" "pr_count s = int n" "pr_out s = map int [0..<n]"
    by (auto simp: printer_ready_def)
  define d where "d = c\<lparr>ch_revents := POLLIN, eventHandling := True\<rparr>"
  obtain m s1 where s1: "s1 = (put_chan ?q d s)\<lparr>eventListSize := m, pollReturnTime := now\<rparr>" "loop_inv s1"
    and turn: "\<And>s'. loop_channel_cb (printer_call tid) now TimerRead s1 = Inr s' \<Longrightarrow> chans s' ?q = Some d \<Longrightarrow> pendingFunctors s' = [] \<Longrightarrow>
      loop_iteration (loop_channel_cb (printer_call tid)) call now (WaitReady [(POLLIN, ?q)]) s =
        Inr ((put_chan ?q (d\<lparr>eventHandling := False\<rparr>) s')\<lparr>callingPendingFunctors := False, pendingFunctors := []\<rparr>)"
    by (rule read_turn [OF r(1) c(1) r(7) c(2) d_def, where callC = "loop_channel_cb (printer_call tid)" and call = call and now = now]) blast
  have f1: "timers s1 = [(w, p)]" "timerHeap s1 p = Some t" "clock s1 = clock s" "ticks s1 = ticks s" "threadId s1 = tid"
    "pr_count s1 = int n" "pr_out s1 = map int [0..<n]" "\<not> quit_flag s1" "chans s1 ?q = Some d" "pendingFunctors s1 = []" "timerfdChannel s1 = ?q"
    "looping s1 = looping s"
    using r by (simp_all add: s1(1) put_chan_def)
  have i1: "timer_inv s1" using r(2) timer_inv_cong(4) [of s1 s] by (simp add: s1(1) put_chan_def)
  have w: "w < clock s1 (ticks s1)" using fired r(8) f1(3,4) by simp
  obtain s4 where s4: "TimerQueue_handleRead (printer_call tid) s1 = Inr s4" "timer_inv s4" "expiring s4 = []" "printer_waits (Suc n) s4"
    "pr_count s4 = int (min 5 (Suc n))" "pr_out s4 = map int [0..<min 5 (Suc n)]" "quit_flag s4 \<longleftrightarrow> n = 5"
    and f4: "chans s4 = chans s1" "channelMap s4 = channelMap s1" "ctlLog s4 = ctlLog s1" "eventListSize s4 = eventListSize s1"
    "lp_this s4 = lp_this s1" "threadId s4 = threadId s1" "pendingFunctors s4 = pendingFunctors s1" "timerfdChannel s4 = timerfdChannel s1"
    "looping s4 = looping s1"
    by (rule printer_handles [OF i1 f1(1,2) r(10,11) w f1(5-8) n])
  have inv4: "loop_inv s4" "ep_registered x s4 = ep_registered x s1" for x using loop_inv_cong [OF f4(1-5)] s1(2) by simp_all
  let ?s' = "(put_chan ?q (d\<lparr>eventHandling := False\<rparr>) s4)\<lparr>callingPendingFunctors := False, pendingFunctors := []\<rparr>"
  have run: "loop_iteration (loop_channel_cb (printer_call tid)) call now (WaitReady [(POLLIN, ?q)]) s = Inr ?s'"
    by (rule turn) (use s4(1) f4(1,7) f1(9,10) in \<open>simp_all add: loop_channel_cb_def\<close>)
  have "loop_inv (put_chan ?q (d\<lparr>eventHandling := False\<rparr>) s4)"
    by (rule loop_inv_same_chan [OF inv4(1), of _ d]) (use f4(1) f1(9) in simp_all)
  then have l': "loop_inv ?s'" using loop_inv_cong [of ?s' "put_chan ?q (d\<lparr>eventHandling := False\<rparr>) s4"] by simp
  have t': "timer_inv ?s'" using s4(2) timer_inv_cong(4) [of ?s' s4] by (simp add: put_chan_def)
  have reg: "ep_registered ?q ?s'" using r(7) inv4(2) by (simp add: ep_registered_def put_chan_def s1(1))
  have "printer_ready tid (Suc n) ?s'" if "n < 5"
    unfolding printer_ready_def
    using l' t' reg that f4 f1 s4(3-7) c(2) by (simp add: put_chan_def printer_waits_def d_def)
  moreover have "quit_flag ?s' \<and> pr_out ?s' = map int [0..<5]" if "n = 5"
    using that s4(6,7) by (simp add: put_chan_def)
  moreover have "looping ?s' = looping s" using f4(9) f1(12) by (simp add: put_chan_def)
  ultimately show thesis using run by (intro that [of ?s'])
qed

subsection \<open>Its runs\<close>

text \<open>
  Runs of the loop in which the timer descriptor becomes readable \<open>k\<close> times, each time after the time that it was set for,
  from the state in which \<open>loop()\<close> has been entered.
\<close>

inductive printer_runs :: "int \<Rightarrow> 'm printer_loop_scheme \<Rightarrow> nat \<Rightarrow> 'm printer_loop_scheme \<Rightarrow> bool" for tid s where
  enter: "printer_runs tid s 0 (s\<lparr>looping := True, quit_flag := False\<rparr>)"
| fire: "printer_runs tid s k s1 \<Longrightarrow> \<not> quit_flag s1 \<Longrightarrow> fst (hd (timers s1)) < clock s1 (ticks s1) \<Longrightarrow>
    loop_iteration (loop_channel_cb (printer_call tid)) call now (WaitReady [(POLLIN, timerfdChannel s1)]) s1 = Inr s2 \<Longrightarrow>
    printer_runs tid s (Suc k) s2"

lemma printer_runs_ok:
  assumes "printer_runs tid s k s'" "printer_ready tid 0 s"
  shows "k \<le> 6 \<and> (if k \<le> 5 then printer_ready tid k s' else quit_flag s' \<and> pr_out s' = map int [0..<5])"
  using assms
proof (induction rule: printer_runs.induct)
  case enter
  let ?s = "s\<lparr>looping := True, quit_flag := False\<rparr>"
  have "loop_inv ?s = loop_inv s" "ep_registered x ?s = ep_registered x s" "timer_inv ?s = timer_inv s" for x
    using loop_inv_cong [of ?s s] timer_inv_cong(4) [of ?s s] by simp_all
  with enter show ?case by (simp add: printer_ready_def)
next
  case (fire k s1 call now s2)
  then have k: "k \<le> 5" "printer_ready tid k s1" by (auto split: if_splits)
  obtain s' where "loop_iteration (loop_channel_cb (printer_call tid)) call now (WaitReady [(POLLIN, timerfdChannel s1)]) s1 = Inr s'"
    "k < 5 \<Longrightarrow> printer_ready tid (Suc k) s'" "k = 5 \<Longrightarrow> quit_flag s' \<and> pr_out s' = map int [0..<5]"
    by (rule printer_turn [OF k(2,1) fire.hyps(3), where call = call and now = now]) blast
  with fire.hyps(4) k(1) show ?case by (cases "k = 5") simp_all
qed

text \<open>What \<open>main\<close> hands to the loop.\<close>

lemma printer_starts:
  fixes s :: "'m printer_loop_scheme"
  assumes "chans s = (\<lambda>_. None)" and "heap_ok s" and "0 \<le> tfd" and "0 \<le> wfd" and "tfd \<noteq> wfd" and "tq \<noteq> wq"
  obtains s1 where "printer_main this tid epfd tfd tq wfd wq u s = Inr s1" "printer_ready tid 0 s1" "\<not> looping s1" "timerfdChannel s1 = tq"
    "fst (hd (timers s1)) = addTime (clock s (ticks s)) 1"
proof -
  obtain s1 where s1: "EventLoop_construct this tid epfd tfd tq wfd wq u s = Inr s1" "loop_inv s1"
    "poll_frame (loop_made this tid epfd tfd tq wfd wq s) s1"
    "ep_registered tq s1" "\<exists>c. chans s1 tq = Some c \<and> readCallback c = Some TimerRead"
    by (rule EventLoop_construct_ok [OF assms(1,3-6)]) blast
  note tm = loop_made_timers [OF s1(3) assms(2)]
  have f1: "threadId s1 = tid" "pendingFunctors s1 = []" "\<not> quit_flag s1" "timerfdChannel s1 = tq" "\<not> looping s1"
    using s1(3) by (cases s; cases s1; simp add: poll_frame_def)+
  let ?s = "s1\<lparr>pr_count := 0, pr_out := []\<rparr>"
  have inv: "timer_inv ?s" "isInLoopThread tid ?s" "timers ?s = []"
    using tm timer_inv_cong(4) [of ?s s1] by (simp_all add: isInLoopThread_def)
  obtain i s2 p w t where s2: "runAfter own_call tid 1 printAgain ?s = Inr (i, s2)" "timer_frame ?s s2" "timer_inv s2" "timers s2 = [(w, p)]"
    "timerHeap s2 p = Some t" "tm_callback t = printAgain" "\<not> tm_repeat t" "expiring s2 = expiring ?s" "w = addTime (clock ?s (ticks ?s)) 1"
    by (rule runAfter_only [OF inv]) blast
  have f2: "chans s2 = chans s1" "channelMap s2 = channelMap s1" "ctlLog s2 = ctlLog s1" "eventListSize s2 = eventListSize s1" "lp_this s2 = lp_this s1"
    "threadId s2 = threadId s1" "pendingFunctors s2 = pendingFunctors s1" "quit_flag s2 = quit_flag s1" "timerfdChannel s2 = timerfdChannel s1"
    "looping s2 = looping s1" "pr_count s2 = 0" "pr_out s2 = []"
    using s2(2) by (cases s1; cases s2; simp add: timer_frame_def)+
  have "printer_ready tid 0 s2"
    unfolding printer_ready_def
    using loop_inv_cong(1,2) [OF f2(1-5)] s1(2,4,5) s2(3-8) f1 f2 tm(4) by simp
  moreover have "printer_main this tid epfd tfd tq wfd wq u s = Inr s2" using s1(1) s2(1) by (simp add: printer_main_def Printer_new_def)
  ultimately show thesis using f1 f2 s2(4,9) tm(7,8) by (intro that [of s2]) simp_all
qed

subsection \<open>Two loops\<close>

text \<open>
  The program of \<open>timer5.cpp\<close> reaches \<open>loop.loop()\<close> with its first timer in the queue of its own loop and the second on its way to
  the other; from there on the callbacks of the two threads print the ten values of the counter in order however they
  interleave, and only the first loop is asked to quit.
\<close>

lemma timer5_program:
  assumes "chans s = (\<lambda>_. None)" "heap_ok s" "0 \<le> tfd" "0 \<le> wfd" "tfd \<noteq> wfd" "tq \<noteq> wq"
    and "chans s' = (\<lambda>_. None)" "heap_ok s'" "0 \<le> tfd'" "0 \<le> wfd'" "tfd' \<noteq> wfd'" "tq' \<noteq> wq'" and "tid' \<noteq> tid"
  obtains pr p where "timer5_main tid this epfd tfd tq wfd wq u s tid' this' epfd' tfd' tq' wfd' wq' u' s' = Inr pr"
    "timers (loop2 pr) = []" "pendingFunctors (loop2 pr) = [AddTimerInLoop p]"
    "\<And>calls. \<exists>pr'. foldR timer5_print calls pr = Inr pr' \<and> printed pr' = [0..min 10 (int (length calls)) - 1] \<and>
      (quit_flag (loop1 pr') \<longleftrightarrow> 10 < length calls) \<and> \<not> quit_flag (loop2 pr')"
proof -
  obtain l1 where l1: "EventLoop_construct this tid epfd tfd tq wfd wq u s = Inr l1" "poll_frame (loop_made this tid epfd tfd tq wfd wq s) l1"
    by (rule EventLoop_construct_ok [OF assms(1,3-6)]) blast
  obtain l2 where l2: "EventLoop_construct this' tid' epfd' tfd' tq' wfd' wq' u' s' = Inr l2"
    "poll_frame (loop_made this' tid' epfd' tfd' tq' wfd' wq' s') l2"
    by (rule EventLoop_construct_ok [OF assms(7,9-12)]) blast
  have f: "threadId l1 = tid" "\<not> quit_flag l1" using l1(2) by (cases s; cases l1; simp add: poll_frame_def)+
  have g: "threadId l2 \<noteq> tid" "\<not> quit_flag l2" "pendingFunctors l2 = []"
    using l2(2) assms(13) by (cases s'; cases l2; simp add: poll_frame_def)+
  note tm = loop_made_timers [OF l1(2) assms(2)] loop_made_timers [OF l2(2) assms(8)]
  from printers_share_counter [OF tm(1,9) f(1) g(1) f(2) g(2)] obtain pr p where "timer5_new tid l1 l2 = Inr pr" "timers (loop2 pr) = timers l2"
    "pendingFunctors (loop2 pr) = pendingFunctors l2 @ [AddTimerInLoop p]"
    "\<forall>calls. \<exists>s'. foldR timer5_print calls pr = Inr s' \<and> printed s' = [0..min 10 (int (length calls)) - 1] \<and>
      (quit_flag (loop1 s') \<longleftrightarrow> 10 < length calls) \<and> \<not> quit_flag (loop2 s')" by blast
  with l1(1) l2(1) g(3) tm(11) show thesis by (intro that [of pr p]) (simp_all add: timer5_main_def)
qed

subsection \<open>Properties\<close>

text \<open>
  C17: The programs of \<open>timer2.cpp\<close> and \<open>timer3.cpp\<close>, from the construction of their loop on.  Each reaches \<open>loop()\<close> with its first timer armed.
  Whenever the timer fires \<open>n \<le> 5\<close> times, later each time than it was set for, nothing has failed, the numbers below \<open>n\<close>
  have been printed, and the loop runs on with the next timer in the queue, whose event can be handled in its turn; with the
  sixth firing, and only then, the loop has been asked to quit, and nothing more is printed.
\<close>

theorem printer_program:
  fixes s :: "'m printer_loop_scheme"
  assumes "chans s = (\<lambda>_. None)" and "heap_ok s" and "0 \<le> tfd" and "0 \<le> wfd" and "tfd \<noteq> wfd" and "tq \<noteq> wq"
  shows "\<exists>s1. printer_main this tid epfd tfd tq wfd wq u s = Inr s1 \<and> timer2_main this tid epfd tfd tq wfd wq u s = Inr s1 \<and>
    \<not> looping s1 \<and> fst (hd (timers s1)) = addTime (clock s (ticks s)) 1 \<and>
    (\<forall>n s'. printer_runs tid s1 n s' \<longrightarrow> n \<le> 6 \<and> pr_out s' = map int [0..<min 5 n] \<and> (quit_flag s' \<longleftrightarrow> n = 6) \<and>
      (n < 6 \<longrightarrow> timers s' \<noteq> [] \<and>
        (\<forall>call now. fst (hd (timers s')) < clock s' (ticks s') \<longrightarrow>
          (\<exists>s2. loop_iteration (loop_channel_cb (printer_call tid)) call now (WaitReady [(POLLIN, timerfdChannel s')]) s' = Inr s2))))"
proof -
  obtain s1 where s1: "printer_main this tid epfd tfd tq wfd wq u s = Inr s1" "printer_ready tid 0 s1" "\<not> looping s1"
    "fst (hd (timers s1)) = addTime (clock s (ticks s)) 1"
    by (rule printer_starts [OF assms, where this = this and tid = tid and epfd = epfd and u = u]) blast
  have "n \<le> 6 \<and> pr_out s' = map int [0..<min 5 n] \<and> (quit_flag s' \<longleftrightarrow> n = 6) \<and>
      (n < 6 \<longrightarrow> timers s' \<noteq> [] \<and>
        (\<forall>call now. fst (hd (timers s')) < clock s' (ticks s') \<longrightarrow>
          (\<exists>s2. loop_iteration (loop_channel_cb (printer_call tid)) call now (WaitReady [(POLLIN, timerfdChannel s')]) s' = Inr s2)))"
    if "printer_runs tid s1 n s'" for n s'
  proof (cases "n \<le> 5")
    case True
    with printer_runs_ok [OF that s1(2)] have r: "printer_ready tid n s'" by simp
    then have "pr_out s' = map int [0..<n]" "\<not> quit_flag s'" "timers s' \<noteq> []" by (auto simp: printer_ready_def)
    moreover have "\<exists>s2. loop_iteration (loop_channel_cb (printer_call tid)) call now (WaitReady [(POLLIN, timerfdChannel s')]) s' = Inr s2"
      if "fst (hd (timers s')) < clock s' (ticks s')" for call now
      by (rule printer_turn [OF r True that, where call = call and now = now]) blast
    ultimately show ?thesis using True by (simp add: min_def)
  next
    case False
    with printer_runs_ok [OF that s1(2)] show ?thesis by auto
  qed
  moreover have "timer2_main this tid epfd tfd tq wfd wq u s = Inr s1"
    using s1(1) by (simp add: timer2_main_def printer_main_def Printer_new_def [abs_def])
  ultimately show ?thesis using s1(1,3,4) by blast
qed

subsection \<open>Witness\<close>

definition pl_demo :: printer_loop where
  "pl_demo = timer_state.extend tq_demo \<lparr>pr_count = 7, pr_out = []\<rparr>"

theorem printer_program_witness:
  "\<exists>s1 s2. printer_main 0 1 3 4 2 5 3 False pl_demo = Inr s1 \<and> printer_runs 1 s1 0 s2 \<and> pr_out s2 = [] \<and> \<not> quit_flag s2 \<and> timers s2 \<noteq> []"
proof -
  have h: "chans pl_demo = (\<lambda>_. None)" "heap_ok pl_demo" "(0::int) \<le> 4" "(0::int) \<le> 5" "(4::int) \<noteq> 5" "(2::nat) \<noteq> 3"
    by (auto simp: pl_demo_def timer_state.defs tq_demo_def heap_ok_def split: if_splits)
  from printer_program [OF h, of 0 1 3 False] obtain s1 where s1: "printer_main 0 1 3 4 2 5 3 False pl_demo = Inr s1"
    "\<And>n s'. printer_runs 1 s1 n s' \<Longrightarrow> pr_out s' = map int [0..<min 5 n] \<and> (quit_flag s' \<longleftrightarrow> n = 6) \<and> (n < 6 \<longrightarrow> timers s' \<noteq> [])"
    by blast
  from s1(2) [OF printer_runs.enter] s1(1) printer_runs.enter [of 1 s1] show ?thesis by fastforce
qed

end
