(* ===== verification/CommandLine.thy ===== *)
theory CommandLine
  imports Prelude
begin

section \<open>Arguments of the command line\<close>

text \<open>
  What the \<open>main\<close> functions of the examples do with \<open>argv\<close>: a program that is called with too few arguments prints its usage
  and returns; otherwise numbers are read with \<open>atoi\<close>, and ports are cast to \<open>uint16_t\<close>.
\<close>

subsection \<open>atoi\<close>

definition c_isspace :: "char \<Rightarrow> bool" where
  "c_isspace c \<longleftrightarrow> (of_char c :: nat) \<in> {9, 10, 11, 12, 13, 32}"

definition c_isdigit :: "char \<Rightarrow> bool" where
  "c_isdigit c \<longleftrightarrow> 48 \<le> (of_char c :: nat) \<and> (of_char c :: nat) \<le> 57"

text \<open>The value of the digits at the front, and what \<open>int\<close> holds.\<close>

fun digits_value :: "nat \<Rightarrow> string \<Rightarrow> nat" where
  "digits_value v [] = v"
| "digits_value v (c # cs) = (if c_isdigit c then digits_value (10 * v + (of_char c - 48)) cs else v)"

definition int_fits :: "int \<Rightarrow> bool" where
  "int_fits i \<longleftrightarrow> - (2 ^ 31) \<le> i \<and> i < 2 ^ 31"

definition int_value :: "int \<Rightarrow> int res" where
  "int_value i = (if int_fits i then Inr i else Inl UndefinedBehaviour)"

definition atoi :: "string \<Rightarrow> int res" where
  "atoi str =
     (case dropWhile c_isspace str of
        [] \<Rightarrow> Inr 0
      | c # cs \<Rightarrow>
          if c = CHR ''-'' then int_value (- int (digits_value 0 cs))
          else if c = CHR ''+'' then int_value (int (digits_value 0 cs))
          else int_value (int (digits_value 0 (c # cs))))"

text \<open>\<open>argv[i]\<close>, a number in it, and a port: \<open>static_cast<uint16_t>(atoi(argv[i]))\<close>.\<close>

definition arg :: "string list \<Rightarrow> nat \<Rightarrow> string res" where
  "arg argv i = (if i < length argv then Inr (argv ! i) else Inl OutOfBounds)"

definition int_arg :: "string list \<Rightarrow> nat \<Rightarrow> int res" where
  "int_arg argv i = bindR (arg argv i) atoi"

definition port_arg :: "string list \<Rightarrow> nat \<Rightarrow> 16 word res" where
  "port_arg argv i = bindR (int_arg argv i) (\<lambda>n. Inr (word_of_int n))"

text \<open>How \<open>main\<close> comes to its loop, or returns before it.\<close>

datatype 'a program = Exits int | Runs 'a

subsection \<open>Printed numbers are read back\<close>

lemma digit_char_code: "d < 10 \<Longrightarrow> (of_char (digit_char d) :: nat) = 48 + d"
  by (simp add: digit_char_def)

lemma digits_value_append:
  "\<forall>c \<in> set cs. c_isdigit c \<Longrightarrow> digits_value v (cs @ ds) = digits_value (digits_value v cs) ds"
  by (induction cs arbitrary: v) simp_all

lemma digits_value_junk: "junk = [] \<or> \<not> c_isdigit (hd junk) \<Longrightarrow> digits_value v junk = v"
  by (cases junk) simp_all

lemma show_nat_digits: "c \<in> set (show_nat n) \<Longrightarrow> c_isdigit c"
proof (induction n rule: show_nat.induct)
  case (1 n)
  show ?case
    using "1.prems" "1.IH" by (subst (asm) show_nat.simps) (auto simp: c_isdigit_def digit_char_code split: if_splits)
qed

lemma digits_value_show: "digits_value 0 (show_nat n) = n"
proof (induction n rule: show_nat.induct)
  case (1 n)
  show ?case
  proof (cases "n < 10")
    case True
    then show ?thesis by (simp add: show_nat.simps [of n] c_isdigit_def digit_char_code)
  next
    case False
    have "\<forall>c \<in> set (show_nat (n div 10)). c_isdigit c" using show_nat_digits by blast
    with 1 [OF False] False show ?thesis
      by (simp add: show_nat.simps [of n] digits_value_append c_isdigit_def digit_char_code)
  qed
qed

lemma digits_value_printed:
  "junk = [] \<or> \<not> c_isdigit (hd junk) \<Longrightarrow> digits_value 0 (show_nat n @ junk) = n"
  using show_nat_digits [of _ n] by (simp add: digits_value_append digits_value_show digits_value_junk)

lemma digit_no_sign:
  "c_isdigit c \<Longrightarrow> \<not> c_isspace c" "c_isdigit c \<Longrightarrow> c \<noteq> CHR ''-''" "c_isdigit c \<Longrightarrow> c \<noteq> CHR ''+''"
  by (auto simp: c_isdigit_def c_isspace_def)

text \<open>Whatever white space comes before the number and whatever comes after its digits.\<close>

lemma atoi_show:
  assumes "int_fits i" "\<forall>c \<in> set sp. c_isspace c" "junk = [] \<or> \<not> c_isdigit (hd junk)"
  shows "atoi (sp @ show_int i @ junk) = Inr i"
proof (cases "i < 0")
  case True
  have "\<not> c_isspace (CHR ''-'')" by (simp add: c_isspace_def)
  then have "dropWhile c_isspace (sp @ show_int i @ junk) = CHR ''-'' # show_nat (nat (- i)) @ junk"
    using assms(2) True by (simp add: dropWhile_append2 show_int_def)
  then show ?thesis using assms(1,3) True by (simp add: atoi_def digits_value_printed int_value_def)
next
  case False
  obtain c cs where c: "show_nat (nat i) = c # cs" by (cases "show_nat (nat i)") auto
  then have d: "c_isdigit c" using show_nat_digits [of c "nat i"] by simp
  have "dropWhile c_isspace (sp @ show_int i @ junk) = c # cs @ junk"
    using assms(2) False c digit_no_sign(1) [OF d] by (simp add: dropWhile_append2 show_int_def)
  moreover have "digits_value 0 (c # cs @ junk) = nat i" using digits_value_printed [OF assms(3), of "nat i"] c by simp
  ultimately show ?thesis
    using assms(1) False digit_no_sign(2,3) [OF d] by (simp add: atoi_def int_value_def del: digits_value.simps)
qed

lemma atoi_show_int [simp]: "int_fits i \<Longrightarrow> atoi (show_int i) = Inr i"
  using atoi_show [of i "[]" "[]"] by simp

lemma atoi_too_big: "\<not> int_fits i \<Longrightarrow> atoi (show_int i) = Inl UndefinedBehaviour"
proof (cases "i < 0")
  case True
  assume "\<not> int_fits i"
  moreover have "\<not> c_isspace (CHR ''-'')" by (simp add: c_isspace_def)
  ultimately show ?thesis using True digits_value_show by (simp add: atoi_def show_int_def int_value_def)
next
  case False
  assume "\<not> int_fits i"
  obtain c cs where c: "show_nat (nat i) = c # cs" by (cases "show_nat (nat i)") auto
  then have d: "c_isdigit c" using show_nat_digits [of c "nat i"] by simp
  from \<open>\<not> int_fits i\<close> False c digit_no_sign [OF d] digits_value_show [of "nat i"] show ?thesis
    by (simp add: atoi_def show_int_def int_value_def del: digits_value.simps)
qed

lemma int_arg_nth [simp]: "i < length argv \<Longrightarrow> int_arg argv i = atoi (argv ! i)"
  by (simp add: int_arg_def arg_def)

lemma port_arg_nth [simp]: "i < length argv \<Longrightarrow> atoi (argv ! i) = Inr n \<Longrightarrow> port_arg argv i = Inr (word_of_int n)"
  by (simp add: port_arg_def)

end
