(* ===== verification/Bench.thy ===== *)
theory Bench
  imports CommandLine "HOL-Library.Signed_Division"
begin

section \<open>The ping-pong benchmark\<close>

text \<open>
  \<open>examples/pingpong/bench.cpp\<close>: bytes go round a ring of socket pairs until a number of writes has been
  made.  \<open>pending ! i\<close> counts the bytes that wait at the reading end of pair \<open>i\<close>, the descriptor \<open>g_pipes[2 * i]\<close>;
  the bytes are written to \<open>g_pipes[2 * i + 1]\<close>.  The sockets block: \<open>pairRoom\<close> is the number of one-byte messages that the kernel
  holds for a pair, and since only this thread reads, a \<open>send\<close> to a pair that is full, or a \<open>recv\<close> from an empty one, never returns.
  The counters are signed 32-bit integers, whose overflow is undefined.
\<close>

record bench =
  numPipes :: int
  numActive :: int
  numWrites :: int
  pairRoom :: nat
  pending :: "nat list"
  g_reads :: int
  g_writes :: int
  g_fired :: int
  g_quit :: bool

text \<open>\<open>send\<close> of one byte to \<open>g_pipes[j]\<close>: what is sent to the reading end goes the other way and is never read.\<close>

definition bench_send :: "int \<Rightarrow> bench \<Rightarrow> bench res" where
  "bench_send j b =
     (if 0 \<le> j \<and> j < 2 * int (length (pending b))
      then let i = nat (j div 2) in
        if odd j then
          if pending b ! i < pairRoom b then Inr (b\<lparr>pending := (pending b)[i := pending b ! i + 1]\<rparr>) else Inl NeverReturns
        else Inr b
      else Inl OutOfBounds)"

text \<open>\<open>recv\<close> of one byte from the reading end of a pair.\<close>

definition bench_recv :: "nat \<Rightarrow> bench \<Rightarrow> bench res" where
  "bench_recv idx b =
     (if pending b ! idx = 0 then Inl NeverReturns else Inr (b\<lparr>pending := (pending b)[idx := pending b ! idx - 1]\<rparr>))"

text \<open>The callback, and what it does after the byte has been read and counted.\<close>

definition bench_pass :: "nat \<Rightarrow> bench \<Rightarrow> bench res" where
  "bench_pass idx b =
     bindR (if 0 < g_writes b then
              let widx = int idx + 1; widx1 = (if numPipes b \<le> widx then widx - numPipes b else widx) in
              bindR (bench_send (2 * widx1 + 1) b) (\<lambda>b1.
              bindR (int_value (g_fired b1 + 1)) (\<lambda>fired.
                Inr (b1\<lparr>g_writes := g_writes b1 - 1, g_fired := fired\<rparr>)))
            else Inr b) (\<lambda>b1.
       Inr (if g_fired b1 = g_reads b1 then b1\<lparr>g_quit := True\<rparr> else b1))"

definition bench_readCallback :: "nat \<Rightarrow> bench \<Rightarrow> bench res" where
  "bench_readCallback idx b =
     bindR (bench_recv idx b) (\<lambda>b1.
     bindR (int_value (g_reads b1 + 1)) (\<lambda>reads. bench_pass idx (b1\<lparr>g_reads := reads\<rparr>)))"

text \<open>\<open>runOnce\<close> up to the call of \<open>loop()\<close>, which clears the flag when it starts.\<close>

definition bench_start :: "bench \<Rightarrow> bench res" where
  "bench_start b =
     (if numActive b = 0 then Inl DivisionByZero
      else
        (let space = (numPipes b sdiv numActive b) * 2 in
         bindR (foldR (\<lambda>i. bench_send (int i * space + 1)) [0..<nat (numActive b)] b) (\<lambda>b1.
           Inr (b1\<lparr>g_fired := numActive b1, g_reads := 0, g_writes := numWrites b1, g_quit := False\<rparr>))))"

text \<open>The benchmark after \<open>main\<close> has read its options and made the socket pairs.\<close>

definition bench_new :: "nat \<Rightarrow> int \<Rightarrow> int \<Rightarrow> int \<Rightarrow> bench" where
  "bench_new room n a w = \<lparr>numPipes = n, numActive = a, numWrites = w, pairRoom = room, pending = replicate (nat n) 0,
     g_reads = 0, g_writes = 0, g_fired = 0, g_quit = False\<rparr>"

text \<open>The loop: \<open>bench_steps b k b'\<close> if \<open>k\<close> read events, each at a pair that is readable, lead from \<open>b\<close> to \<open>b'\<close>.\<close>

inductive bench_steps :: "bench \<Rightarrow> nat \<Rightarrow> bench \<Rightarrow> bool" where
  start: "bench_steps b 0 b"
| event: "bench_steps b k b1 \<Longrightarrow> i < length (pending b1) \<Longrightarrow> 0 < pending b1 ! i \<Longrightarrow> bench_readCallback i b1 = Inr b2 \<Longrightarrow>
    bench_steps b (Suc k) b2"

subsection \<open>Every run ends\<close>

lemma sum_list_incr: "i < length xs \<Longrightarrow> sum_list (xs[i := xs ! i + 1]) = sum_list xs + (1::nat)"
  using elem_le_sum_list [of i xs] by (simp add: sum_list_update)

lemma sum_list_decr: "i < length xs \<Longrightarrow> 0 < xs ! i \<Longrightarrow> sum_list (xs[i := xs ! i - 1]) = sum_list xs - (1::nat)"
  using elem_le_sum_list [of i xs] by (simp add: sum_list_update)

text \<open>
  After \<open>k\<close> events of a run with \<open>n\<close> pairs, \<open>a\<close> bytes at the start and \<open>w\<close> further writes, where a negative number counts as none.
  There are never more than \<open>a\<close> bytes under way, so none of the pairs can be full if each has room for as many.
\<close>

definition bench_inv :: "nat \<Rightarrow> nat \<Rightarrow> int \<Rightarrow> nat \<Rightarrow> bench \<Rightarrow> bool" where
  "bench_inv n a w k b \<longleftrightarrow> k \<le> a + nat w \<and> numPipes b = int n \<and> length (pending b) = n \<and> g_reads b = int k \<and>
     g_writes b = w - int (min k (nat w)) \<and> g_fired b = int (a + min k (nat w)) \<and> sum_list (pending b) = a + min k (nat w) - k \<and>
     (g_quit b \<longleftrightarrow> k = a + nat w) \<and> a \<le> pairRoom b \<and> int_fits (int (a + nat w))"

lemma bench_sent:
  assumes "odd j" "0 \<le> j" "j < 2 * int (length (pending b))" "sum_list (pending b) < pairRoom b"
  shows "\<exists>b'. bench_send j b = Inr b' \<and> length (pending b') = length (pending b) \<and>
    sum_list (pending b') = sum_list (pending b) + 1 \<and> b'\<lparr>pending := pending b\<rparr> = b"
proof -
  have i: "nat (j div 2) < length (pending b)" using assms by auto
  have "pending b ! nat (j div 2) < pairRoom b" using elem_le_sum_list [OF i] assms(4) by simp
  with sum_list_incr [OF i] assms show ?thesis by (simp add: bench_send_def Let_def)
qed

lemma pending_updD:
  "b'\<lparr>pending := pending b\<rparr> = b \<Longrightarrow> numPipes b' = numPipes b \<and> numActive b' = numActive b \<and> numWrites b' = numWrites b \<and>
     pairRoom b' = pairRoom b \<and> g_reads b' = g_reads b \<and> g_writes b' = g_writes b \<and> g_fired b' = g_fired b \<and> g_quit b' = g_quit b"
  by (cases b; cases b') simp

lemma bench_event:
  assumes inv: "bench_inv n a w k b" and i: "i < length (pending b)" "0 < pending b ! i" and a: "0 < a"
  shows "\<exists>b'. bench_readCallback i b = Inr b' \<and> bench_inv n a w (Suc k) b'"
proof -
  have "0 < sum_list (pending b)" using elem_le_sum_list [OF i(1)] i(2) by simp
  then have k: "k < a + nat w" using inv by (auto simp: bench_inv_def)
  let ?b1 = "b\<lparr>pending := (pending b)[i := pending b ! i - 1], g_reads := int k + 1\<rparr>"
  have fits: "int_fits (int k + 1)" "k < nat w \<Longrightarrow> int_fits (int (a + k) + 1)"
  proof -
    have lim: "int (a + nat w) < 2 ^ 31" using inv by (simp add: bench_inv_def int_fits_def)
    have "int k + 1 \<le> int (a + nat w)" using k by linarith
    with lim show "int_fits (int k + 1)" unfolding int_fits_def by linarith
    assume "k < nat w"
    then have "int (a + k) + 1 \<le> int (a + nat w)" by linarith
    with lim show "int_fits (int (a + k) + 1)" unfolding int_fits_def by linarith
  qed
  have read: "bench_readCallback i b = bench_pass i ?b1"
    using inv i(2) fits(1) by (simp add: bench_readCallback_def bench_recv_def int_value_def bench_inv_def)
  have b1: "length (pending ?b1) = n" "sum_list (pending ?b1) = a + min k (nat w) - Suc k" "numPipes ?b1 = int n"
    "g_writes ?b1 = w - int (min k (nat w))" "g_fired ?b1 = int (a + min k (nat w))" "g_reads ?b1 = int (Suc k)" "g_quit ?b1 = False"
    "a \<le> pairRoom ?b1" "int_fits (int (a + nat w))"
    using inv i k sum_list_decr [OF i] by (simp_all add: bench_inv_def)
  show ?thesis
  proof (cases "k < nat w")
    case True
    define widx where "widx = (if int n \<le> int i + 1 then int i + 1 - int n else int i + 1)"
    have "odd (2 * widx + 1)" "0 \<le> 2 * widx + 1" "2 * widx + 1 < 2 * int (length (pending ?b1))"
      using i(1) b1(1) inv by (auto simp: widx_def bench_inv_def)
    moreover have "sum_list (pending ?b1) < pairRoom ?b1" using b1(2,8) a by linarith
    ultimately obtain b2 where b2: "bench_send (2 * widx + 1) ?b1 = Inr b2" "length (pending b2) = n"
      "sum_list (pending b2) = sum_list (pending ?b1) + 1" "b2\<lparr>pending := pending ?b1\<rparr> = ?b1" using bench_sent b1(1) by metis
    note same = pending_updD [OF b2(4)]
    let ?b3 = "b2\<lparr>g_writes := g_writes b2 - 1, g_fired := g_fired b2 + 1\<rparr>"
    have gf: "int_value (g_fired b2 + 1) = Inr (g_fired b2 + 1)" using fits(2) [OF True] same b1(5) True by (simp add: int_value_def)
    have "0 < g_writes ?b1" using b1(4) True by simp
    then have "bench_pass i ?b1 = bindR (bindR (bench_send (2 * widx + 1) ?b1) (\<lambda>b1.
          bindR (int_value (g_fired b1 + 1)) (\<lambda>fired. Inr (b1\<lparr>g_writes := g_writes b1 - 1, g_fired := fired\<rparr>))))
        (\<lambda>b1. Inr (if g_fired b1 = g_reads b1 then b1\<lparr>g_quit := True\<rparr> else b1))"
      using b1(3) by (simp add: bench_pass_def Let_def widx_def)
    then have "bench_readCallback i b = Inr (if g_fired ?b3 = g_reads ?b3 then ?b3\<lparr>g_quit := True\<rparr> else ?b3)"
      unfolding read using b2(1) gf by simp
    moreover have "g_fired ?b3 \<noteq> g_reads ?b3" using same b1(5,6) True a by auto
    moreover have "bench_inv n a w (Suc k) ?b3"
      using same b1 b2(2,3) True k a by (auto simp: bench_inv_def)
    ultimately show ?thesis by simp
  next
    case False
    then have "\<not> 0 < g_writes ?b1" using b1(4) by simp
    then have run: "bench_readCallback i b = Inr (if g_fired ?b1 = g_reads ?b1 then ?b1\<lparr>g_quit := True\<rparr> else ?b1)"
      unfolding read by (simp add: bench_pass_def)
    show ?thesis
      unfolding run using b1 False k by (auto simp: bench_inv_def)
  qed
qed

lemma bench_sends:
  assumes "\<forall>i \<in> set is. int i * space + 1 < 2 * int (length (pending b))" "even space" "0 \<le> space"
    "sum_list (pending b) + length is \<le> pairRoom b"
  shows "\<exists>b'. foldR (\<lambda>i. bench_send (int i * space + 1)) is b = Inr b' \<and> length (pending b') = length (pending b) \<and>
    sum_list (pending b') = sum_list (pending b) + length is \<and> b'\<lparr>pending := pending b\<rparr> = b"
  using assms
proof (induction "is" arbitrary: b)
  case (Cons i js)
  have "odd (int i * space + 1)" "0 \<le> int i * space + 1" "int i * space + 1 < 2 * int (length (pending b))"
    "sum_list (pending b) < pairRoom b" using Cons.prems by simp_all
  from bench_sent [OF this] obtain b1 where b1: "bench_send (int i * space + 1) b = Inr b1" "length (pending b1) = length (pending b)"
    "sum_list (pending b1) = sum_list (pending b) + 1" "b1\<lparr>pending := pending b\<rparr> = b" by blast
  have "\<forall>i \<in> set js. int i * space + 1 < 2 * int (length (pending b1))" "sum_list (pending b1) + length js \<le> pairRoom b1"
    using Cons.prems(1,4) b1(2,3) pending_updD [OF b1(4)] by simp_all
  from Cons.IH [OF this(1) Cons.prems(2,3) this(2)] obtain b2 where "foldR (\<lambda>i. bench_send (int i * space + 1)) js b1 = Inr b2"
    "length (pending b2) = length (pending b1)" "sum_list (pending b2) = sum_list (pending b1) + length js"
    "b2\<lparr>pending := pending b1\<rparr> = b1" by blast
  with b1 show ?case by (cases b; cases b1; cases b2) auto
qed simp

text \<open>With more active pairs than pairs the space is zero, all bytes go to the first pair, and the send that finds it full never returns.\<close>

lemma bench_fills:
  assumes "pending b \<noteq> []" "pending b ! 0 + m = pairRoom b" "m < length is"
  shows "foldR (\<lambda>i. bench_send (int i * 0 + 1)) is b = Inl NeverReturns"
  using assms
proof (induction m arbitrary: b "is")
  case 0
  then obtain i js where "is = i # js" by (cases "is") auto
  with 0 show ?case by (cases "pending b") (simp_all add: bench_send_def)
next
  case (Suc m)
  then obtain i js where js: "is = i # js" by (cases "is") auto
  let ?b = "b\<lparr>pending := (pending b)[0 := pending b ! 0 + 1]\<rparr>"
  have "bench_send 1 b = Inr ?b" using Suc.prems by (cases "pending b") (simp_all add: bench_send_def)
  moreover have "foldR (\<lambda>i. bench_send (int i * 0 + 1)) js ?b = Inl NeverReturns"
    by (rule Suc.IH) (use Suc.prems js in simp_all)
  ultimately show ?case by (simp add: js)
qed

lemma bench_start_blocks:
  assumes "0 < n" "n < a" "room < a" "numPipes b = int n" "numActive b = int a" "pairRoom b = room" "pending b = replicate n 0"
  shows "bench_start b = Inl NeverReturns"
proof -
  have "int n sdiv int a = 0" using assms(1,2) by (simp add: signed_divide_int_def)
  moreover have "foldR (\<lambda>i. bench_send (int i * 0 + 1)) [0..<nat (int a)] b = Inl NeverReturns"
    by (rule bench_fills [of _ room]) (use assms in simp_all)
  ultimately show ?thesis using assms by (simp add: bench_start_def)
qed

lemma bench_started:
  assumes n: "0 < n" and a: "0 < a" "a \<le> pairRoom b" "int_fits (int (a + nat w))"
    and b: "numPipes b = int n" "numActive b = int a" "numWrites b = w" "pending b = replicate n 0"
  shows "\<exists>b0. bench_start b = Inr b0 \<and> bench_inv n a w 0 b0 \<and> numActive b0 = int a \<and> numWrites b0 = w \<and> pairRoom b0 = pairRoom b"
proof -
  let ?space = "int n sdiv int a * 2"
  have sp: "int n sdiv int a = int (n div a)" using n a by (simp add: signed_divide_int_def zdiv_int)
  have "int i * ?space + 1 < 2 * int (length (pending b))" if "i < a" for i
  proof -
    have "Suc i * (n div a) \<le> a * (n div a)" using that by (intro mult_le_mono1) simp
    also have "\<dots> \<le> n" by simp
    finally have le: "i * (n div a) + n div a \<le> n" by simp
    have "i * (n div a) < n" using le n by (cases "n div a = 0") auto
    then have "int i * int (n div a) < int n" by (metis of_nat_less_iff of_nat_mult)
    then show ?thesis by (simp add: b(4) sp)
  qed
  then have "\<forall>i \<in> set [0..<nat (int a)]. int i * ?space + 1 < 2 * int (length (pending b))" by simp
  from bench_sends [OF this, unfolded sp] obtain b1 where b1:
    "foldR (\<lambda>i. bench_send (int i * ?space + 1)) [0..<nat (int a)] b = Inr b1" "length (pending b1) = n"
    "sum_list (pending b1) = a" "b1\<lparr>pending := pending b\<rparr> = b"
    using a(2) by (auto simp: sp b(4) sum_list_replicate)
  with pending_updD [OF b1(4)] a b show ?thesis
    by (auto simp: bench_start_def bench_inv_def Let_def)
qed

lemma bench_runs: "bench_steps b0 k b \<Longrightarrow> bench_inv n a w 0 b0 \<Longrightarrow> 0 < a \<Longrightarrow> bench_inv n a w k b"
proof (induction rule: bench_steps.induct)
  case (event b k b1 i b2)
  with bench_event [OF event.IH [OF event.prems] event.hyps(2,3) event.prems(2)] show ?case by simp
qed simp

text \<open>
  A run of the benchmark ends, if a pair has room for as many bytes as there are active pairs and the counters do not overflow:
  whatever the order in which the poller reports the pairs, no index is out of
  range and no call blocks; as long as fewer than \<open>numActive + numWrites\<close> bytes have been read the loop has not been asked to quit and some
  pair is readable, whose event can be handled; with that many the loop is asked to quit and no byte is
  left in a pair.
\<close>

theorem bench_run_ends:
  assumes "0 < n" "0 < a" "a \<le> room" "int_fits (int (a + nat w))"
  shows "\<exists>b0. bench_start (bench_new room (int n) (int a) w) = Inr b0 \<and>
    (\<forall>k b. bench_steps b0 k b \<longrightarrow> k \<le> a + nat w \<and> g_reads b = int k \<and> (g_quit b \<longleftrightarrow> k = a + nat w) \<and>
      (k < a + nat w \<longrightarrow> (\<exists>i < length (pending b). 0 < pending b ! i)) \<and>
      (\<forall>i < length (pending b). 0 < pending b ! i \<longrightarrow> (\<exists>b'. bench_readCallback i b = Inr b')) \<and>
      (k = a + nat w \<longrightarrow> (\<forall>i < length (pending b). pending b ! i = 0)))"
proof -
  obtain b0 where b0: "bench_start (bench_new room (int n) (int a) w) = Inr b0" "bench_inv n a w 0 b0"
    using bench_started [OF assms(1,2), of "bench_new room (int n) (int a) w" w] assms(3,4) by (auto simp: bench_new_def)
  have "k \<le> a + nat w \<and> g_reads b = int k \<and> (g_quit b \<longleftrightarrow> k = a + nat w) \<and>
      (k < a + nat w \<longrightarrow> (\<exists>i < length (pending b). 0 < pending b ! i)) \<and>
      (\<forall>i < length (pending b). 0 < pending b ! i \<longrightarrow> (\<exists>b'. bench_readCallback i b = Inr b')) \<and>
      (k = a + nat w \<longrightarrow> (\<forall>i < length (pending b). pending b ! i = 0))" if "bench_steps b0 k b" for k b
  proof -
    note inv = bench_runs [OF that b0(2) assms(2)]
    have "sum_list (pending b) = 0 \<longleftrightarrow> k = a + nat w" using inv assms(2) by (auto simp: bench_inv_def)
    moreover have "sum_list (pending b) = 0 \<longleftrightarrow> (\<forall>i < length (pending b). pending b ! i = 0)"
      by (simp add: all_set_conv_all_nth)
    ultimately show ?thesis using inv bench_event [OF inv _ _ assms(2)] by (auto simp: bench_inv_def)
  qed
  with b0(1) show ?thesis by blast
qed

theorem bench_run_ends_witness:
  "\<exists>b0. bench_start (bench_new 278 100 1 100) = Inr b0 \<and> \<not> g_quit b0 \<and> (\<exists>i < length (pending b0). 0 < pending b0 ! i)"
proof -
  from bench_run_ends [of 100 1 278 100] obtain b0 where b0: "bench_start (bench_new 278 100 1 100) = Inr b0"
    "\<And>k b. bench_steps b0 k b \<Longrightarrow> (g_quit b \<longleftrightarrow> k = 1 + 100) \<and> (k < 1 + 100 \<longrightarrow> (\<exists>i < length (pending b). 0 < pending b ! i))"
    by (auto simp: int_fits_def)
  from b0(1) b0(2) [OF bench_steps.start] show ?thesis by auto
qed

end
