(* ===== verification/BenchProgram.thy ===== *)
theory BenchProgram
  imports Bench LoopSetup
begin

section \<open>The benchmark program\<close>

text \<open>
  \<open>main\<close> and \<open>runOnce\<close> of \<open>examples/pingpong/bench.cpp\<close> on top of the loop: a channel for the reading end of every socket pair,
  runs of the loop until the read callback asks it to quit, and the end of the program.  \<open>bp_pipes\<close> is \<open>g_pipes\<close>,
  \<open>bp_channels\<close> holds the addresses of the channel objects in \<open>g_channels\<close>; the callback bound to index \<open>i\<close> is the tag \<open>UserChan i\<close>.
\<close>

record bench_loop = timer_state +
  bp_run :: bench
  bp_pipes :: "int list"
  bp_channels :: "nat list"

text \<open>One more channel object, at address \<open>q\<close>.\<close>

definition bench_make where
  "bench_make u q_i s =
     (case q_i of (q, i) \<Rightarrow>
        (put_chan q (Channel_new (lp_this s) (bp_pipes s ! (2 * i)) u) s)\<lparr>bp_channels := bp_channels s @ [q]\<rparr>)"

definition bench_setup where
  "bench_setup this tid epfd tfd tq wfd wq u qs s =
     bindR (EventLoop_construct this tid epfd tfd tq wfd wq u (s\<lparr>bp_channels := []\<rparr>)) (\<lambda>s1.
       Inr (fold (bench_make u) (zip qs [0..<nat (numPipes (bp_run s))]) s1))"

text \<open>\<open>runOnce\<close> up to the call of \<open>loop()\<close>.\<close>

definition bench_watch where
  "bench_watch i s =
     (if i < length (bp_channels s) then
        let q = bp_channels s ! i in
        with_chan q s (\<lambda>c. enableReading EventLoop_updateChannel q (put_chan q (setReadCallback (Some (UserChan i)) c) s))
      else Inl OutOfBounds)"

definition runOnce_begin where
  "runOnce_begin s =
     bindR (foldR bench_watch [0..<nat (numPipes (bp_run s))] s) (\<lambda>s1.
     bindR (bench_start (bp_run s1)) (\<lambda>b. Inr (s1\<lparr>bp_run := b\<rparr>)))"

text \<open>The callback, with the call of \<open>quit()\<close>.\<close>

definition bench_channel_cb where
  "bench_channel_cb tid t f s =
     (case f of
        UserChan i \<Rightarrow>
          bindR (bench_readCallback i (bp_run s)) (\<lambda>b.
            let s1 = s\<lparr>bp_run := b\<rparr> in Inr (if g_fired b = g_reads b then EventLoop_quit tid s1 else s1))
      | _ \<Rightarrow> loop_channel_cb own_call t f s)"

text \<open>After the runs \<open>main\<close> disables the channels, without removing them from the poller, and destroys them.\<close>

definition bench_close where
  "bench_close s =
     bindR (foldR (disableAll EventLoop_updateChannel) (bp_channels s) s) (\<lambda>s1.
       foldR (\<lambda>q s. with_chan q s (\<lambda>c. bindR (Channel_destroy c) (\<lambda>_. Inr (s\<lparr>chans := (chans s)(q := None)\<rparr>))))
         (bp_channels s1) (s1\<lparr>bp_channels := []\<rparr>))"

text \<open>
  The turns of a run: each reports some of the pairs that are readable, in any order.  \<open>k\<close> counts the events.
\<close>

definition readable :: "'m bench_loop_scheme \<Rightarrow> nat list \<Rightarrow> bool" where
  "readable s is \<longleftrightarrow> distinct is \<and> length is \<le> eventListSize s \<and>
     (\<forall>i \<in> set is. i < length (pending (bp_run s)) \<and> 0 < pending (bp_run s) ! i)"

definition reports :: "'m bench_loop_scheme \<Rightarrow> nat list \<Rightarrow> wait_result" where
  "reports s is = WaitReady (map (\<lambda>i. (POLLIN, bp_channels s ! i)) is)"

inductive bench_turns :: "int \<Rightarrow> 'm bench_loop_scheme \<Rightarrow> nat \<Rightarrow> 'm bench_loop_scheme \<Rightarrow> bool" for tid s where
  enter: "\<not> looping s \<Longrightarrow> bench_turns tid s 0 (s\<lparr>looping := True, quit_flag := False\<rparr>)"
| turn: "bench_turns tid s k s1 \<Longrightarrow> \<not> quit_flag s1 \<Longrightarrow> readable s1 is \<Longrightarrow>
    loop_iteration (bench_channel_cb tid) call now (reports s1 is) s1 = Inr s2 \<Longrightarrow> bench_turns tid s (k + length is) s2"

text \<open>Complete runs, one after the other.\<close>

inductive bench_runs :: "int \<Rightarrow> 'm bench_loop_scheme \<Rightarrow> nat \<Rightarrow> 'm bench_loop_scheme \<Rightarrow> bool" for tid s where
  none: "bench_runs tid s 0 s"
| run: "bench_runs tid s j s1 \<Longrightarrow> runOnce_begin s1 = Inr s2 \<Longrightarrow> bench_turns tid s2 k s3 \<Longrightarrow> quit_flag s3 \<Longrightarrow>
    bench_runs tid s (Suc j) (s3\<lparr>looping := False\<rparr>)"

subsection \<open>Watching the pairs\<close>

text \<open>The channel of pair \<open>i\<close> before it is first enabled, and when it is watched; \<open>u\<close> is what the constructor found in \<open>eventHandling\<close>.\<close>

definition new_pair :: "bool \<Rightarrow> 'm bench_loop_scheme \<Rightarrow> nat \<Rightarrow> bool" where
  "new_pair u s i \<longleftrightarrow> (\<exists>c. chans s (bp_channels s ! i) = Some c \<and> ch_index c = -1 \<and> ch_events c = 0 \<and> 0 \<le> ch_fd c \<and>
     ch_fd c = bp_pipes s ! (2 * i) \<and> ep_free_fd (ch_fd c) s \<and> (eventHandling c \<longrightarrow> u))"

definition watched :: "bool \<Rightarrow> 'm bench_loop_scheme \<Rightarrow> nat \<Rightarrow> bool" where
  "watched u s i \<longleftrightarrow> (\<exists>c. chans s (bp_channels s ! i) = Some c \<and> ch_index c = kAdded \<and> ch_events c = kReadEvent \<and>
     ch_fd c = bp_pipes s ! (2 * i) \<and> readCallback c = Some (UserChan i) \<and> (eventHandling c \<longrightarrow> u))"

definition bench_base :: "nat \<Rightarrow> 'm bench_loop_scheme \<Rightarrow> bool" where
  "bench_base n s \<longleftrightarrow> loop_inv s \<and> pendingFunctors s = [] \<and> length (bp_channels s) = n \<and> distinct (bp_channels s) \<and>
     distinct (map (\<lambda>i. bp_pipes s ! (2 * i)) [0..<n]) \<and> numPipes (bp_run s) = int n"

lemma bench_base_frame:
  assumes "poll_frame s s'" "loop_inv s'" "bench_base n s"
  shows "bench_base n s'" "bp_channels s' = bp_channels s" "bp_pipes s' = bp_pipes s" "bp_run s' = bp_run s" "lp_this s' = lp_this s"
    "looping s' = looping s" "quit_flag s' = quit_flag s" "threadId s' = threadId s"
proof -
  show f: "bp_channels s' = bp_channels s" "bp_pipes s' = bp_pipes s" "bp_run s' = bp_run s" "lp_this s' = lp_this s"
    "looping s' = looping s" "quit_flag s' = quit_flag s" "threadId s' = threadId s"
    using assms(1) by (cases s; cases s'; simp add: poll_frame_def)+
  have "pendingFunctors s' = pendingFunctors s" using assms(1) by (cases s; cases s'; simp add: poll_frame_def)
  with f assms(2,3) show "bench_base n s'" by (simp add: bench_base_def)
qed

lemma bench_base_apart:
  assumes "bench_base n s" "i < n" "j < n" "i \<noteq> j"
  shows "bp_channels s ! i \<noteq> bp_channels s ! j" "bp_pipes s ! (2 * i) \<noteq> bp_pipes s ! (2 * j)"
proof -
  show "bp_channels s ! i \<noteq> bp_channels s ! j" using assms by (simp add: bench_base_def nth_eq_iff_index_eq)
  have "map (\<lambda>i. bp_pipes s ! (2 * i)) [0..<n] ! i \<noteq> map (\<lambda>i. bp_pipes s ! (2 * i)) [0..<n] ! j"
    using assms by (subst nth_eq_iff_index_eq) (simp_all add: bench_base_def)
  with assms(2,3) show "bp_pipes s ! (2 * i) \<noteq> bp_pipes s ! (2 * j)" by simp
qed

lemma watch_new:
  assumes base: "bench_base n s" and i: "i < n" and new: "new_pair u s i"
  obtains s' where "bench_watch i s = Inr s'" "poll_frame s s'" "loop_inv s'" "watched u s' i"
    "\<And>j. j < n \<Longrightarrow> j \<noteq> i \<Longrightarrow> (watched u s j \<longrightarrow> watched u s' j) \<and> (new_pair u s j \<longrightarrow> new_pair u s' j)"
proof -
  let ?q = "bp_channels s ! i"
  obtain c where c: "chans s ?q = Some c" "ch_index c = -1" "ch_events c = 0" "0 \<le> ch_fd c" "ch_fd c = bp_pipes s ! (2 * i)"
    "ep_free_fd (ch_fd c) s" "eventHandling c \<longrightarrow> u" using new by (auto simp: new_pair_def)
  let ?c = "setReadCallback (Some (UserChan i)) c" let ?s = "put_chan ?q ?c s"
  have f: "ch_index ?c = -1" "ch_events ?c = 0" "ch_fd ?c = ch_fd c" "ch_loop ?c = ch_loop c" "readCallback ?c = Some (UserChan i)"
    "eventHandling ?c = eventHandling c" using c(2,3) by (simp_all add: setReadCallback_def)
  have s: "loop_inv ?s" by (rule loop_inv_same_chan [OF _ c(1)]) (use base c(2) f in \<open>simp_all add: bench_base_def\<close>)
  have fd: "0 \<le> ch_fd ?c" "ep_free_fd (ch_fd ?c) ?s" "chans ?s ?q = Some ?c" and free: "ep_free_fd x ?s = ep_free_fd x s" for x
    using c(4,6) f by (simp_all add: ep_free_fd_def put_chan_def)
  obtain s' where s': "enableReading EventLoop_updateChannel ?q ?s = Inr s'" "loop_inv s'" "poll_frame ?s s'"
    "chans s' = (chans ?s)(?q \<mapsto> ?c\<lparr>ch_events := kReadEvent, ch_index := kAdded\<rparr>)" "\<And>x. ep_free_fd x s' \<longleftrightarrow> x \<noteq> ch_fd ?c \<and> ep_free_fd x ?s"
    by (rule chan_first_read [OF s fd(3) f(1,2) fd(1,2)]) blast
  have fr: "poll_frame s s'" using poll_frame_trans [OF poll_frame_put s'(3)] .
  note b = bench_base_frame [OF fr s'(2) base]
  have "bench_watch i s = Inr s'" using s'(1) c(1) base i by (simp add: bench_watch_def bench_base_def)
  moreover have "watched u s' i" using s'(4) f c(5,7) by (simp add: watched_def b)
  moreover have "(watched u s j \<longrightarrow> watched u s' j) \<and> (new_pair u s j \<longrightarrow> new_pair u s' j)" if "j < n" "j \<noteq> i" for j
  proof -
    have "chans s' (bp_channels s ! j) = chans s (bp_channels s ! j)" "bp_pipes s ! (2 * j) \<noteq> ch_fd ?c"
      using bench_base_apart [OF base that(1) i that(2)] s'(4) c(5) f(3) by simp_all
    then show ?thesis using s'(5) free by (auto simp: watched_def new_pair_def b)
  qed
  ultimately show thesis using fr s'(2) that by blast
qed

text \<open>Enabling a channel once more only repeats its mask to the kernel.\<close>

lemma watch_again:
  assumes base: "bench_base n s" and i: "i < n" and w: "watched u s i"
  obtains s' where "bench_watch i s = Inr s'" "poll_frame s s'" "loop_inv s'" "chans s' = chans s" "channelMap s' = channelMap s"
proof -
  let ?q = "bp_channels s ! i"
  obtain c where c: "chans s ?q = Some c" "ch_index c = kAdded" "ch_events c = kReadEvent" "readCallback c = Some (UserChan i)"
    using w by (auto simp: watched_def)
  have e: "epoll_inv s" "own_chans s" using base by (simp_all add: bench_base_def loop_inv_def)
  have m: "channelMap s (ch_fd c) = Some ?q" using epoll_invD(2) [OF e(1) c(1)] c(2) by (simp add: epoll_chan_ok_def)
  have cc: "setReadCallback (Some (UserChan i)) c = c" "c\<lparr>ch_events := kReadEvent\<rparr> = c" using c(3,4) by (cases c; simp add: setReadCallback_def)+
  then have same: "put_chan ?q (setReadCallback (Some (UserChan i)) c) s = s" "put_chan ?q (c\<lparr>ch_events := ch_events c OR kReadEvent\<rparr>) s = s"
    using c(1,3) by (cases s; simp add: put_chan_def fun_upd_idem)+
  let ?s = "ep_modified ?q c s"
  have "EventLoop_updateChannel ?q s = Inr ?s"
    using EventLoop_updateChannel_eq [OF e(2) c(1)] updateChannel_added [OF c(1,2) m] c(3) masks_disjoint(4) by simp
  then have "bench_watch i s = Inr ?s"
    using c(1) base i same cc(1) by (simp add: bench_watch_def bench_base_def enableReading_def set_events_def)
  moreover have "epoll_inv ?s" by (rule epoll_inv_modified [OF e(1) c(1,2)])
  then have "loop_inv ?s" using own_chans_same [OF e(2) ep_states_chans(3) [OF c(1)]] by (simp add: loop_inv_def ep_modified_def)
  moreover have "poll_frame s ?s" "chans ?s = chans s" "channelMap ?s = channelMap s" by (simp_all add: poll_frame_def ep_modified_def)
  ultimately show thesis using that by blast
qed

lemma watch_one:
  assumes base: "bench_base n s" and i: "i < n" and pair: "new_pair u s i \<or> watched u s i"
  obtains s' where "bench_watch i s = Inr s'" "poll_frame s s'" "loop_inv s'" "watched u s' i"
    "\<And>j. j < n \<Longrightarrow> (watched u s j \<longrightarrow> watched u s' j) \<and> (new_pair u s j \<longrightarrow> new_pair u s' j \<or> watched u s' j)"
proof (cases "watched u s i")
  case True
  obtain s' where s': "bench_watch i s = Inr s'" "poll_frame s s'" "loop_inv s'" "chans s' = chans s" "channelMap s' = channelMap s"
    by (rule watch_again [OF base i True])
  note b = bench_base_frame [OF s'(2,3) base]
  have "watched u s' j = watched u s j" "new_pair u s' j = new_pair u s j" for j
    by (simp_all add: watched_def new_pair_def b s'(4,5) ep_free_fd_def)
  with s' True show thesis by (intro that [of s']) auto
next
  case False
  with pair have "new_pair u s i" by simp
  then obtain s' where "bench_watch i s = Inr s'" "poll_frame s s'" "loop_inv s'" "watched u s' i"
    "\<And>j. j < n \<Longrightarrow> j \<noteq> i \<Longrightarrow> (watched u s j \<longrightarrow> watched u s' j) \<and> (new_pair u s j \<longrightarrow> new_pair u s' j)"
    by (rule watch_new [OF base i]) blast
  then show thesis using that by metis
qed

lemma watch_all:
  assumes "bench_base n s" "set is \<subseteq> {..<n}" "\<forall>i < n. new_pair u s i \<or> watched u s i"
  shows "\<exists>s'. foldR bench_watch is s = Inr s' \<and> poll_frame s s' \<and> loop_inv s' \<and>
    (\<forall>i < n. (new_pair u s' i \<or> watched u s' i) \<and> (i \<in> set is \<or> watched u s i \<longrightarrow> watched u s' i))"
  using assms
proof (induction "is" arbitrary: s)
  case Nil
  then show ?case by (auto simp: bench_base_def)
next
  case (Cons i js)
  have i: "i < n" using Cons.prems(2) by simp
  have pair: "new_pair u s i \<or> watched u s i" using Cons.prems(3) i by blast
  obtain s1 where s1: "bench_watch i s = Inr s1" "poll_frame s s1" "loop_inv s1" "watched u s1 i"
    "\<And>j. j < n \<Longrightarrow> (watched u s j \<longrightarrow> watched u s1 j) \<and> (new_pair u s j \<longrightarrow> new_pair u s1 j \<or> watched u s1 j)"
    by (rule watch_one [OF Cons.prems(1) i pair]) blast
  have "\<forall>i < n. new_pair u s1 i \<or> watched u s1 i" using s1(5) Cons.prems(3) by blast
  from Cons.IH [OF bench_base_frame(1) [OF s1(2,3) Cons.prems(1)] _ this] Cons.prems(2) obtain s' where
    "foldR bench_watch js s1 = Inr s'" "poll_frame s1 s'" "loop_inv s'"
    "\<forall>i < n. (new_pair u s' i \<or> watched u s' i) \<and> (i \<in> set js \<or> watched u s1 i \<longrightarrow> watched u s' i)" by auto
  with s1 poll_frame_trans [OF s1(2)] show ?case by (intro exI [of _ s']) auto
qed

subsection \<open>Starting a run\<close>

text \<open>Between runs no byte waits anywhere; in a run \<open>k\<close> events have been handled.\<close>

definition bench_idle :: "bool \<Rightarrow> nat \<Rightarrow> nat \<Rightarrow> int \<Rightarrow> 'm bench_loop_scheme \<Rightarrow> bool" where
  "bench_idle u n a w s \<longleftrightarrow> bench_base n s \<and> (\<forall>i < n. new_pair u s i \<or> watched u s i) \<and> pending (bp_run s) = replicate n 0 \<and>
     numActive (bp_run s) = int a \<and> numWrites (bp_run s) = w \<and> a \<le> pairRoom (bp_run s) \<and> int_fits (int (a + nat w)) \<and> \<not> looping s"

definition bench_running :: "bool \<Rightarrow> nat \<Rightarrow> nat \<Rightarrow> int \<Rightarrow> nat \<Rightarrow> 'm bench_loop_scheme \<Rightarrow> bool" where
  "bench_running u n a w k s \<longleftrightarrow> bench_base n s \<and> (\<forall>i < n. watched u s i) \<and> bench_inv n a w k (bp_run s) \<and>
     numActive (bp_run s) = int a \<and> numWrites (bp_run s) = w"

lemma watch_pairs:
  assumes base: "bench_base n s" and pairs: "\<forall>i < n. new_pair u s i \<or> watched u s i"
  obtains s1 where "foldR bench_watch [0..<nat (numPipes (bp_run s))] s = Inr s1" "bench_base n s1" "\<forall>i < n. watched u s1 i"
    "bp_run s1 = bp_run s" "looping s1 = looping s" "threadId s1 = threadId s"
proof -
  have np: "nat (numPipes (bp_run s)) = n" using base by (simp add: bench_base_def)
  obtain s1 where s1: "foldR bench_watch [0..<n] s = Inr s1" "poll_frame s s1" "loop_inv s1"
    "\<forall>i < n. (new_pair u s1 i \<or> watched u s1 i) \<and> (i \<in> set [0..<n] \<or> watched u s i \<longrightarrow> watched u s1 i)"
    using watch_all [OF base _ pairs, of "[0..<n]"] by fastforce
  with bench_base_frame [OF s1(2,3) base] show thesis by (intro that [of s1]) (simp_all add: np)
qed

lemma bench_base_run:
  assumes "bench_base n s" "numPipes r = int n"
  shows "bench_base n (s\<lparr>bp_run := r\<rparr>)" "watched u (s\<lparr>bp_run := r\<rparr>) i = watched u s i"
proof -
  have "loop_inv (s\<lparr>bp_run := r\<rparr>) = loop_inv s" by (rule loop_inv_cong) simp_all
  with assms show "bench_base n (s\<lparr>bp_run := r\<rparr>)" by (simp add: bench_base_def)
qed (simp add: watched_def)

lemma begin_ok:
  assumes idle: "bench_idle u n a w s" and n: "0 < n" "0 < a"
  obtains s' where "runOnce_begin s = Inr s'" "bench_running u n a w 0 s'" "\<not> looping s'" "threadId s' = threadId s"
proof -
  have base: "bench_base n s" "\<forall>i < n. new_pair u s i \<or> watched u s i" using idle by (simp_all add: bench_idle_def)
  obtain s1 where s1: "foldR bench_watch [0..<nat (numPipes (bp_run s))] s = Inr s1" "bench_base n s1" "\<forall>i < n. watched u s1 i"
    "bp_run s1 = bp_run s" "looping s1 = looping s" "threadId s1 = threadId s"
    by (rule watch_pairs [OF base])
  let ?r = "bp_run s"
  have r: "numPipes ?r = int n" "numActive ?r = int a" "numWrites ?r = w" "pending ?r = replicate n 0"
    "a \<le> pairRoom ?r" "int_fits (int (a + nat w))"
    using idle by (simp_all add: bench_idle_def bench_base_def)
  obtain r' where r': "bench_start ?r = Inr r'" "bench_inv n a w 0 r'" "numActive r' = int a" "numWrites r' = w"
    using bench_started [OF n r(5,6,1-4)] by blast
  have "runOnce_begin s = Inr (s1\<lparr>bp_run := r'\<rparr>)" using s1(1,4) r'(1) by (simp add: runOnce_begin_def)
  moreover have "bench_running u n a w 0 (s1\<lparr>bp_run := r'\<rparr>)"
    using bench_base_run [OF s1(2), of r'] r'(2-4) s1(3) by (simp add: bench_running_def bench_inv_def)
  ultimately show thesis using that idle s1(5,6) by (simp add: bench_idle_def)
qed

subsection \<open>A turn of the loop\<close>

text \<open>What the read callback does to the run's counters and to the other pairs.\<close>

lemma bench_send_grows: "bench_send m b = Inr b' \<Longrightarrow> pending b ! j \<le> pending b' ! j"
  by (auto simp: bench_send_def Let_def nth_list_update split: if_splits)

lemma bench_send_same: "bench_send m b = Inr b' \<Longrightarrow> numActive b' = numActive b \<and> numWrites b' = numWrites b"
  by (auto simp: bench_send_def Let_def split: if_splits)

lemma bench_pass_others:
  assumes "bench_pass i b = Inr b'"
  shows "numActive b' = numActive b" "numWrites b' = numWrites b" "pending b ! j \<le> pending b' ! j"
proof -
  have "\<exists>b1. (b1 = b \<or> (\<exists>m. bench_send m b = Inr b1)) \<and> numActive b' = numActive b1 \<and> numWrites b' = numWrites b1 \<and> pending b' = pending b1"
  proof (cases "0 < g_writes b")
    case True
    then obtain m b1 where "bench_send m b = Inr b1" "numActive b' = numActive b1 \<and> numWrites b' = numWrites b1 \<and> pending b' = pending b1"
      using assms by (auto simp: bench_pass_def Let_def bindR_Inr_iff)
    then show ?thesis by blast
  next
    case False
    then show ?thesis using assms by (intro exI [of _ b]) (auto simp: bench_pass_def)
  qed
  with bench_send_grows [of _ b _ j] bench_send_same [of _ b]
  show "numActive b' = numActive b" "numWrites b' = numWrites b" "pending b ! j \<le> pending b' ! j" by auto
qed

lemma bench_read_others:
  assumes "bench_readCallback i b = Inr b'"
  shows "numActive b' = numActive b" "numWrites b' = numWrites b" "j \<noteq> i \<Longrightarrow> pending b ! j \<le> pending b' ! j"
proof -
  obtain rd where "bench_pass i (b\<lparr>pending := (pending b)[i := pending b ! i - 1], g_reads := rd\<rparr>) = Inr b'"
    using assms by (auto simp: bench_readCallback_def bench_recv_def bindR_Inr_iff split: if_splits)
  note o = bench_pass_others [OF this]
  show "numActive b' = numActive b" "numWrites b' = numWrites b" using o(1,2) by simp_all
  show "pending b ! j \<le> pending b' ! j" if "j \<noteq> i" using o(3) [of j] that by simp
qed

lemma bench_inv_quit:
  assumes "bench_inv n a w k b" "0 < a"
  shows "g_fired b = g_reads b \<longleftrightarrow> k = a + nat w"
  using assms by (auto simp: bench_inv_def)

text \<open>While the events of a turn are handled: those in \<open>is\<close> are still to come.\<close>

definition bench_handling :: "bool \<Rightarrow> nat \<Rightarrow> nat \<Rightarrow> int \<Rightarrow> nat \<Rightarrow> nat list \<Rightarrow> 'm bench_loop_scheme \<Rightarrow> bool" where
  "bench_handling u n a w k is s \<longleftrightarrow> bench_running u n a w k s \<and> distinct is \<and>
     (\<forall>i \<in> set is. i < n \<and> 0 < pending (bp_run s) ! i \<and> map_option ch_revents (chans s (bp_channels s ! i)) = Some POLLIN)"

lemma quit_fields [simp]:
  "chans (EventLoop_quit tid s) = chans s" "channelMap (EventLoop_quit tid s) = channelMap s" "ctlLog (EventLoop_quit tid s) = ctlLog s"
  "eventListSize (EventLoop_quit tid s) = eventListSize s" "lp_this (EventLoop_quit tid s) = lp_this s"
  "pendingFunctors (EventLoop_quit tid s) = pendingFunctors s" "quit_flag (EventLoop_quit tid s)" "looping (EventLoop_quit tid s) = looping s"
  by (simp_all add: EventLoop_quit_def wakeup_def Let_def)

lemma quit_bench [simp]:
  fixes s :: "'m bench_loop_scheme"
  shows "bp_run (EventLoop_quit tid s) = bp_run s" "bp_channels (EventLoop_quit tid s) = bp_channels s"
    "bp_pipes (EventLoop_quit tid s) = bp_pipes s"
  by (simp_all add: EventLoop_quit_def wakeup_def Let_def)

lemma handled_chan:
  assumes h: "bench_handling u n a w k (i # js) s" and c: "chans s (bp_channels s ! i) = Some c"
    and b: "bench_readCallback i (bp_run s) = Inr b" "bench_inv n a w (Suc k) b"
    and f: "chans s' = (chans s)(bp_channels s ! i \<mapsto> c\<lparr>eventHandling := False\<rparr>)" "bp_run s' = b" "bp_channels s' = bp_channels s"
      "bp_pipes s' = bp_pipes s" "pendingFunctors s' = pendingFunctors s" "channelMap s' = channelMap s" "ctlLog s' = ctlLog s"
      "eventListSize s' = eventListSize s" "lp_this s' = lp_this s"
  shows "bench_handling u n a w (Suc k) js s'"
proof -
  let ?q = "bp_channels s ! i"
  have r: "bench_running u n a w k s" and i: "i < n" using h by (simp_all add: bench_handling_def)
  have base: "bench_base n s" using r by (simp add: bench_running_def)
  note o = bench_read_others [OF b(1)]
  have "loop_inv (put_chan ?q (c\<lparr>eventHandling := False\<rparr>) s)"
    by (rule loop_inv_same_chan [OF _ c]) (use base in \<open>simp_all add: bench_base_def\<close>)
  then have "loop_inv s'" using loop_inv_cong(1) [of s' "put_chan ?q (c\<lparr>eventHandling := False\<rparr>) s"] f by (simp add: put_chan_def)
  then have base': "bench_base n s'" using base f b(2) by (simp add: bench_base_def bench_inv_def)
  have "watched u s' j" if j: "j < n" for j
  proof (cases "j = i")
    case True
    then show ?thesis using r i c f(1,3,4) by (auto simp: bench_running_def watched_def)
  next
    case False
    then have "bp_channels s ! j \<noteq> ?q" using bench_base_apart(1) [OF base j i] by simp
    then show ?thesis using r j f(1,3,4) by (simp add: bench_running_def watched_def)
  qed
  then have "bench_running u n a w (Suc k) s'" using base' r b(2) o f(2,5) by (simp add: bench_running_def)
  moreover have "0 < pending b ! j \<and> map_option ch_revents (chans s' (bp_channels s ! j)) = Some POLLIN" if j: "j \<in> set js" for j
  proof -
    have j': "j < n" "j \<noteq> i" "0 < pending (bp_run s) ! j" "map_option ch_revents (chans s (bp_channels s ! j)) = Some POLLIN"
      using h j by (auto simp: bench_handling_def)
    have "bp_channels s ! j \<noteq> ?q" using bench_base_apart(1) [OF base j'(1) i j'(2)] .
    with j' o(3) [of j] f(1) show ?thesis by auto
  qed
  ultimately show ?thesis using h f(2,3) by (auto simp: bench_handling_def)
qed

lemma handle_one:
  fixes s :: "'m bench_loop_scheme"
  assumes h: "bench_handling u n a w k (i # js) s" and a: "0 < a" and q: "quit_flag s \<longleftrightarrow> k = a + nat w"
  obtains s' where "handleEvent (bench_channel_cb tid) t (bp_channels s ! i) s = Inr s'" "bench_handling u n a w (Suc k) js s'"
    "quit_flag s' \<longleftrightarrow> Suc k = a + nat w" "bp_channels s' = bp_channels s" "looping s' = looping s"
proof -
  let ?q = "bp_channels s ! i"
  have r: "bench_running u n a w k s" and i: "i < n" "0 < pending (bp_run s) ! i" using h by (simp_all add: bench_handling_def)
  have inv: "bench_inv n a w k (bp_run s)" using r by (simp add: bench_running_def)
  have len: "i < length (pending (bp_run s))" using inv i(1) by (simp add: bench_inv_def)
  obtain c where c: "chans s ?q = Some c" "readCallback c = Some (UserChan i)" "ch_revents c = POLLIN"
    using r i(1) h by (auto simp: bench_running_def watched_def bench_handling_def)
  obtain b where b: "bench_readCallback i (bp_run s) = Inr b" "bench_inv n a w (Suc k) b" using bench_event [OF inv len i(2) a] by blast
  let ?s1 = "put_chan ?q (c\<lparr>eventHandling := True\<rparr>) s" let ?s2 = "?s1\<lparr>bp_run := b\<rparr>"
  define s3 where "s3 = (if g_fired b = g_reads b then EventLoop_quit tid ?s2 else ?s2)"
  have run: "bench_channel_cb tid t (UserChan i) ?s1 = Inr s3"
    using b(1) by (simp add: bench_channel_cb_def s3_def put_chan_def)
  let ?s' = "put_chan ?q (c\<lparr>eventHandling := False\<rparr>) s3"
  have f: "chans s3 = chans ?s1" "bp_channels s3 = bp_channels s" "bp_pipes s3 = bp_pipes s" "bp_run s3 = b" "looping s3 = looping s"
    "pendingFunctors s3 = pendingFunctors s" "channelMap s3 = channelMap s" "ctlLog s3 = ctlLog s" "eventListSize s3 = eventListSize s" "lp_this s3 = lp_this s"
    by (simp_all add: s3_def put_chan_def)
  have "handleEvent (bench_channel_cb tid) t ?q s = Inr ?s'"
    by (rule handleEvent_read [OF c(1,3,2), where call = "bench_channel_cb tid" and t = t, OF run]) (simp add: f)
  moreover have "bench_handling u n a w (Suc k) js ?s'"
    by (rule handled_chan [OF h c(1) b]) (use f in \<open>simp_all add: put_chan_def\<close>)
  moreover have "k < a + nat w" using b(2) by (simp add: bench_inv_def)
  then have "quit_flag ?s' \<longleftrightarrow> Suc k = a + nat w" using bench_inv_quit [OF b(2) a] q by (simp add: s3_def put_chan_def)
  ultimately show thesis using f by (intro that [of ?s']) (simp_all add: put_chan_def)
qed

lemma handle_all:
  fixes s :: "'m bench_loop_scheme"
  assumes "bench_handling u n a w k is s" "0 < a" "quit_flag s \<longleftrightarrow> k = a + nat w"
  shows "\<exists>s'. foldR (handleEvent (bench_channel_cb tid) t) (map (\<lambda>i. bp_channels s ! i) is) s = Inr s' \<and>
    bench_running u n a w (k + length is) s' \<and> (quit_flag s' \<longleftrightarrow> k + length is = a + nat w) \<and> looping s' = looping s"
  using assms
proof (induction "is" arbitrary: s k)
  case Nil
  then show ?case by (simp add: bench_handling_def)
next
  case (Cons i js)
  obtain s1 where s1: "handleEvent (bench_channel_cb tid) t (bp_channels s ! i) s = Inr s1" "bench_handling u n a w (Suc k) js s1"
    "quit_flag s1 \<longleftrightarrow> Suc k = a + nat w" "bp_channels s1 = bp_channels s" "looping s1 = looping s"
    by (rule handle_one [OF Cons.prems]) blast
  from Cons.IH [OF s1(2) Cons.prems(2) s1(3)] s1 show ?case by simp
qed

lemma set_all_reads:
  "set_all_revents (map (\<lambda>i. (POLLIN, f i)) is) m p = (if p \<in> f ` set is then map_option (set_revents POLLIN) (m p) else m p)"
  by (induction "is") (auto simp: set_all_revents_def)

lemma set_revents_fields [simp]:
  "ch_index (set_revents r c) = ch_index c" "ch_events (set_revents r c) = ch_events c" "ch_fd (set_revents r c) = ch_fd c"
  "ch_loop (set_revents r c) = ch_loop c" "readCallback (set_revents r c) = readCallback c" "eventHandling (set_revents r c) = eventHandling c"
  "ch_revents (set_revents r c) = r"
  by (simp_all add: set_revents_def)

lemma turn_ok:
  fixes s :: "'m bench_loop_scheme"
  assumes r: "bench_running u n a w k s" and a: "0 < a" and q: "\<not> quit_flag s" "k < a + nat w" and rd: "readable s is"
  obtains s' where "loop_iteration (bench_channel_cb tid) call now (reports s is) s = Inr s'" "bench_running u n a w (k + length is) s'"
    "quit_flag s' \<longleftrightarrow> k + length is = a + nat w" "looping s' = looping s"
proof -
  have base: "bench_base n s" and w: "\<And>i. i < n \<Longrightarrow> watched u s i" and inv: "bench_inv n a w k (bp_run s)"
    using r by (simp_all add: bench_running_def)
  have li: "epoll_inv s" "own_chans s" using base by (simp_all add: bench_base_def loop_inv_def)
  have "is": "distinct is" "length is \<le> eventListSize s" "\<And>i. i \<in> set is \<Longrightarrow> i < n \<and> 0 < pending (bp_run s) ! i"
    using rd inv by (auto simp: readable_def bench_inv_def)
  let ?evs = "map (\<lambda>i. (POLLIN, bp_channels s ! i)) is"
  have "distinct (map (\<lambda>i. bp_channels s ! i) is)"
    using "is"(1,3) bench_base_apart(1) [OF base] by (auto simp: distinct_map inj_on_def)
  moreover have "\<exists>fd e. interest (ctlLog s) fd = Some (e, bp_channels s ! i)" if "i \<in> set is" for i
  proof -
    obtain c where "chans s (bp_channels s ! i) = Some c" "ch_index c = kAdded" using w [of i] "is"(3) [OF \<open>i \<in> set is\<close>] by (auto simp: watched_def)
    with epoll_invD(2) [OF li(1), of "bp_channels s ! i" c] show ?thesis by (auto simp: epoll_chan_ok_def)
  qed
  ultimately have "wait_ok s ?evs" using "is"(2) by (auto simp: wait_ok_def o_def)
  from poll_reports [OF li(1) this, of now "[]"] obtain m where
    p: "EPoller_poll now (WaitReady ?evs) [] s =
      Inr (now, map (\<lambda>i. bp_channels s ! i) is, s\<lparr>chans := set_all_revents ?evs (chans s), eventListSize := m\<rparr>)"
    "epoll_inv (s\<lparr>chans := set_all_revents ?evs (chans s), eventListSize := m\<rparr>)" by (auto simp: o_def)
  let ?s1 = "s\<lparr>chans := set_all_revents ?evs (chans s), eventListSize := m, pollReturnTime := now\<rparr>"
  have ch: "chans ?s1 x = (if x \<in> (\<lambda>i. bp_channels s ! i) ` set is then map_option (set_revents POLLIN) (chans s x) else chans s x)" for x
    by (simp add: set_all_reads)
  let ?s0 = "s\<lparr>chans := set_all_revents ?evs (chans s), eventListSize := m\<rparr>"
  have "own_chans ?s0" using li(2) by (auto simp: own_chans_def set_all_reads split: if_splits)
  then have "loop_inv ?s0" using p(2) by (simp add: loop_inv_def)
  moreover have "loop_inv ?s1 = loop_inv ?s0" by (rule loop_inv_cong) simp_all
  ultimately have "bench_base n ?s1" using base by (simp add: bench_base_def)
  moreover
  have "watched u ?s1 j" if "j < n" for j
    using w [OF that] ch [of "bp_channels s ! j"] by (auto simp: watched_def split: if_splits)
  ultimately have "bench_running u n a w k ?s1" using r by (simp add: bench_running_def)
  moreover have "map_option ch_revents (chans ?s1 (bp_channels s ! i)) = Some POLLIN" if "i \<in> set is" for i
    using w [of i] "is"(3) [OF that] that ch [of "bp_channels s ! i"] by (auto simp: watched_def)
  ultimately have "bench_handling u n a w k is ?s1" using "is" by (simp add: bench_handling_def)
  from handle_all [OF this a, of tid now] q obtain s2 where
    s2: "foldR (handleEvent (bench_channel_cb tid) now) (map (\<lambda>i. bp_channels s ! i) is) ?s1 = Inr s2"
    "bench_running u n a w (k + length is) s2" "quit_flag s2 \<longleftrightarrow> k + length is = a + nat w" "looping s2 = looping s" by auto
  have "pendingFunctors s2 = []" using s2(2) by (simp add: bench_running_def bench_base_def)
  then have run: "loop_iteration (bench_channel_cb tid) call now (reports s is) s = Inr (s2\<lparr>callingPendingFunctors := False, pendingFunctors := []\<rparr>)"
    using p(1) s2(1) by (simp add: loop_iteration_def reports_def doPendingFunctors_def)
  let ?s' = "s2\<lparr>callingPendingFunctors := False, pendingFunctors := []\<rparr>"
  have "loop_inv ?s' = loop_inv s2" by (rule loop_inv_cong) simp_all
  then have "bench_running u n a w (k + length is) ?s'" using s2(2) by (simp add: bench_running_def bench_base_def watched_def)
  with run s2(3,4) show thesis by (intro that [of ?s']) simp_all
qed

lemma running_loop [simp]:
  "bench_running u n a w k (s\<lparr>looping := l, quit_flag := q\<rparr>) = bench_running u n a w k s"
  "bench_running u n a w k (s\<lparr>looping := l\<rparr>) = bench_running u n a w k s"
proof -
  have "loop_inv (s\<lparr>looping := l, quit_flag := q\<rparr>) = loop_inv s" "loop_inv (s\<lparr>looping := l\<rparr>) = loop_inv s" by (rule loop_inv_cong; simp)+
  then show "bench_running u n a w k (s\<lparr>looping := l, quit_flag := q\<rparr>) = bench_running u n a w k s"
    "bench_running u n a w k (s\<lparr>looping := l\<rparr>) = bench_running u n a w k s"
    by (simp_all add: bench_running_def bench_base_def watched_def)
qed

lemma turns_ok:
  assumes "bench_turns tid s k s'" "bench_running u n a w 0 s" "0 < a"
  shows "bench_running u n a w k s' \<and> (quit_flag s' \<longleftrightarrow> k = a + nat w)"
  using assms
proof (induction rule: bench_turns.induct)
  case enter
  then show ?case by simp
next
  case (turn k s1 "is" call now s2)
  have r: "bench_running u n a w k s1" "k \<noteq> a + nat w" using turn by simp_all
  then have "k < a + nat w" by (simp add: bench_running_def bench_inv_def)
  with turn_ok [OF r(1) turn.prems(2) turn.hyps(2) _ turn.hyps(3), of tid call now] turn.hyps(4) show ?case by auto
qed

lemma run_idle:
  assumes "bench_running u n a w (a + nat w) s" "0 < n" "0 < a"
  shows "bench_idle u n a w (s\<lparr>looping := False\<rparr>)"
proof -
  have "bench_running u n a w (a + nat w) (s\<lparr>looping := False\<rparr>)" using assms(1) by simp
  moreover have "sum_list (pending (bp_run s)) = 0" "length (pending (bp_run s)) = n"
    using assms by (simp_all add: bench_running_def bench_inv_def)
  then have "pending (bp_run s) = replicate n 0" by (intro replicate_eqI) auto
  ultimately show ?thesis unfolding bench_running_def bench_idle_def bench_inv_def by simp
qed

lemma runs_ok:
  assumes "bench_runs tid s j s'" "bench_idle u n a w s" "0 < n" "0 < a"
  shows "bench_idle u n a w s' \<and> (0 < j \<longrightarrow> (\<forall>i < n. watched u s' i))"
  using assms
proof (induction rule: bench_runs.induct)
  case (run j s1 s2 k s3)
  then have idle: "bench_idle u n a w s1" by simp
  obtain t where t: "runOnce_begin s1 = Inr t" "bench_running u n a w 0 t" by (rule begin_ok [OF idle run.prems(2,3)]) blast
  with run.hyps(2) have "bench_running u n a w 0 s2" by simp
  from turns_ok [OF run.hyps(3) this run.prems(3)] run.hyps(4) have r: "bench_running u n a w (a + nat w) s3" by auto
  have "\<forall>i < n. watched u (s3\<lparr>looping := False\<rparr>) i" using r by (simp add: bench_running_def watched_def)
  with run_idle [OF r run.prems(2,3)] show ?case by blast
qed simp

subsection \<open>Making and destroying the channels\<close>

lemma make_all:
  fixes s :: "'m bench_loop_scheme"
  assumes "loop_inv s" "distinct (map fst l)" "\<forall>(q, i) \<in> set l. chans s q = None"
  shows "\<exists>s'. fold (bench_make u) l s = s' \<and> loop_inv s' \<and> s' = s\<lparr>chans := chans s', bp_channels := bp_channels s @ map fst l\<rparr> \<and>
    (\<forall>(q, i) \<in> set l. chans s' q = Some (Channel_new (lp_this s) (bp_pipes s ! (2 * i)) u)) \<and>
    (\<forall>q. q \<notin> fst ` set l \<longrightarrow> chans s' q = chans s q)"
  using assms
proof (induction l arbitrary: s)
  case Nil
  then show ?case by simp
next
  case (Cons x l)
  obtain q i where x: "x = (q, i)" by force
  let ?c = "Channel_new (lp_this s) (bp_pipes s ! (2 * i)) u" let ?s = "(put_chan q ?c s)\<lparr>bp_channels := bp_channels s @ [q]\<rparr>"
  have "loop_inv (put_chan q ?c s)" using loop_inv_new_chan(1) [OF Cons.prems(1), of q ?c] Cons.prems(3) by (simp add: x Channel_new_def)
  then have "loop_inv ?s" using loop_inv_cong(1) [of ?s "put_chan q ?c s"] by simp
  moreover have "\<forall>(r, j) \<in> set l. chans ?s r = None" using Cons.prems(2,3) by (force simp: x put_chan_def)
  ultimately obtain s' where s': "fold (bench_make u) l ?s = s'" "loop_inv s'" "s' = ?s\<lparr>chans := chans s', bp_channels := bp_channels ?s @ map fst l\<rparr>"
    "\<forall>(q, i) \<in> set l. chans s' q = Some (Channel_new (lp_this ?s) (bp_pipes ?s ! (2 * i)) u)"
    "\<forall>q. q \<notin> fst ` set l \<longrightarrow> chans s' q = chans ?s q" using Cons.IH [of ?s] Cons.prems(2) by auto
  have "fold (bench_make u) (x # l) s = s'" using s'(1) by (simp add: x bench_make_def)
  moreover have "s' = s\<lparr>chans := chans s', bp_channels := bp_channels s @ map fst (x # l)\<rparr>"
    by (subst s'(3)) (simp add: x put_chan_def)
  moreover have "chans s' q = Some ?c" using s'(5) Cons.prems(2) by (simp add: x put_chan_def)
  ultimately show ?case using s'(2,4,5) by (auto simp: x put_chan_def)
qed

lemma setup_ok:
  fixes s :: "'m bench_loop_scheme"
  assumes ch: "chans s = (\<lambda>_. None)" and fds: "0 \<le> tfd" "0 \<le> wfd" "tfd \<noteq> wfd" and qs: "length qs = n" "distinct (tq # wq # qs)"
    and run: "numPipes (bp_run s) = int n"
    and pipes: "distinct (map (\<lambda>i. bp_pipes s ! (2 * i)) [0..<n])" "\<forall>i < n. 0 \<le> bp_pipes s ! (2 * i) \<and> bp_pipes s ! (2 * i) \<notin> {tfd, wfd}"
  obtains s1 where "bench_setup this tid epfd tfd tq wfd wq u qs s = Inr s1" "bench_base n s1" "\<forall>i < n. new_pair u s1 i"
    "bp_run s1 = bp_run s" "\<not> looping s1"
proof -
  let ?s = "s\<lparr>bp_channels := []\<rparr>"
  have ch': "chans ?s = (\<lambda>_. None)" and tw: "tq \<noteq> wq" using ch qs(2) by simp_all
  obtain e where e: "EventLoop_construct this tid epfd tfd tq wfd wq u ?s = Inr e" "loop_inv e"
    "poll_frame (loop_made this tid epfd tfd tq wfd wq ?s) e" "dom (chans e) = {tq, wq}"
    "\<And>x. ep_free_fd x e \<longleftrightarrow> x \<noteq> tfd \<and> x \<noteq> wfd"
    by (rule EventLoop_construct_ok [OF ch' fds tw]) blast
  have f: "bp_run e = bp_run s" "bp_pipes e = bp_pipes s" "bp_channels e = []" "lp_this e = this" "pendingFunctors e = []" "\<not> looping e"
    using e(3) by (cases s; cases e; simp add: poll_frame_def)+
  let ?l = "zip qs [0..<n]"
  have l: "map fst ?l = qs" "set ?l = (\<lambda>i. (qs ! i, i)) ` {..<n}" using qs(1) by (auto simp: set_zip)
  have new: "\<forall>(q, i) \<in> set ?l. chans e q = None"
  proof -
    have "qs ! i \<notin> dom (chans e)" if "i < n" for i using e(4) qs nth_mem [of i qs] that by auto
    then show ?thesis by (auto simp: l(2))
  qed
  have dl: "distinct (map fst ?l)" using qs(2) by (simp add: l(1))
  obtain s1 where s1: "fold (bench_make u) ?l e = s1" "loop_inv s1" "s1 = e\<lparr>chans := chans s1, bp_channels := bp_channels e @ map fst ?l\<rparr>"
    "\<forall>(q, i) \<in> set ?l. chans s1 q = Some (Channel_new (lp_this e) (bp_pipes e ! (2 * i)) u)"
    using make_all [OF e(2) dl new, of u] by blast
  have g: "bp_run s1 = bp_run s" "bp_pipes s1 = bp_pipes s" "bp_channels s1 = qs" "pendingFunctors s1 = []" "\<not> looping s1" "channelMap s1 = channelMap e"
    by (subst s1(3); simp add: f l(1))+
  have "bench_setup this tid epfd tfd tq wfd wq u qs s = Inr s1" using e(1) s1(1) run by (simp add: bench_setup_def)
  moreover have "new_pair u s1 i" if i: "i < n" for i
  proof -
    have "ep_free_fd (bp_pipes s ! (2 * i)) s1" using e(5) pipes(2) i by (simp add: ep_free_fd_def g(6))
    moreover have "chans s1 (qs ! i) = Some (Channel_new this (bp_pipes s ! (2 * i)) u)" using s1(4) i by (auto simp: l(2) f)
    ultimately show ?thesis using pipes(2) i by (simp add: new_pair_def g Channel_new_def)
  qed
  moreover have "bench_base n s1" using s1(2) g qs pipes(1) run by (simp add: bench_base_def)
  ultimately show thesis using g(1,5) by (intro that [of s1]) simp_all
qed

definition closable :: "'m bench_loop_scheme \<Rightarrow> nat \<Rightarrow> bool" where
  "closable s q \<longleftrightarrow> ep_registered q s \<and> (\<exists>c. chans s q = Some c \<and> \<not> eventHandling c)"

lemma disable_all:
  fixes s :: "'m bench_loop_scheme"
  assumes "loop_inv s" "\<forall>q \<in> Q. closable s q" "set rs \<subseteq> Q"
  shows "\<exists>s'. foldR (disableAll EventLoop_updateChannel) rs s = Inr s' \<and> loop_inv s' \<and> poll_frame s s' \<and> (\<forall>q \<in> Q. closable s' q)"
  using assms
proof (induction rs arbitrary: s)
  case (Cons r rs)
  then obtain c where c: "chans s r = Some c" "ep_registered r s" "\<not> eventHandling c" by (auto simp: closable_def)
  obtain s1 d where s1: "set_events (\<lambda>_. kNoneEvent) EventLoop_updateChannel r s = Inr s1" "loop_inv s1" "ep_registered r s1"
    "chans s1 r = Some d" "same_but_index (c\<lparr>ch_events := kNoneEvent\<rparr>) d" "poll_frame s s1"
    "\<And>q. q \<noteq> r \<Longrightarrow> ep_registered q s1 = ep_registered q s" "\<And>q. q \<noteq> r \<Longrightarrow> rel_option same_but_index (chans s q) (chans s1 q)"
    by (rule chan_set_events [OF Cons.prems(1) c(1) disjI1 [OF c(2)], where f = "\<lambda>_. kNoneEvent"]) blast
  have "closable s1 q" if q: "q \<in> Q" for q
  proof (cases "q = r")
    case True
    then show ?thesis using s1(3,4) same_but_index_simps(2) [OF s1(5)] c(3) by (simp add: closable_def)
  next
    case False
    obtain e where e: "chans s q = Some e" "ep_registered q s" "\<not> eventHandling e" using Cons.prems(2) q by (auto simp: closable_def)
    with s1(8) [OF False] obtain g where "chans s1 q = Some g" "same_but_index e g" by (cases "chans s1 q") auto
    with e s1(7) [OF False] same_but_index_simps(2) [of e g] show ?thesis by (simp add: closable_def)
  qed
  with Cons.IH [OF s1(2)] Cons.prems(3) obtain s' where "foldR (disableAll EventLoop_updateChannel) rs s1 = Inr s'" "loop_inv s'"
    "poll_frame s1 s'" "\<forall>q \<in> Q. closable s' q" by auto
  moreover have "disableAll EventLoop_updateChannel r s = Inr s1" using s1(1) by (simp add: disableAll_def)
  ultimately show ?case using poll_frame_trans [OF s1(6)] by auto
qed simp

lemma destroy_all:
  assumes "distinct qs" "\<forall>q \<in> set qs. \<exists>c. chans s q = Some c \<and> \<not> eventHandling c"
  shows "\<exists>s'. foldR (\<lambda>q s. with_chan q s (\<lambda>c. bindR (Channel_destroy c) (\<lambda>_. Inr (s\<lparr>chans := (chans s)(q := None)\<rparr>)))) qs s = Inr s'"
  using assms
proof (induction qs arbitrary: s)
  case (Cons q qs)
  let ?s = "s\<lparr>chans := (chans s)(q := None)\<rparr>"
  obtain c where "chans s q = Some c" "\<not> eventHandling c" using Cons.prems(2) by auto
  then have "foldR (\<lambda>q s. with_chan q s (\<lambda>c. bindR (Channel_destroy c) (\<lambda>_. Inr (s\<lparr>chans := (chans s)(q := None)\<rparr>)))) (q # qs) s =
      foldR (\<lambda>q s. with_chan q s (\<lambda>c. bindR (Channel_destroy c) (\<lambda>_. Inr (s\<lparr>chans := (chans s)(q := None)\<rparr>)))) qs ?s"
    by (simp add: Channel_destroy_def)
  moreover have "\<forall>r \<in> set qs. \<exists>c. chans ?s r = Some c \<and> \<not> eventHandling c" using Cons.prems by auto
  ultimately show ?case using Cons.IH [of ?s] Cons.prems(1) by (simp del: fun_upd_apply)
qed simp

lemma close_ok:
  fixes s :: "'m bench_loop_scheme"
  assumes "bench_base n s" "\<forall>i < n. watched False s i"
  shows "\<exists>s'. bench_close s = Inr s'"
proof -
  have base: "loop_inv s" "length (bp_channels s) = n" "distinct (bp_channels s)" using assms(1) by (simp_all add: bench_base_def)
  have e: "epoll_inv s" using base(1) by (simp add: loop_inv_def)
  have "closable s q" if "q \<in> set (bp_channels s)" for q
  proof -
    obtain i where i: "i < n" "q = bp_channels s ! i" using \<open>q \<in> set (bp_channels s)\<close> base(2) by (metis in_set_conv_nth)
    obtain c where c: "chans s q = Some c" "ch_index c = kAdded" "\<not> eventHandling c" using assms(2) i by (auto simp: watched_def)
    with epoll_invD(2) [OF e c(1)] show ?thesis by (auto simp: closable_def ep_registered_def epoll_chan_ok_def)
  qed
  then obtain s1 where s1: "foldR (disableAll EventLoop_updateChannel) (bp_channels s) s = Inr s1" "poll_frame s s1"
    "\<forall>q \<in> set (bp_channels s). closable s1 q" using disable_all [OF base(1), of "set (bp_channels s)" "bp_channels s"] by auto
  have "bp_channels s1 = bp_channels s" using s1(2) by (cases s; cases s1) (simp add: poll_frame_def)
  with s1(1,3) destroy_all [OF base(3), of "s1\<lparr>bp_channels := []\<rparr>"] show ?thesis by (auto simp: bench_close_def closable_def)
qed

subsection \<open>One run after the other\<close>

text \<open>
  A run that ends: until \<open>m\<close> bytes have been read some pair is readable and every turn that reports readable pairs is handled;
  then the loop has been asked to quit.
\<close>

definition run_ends :: "int \<Rightarrow> nat \<Rightarrow> 'm bench_loop_scheme \<Rightarrow> bool" where
  "run_ends tid m s \<longleftrightarrow> \<not> looping s \<and> (\<forall>k s'. bench_turns tid s k s' \<longrightarrow> k \<le> m \<and> g_reads (bp_run s') = int k \<and> (quit_flag s' \<longleftrightarrow> k = m) \<and>
     (\<not> quit_flag s' \<longrightarrow> (\<exists>i. readable s' [i]) \<and>
       (\<forall>is call now. readable s' is \<longrightarrow> (\<exists>s''. loop_iteration (bench_channel_cb tid) call now (reports s' is) s' = Inr s''))))"

lemma running_ends:
  fixes s :: "'m bench_loop_scheme"
  assumes "bench_running u n a w 0 s" "\<not> looping s" "0 < a"
  shows "run_ends tid (a + nat w) s"
  unfolding run_ends_def
proof (intro conjI allI)
  fix k s'
  show "bench_turns tid s k s' \<longrightarrow> k \<le> a + nat w \<and> g_reads (bp_run s') = int k \<and> (quit_flag s' \<longleftrightarrow> k = a + nat w) \<and>
     (\<not> quit_flag s' \<longrightarrow> (\<exists>i. readable s' [i]) \<and>
       (\<forall>is call now. readable s' is \<longrightarrow> (\<exists>s''. loop_iteration (bench_channel_cb tid) call now (reports s' is) s' = Inr s'')))"
  proof
    assume "bench_turns tid s k s'"
    from turns_ok [OF this assms(1,3)] have r: "bench_running u n a w k s'" "quit_flag s' \<longleftrightarrow> k = a + nat w" by simp_all
    then have inv: "bench_inv n a w k (bp_run s')" by (simp add: bench_running_def)
    have "\<exists>i. readable s' [i]" if lt: "k < a + nat w"
    proof -
      have "sum_list (pending (bp_run s')) \<noteq> 0" using inv lt assms(3) by (auto simp: bench_inv_def)
      then obtain i where "i < length (pending (bp_run s'))" "0 < pending (bp_run s') ! i" by (auto simp: in_set_conv_nth)
      moreover have "0 < eventListSize s'" using r(1) epoll_invD(5) [of s'] by (simp add: bench_running_def bench_base_def loop_inv_def)
      ultimately show ?thesis by (intro exI [of _ i]) (simp add: readable_def)
    qed
    moreover have "\<exists>s''. loop_iteration (bench_channel_cb tid) call now (reports s' is) s' = Inr s''"
      if "k < a + nat w" "readable s' is" for "is" call now
      by (rule turn_ok [OF r(1) assms(3) _ that, where tid = tid and call = call and now = now]) (use r(2) that(1) in auto)
    ultimately show "k \<le> a + nat w \<and> g_reads (bp_run s') = int k \<and> (quit_flag s' \<longleftrightarrow> k = a + nat w) \<and>
     (\<not> quit_flag s' \<longrightarrow> (\<exists>i. readable s' [i]) \<and>
       (\<forall>is call now. readable s' is \<longrightarrow> (\<exists>s''. loop_iteration (bench_channel_cb tid) call now (reports s' is) s' = Inr s'')))"
      using inv r(2) by (auto simp: bench_inv_def)
  qed
qed (rule assms(2))

lemma idle_runs:
  assumes "bench_runs tid s1 j s2" and "bench_idle u n a w s1" and "0 < n" and "0 < a"
  shows "\<exists>s3. runOnce_begin s2 = Inr s3 \<and> run_ends tid (a + nat w) s3" "0 < j \<Longrightarrow> \<not> u \<Longrightarrow> \<exists>s3. bench_close s2 = Inr s3"
proof -
  from runs_ok [OF assms] have i: "bench_idle u n a w s2" "0 < j \<longrightarrow> (\<forall>i < n. watched u s2 i)" by simp_all
  show "\<exists>s3. bench_close s2 = Inr s3" if "0 < j" "\<not> u" using close_ok [of n s2] i that by (simp add: bench_idle_def)
  obtain s3 where "runOnce_begin s2 = Inr s3" "bench_running u n a w 0 s3" "\<not> looping s3"
    by (rule begin_ok [OF i(1) assms(3,4)]) blast
  then show "\<exists>s3. runOnce_begin s2 = Inr s3 \<and> run_ends tid (a + nat w) s3" using running_ends [OF _ _ assms(4)] by blast
qed

end
