(* ===== verification/BenchOptions.thy ===== *)
theory BenchOptions
  imports BenchProgram CommandLine
begin

section \<open>The benchmark from its options on\<close>





subsection \<open>Options and pipes\<close>




subsection \<open>The program up to its first run\<close>



subsection \<open>A run that never ends\<close>




subsection \<open>Property\<close>


subsection \<open>Witness\<close>



end
