(* ===== verification/Programs.thy ===== *)
theory Programs
  imports Echo TcpServer LoopSetup
begin

section \<open>Whole server programs\<close>

text \<open>
  What the \<open>main\<close> functions of the server examples do: construct a loop, construct a \<open>TcpServer\<close> in it, install the
  callbacks, start and loop.  The events of the listening socket and of the connections then meet in one loop: \<open>AcceptRead\<close>
  is the acceptor's handler with the server's \<open>newConnection\<close> behind it.
\<close>

subsection \<open>The loop of a server\<close>

definition server_channel_cb where
  "server_channel_cb tid user other receiveTime f s =
     (case f of
        AcceptRead \<Rightarrow> Acceptor_handleRead (server_acall tid user) s
      | WakeupRead \<Rightarrow> Inr (EventLoop_handleRead s)
      | _ \<Rightarrow> conn_channel_cb (server_ucall tid user) tid other receiveTime f s)"

lemma server_channel_cb_conn:
  "server_channel_cb tid user other = conn_channel_cb (server_ucall tid user) tid (server_channel_cb tid user other)"
  by (intro ext) (simp add: server_channel_cb_def conn_channel_cb_def split: chan_cb.split)

subsection \<open>A server without threads\<close>

text \<open>Construction and start, with the callbacks installed in between.\<close>

definition server_config where
  "server_config ccb mcb wcb n s =
     s\<lparr>sv_connectionCallback := ccb, sv_messageCallback := mcb, sv_writeCompleteCallback := wcb, sv_pool := Pool_setThreadNum n (sv_pool s)\<rparr>"

lemma server_listens:
  assumes "loop_inv s" and "chans s q = None" and "0 \<le> lfd" and "ep_free_fd lfd s" and "threadId s = tid"
  obtains s1 where "TcpServer_start tid (server_config ccb mcb wcb 0 (TcpServer_new lfd q addr name s)) = Inr s1" "ac_armed s1"
    "poll_frame (s\<lparr>ac_fd := lfd, ac_channel := q, ac_listening := True, ac_callback := Some serverNewConnection,
       netLog := netLog s @ [NetReuseAddr lfd True, NetBind lfd addr, NetListen lfd], sv_loop := lp_this s, sv_name := name,
       sv_pool := (Pool_new (lp_this s))\<lparr>pool_started := True\<rparr>, sv_started := True, sv_nextConnId := 1, sv_connections := (\<lambda>_. None),
       sv_connectionCallback := ccb, sv_messageCallback := mcb, sv_writeCompleteCallback := wcb\<rparr>) s1"
    "chans s1 = (chans s)(q \<mapsto> (setReadCallback (Some AcceptRead) (Channel_new (lp_this s) lfd (svGarbage s)))
       \<lparr>ch_events := kReadEvent, ch_index := kAdded\<rparr>)"
    "\<And>x. ep_free_fd x s1 \<longleftrightarrow> x \<noteq> lfd \<and> ep_free_fd x s"
proof -
  let ?s0 = "s\<lparr>sv_loop := lp_this s, sv_name := name, sv_pool := (Pool_new (lp_this s))\<lparr>pool_started := True\<rparr>, sv_started := True,
      sv_nextConnId := 1, sv_connections := (\<lambda>_. None), sv_connectionCallback := ccb,
      sv_messageCallback := mcb, sv_writeCompleteCallback := wcb\<rparr>"
  let ?a = "(Acceptor_new lfd q (svGarbage s) addr ?s0)\<lparr>ac_callback := Some serverNewConnection\<rparr>"
  let ?c = "setReadCallback (Some AcceptRead) (Channel_new (lp_this s) lfd (svGarbage s))"
  note acc = Acceptor_new_def Socket_bindAddress_def sockets_bindOrDie_def Socket_setReuseAddr_def
  have s0: "loop_inv ?s0" "ep_free_fd lfd ?s0" "chans ?s0 q = None" using assms(1,2,4) loop_inv_cong [of ?s0 s] by simp_all
  from Acceptor_new_ready [OF s0(1,3) assms(3) s0(2), of "svGarbage s" addr]
  have a: "ac_ready ?a" "\<not> ac_listening ?a" by simp_all
  have a_eq: "?a = put_chan q ?c (?s0\<lparr>ac_fd := lfd, ac_channel := q, ac_listening := False, ac_callback := Some serverNewConnection,
      netLog := netLog s @ [NetReuseAddr lfd True, NetBind lfd addr]\<rparr>)"
    by (cases s) (simp add: acc put_chan_def net_def Let_def)
  obtain s1 where s1: "Acceptor_listen ?a = Inr s1" "ac_armed s1"
    "poll_frame (net (NetListen (ac_fd ?a)) (?a\<lparr>ac_listening := True\<rparr>)) s1"
    "chans s1 = (chans ?a)(ac_channel ?a \<mapsto> (the (chans ?a (ac_channel ?a)))\<lparr>ch_events := kReadEvent, ch_index := kAdded\<rparr>)"
    "\<And>x. ep_free_fd x s1 \<longleftrightarrow> x \<noteq> ac_fd ?a \<and> ep_free_fd x ?a"
    by (rule Acceptor_listen_ok [OF a(1)]) blast
  have fld: "threadId ?a = tid" "ac_fd ?a = lfd" "ac_channel ?a = q" "chans ?a = (chans s)(q \<mapsto> ?c)" "ep_free_fd x ?a = ep_free_fd x s" for x
    unfolding a_eq using assms(5) by (simp_all add: put_chan_def ep_free_fd_def)
  let ?t = "server_config ccb mcb wcb 0 (TcpServer_new lfd q addr name s)"
  have "start_threads (?t\<lparr>sv_started := True\<rparr>) = Inr ?a" "\<not> sv_started ?t"
    by (cases s; simp add: start_threads_def Pool_start_def server_config_def TcpServer_new_def ac_setNewConnectionCallback_def
        Pool_setThreadNum_def Pool_new_def acc put_chan_def net_def Let_def comp_def)+
  then have run: "TcpServer_start tid ?t = Inr s1"
    using a(2) fld(1) s1(1) by (simp add: TcpServer_start_def runInLoop_def isInLoopThread_def)
  have "poll_frame (s\<lparr>ac_fd := lfd, ac_channel := q, ac_listening := True, ac_callback := Some serverNewConnection,
       netLog := netLog s @ [NetReuseAddr lfd True, NetBind lfd addr, NetListen lfd], sv_loop := lp_this s, sv_name := name,
       sv_pool := (Pool_new (lp_this s))\<lparr>pool_started := True\<rparr>, sv_started := True, sv_nextConnId := 1, sv_connections := (\<lambda>_. None),
       sv_connectionCallback := ccb, sv_messageCallback := mcb, sv_writeCompleteCallback := wcb\<rparr>) s1"
    using s1(3) unfolding fld(2) a_eq by (cases s; cases s1) (simp add: poll_frame_def net_def put_chan_def)
  with run s1(2,4,5) show thesis unfolding fld by (intro that) auto
qed

text \<open>A socket accepted in the server's own loop is a connection at once.\<close>

lemma newConnection_here:
  fixes s :: "('m) server_state_scheme"
  assumes "loop_inv s" and "threadId s = tid" and "pool_loops (sv_pool s) = []" and "baseLoop (sv_pool s) = lp_this s"
    and "svNew s (svMade s) = (p, cq)" and "chans s cq = None" and "0 \<le> fd" and "ep_free_fd fd s"
    and k: "k = server_conn s cq (connNameOf s) fd (getLocalAddr (svLocal s fd)) peer"
  obtains s1 where "TcpServer_newConnection ucall tid fd peer s = call_cb ucall (sv_connectionCallback s) p 0 s1" "loop_inv s1"
    "poll_frame (s\<lparr>sv_nextConnId := Suc (sv_nextConnId s), svMade := Suc (svMade s), connLoop := (connLoop s)(p := lp_this s),
       sv_connections := (sv_connections s)(connNameOf s \<mapsto> p), conns := (conns s)(p \<mapsto> k\<lparr>conn_state := kConnected\<rparr>)\<rparr>) s1"
    "ep_registered cq s1" "chans s1 = (chans s)(cq \<mapsto> (conn_chan p (lp_this s) fd (svGarbage s))\<lparr>ch_events := kReadEvent, ch_index := kAdded\<rparr>)"
    "\<And>x. ep_free_fd x s1 \<longleftrightarrow> x \<noteq> fd \<and> ep_free_fd x s" "\<And>r. r \<noteq> cq \<Longrightarrow> ep_registered r s1 = ep_registered r s"
proof -
  let ?w = "s\<lparr>sv_nextConnId := Suc (sv_nextConnId s), svMade := Suc (svMade s), connLoop := (connLoop s)(p := lp_this s),
       sv_connections := (sv_connections s)(connNameOf s \<mapsto> p)\<rparr>"
  let ?c = "conn_chan p (lp_this ?w) fd (svGarbage s)"
  have kf: "conn_channel k = cq" "conn_sockfd k = fd" "conn_state k = kConnecting" "connectionCallback k = sv_connectionCallback s"
    by (simp_all add: k server_conn_def)
  have w: "loop_inv ?w" "chans ?w cq = None" "ep_free_fd x ?w = ep_free_fd x s" "ep_registered r ?w = ep_registered r s" for x r
    using assms(1,6) loop_inv_cong [of ?w s] by simp_all
  obtain s1 where s1: "connectionEstablished ucall p (put_conn p k (put_chan cq ?c ?w)) = call_cb ucall (connectionCallback k) p 0 s1"
    "poll_frame (put_conn p (k\<lparr>conn_state := kConnected\<rparr>) ?w) s1" "loop_inv s1" "ep_registered cq s1"
    "chans s1 = (chans ?w)(cq \<mapsto> ?c\<lparr>ch_events := kReadEvent, ch_index := kAdded\<rparr>)"
    "\<And>x. ep_free_fd x s1 \<longleftrightarrow> x \<noteq> fd \<and> ep_free_fd x ?w" "\<And>r. r \<noteq> cq \<Longrightarrow> ep_registered r s1 = ep_registered r ?w"
    by (rule established_ok [of ?c p ?w k "svGarbage s" ucall, unfolded kf(1,2)]) (use w kf(3) assms(7,8) in auto)
  note set = conn_setCloseCallback_def setWriteCompleteCallback_def setMessageCallback_def setConnectionCallback_def
  let ?u = "put_conn p k (put_chan cq ?c ?w)"
  have "start_connection ucall tid p cq (connNameOf s) fd (getLocalAddr (svLocal s fd)) peer ?w = connectionEstablished ucall p ?u"
  proof -
    have "threadId ?u = tid" using assms(2) by (simp add: put_chan_def)
    then show ?thesis unfolding k
      by (cases s) (simp add: start_connection_def TcpConnection_new_def Let_def put_conn_def put_chan_def set server_conn_def
          runInLoop_def isInLoopThread_def conn_chan_def)
  qed
  then have "TcpServer_newConnection ucall tid fd peer s = connectionEstablished ucall p ?u"
    using assms(3-5) by (simp add: TcpServer_newConnection_def getNextLoop_def Let_def in_loop_def connNameOf_def)
  with s1(1) kf(4) have "TcpServer_newConnection ucall tid fd peer s = call_cb ucall (sv_connectionCallback s) p 0 s1" by simp
  moreover have "poll_frame (s\<lparr>sv_nextConnId := Suc (sv_nextConnId s), svMade := Suc (svMade s), connLoop := (connLoop s)(p := lp_this s),
       sv_connections := (sv_connections s)(connNameOf s \<mapsto> p), conns := (conns s)(p \<mapsto> k\<lparr>conn_state := kConnected\<rparr>)\<rparr>) s1"
    using s1(2) by (cases s; cases s1) (simp add: put_conn_def poll_frame_def)
  ultimately show thesis using s1(3-7) w(3,4) by (intro that [of s1]) auto
qed

subsection \<open>A turn of the loop that accepts\<close>

definition listening :: "int \<Rightarrow> nat \<Rightarrow> ('m) server_state_scheme \<Rightarrow> bool" where
  "listening tid q s \<longleftrightarrow> loop_inv s \<and> ep_registered q s \<and> threadId s = tid \<and> pool_loops (sv_pool s) = [] \<and>
     baseLoop (sv_pool s) = lp_this s \<and> ac_callback s = Some serverNewConnection \<and> pendingFunctors s = [] \<and> \<not> quit_flag s \<and>
     (\<exists>c. chans s q = Some c \<and> readCallback c = Some AcceptRead)"

text \<open>A server that is started in its own loop listens.\<close>

lemma starts_listening:
  fixes s :: "('m) server_state_scheme"
  assumes "loop_inv s" and "chans s q = None" and "0 \<le> lfd" and "ep_free_fd lfd s" and "threadId s = tid" and "pendingFunctors s = []"
    and "\<not> quit_flag s"
  obtains s1 where "TcpServer_start tid (server_config ccb mcb wcb 0 (TcpServer_new lfd q addr name s)) = Inr s1" "listening tid q s1"
    "poll_frame (s\<lparr>ac_fd := lfd, ac_channel := q, ac_listening := True, ac_callback := Some serverNewConnection,
       netLog := netLog s @ [NetReuseAddr lfd True, NetBind lfd addr, NetListen lfd], sv_loop := lp_this s, sv_name := name,
       sv_pool := (Pool_new (lp_this s))\<lparr>pool_started := True\<rparr>, sv_started := True, sv_nextConnId := 1, sv_connections := (\<lambda>_. None),
       sv_connectionCallback := ccb, sv_messageCallback := mcb, sv_writeCompleteCallback := wcb\<rparr>) s1"
    "dom (chans s1) = insert q (dom (chans s))" "\<And>x. ep_free_fd x s1 \<longleftrightarrow> x \<noteq> lfd \<and> ep_free_fd x s"
proof -
  obtain s1 where s1: "TcpServer_start tid (server_config ccb mcb wcb 0 (TcpServer_new lfd q addr name s)) = Inr s1" "ac_armed s1"
    "poll_frame (s\<lparr>ac_fd := lfd, ac_channel := q, ac_listening := True, ac_callback := Some serverNewConnection,
       netLog := netLog s @ [NetReuseAddr lfd True, NetBind lfd addr, NetListen lfd], sv_loop := lp_this s, sv_name := name,
       sv_pool := (Pool_new (lp_this s))\<lparr>pool_started := True\<rparr>, sv_started := True, sv_nextConnId := 1, sv_connections := (\<lambda>_. None),
       sv_connectionCallback := ccb, sv_messageCallback := mcb, sv_writeCompleteCallback := wcb\<rparr>) s1"
    "chans s1 = (chans s)(q \<mapsto> (setReadCallback (Some AcceptRead) (Channel_new (lp_this s) lfd (svGarbage s)))
       \<lparr>ch_events := kReadEvent, ch_index := kAdded\<rparr>)"
    "\<And>x. ep_free_fd x s1 \<longleftrightarrow> x \<noteq> lfd \<and> ep_free_fd x s"
    by (rule server_listens [OF assms(1-5)]) blast
  have "threadId s1 = tid" "pendingFunctors s1 = []" "\<not> quit_flag s1" "ac_channel s1 = q" "pool_loops (sv_pool s1) = []"
    "baseLoop (sv_pool s1) = lp_this s1" "ac_callback s1 = Some serverNewConnection"
    using s1(3) assms(5-7) by (cases s; cases s1; simp add: poll_frame_def Pool_new_def)+
  then have "listening tid q s1" unfolding listening_def using s1(2,4) by (simp add: ac_armed_def setReadCallback_def)
  with s1 show thesis by (intro that) auto
qed

text \<open>What a new connection of the server is once it is up.\<close>

definition accepted_conn :: "('m) server_state_scheme \<Rightarrow> nat \<Rightarrow> int \<Rightarrow> sockaddr_in \<Rightarrow> connection" where
  "accepted_conn s cq fd peer = (server_conn s cq (connNameOf s) fd (getLocalAddr (svLocal s fd)) peer)\<lparr>conn_state := kConnected\<rparr>"

lemma accept_handled:
  fixes s :: "('m) server_state_scheme"
  assumes l: "listening tid q s" and os: "osAccept s (ac_calls s) = (fd, peer)" "0 \<le> fd" "ep_free_fd fd s"
    and new: "svNew s (svMade s) = (p, cq)" "chans s cq = None" "cq \<noteq> q"
    and cb: "\<And>t. conns t p = Some (accepted_conn s cq fd peer) \<Longrightarrow>
      call_cb (server_ucall tid user) (sv_connectionCallback s) p 0 t = Inr (t\<lparr>netLog := netLog t @ es\<rparr>)"
    and e1: "s1 = (put_chan q d s)\<lparr>eventListSize := n, pollReturnTime := now\<rparr>" and inv: "loop_inv s1"
  obtains s' where "server_channel_cb tid user other now AcceptRead s1 = Inr s'" "loop_inv s'" "ep_registered cq s'"
    "chans s' = (chans s)(q \<mapsto> d, cq \<mapsto> (conn_chan p (lp_this s) fd (svGarbage s))\<lparr>ch_events := kReadEvent, ch_index := kAdded\<rparr>)"
    "\<And>r. r \<noteq> cq \<Longrightarrow> ep_registered r s' = ep_registered r s"
    "conns s' = (conns s)(p \<mapsto> accepted_conn s cq fd peer)" "netLog s' = netLog s @ es" "osRead s' = osRead s" "osWrite s' = osWrite s"
    "osCalls s' = osCalls s" "sv_connections s' = (sv_connections s)(connNameOf s \<mapsto> p)" "looping s' = looping s" "threadId s' = tid"
    "sv_pool s' = sv_pool s" "lp_this s' = lp_this s" "ac_callback s' = ac_callback s" "pendingFunctors s' = []" "quit_flag s' = quit_flag s"
proof -
  from l have ls: "threadId s = tid" "pool_loops (sv_pool s) = []" "baseLoop (sv_pool s) = lp_this s"
    "ac_callback s = Some serverNewConnection" "pendingFunctors s = []" by (auto simp: listening_def)
  let ?s2 = "s1\<lparr>ac_calls := Suc (ac_calls s)\<rparr>"
  have inv2: "loop_inv ?s2" using inv loop_inv_cong [of ?s2 s1] by simp
  have f2: "threadId ?s2 = tid" "pool_loops (sv_pool ?s2) = []" "baseLoop (sv_pool ?s2) = lp_this ?s2" "svNew ?s2 (svMade ?s2) = (p, cq)"
    "chans ?s2 cq = None" "ep_free_fd x ?s2 = ep_free_fd x s" "ep_registered r ?s2 = ep_registered r s"
    "sv_connectionCallback ?s2 = sv_connectionCallback s" "connNameOf ?s2 = connNameOf s" for x r
    unfolding e1 using ls new by (simp_all add: put_chan_def ep_free_fd_def ep_registered_def connNameOf_def)
  have k: "accepted_conn s cq fd peer = (server_conn ?s2 cq (connNameOf ?s2) fd (getLocalAddr (svLocal ?s2 fd)) peer)\<lparr>conn_state := kConnected\<rparr>"
    unfolding e1 by (simp add: accepted_conn_def connNameOf_def server_conn_def put_chan_def)
  have free2: "ep_free_fd fd ?s2" using os(3) f2(6) by simp
  obtain s3 where s3: "TcpServer_newConnection (server_ucall tid user) tid fd peer ?s2 =
      call_cb (server_ucall tid user) (sv_connectionCallback ?s2) p 0 s3" "loop_inv s3"
    "poll_frame (?s2\<lparr>sv_nextConnId := Suc (sv_nextConnId ?s2), svMade := Suc (svMade ?s2), connLoop := (connLoop ?s2)(p := lp_this ?s2),
       sv_connections := (sv_connections ?s2)(connNameOf ?s2 \<mapsto> p), conns := (conns ?s2)(p \<mapsto> accepted_conn s cq fd peer)\<rparr>) s3"
    "ep_registered cq s3" "chans s3 = (chans ?s2)(cq \<mapsto> (conn_chan p (lp_this ?s2) fd (svGarbage ?s2))\<lparr>ch_events := kReadEvent, ch_index := kAdded\<rparr>)"
    "\<And>x. ep_free_fd x s3 \<longleftrightarrow> x \<noteq> fd \<and> ep_free_fd x ?s2" "\<And>r. r \<noteq> cq \<Longrightarrow> ep_registered r s3 = ep_registered r ?s2"
    by (rule newConnection_here [OF inv2 f2(1-5) os(2) free2 refl, where ucall = "server_ucall tid user" and peer = peer, folded k]) blast
  have f3: "conns s3 = (conns s)(p \<mapsto> accepted_conn s cq fd peer)" "netLog s3 = netLog s" "osRead s3 = osRead s" "osWrite s3 = osWrite s"
    "osCalls s3 = osCalls s" "sv_connections s3 = (sv_connections s)(connNameOf s \<mapsto> p)" "looping s3 = looping s" "threadId s3 = tid"
    "sv_pool s3 = sv_pool s" "lp_this s3 = lp_this s" "ac_callback s3 = ac_callback s" "pendingFunctors s3 = []" "quit_flag s3 = quit_flag s"
    using s3(3) ls(1,5) unfolding f2(9) unfolding e1 by (cases s; cases s3; simp add: poll_frame_def put_chan_def)+
  let ?s4 = "s3\<lparr>netLog := netLog s3 @ es\<rparr>"
  have "osAccept s1 = osAccept s" "ac_calls s1 = ac_calls s" "ac_callback s1 = ac_callback s" by (simp_all add: e1 put_chan_def)
  then have "server_channel_cb tid user other now AcceptRead s1 = Inr ?s4"
    using os ls(4) s3(1) cb [of s3] f3(1) f2(8)
    by (simp add: server_channel_cb_def Acceptor_handleRead_def Socket_accept_def server_acall_def)
  moreover have "loop_inv ?s4" "ep_registered r ?s4 = ep_registered r s3" for r
    using s3(2) loop_inv_cong [of ?s4 s3] by (simp_all add: ep_registered_def)
  moreover have "chans s3 = (chans s)(q \<mapsto> d, cq \<mapsto> (conn_chan p (lp_this s) fd (svGarbage s))\<lparr>ch_events := kReadEvent, ch_index := kAdded\<rparr>)"
    using s3(5) by (simp add: e1 put_chan_def)
  ultimately show thesis using f3 s3(4,7) f2(7) by (intro that [of ?s4]) simp_all
qed

lemma accept_turn:
  fixes s :: "('m) server_state_scheme"
  assumes l: "listening tid q s" and os: "osAccept s (ac_calls s) = (fd, peer)" "0 \<le> fd" "ep_free_fd fd s"
    and new: "svNew s (svMade s) = (p, cq)" "chans s cq = None"
    and cb: "\<And>t. conns t p = Some (accepted_conn s cq fd peer) \<Longrightarrow>
      call_cb (server_ucall tid user) (sv_connectionCallback s) p 0 t = Inr (t\<lparr>netLog := netLog t @ es\<rparr>)"
  obtains s' where
    "loop_iteration (server_channel_cb tid user other) call now (WaitReady [(POLLIN, q)]) s = Inr s'" "listening tid q s'"
    "conns s' = (conns s)(p \<mapsto> accepted_conn s cq fd peer)" "ep_registered cq s'"
    "chans s' cq = Some ((conn_chan p (lp_this s) fd (svGarbage s))\<lparr>ch_events := kReadEvent, ch_index := kAdded\<rparr>)"
    "netLog s' = netLog s @ es" "osRead s' = osRead s" "osWrite s' = osWrite s" "osCalls s' = osCalls s"
    "sv_connections s' = (sv_connections s)(connNameOf s \<mapsto> p)" "looping s' = looping s"
proof -
  from l obtain c where c: "chans s q = Some c" "readCallback c = Some AcceptRead" and ls: "loop_inv s" "ep_registered q s" "threadId s = tid"
    "pool_loops (sv_pool s) = []" "baseLoop (sv_pool s) = lp_this s" "ac_callback s = Some serverNewConnection" "\<not> quit_flag s"
    by (auto simp: listening_def)
  let ?d = "c\<lparr>ch_revents := POLLIN, eventHandling := True\<rparr>"
  let ?cq = "(conn_chan p (lp_this s) fd (svGarbage s))\<lparr>ch_events := kReadEvent, ch_index := kAdded\<rparr>"
  have qc: "cq \<noteq> q" using c(1) new(2) by auto
  obtain n s1 where s1: "s1 = (put_chan q ?d s)\<lparr>eventListSize := n, pollReturnTime := now\<rparr>" "loop_inv s1"
    and turn: "\<And>s'. server_channel_cb tid user other now AcceptRead s1 = Inr s' \<Longrightarrow> chans s' q = Some ?d \<Longrightarrow> pendingFunctors s' = [] \<Longrightarrow>
      loop_iteration (server_channel_cb tid user other) call now (WaitReady [(POLLIN, q)]) s =
        Inr ((put_chan q (?d\<lparr>eventHandling := False\<rparr>) s')\<lparr>callingPendingFunctors := False, pendingFunctors := []\<rparr>)"
    by (rule read_turn [OF ls(1) c(1) ls(2) c(2) refl, where callC = "server_channel_cb tid user other" and call = call and now = now]) blast
  obtain s4 where s4: "server_channel_cb tid user other now AcceptRead s1 = Inr s4" "loop_inv s4" "ep_registered cq s4"
    "chans s4 = (chans s)(q \<mapsto> ?d, cq \<mapsto> ?cq)" "\<And>r. r \<noteq> cq \<Longrightarrow> ep_registered r s4 = ep_registered r s"
    and f4: "conns s4 = (conns s)(p \<mapsto> accepted_conn s cq fd peer)" "netLog s4 = netLog s @ es" "osRead s4 = osRead s" "osWrite s4 = osWrite s"
    "osCalls s4 = osCalls s" "sv_connections s4 = (sv_connections s)(connNameOf s \<mapsto> p)" "looping s4 = looping s" "threadId s4 = tid"
    "sv_pool s4 = sv_pool s" "lp_this s4 = lp_this s" "ac_callback s4 = ac_callback s" "pendingFunctors s4 = []" "quit_flag s4 = quit_flag s"
    by (rule accept_handled [OF l os new qc cb s1, where other = other]) blast+
  have ch: "chans s4 q = Some ?d" using s4(4) qc by simp
  let ?s5 = "put_chan q (?d\<lparr>eventHandling := False\<rparr>) s4"
  let ?s' = "?s5\<lparr>callingPendingFunctors := False, pendingFunctors := []\<rparr>"
  have "loop_inv ?s5" by (rule loop_inv_same_chan [OF s4(2) ch]) simp_all
  then have inv': "loop_inv ?s'" using loop_inv_cong [of ?s' ?s5] by simp
  have reg: "ep_registered r ?s' = ep_registered r s4" for r by (simp add: ep_registered_def put_chan_def)
  have "listening tid q ?s'"
    unfolding listening_def using inv' reg s4(5) [of q] qc ls f4 c by (simp add: put_chan_def)
  moreover have "chans ?s' cq = Some ?cq" using s4(4) qc by (simp add: put_chan_def)
  ultimately show thesis using turn [OF s4(1) ch f4(12)] reg s4(3) f4 by (intro that [of ?s']) (simp_all add: put_chan_def)
qed

subsection \<open>The echo program\<close>

text \<open>\<open>main\<close> of \<open>pingpong/server.cpp\<close> between the construction of the loop and \<open>loop.loop()\<close>: \<open>n\<close> is the number of threads asked for.\<close>

definition echo_main where
  "echo_main tid n lfd q listenAddr s =
     (let s1 = sv_setMessageCallback (Some echoMessage) (sv_setConnectionCallback (Some echoConnection)
                 (TcpServer_new lfd q listenAddr [] s)) in
      bindR (if 1 < n then TcpServer_setThreadNum n s1 else Inr s1) (TcpServer_start tid))"

interpretation svecho: message_echo "server_ucall tid (echo_ucall tid)" tid
  by unfold_locales (simp add: server_ucall_def echo_ucall_def echoMessage_def echoConnection_def)

text \<open>Its connection callback does nothing for a connection that is closed, so its connections are closed as those of any server.\<close>

lemma echo_lets_close:
  "connectionCallback k = Some echoConnection \<Longrightarrow> conn_state k = kDisconnected \<Longrightarrow>
    callback_lets_close keeps_server (server_ucall tid (echo_ucall tid)) p k"
  by (simp add: callback_lets_close_def call_cb_def echoConnection_def server_ucall_def echo_ucall_def echo_onConnection_def connected_def
      lets_close_refl keeps_server_def)

lemma echo_main_config:
  "n \<le> 1 \<Longrightarrow> echo_main tid n lfd q addr s =
     TcpServer_start tid (server_config (Some echoConnection) (Some echoMessage) None 0 (TcpServer_new lfd q addr [] s))"
  by (cases s) (simp add: echo_main_def sv_setMessageCallback_def sv_setConnectionCallback_def server_config_def TcpServer_new_def
      ac_setNewConnectionCallback_def Acceptor_new_def Socket_bindAddress_def sockets_bindOrDie_def Socket_setReuseAddr_def
      Pool_setThreadNum_def Pool_new_def put_chan_def net_def Let_def)

lemma loop_while_turn:
  "\<not> quit_flag s \<Longrightarrow> loop_iteration callC call now r s = Inr s1 \<Longrightarrow>
    loop_while callC call ((now, r) # rest) s = loop_while callC call rest s1"
  by (simp add: loop_while.simps [of _ _ _ s])

text \<open>A process that has done nothing: no channels, no log, and the answers of the kernel that are still to come.\<close>

definition fresh_process :: "('m) server_state_scheme \<Rightarrow> bool" where
  "fresh_process s \<longleftrightarrow> chans s = (\<lambda>_. None) \<and> conns s = (\<lambda>_. None) \<and> netLog s = []"

text \<open>The program up to \<open>loop.loop()\<close>, and the entry into the loop.\<close>

lemma program_listens:
  fixes s :: "('m) server_state_scheme"
  assumes s: "fresh_process s" and fds: "0 \<le> tfd" "0 \<le> wfd" "0 \<le> lfd" "distinct [tfd, wfd, lfd]" and ptrs: "distinct [tq, wq, q]"
  obtains s2 where "bindR (EventLoop_construct this tid epfd tfd tq wfd wq u s) (\<lambda>s. TcpServer_start tid (server_config ccb mcb wcb 0 (TcpServer_new lfd q addr name s))) = Inr s2"
    "listening tid q s2" "\<not> looping s2" "conns s2 = conns s" "dom (chans s2) = {tq, wq, q}"
    "\<And>x. ep_free_fd x s2 \<longleftrightarrow> x \<notin> {tfd, wfd, lfd}" "sv_connectionCallback s2 = ccb"
    "sv_messageCallback s2 = mcb" "sv_writeCompleteCallback s2 = wcb" "sv_name s2 = name" "sv_nextConnId s2 = 1"
    "sv_connections s2 = (\<lambda>_. None)" "osRead s2 = osRead s" "osWrite s2 = osWrite s" "osCalls s2 = osCalls s"
    "netLog s2 = [NetReuseAddr lfd True, NetBind lfd addr, NetListen lfd]" "osAccept s2 = osAccept s" "ac_calls s2 = ac_calls s"
    "svNew s2 = svNew s" "svMade s2 = svMade s"
proof -
  have tw: "tfd \<noteq> wfd" "tq \<noteq> wq" and ch: "chans s = (\<lambda>_. None)" using s fds(4) ptrs by (simp_all add: fresh_process_def)
  obtain s1 where s1: "EventLoop_construct this tid epfd tfd tq wfd wq u s = Inr s1" "loop_inv s1"
    "poll_frame (loop_made this tid epfd tfd tq wfd wq s) s1"
    "dom (chans s1) = {tq, wq}" "\<And>x. ep_free_fd x s1 \<longleftrightarrow> x \<noteq> tfd \<and> x \<noteq> wfd"
    by (rule EventLoop_construct_ok [OF ch fds(1,2) tw]) blast
  have f1: "threadId s1 = tid" "pendingFunctors s1 = []" "\<not> quit_flag s1" using s1(3) by (cases s; cases s1; simp add: poll_frame_def)+
  have "q \<notin> dom (chans s1)" using s1(4) ptrs by auto
  then have q: "chans s1 q = None" "ep_free_fd lfd s1" using s1(5) fds(4) by auto
  obtain s2 where s2: "TcpServer_start tid (server_config ccb mcb wcb 0 (TcpServer_new lfd q addr name s1)) = Inr s2" "listening tid q s2"
    "poll_frame (s1\<lparr>ac_fd := lfd, ac_channel := q, ac_listening := True, ac_callback := Some serverNewConnection,
       netLog := netLog s1 @ [NetReuseAddr lfd True, NetBind lfd addr, NetListen lfd], sv_loop := lp_this s1, sv_name := name,
       sv_pool := (Pool_new (lp_this s1))\<lparr>pool_started := True\<rparr>, sv_started := True, sv_nextConnId := 1, sv_connections := (\<lambda>_. None),
       sv_connectionCallback := ccb, sv_messageCallback := mcb, sv_writeCompleteCallback := wcb\<rparr>) s2"
    "dom (chans s2) = insert q (dom (chans s1))" "\<And>x. ep_free_fd x s2 \<longleftrightarrow> x \<noteq> lfd \<and> ep_free_fd x s1"
    by (rule starts_listening [OF s1(2) q(1) fds(3) q(2) f1]) blast
  have "\<not> looping s2" "conns s2 = conns s" "sv_connectionCallback s2 = ccb"
    "sv_messageCallback s2 = mcb" "sv_writeCompleteCallback s2 = wcb" "sv_name s2 = name" "sv_nextConnId s2 = 1"
    "sv_connections s2 = (\<lambda>_. None)" "osRead s2 = osRead s" "osWrite s2 = osWrite s" "osCalls s2 = osCalls s" "netLog s2 = netLog s @ [NetReuseAddr lfd True, NetBind lfd addr, NetListen lfd]"
    "osAccept s2 = osAccept s" "ac_calls s2 = ac_calls s" "svNew s2 = svNew s" "svMade s2 = svMade s"
    using s1(3) s2(3) by (cases s; cases s1; cases s2; simp add: poll_frame_def)+
  moreover have "dom (chans s2) = {tq, wq, q}" using s1(4) s2(4) by auto
  ultimately show thesis using s s1(1,5) s2(1,2,5) by (intro that [of s2]) (auto simp: fresh_process_def)
qed

lemma echo_accepts:
  fixes s :: "('m) server_state_scheme"
  assumes l: "listening tid q s" and os: "osAccept s (ac_calls s) = (fd, peer)" "0 \<le> fd" "ep_free_fd fd s"
    and new: "svNew s (svMade s) = (p, cq)" "chans s cq = None" and cbs: "sv_connectionCallback s = Some echoConnection"
      "sv_messageCallback s = Some echoMessage" "sv_writeCompleteCallback s = None"
    and io: "os_write_ok s" "os_read_ok s" and room: "1032 + Suc n * extrabufSize \<le> VEC_MAX"
  obtains s' c where
    "loop_iteration (server_channel_cb tid (echo_ucall tid) other) call now (WaitReady [(POLLIN, q)]) s = Inr s'" "listening tid q s'"
    "echo_ready tid p n (accepted_conn s cq fd peer) c s'" "netLog s' = netLog s @ [NetNoDelay fd True]"
    "osRead s' = osRead s" "osCalls s' = osCalls s" "sv_connections s' = (sv_connections s)(connNameOf s \<mapsto> p)"
proof -
  let ?k = "accepted_conn s cq fd peer" let ?c = "(conn_chan p (lp_this s) fd (svGarbage s))\<lparr>ch_events := kReadEvent, ch_index := kAdded\<rparr>"
  have k: "conn_state ?k = kConnected" "conn_sockfd ?k = fd" "conn_channel ?k = cq" "outputBuffer ?k = Buffer_new" "inputBuffer ?k = Buffer_new"
    "messageCallback ?k = Some echoMessage" "writeCompleteCallback ?k = None" "highWaterMarkCallback ?k = None"
    by (simp_all add: accepted_conn_def server_conn_def cbs)
  have cb: "call_cb (server_ucall tid (echo_ucall tid)) (sv_connectionCallback s) p 0 t = Inr (t\<lparr>netLog := netLog t @ [NetNoDelay fd True]\<rparr>)"
    if "conns t p = Some ?k" for t
    using that k(1,2)
    by (simp add: cbs call_cb_def echoConnection_def server_ucall_def echo_ucall_def echo_onConnection_def connected_def
        TcpConnection_setTcpNoDelay_def Socket_setTcpNoDelay_def net_def)
  obtain s' where s': "loop_iteration (server_channel_cb tid (echo_ucall tid) other) call now (WaitReady [(POLLIN, q)]) s = Inr s'"
    "listening tid q s'" "conns s' = (conns s)(p \<mapsto> ?k)" "ep_registered cq s'" "chans s' cq = Some ?c"
    "netLog s' = netLog s @ [NetNoDelay fd True]" "osRead s' = osRead s" "osWrite s' = osWrite s" "osCalls s' = osCalls s"
    "sv_connections s' = (sv_connections s)(connNameOf s \<mapsto> p)"
    by (rule accept_turn [OF l os new cb]) blast+
  have "up tid p ?k ?c s'"
    using s' k io(1) by (simp add: up_def conn_inv_def listening_def buffer_inv_new isWriting_def masks_disjoint os_write_ok_def)
  moreover have "echo_conn n ?k" "echo_chan p ?c"
    using room by (simp_all add: echo_conn_def k buffer_inv_new echo_chan_def)
  moreover have "os_read_ok s'" "pendingFunctors s' = []" "\<not> quit_flag s'" using io(2) s'(2,7) by (simp_all add: os_read_ok_def listening_def)
  ultimately have "echo_ready tid p n ?k ?c s'" by (simp add: echo_ready_def)
  with s' show thesis by (intro that) auto
qed

subsection \<open>Properties\<close>

text \<open>
  C12: The echo program, from the construction of its loop on.  Its \<open>main\<close> leaves a server that listens; the first time that
  the listening socket is readable the accepted socket becomes the connection \<open>#1\<close>, the only one in the server's map; and
  then, in the same loop, whatever the poller reports of it as readable or writable and however few bytes the kernel accepts
  at each write, nothing fails, and what was written and waits is what the kernel delivered, in order.
\<close>

theorem echo_program:
  fixes s :: "('m) server_state_scheme"
  assumes "fresh_process s" and "0 \<le> tfd" and "0 \<le> wfd" and "0 \<le> lfd" and "0 \<le> fd" and "distinct [tfd, wfd, lfd, fd]"
    and "distinct [tq, wq, q, cq]" and "n \<le> 1" and "osAccept s (ac_calls s) = (fd, peer)" and "svNew s (svMade s) = (p, cq)"
    and "os_write_ok s" and "os_read_ok s" and "\<forall>(now, ev) \<in> set evs. \<not> wantsClose ev \<and> \<not> wantsError ev"
    and "1032 + Suc (length evs) * extrabufSize \<le> VEC_MAX"
  shows "\<exists>s1 s2 s' k' c' reads.
    bindR (EventLoop_construct this tid epfd tfd tq wfd wq u s) (echo_main tid n lfd q addr) = Inr s1 \<and>
    EventLoop_loop (server_channel_cb tid (echo_ucall tid) other) call [(now, WaitReady [(POLLIN, q)])] s1 = Inr (Polling s2) \<and>
    sv_connections s2 = [''#1'' \<mapsto> p] \<and>
    EventLoop_loop (server_channel_cb tid (echo_ucall tid) other) call
      ((now, WaitReady [(POLLIN, q)]) # map (\<lambda>(now, ev). (now, WaitReady [(ev, cq)])) evs) s1 = Inr (Polling s') \<and>
    up tid p k' c' s' \<and> conn_sockfd k' = fd \<and> length reads = length (filter (wantsRead \<circ> snd) evs) \<and> sorted_wrt (<) reads \<and>
    stream k' s' = concat (map (received s fd) reads)"
proof -
  let ?C = "server_channel_cb tid (echo_ucall tid) other"
  have d: "distinct [tfd, wfd, lfd]" "distinct [tq, wq, q]" using assms(6,7) by simp_all
  obtain s1 where s1: "bindR (EventLoop_construct this tid epfd tfd tq wfd wq u s) (echo_main tid n lfd q addr) = Inr s1"
    "listening tid q s1" "\<not> looping s1" "conns s1 = conns s" "dom (chans s1) = {tq, wq, q}"
    "\<And>x. ep_free_fd x s1 \<longleftrightarrow> x \<notin> {tfd, wfd, lfd}" "sv_connectionCallback s1 = Some echoConnection"
    "sv_messageCallback s1 = Some echoMessage" "sv_writeCompleteCallback s1 = None" "sv_name s1 = []" "sv_nextConnId s1 = 1"
    "sv_connections s1 = (\<lambda>_. None)" "osRead s1 = osRead s" "osWrite s1 = osWrite s" "osCalls s1 = osCalls s"
    "netLog s1 = [NetReuseAddr lfd True, NetBind lfd addr, NetListen lfd]" "osAccept s1 = osAccept s" "ac_calls s1 = ac_calls s"
    "svNew s1 = svNew s" "svMade s1 = svMade s"
    by (rule program_listens [OF assms(1-4) d, where ccb = "Some echoConnection" and mcb = "Some echoMessage" and wcb = None and
      name = "[]" and addr = addr and tid = tid, folded echo_main_config [OF assms(8)]]) (rule that, assumption+)
  let ?s = "s1\<lparr>looping := True, quit_flag := False\<rparr>" let ?k = "accepted_conn ?s cq fd peer"
  have "cq \<notin> dom (chans s1)" using s1(5) assms(7) by auto
  then have new: "listening tid q ?s" "osAccept ?s (ac_calls ?s) = (fd, peer)" "ep_free_fd fd ?s" "svNew ?s (svMade ?s) = (p, cq)" "chans ?s cq = None"
    using s1 loop_inv_cong [of ?s s1] assms(6,9,10) by (auto simp: listening_def)
  have io: "os_write_ok ?s" "os_read_ok ?s" using assms(11,12) s1(13,14) by (simp_all add: os_write_ok_def os_read_ok_def)
  have cbs: "sv_connectionCallback ?s = Some echoConnection" "sv_messageCallback ?s = Some echoMessage" "sv_writeCompleteCallback ?s = None"
    using s1(7-9) by simp_all
  obtain s2 c where s2: "loop_iteration ?C call now (WaitReady [(POLLIN, q)]) ?s = Inr s2" "listening tid q s2"
    "echo_ready tid p (length evs) ?k c s2" "netLog s2 = netLog ?s @ [NetNoDelay fd True]" "osRead s2 = osRead ?s" "osCalls s2 = osCalls ?s"
    "sv_connections s2 = (sv_connections ?s)(connNameOf ?s \<mapsto> p)"
    by (rule echo_accepts [OF new(1,2) assms(5) new(3-5) cbs io assms(14)]) blast
  have k: "conn_channel ?k = cq" "conn_sockfd ?k = fd" "outputBuffer ?k = Buffer_new" by (simp_all add: accepted_conn_def server_conn_def)
  from svecho.echo_loop [OF s2(3) assms(13), where other = ?C and call = call, unfolded k, folded server_channel_cb_conn]
  obtain s' k' c' reads where e: "loop_while ?C call (map (\<lambda>(now, ev). (now, WaitReady [(ev, cq)])) evs) s2 = Inr (Polling s')"
    "echo_ready tid p 0 k' c' s'" "conn_sockfd k' = fd" "length reads = length (filter (wantsRead \<circ> snd) evs)" "sorted_wrt (<) reads"
    "stream k' s' = stream ?k s2 @ concat (map (received s2 fd) reads)" by blast
  have st: "stream ?k s2 = []" "received s2 = received s"
    using k s2(4,5) s1(13,16) by (simp_all add: stream_def wire_def received_def fun_eq_iff)
  have "show_nat 1 = ''1''" by code_simp
  then have "sv_connections s2 = [''#1'' \<mapsto> p]" using s2(7) s1(10-12) by (simp add: connNameOf_def)
  moreover have "\<not> quit_flag s2" using s2(2) by (simp add: listening_def)
  then have "EventLoop_loop ?C call [(now, WaitReady [(POLLIN, q)])] s1 = Inr (Polling s2)"
    "EventLoop_loop ?C call ((now, WaitReady [(POLLIN, q)]) # map (\<lambda>(now, ev). (now, WaitReady [(ev, cq)])) evs) s1 = Inr (Polling s')"
    using s1(3) s2(1) e(1) loop_while_turn [of ?s ?C call now "WaitReady [(POLLIN, q)]" s2]
    by (simp_all add: EventLoop_loop_def loop_while.simps [of _ _ "[]"])
  ultimately show ?thesis using s1(1) e(2-6) st by (auto simp: echo_ready_def)
qed

subsection \<open>Witness\<close>

text \<open>A client that writes \<open>hi\<close> each time, and a kernel that accepts one byte at a time.\<close>

definition pg_demo :: server_state where
  "pg_demo = sv_demo\<lparr>conns := (\<lambda>_. None), netLog := [], osRead := (\<lambda>_ _. ReadvGot ''hi''),
     osWrite := (\<lambda>i fd data. min 1 (int (length data)))\<rparr>"

theorem echo_program_witness:
  "\<exists>s1 s' k' c'. bindR (EventLoop_construct 0 1 3 4 2 5 3 False pg_demo) (echo_main 1 1 6 4 zero_addr) = Inr s1 \<and>
     EventLoop_loop (server_channel_cb 1 (echo_ucall 1) (\<lambda>_ _. Inr)) (\<lambda>_. Inr)
       [(5, WaitReady [(POLLIN, 4)]), (6, WaitReady [(POLLIN, 100)]), (7, WaitReady [(POLLOUT, 100)])] s1 = Inr (Polling s') \<and>
     up 1 10 k' c' s' \<and> stream k' s' = ''hi''"
proof -
  let ?evs = "[(6, POLLIN), (7, POLLOUT)] :: (int \<times> 32 word) list"
  have f: "fresh_process pg_demo" "osAccept pg_demo (ac_calls pg_demo) = (9, zero_addr)" "svNew pg_demo (svMade pg_demo) = (10, 100)"
    "os_write_ok pg_demo" "os_read_ok pg_demo"
    by (simp_all add: fresh_process_def pg_demo_def sv_demo_defs os_write_ok_def os_read_ok_def extrabufSize_def)
  have ev: "\<forall>(now, ev) \<in> set ?evs. \<not> wantsClose ev \<and> \<not> wantsError ev" "length (filter (wantsRead \<circ> snd) ?evs) = 1"
    by (simp_all add: wantsClose_def wantsError_def wantsRead_def POLLIN_def POLLOUT_def POLLHUP_def POLLERR_def POLLNVAL_def POLLPRI_def POLLRDHUP_def)
  have room: "1032 + Suc (length ?evs) * extrabufSize \<le> VEC_MAX" by (simp add: extrabufSize_def)
  have n: "(0::int) \<le> 4" "(0::int) \<le> 5" "(0::int) \<le> 6" "(0::int) \<le> 9" "distinct [4, 5, 6, 9::int]" "distinct [2, 3, 4, 100::nat]" "(1::int) \<le> 1"
    by simp_all
  have two: "concat (map (received pg_demo 9) reads) = ''hi''" if "length reads = length (filter (wantsRead \<circ> snd) ?evs)" for reads :: "nat list"
    using that ev(2) by (auto simp: received_def pg_demo_def length_Suc_conv)
  from echo_program [OF f(1) n f(2-5) ev(1) room, of 0 1 3 False zero_addr "\<lambda>_ _. Inr" "\<lambda>_. Inr" 5]
  obtain s1 s' k' c' reads where r: "bindR (EventLoop_construct 0 1 3 4 2 5 3 False pg_demo) (echo_main 1 1 6 4 zero_addr) = Inr s1"
    "EventLoop_loop (server_channel_cb 1 (echo_ucall 1) (\<lambda>_ _. Inr)) (\<lambda>_. Inr)
      ((5, WaitReady [(POLLIN, 4)]) # map (\<lambda>(now, ev). (now, WaitReady [(ev, 100)])) ?evs) s1 = Inr (Polling s')"
    "up 1 10 k' c' s'" "length reads = length (filter (wantsRead \<circ> snd) ?evs)" "stream k' s' = concat (map (received pg_demo 9) reads)"
    by blast
  with two [OF r(4)] show ?thesis by (intro exI [of _ s1] exI [of _ s'] exI [of _ k'] exI [of _ c']) simp
qed

end
