(* ===== verification/Mains.thy ===== *)
theory Mains
  imports Programs Discard
begin

section \<open>The example servers\<close>

text \<open>
  The \<open>main\<close> functions of the finger, sudoku, file transfer, protobuf, SOCKS and relay servers between the construction of the loop
  and \<open>loop.loop()\<close>: \<open>lfd\<close> and \<open>q\<close> are the acceptor's descriptor and channel.  Every program names its own callbacks
  \<open>onConnection\<close> and \<open>onMessage\<close>; what they do is in the theories of the programs.
\<close>

definition mainConnection :: conn_cb where "mainConnection = UserCb 0"
definition mainMessage :: conn_cb where "mainMessage = UserCb 1"
definition mainWriteComplete :: nat where "mainWriteComplete = 0"

text \<open>The first of the finger programs only loops.\<close>

definition finger01_main where
  "finger01_main this tid epfd tfd tq wfd wq u s = EventLoop_construct this tid epfd tfd tq wfd wq u s"

definition finger02_main where
  "finger02_main le tid lfd q s = TcpServer_start tid (TcpServer_new lfd q (InetAddress_port le 1079) [] s)"

definition finger03_main where
  "finger03_main le tid lfd q s =
     TcpServer_start tid (sv_setConnectionCallback (Some mainConnection) (TcpServer_new lfd q (InetAddress_port le 9982) [] s))"

definition finger04_main where
  "finger04_main le tid lfd q s =
     TcpServer_start tid (sv_setMessageCallback (Some mainMessage) (TcpServer_new lfd q (InetAddress_port le 1079) [] s))"

definition finger05_main where
  "finger05_main le tid lfd q s =
     TcpServer_start tid (sv_setMessageCallback (Some mainMessage) (TcpServer_new lfd q (InetAddress_port le 1079) [] s))"

definition finger06_main where
  "finger06_main le tid lfd q s =
     TcpServer_start tid (sv_setMessageCallback (Some mainMessage) (TcpServer_new lfd q (InetAddress_port le 1079) [] s))"

definition finger07_main where
  "finger07_main le tid lfd q s =
     TcpServer_start tid (sv_setMessageCallback (Some mainMessage) (TcpServer_new lfd q (InetAddress_port le 9982) [] s))"

definition filetransfer_main where
  "filetransfer_main le tid lfd q s =
     TcpServer_start tid (sv_setWriteCompleteCallback (Some mainWriteComplete) (sv_setMessageCallback (Some mainMessage)
       (TcpServer_new lfd q (InetAddress_port le 2022) [] s)))"

definition sudoku_main where
  "sudoku_main le numThread tid lfd q s =
     bindR (TcpServer_setThreadNum numThread (TcpServer_new lfd q (InetAddress_port le 9981) [] s)) (\<lambda>s1.
       TcpServer_start tid (sv_setMessageCallback (Some mainMessage) s1))"

definition socks_main where
  "socks_main le listen_port tid lfd q s =
     TcpServer_start tid (sv_setMessageCallback (Some mainMessage) (sv_setConnectionCallback (Some mainConnection)
       (TcpServer_new lfd q (InetAddress_port le (ucast (listen_port :: 16 word))) ''Socks4'' s)))"

definition toy_server_main where
  "toy_server_main le tid lfd q s =
     TcpServer_start tid (sv_setMessageCallback (Some mainMessage) (TcpServer_new lfd q (InetAddress_port le 8880) [] s))"

text \<open>The relay has a timer that prints the memory statistics every three seconds.\<close>

definition memstat :: loop_functor where "memstat = UserFn 0"

definition relay_main where
  "relay_main le acceptPort tid lfd q s =
     bindR (runEvery own_call tid 3 memstat s) (\<lambda>(_, s1).
       TcpServer_start tid (sv_setMessageCallback (Some mainMessage) (sv_setConnectionCallback (Some mainConnection)
         (TcpServer_new lfd q (InetAddress_port le (ucast (acceptPort :: 16 word))) ''TcpRelay'' s1))))"

text \<open>The discard server, whose constructor asks for a report every three seconds; the global \<open>numThreads\<close> is 0.\<close>

definition discardReport :: loop_functor where "discardReport = UserFn 0"

definition DiscardServer_construct where
  "DiscardServer_construct tid lfd q listenAddr threads s =
     bindR (TcpServer_setThreadNum threads (sv_setMessageCallback (Some mainMessage) (sv_setConnectionCallback (Some mainConnection)
       (TcpServer_new lfd q listenAddr [] s)))) (\<lambda>s1.
     bindR (runEvery own_call tid 3 discardReport s1) (\<lambda>(_, s2). Inr s2))"

definition discard_main where
  "discard_main le tid lfd q s =
     bindR (DiscardServer_construct tid lfd q (InetAddress_port le 2009) 0 s) (TcpServer_start tid)"

subsection \<open>They all listen\<close>

lemma server_config_id:
  "TcpServer_new lfd q addr name s = server_config (Some DefaultConnection) (Some DefaultMessage) None 0 (TcpServer_new lfd q addr name s)"
  by (cases s) (simp add: server_config_def TcpServer_new_def ac_setNewConnectionCallback_def Acceptor_new_def Socket_bindAddress_def
      sockets_bindOrDie_def Socket_setReuseAddr_def Pool_setThreadNum_def Pool_new_def put_chan_def net_def Let_def)

lemma server_config_set [simp]:
  "sv_setConnectionCallback c (server_config ccb mcb wcb n s) = server_config c mcb wcb n s"
  "sv_setMessageCallback c (server_config ccb mcb wcb n s) = server_config ccb c wcb n s"
  "sv_setWriteCompleteCallback d (server_config ccb mcb wcb n s) = server_config ccb mcb d n s"
  "TcpServer_setThreadNum 0 (server_config ccb mcb wcb 0 s) = Inr (server_config ccb mcb wcb 0 s)"
  by (simp_all add: sv_setConnectionCallback_def sv_setMessageCallback_def sv_setWriteCompleteCallback_def TcpServer_setThreadNum_def
      server_config_def Pool_setThreadNum_def)

text \<open>A main, with the port, the name and the callbacks that its server gets.\<close>

definition example_mains where
  "example_mains le =
     [(finger02_main le, 1079, [], DefaultConnection, DefaultMessage, None),
      (finger03_main le, 9982, [], mainConnection, DefaultMessage, None),
      (finger04_main le, 1079, [], DefaultConnection, mainMessage, None),
      (finger05_main le, 1079, [], DefaultConnection, mainMessage, None),
      (finger06_main le, 1079, [], DefaultConnection, mainMessage, None),
      (finger07_main le, 9982, [], DefaultConnection, mainMessage, None),
      (filetransfer_main le, 2022, [], DefaultConnection, mainMessage, Some mainWriteComplete),
      (sudoku_main le 0, 9981, [], DefaultConnection, mainMessage, None),
      (toy_server_main le, 8880, [], DefaultConnection, mainMessage, None),
      (socks_main le 1080, 1080, ''Socks4'', mainConnection, mainMessage, None)]"

lemma example_main_config:
  "(main, port, name, ccb, mcb, wcb) \<in> set (example_mains le) \<Longrightarrow>
    main tid lfd q s = TcpServer_start tid (server_config (Some ccb) (Some mcb) wcb 0 (TcpServer_new lfd q (InetAddress_port le port) name s))"
  by (simp add: example_mains_def)
    (elim disjE conjE; simp add: finger02_main_def finger03_main_def finger04_main_def finger05_main_def finger06_main_def finger07_main_def
      filetransfer_main_def sudoku_main_def toy_server_main_def socks_main_def, (subst server_config_id, simp)?)

text \<open>Asking for a timer in the loop's thread leaves the channels alone.\<close>

lemma runEvery_frame:
  assumes "timer_inv s" "isInLoopThread tid s"
  obtains i s1 where "runEvery own_call tid d cb s = Inr (i, s1)" "timer_frame s s1" "timer_inv s1"
    "timers s1 = oset_insert (addTime (clock s (ticks s)) d, alloc s (numCreated s)) (timers s)"
    "timerHeap s1 (alloc s (numCreated s)) = Some (Timer_new cb (addTime (clock s (ticks s)) d) d (numCreated s))"
proof -
  let ?s = "s\<lparr>ticks := Suc (ticks s)\<rparr>" let ?w = "addTime (clock s (ticks s)) d"
  have l: "timer_inv ?s" "isInLoopThread tid ?s" using assms by (simp_all add: isInLoopThread_def)
  obtain i s1 where s1: "addTimer own_call tid cb ?w d ?s = Inr (i, s1)" "timer_inv s1"
    "timers s1 = oset_insert (?w, alloc s (numCreated s)) (timers s)"
    "timerHeap s1 (alloc s (numCreated s)) = Some (Timer_new cb ?w d (numCreated s))"
    using addTimer_ok [OF l(1), of tid cb ?w d] l(2) by auto
  have "timer_frame s s1" using addTimer_frame [OF l(2) s1(1)] by (rule timer_frame_tick)
  with s1 show thesis by (intro that) (simp_all add: runEvery_def read_clock_def)
qed

lemma timer_frame_server:
  assumes "timer_frame s s'"
  shows "loop_inv s' = loop_inv s" "chans s' = chans s" "threadId s' = threadId s" "ep_free_fd x s' = ep_free_fd x s"
    "netLog s' = netLog s" "quit_flag s' = quit_flag s" "pendingFunctors s' = pendingFunctors s" "looping s' = looping s"
proof -
  have eq: "chans s' = chans s" "channelMap s' = channelMap s" "ctlLog s' = ctlLog s" "eventListSize s' = eventListSize s" "lp_this s' = lp_this s"
    using assms by (cases s; cases s'; simp add: timer_frame_def)+
  then show "loop_inv s' = loop_inv s" "chans s' = chans s" "ep_free_fd x s' = ep_free_fd x s"
    using loop_inv_cong [of s' s] by simp_all
qed (use assms in \<open>cases s; cases s'; simp add: timer_frame_def\<close>)+

text \<open>The default connection callback only logs, so the first socket is a connection after one turn of the loop.\<close>

lemma default_accepts:
  fixes s :: "('m) server_state_scheme"
  assumes "listening tid q s" "\<not> looping s" "sv_connectionCallback s = Some DefaultConnection"
    and "osAccept s (ac_calls s) = (fd, peer)" "0 \<le> fd" "ep_free_fd fd s" "svNew s (svMade s) = (p, cq)" "chans s cq = None"
  shows "\<exists>s' k. EventLoop_loop (server_channel_cb tid user other) call [(now, WaitReady [(POLLIN, q)])] s = Inr (Polling s') \<and>
    conns s' p = Some k \<and> conn_state k = kConnected \<and> conn_sockfd k = fd \<and> messageCallback k = sv_messageCallback s \<and>
    writeCompleteCallback k = sv_writeCompleteCallback s \<and> sv_connections s' (connNameOf s) = Some p \<and> ep_registered cq s' \<and> listening tid q s'"
proof -
  let ?s = "s\<lparr>looping := True, quit_flag := False\<rparr>"
  have l: "listening tid q ?s" using assms(1) loop_inv_cong [of ?s s] by (simp add: listening_def)
  have h: "osAccept ?s (ac_calls ?s) = (fd, peer)" "0 \<le> fd" "ep_free_fd fd ?s" "svNew ?s (svMade ?s) = (p, cq)" "chans ?s cq = None"
    using assms(4-8) loop_inv_cong(3) [of ?s s] by simp_all
  have cb: "call_cb (server_ucall tid user) (sv_connectionCallback ?s) p 0 t = Inr (t\<lparr>netLog := netLog t @ []\<rparr>)" for t
    using assms(3) by (simp add: call_cb_def)
  obtain s' where s': "loop_iteration (server_channel_cb tid user other) call now (WaitReady [(POLLIN, q)]) ?s = Inr s'" "listening tid q s'"
    "conns s' = (conns ?s)(p \<mapsto> accepted_conn ?s cq fd peer)" "ep_registered cq s'"
    "sv_connections s' = (sv_connections ?s)(connNameOf ?s \<mapsto> p)"
    by (rule accept_turn [OF l h cb]) blast+
  have "\<not> quit_flag s'" using s'(2) by (simp add: listening_def)
  then have "EventLoop_loop (server_channel_cb tid user other) call [(now, WaitReady [(POLLIN, q)])] s = Inr (Polling s')"
    using assms(2) s'(1) loop_while_turn [of ?s "server_channel_cb tid user other" call now "WaitReady [(POLLIN, q)]" s']
    by (simp add: EventLoop_loop_def loop_while.simps [of _ _ "[]"])
  moreover have "connNameOf ?s = connNameOf s" by (simp add: connNameOf_def)
  ultimately show ?thesis using s' by (intro exI [of _ s']) (simp add: accepted_conn_def server_conn_def)
qed

text \<open>A loop to which nothing happens waits on, however often its wait times out.\<close>

lemma idle_loop:
  "\<not> quit_flag s \<Longrightarrow> pendingFunctors s = [] \<Longrightarrow> \<exists>s'. loop_while callC call (map (\<lambda>now. (now, WaitReady [])) nows) s = Inr (Polling s')"
proof (induction nows arbitrary: s)
  case (Cons now nows)
  let ?s = "s\<lparr>pollReturnTime := now, callingPendingFunctors := False, pendingFunctors := []\<rparr>"
  have "loop_iteration callC call now (WaitReady []) s = Inr ?s"
    using Cons.prems(2) by (simp add: loop_iteration_def EPoller_poll_def doPendingFunctors_def)
  moreover obtain s' where "loop_while callC call (map (\<lambda>now. (now, WaitReady [])) nows) ?s = Inr (Polling s')"
    using Cons.IH [of ?s] Cons.prems(1) by auto
  ultimately show ?case using Cons.prems(1) by (simp add: loop_while_turn)
qed (simp add: loop_while.simps)

lemma finger01_waits:
  assumes "chans s = (\<lambda>_. None)" "0 \<le> tfd" "0 \<le> wfd" "tfd \<noteq> wfd" "tq \<noteq> wq"
  obtains s1 where "finger01_main this tid epfd tfd tq wfd wq u s = Inr s1"
    "\<And>nows. \<exists>s'. EventLoop_loop callC call (map (\<lambda>now. (now, WaitReady [])) nows) s1 = Inr (Polling s')"
proof -
  obtain s1 where s1: "EventLoop_construct this tid epfd tfd tq wfd wq u s = Inr s1" "poll_frame (loop_made this tid epfd tfd tq wfd wq s) s1"
    by (rule EventLoop_construct_ok [OF assms]) blast
  have f: "pendingFunctors s1 = []" "\<not> looping s1" using s1(2) by (cases s; cases s1; simp add: poll_frame_def)+
  have "\<exists>s'. EventLoop_loop callC call (map (\<lambda>now. (now, WaitReady [])) nows) s1 = Inr (Polling s')" for nows
    using idle_loop [of "s1\<lparr>looping := True, quit_flag := False\<rparr>" callC call nows] f by (simp add: EventLoop_loop_def)
  with s1(1) show thesis by (intro that) (simp_all add: finger01_main_def)
qed

subsection \<open>Properties\<close>

text \<open>
  C15: Each of the example servers, from the construction of its loop on: its \<open>main\<close> reaches \<open>loop.loop()\<close> with a server that
  listens on its port, has its name and its callbacks; and where the connection callback is the default one, the first
  socket accepted is, after one turn of the loop, a connection that is up and reads with the message callback of the program.
\<close>

theorem example_servers_listen:
  fixes s :: "('m) server_state_scheme"
  assumes "fresh_process s" and "0 \<le> tfd" and "0 \<le> wfd" and "0 \<le> lfd" and "0 \<le> fd" and "distinct [tfd, wfd, lfd, fd]"
    and "distinct [tq, wq, q, cq]" and "osAccept s (ac_calls s) = (fd, peer)" and "svNew s (svMade s) = (p, cq)"
    and "(main, port, name, ccb, mcb, wcb) \<in> set (example_mains le)"
  shows "\<exists>s1. bindR (EventLoop_construct this tid epfd tfd tq wfd wq u s) (main tid lfd q) = Inr s1 \<and> listening tid q s1 \<and>
    sv_name s1 = name \<and> sv_connectionCallback s1 = Some ccb \<and> sv_messageCallback s1 = Some mcb \<and> sv_writeCompleteCallback s1 = wcb \<and>
    netLog s1 = [NetReuseAddr lfd True, NetBind lfd (InetAddress_port le port), NetListen lfd] \<and>
    (ccb = DefaultConnection \<longrightarrow>
      (\<exists>s2 k. EventLoop_loop (server_channel_cb tid user other) call [(now, WaitReady [(POLLIN, q)])] s1 = Inr (Polling s2) \<and>
        sv_connections s2 (name @ ''#1'') = Some p \<and> conns s2 p = Some k \<and> conn_state k = kConnected \<and> conn_sockfd k = fd \<and>
        messageCallback k = Some mcb \<and> writeCompleteCallback k = wcb))"
proof -
  have d: "distinct [tfd, wfd, lfd]" "distinct [tq, wq, q]" using assms(6,7) by simp_all
  obtain s1 where s1: "bindR (EventLoop_construct this tid epfd tfd tq wfd wq u s) (main tid lfd q) = Inr s1"
    "listening tid q s1" "\<not> looping s1" "dom (chans s1) = {tq, wq, q}" "\<And>x. ep_free_fd x s1 \<longleftrightarrow> x \<notin> {tfd, wfd, lfd}"
    "sv_connectionCallback s1 = Some ccb" "sv_messageCallback s1 = Some mcb" "sv_writeCompleteCallback s1 = wcb" "sv_name s1 = name"
    "sv_nextConnId s1 = 1" "netLog s1 = [NetReuseAddr lfd True, NetBind lfd (InetAddress_port le port), NetListen lfd]"
    "osAccept s1 = osAccept s" "ac_calls s1 = ac_calls s" "svNew s1 = svNew s" "svMade s1 = svMade s"
    by (rule program_listens [OF assms(1-4) d, where ccb = "Some ccb" and mcb = "Some mcb" and wcb = wcb and name = name and
      addr = "InetAddress_port le port" and tid = tid, folded example_main_config [OF assms(10)]]) (rule that, assumption+)
  have "show_nat 1 = ''1''" by code_simp
  then have nm: "connNameOf s1 = name @ ''#1''" using s1(9,10) by (simp add: connNameOf_def)
  have "cq \<notin> dom (chans s1)" using s1(4) assms(7) by auto
  then have "chans s1 cq = None" "ep_free_fd fd s1" using s1(5) assms(6) by auto
  with default_accepts [OF s1(2,3), of fd peer p cq user other call now] s1(6-8,12-15) assms(5,8,9) nm
  have "ccb = DefaultConnection \<longrightarrow>
      (\<exists>s2 k. EventLoop_loop (server_channel_cb tid user other) call [(now, WaitReady [(POLLIN, q)])] s1 = Inr (Polling s2) \<and>
        sv_connections s2 (name @ ''#1'') = Some p \<and> conns s2 p = Some k \<and> conn_state k = kConnected \<and> conn_sockfd k = fd \<and>
        messageCallback k = Some mcb \<and> writeCompleteCallback k = wcb)" by metis
  with s1(1,2,6-9,11) show ?thesis by blast
qed

text \<open>
  The relay reaches \<open>loop.loop()\<close> with a server that listens on the port of its command line, and with one timer in the
  queue of its loop, which repeats every three seconds and prints the memory statistics.
\<close>

lemma relay_listens:
  fixes s :: "('m) server_state_scheme"
  assumes "fresh_process s" and "heap_ok s" and "0 \<le> tfd" and "0 \<le> wfd" and "0 \<le> lfd" and "distinct [tfd, wfd, lfd]" and "distinct [tq, wq, q]"
  obtains s1 s3 where "EventLoop_construct this tid epfd tfd tq wfd wq u s = Inr s1" "relay_main le acceptPort tid lfd q s1 = Inr s3"
    "listening tid q s3" "sv_name s3 = ''TcpRelay''" "sv_connectionCallback s3 = Some mainConnection" "sv_messageCallback s3 = Some mainMessage"
    "netLog s3 = [NetReuseAddr lfd True, NetBind lfd (InetAddress_port le (ucast acceptPort)), NetListen lfd]"
    "timers s3 = [(addTime (clock s (ticks s)) 3, alloc s (numCreated s))]"
    "timerHeap s3 (alloc s (numCreated s)) = Some (Timer_new memstat (addTime (clock s (ticks s)) 3) 3 (numCreated s))"
proof -
  have tw: "tfd \<noteq> wfd" "tq \<noteq> wq" and ch: "chans s = (\<lambda>_. None)" "netLog s = []" using assms(1,6,7) by (simp_all add: fresh_process_def)
  obtain s1 where s1: "EventLoop_construct this tid epfd tfd tq wfd wq u s = Inr s1" "loop_inv s1"
    "poll_frame (loop_made this tid epfd tfd tq wfd wq s) s1" "dom (chans s1) = {tq, wq}" "\<And>x. ep_free_fd x s1 \<longleftrightarrow> x \<noteq> tfd \<and> x \<noteq> wfd"
    by (rule EventLoop_construct_ok [OF ch(1) assms(3,4) tw]) blast
  note tm = loop_made_timers [OF s1(3) assms(2)]
  have f1: "threadId s1 = tid" "netLog s1 = []" "pendingFunctors s1 = []" "\<not> quit_flag s1"
    using s1(3) ch by (cases s; cases s1; simp add: poll_frame_def)+
  obtain i s2 where s2: "runEvery own_call tid 3 memstat s1 = Inr (i, s2)" "timer_frame s1 s2"
    "timers s2 = oset_insert (addTime (clock s (ticks s)) 3, alloc s (numCreated s)) []"
    "timerHeap s2 (alloc s (numCreated s)) = Some (Timer_new memstat (addTime (clock s (ticks s)) 3) 3 (numCreated s))"
    by (rule runEvery_frame [OF tm(1,2)]) (use tm in auto)
  note fr = timer_frame_server [OF s2(2)]
  have "q \<notin> dom (chans s1)" using s1(4) assms(7) by auto
  then have h: "loop_inv s2" "chans s2 q = None" "ep_free_fd lfd s2" "threadId s2 = tid" "pendingFunctors s2 = []" "\<not> quit_flag s2"
    using fr s1(2,5) f1 assms(6) by auto
  obtain s3 where s3: "TcpServer_start tid (server_config (Some mainConnection) (Some mainMessage) None 0
      (TcpServer_new lfd q (InetAddress_port le (ucast acceptPort)) ''TcpRelay'' s2)) = Inr s3" "listening tid q s3"
    "poll_frame (s2\<lparr>ac_fd := lfd, ac_channel := q, ac_listening := True, ac_callback := Some serverNewConnection,
       netLog := netLog s2 @ [NetReuseAddr lfd True, NetBind lfd (InetAddress_port le (ucast acceptPort)), NetListen lfd], sv_loop := lp_this s2,
       sv_name := ''TcpRelay'', sv_pool := (Pool_new (lp_this s2))\<lparr>pool_started := True\<rparr>, sv_started := True, sv_nextConnId := 1,
       sv_connections := (\<lambda>_. None), sv_connectionCallback := Some mainConnection, sv_messageCallback := Some mainMessage,
       sv_writeCompleteCallback := None\<rparr>) s3"
    by (rule starts_listening [OF h(1,2) assms(5) h(3-6)]) blast
  have f3: "sv_name s3 = ''TcpRelay''" "sv_connectionCallback s3 = Some mainConnection" "sv_messageCallback s3 = Some mainMessage"
    "netLog s3 = netLog s2 @ [NetReuseAddr lfd True, NetBind lfd (InetAddress_port le (ucast acceptPort)), NetListen lfd]"
    "timers s3 = timers s2" "timerHeap s3 = timerHeap s2"
    using s3(3) by (cases s2; cases s3; simp add: poll_frame_def)+
  have "relay_main le acceptPort tid lfd q s1 = Inr s3"
    using s2(1) s3(1) by (simp add: relay_main_def) (subst server_config_id, simp)
  with s1(1) s2(3,4) s3(2) f3 fr(5) f1(2) show thesis by (intro that [of s1 s3]) simp_all
qed

subsection \<open>Witnesses\<close>

lemma pg_demo_process:
  "fresh_process pg_demo" "osAccept pg_demo (ac_calls pg_demo) = (9, zero_addr)" "svNew pg_demo (svMade pg_demo) = (10, 100)"
  "heap_ok pg_demo"
proof -
  show "heap_ok pg_demo" by (auto simp: heap_ok_def pg_demo_def sv_demo_defs split: if_splits)
qed (simp_all add: fresh_process_def pg_demo_def sv_demo_defs)

theorem example_servers_listen_witness:
  "\<exists>s1 s2 k. bindR (EventLoop_construct 0 1 3 4 2 5 3 False pg_demo) (finger07_main True 1 6 4) = Inr s1 \<and>
     EventLoop_loop (server_channel_cb 1 (\<lambda>_ _ _. Inr) (\<lambda>_ _. Inr)) (\<lambda>_. Inr) [(5, WaitReady [(POLLIN, 4)])] s1 = Inr (Polling s2) \<and>
     conns s2 10 = Some k \<and> conn_state k = kConnected \<and> messageCallback k = Some mainMessage"
proof -
  have n: "(0::int) \<le> 4" "(0::int) \<le> 5" "(0::int) \<le> 6" "(0::int) \<le> 9" "distinct [4, 5, 6, 9::int]" "distinct [2, 3, 4, 100::nat]" by simp_all
  have m: "(finger07_main True, 9982, [], DefaultConnection, mainMessage, None) \<in> set (example_mains True)" by (simp add: example_mains_def)
  from example_servers_listen [OF pg_demo_process(1) n pg_demo_process(2,3) m, of 0 1 3 False "\<lambda>_ _ _. Inr" "\<lambda>_ _. Inr" "\<lambda>_. Inr" 5]
  show ?thesis by blast
qed

end
