(* ===== verification/ArgMains.thy ===== *)
theory ArgMains
  imports Mains PingPongClient CommandLine
begin

section \<open>Programs with arguments\<close>

text \<open>
  The whole \<open>main\<close> functions, up to \<open>loop.loop()\<close>, of the programs that read their command line: the SOCKS proxy, the relay, the
  sudoku and the pingpong server and the pingpong client.  \<open>Exits c\<close> says that \<open>main\<close> returns \<open>c\<close> before it has made a loop.
  \<open>inet_pton\<close> is the function of the C library.
\<close>

definition sudoku_program where
  "sudoku_program le argv this tid epfd tfd tq wfd wq u lfd q s =
     bindR (if 1 < length argv then int_arg argv 1 else Inr 0) (\<lambda>numThread.
     bindR (EventLoop_construct this tid epfd tfd tq wfd wq u s) (\<lambda>s1.
     bindR (sudoku_main le numThread tid lfd q s1) (\<lambda>s2. Inr (Runs s2))))"

definition socks_program where
  "socks_program le argv this tid epfd tfd tq wfd wq u lfd q s =
     (if length argv < 2 then Inr (Exits 0)
      else
        bindR (port_arg argv 1) (\<lambda>port.
        bindR (EventLoop_construct this tid epfd tfd tq wfd wq u s) (\<lambda>s1.
        bindR (socks_main le port tid lfd q s1) (\<lambda>s2. Inr (Runs s2)))))"

text \<open>The relay also fixes \<open>g_serverAddr\<close>, the address that its tunnels lead to.\<close>

definition relay_program where
  "relay_program le inet_pton argv this tid epfd tfd tq wfd wq u lfd q s =
     (if length argv < 4 then Inr (Exits 0)
      else
        bindR (arg argv 1) (\<lambda>ip.
        bindR (port_arg argv 2) (\<lambda>port.
        let g_serverAddr = InetAddress_ip le inet_pton ip port in
        bindR (port_arg argv 3) (\<lambda>acceptPort.
        bindR (EventLoop_construct this tid epfd tfd tq wfd wq u s) (\<lambda>s1.
        bindR (relay_main le acceptPort tid lfd q s1) (\<lambda>s2. Inr (Runs (g_serverAddr, s2))))))))"

definition pingpong_server_program where
  "pingpong_server_program le inet_pton argv this tid epfd tfd tq wfd wq u lfd q s =
     (if length argv < 4 then Inr (Exits 0)
      else
        bindR (arg argv 1) (\<lambda>ip.
        bindR (port_arg argv 2) (\<lambda>port.
        let listenAddr = InetAddress_ip le inet_pton ip port in
        bindR (int_arg argv 3) (\<lambda>threadCount.
        bindR (EventLoop_construct this tid epfd tfd tq wfd wq u s) (\<lambda>s1.
        bindR (echo_main tid threadCount lfd q listenAddr s1) (\<lambda>s2. Inr (Runs s2)))))))"

definition pingpong_client_program where
  "pingpong_client_program le inet_pton argv this tid epfd tfd tq wfd wq u newLoop view s =
     (if length argv \<noteq> 7 then Inr (Exits 0)
      else
        bindR (arg argv 1) (\<lambda>ip.
        bindR (port_arg argv 2) (\<lambda>port.
        bindR (int_arg argv 3) (\<lambda>threadCount.
        bindR (int_arg argv 4) (\<lambda>blockSize.
        bindR (int_arg argv 5) (\<lambda>sessionCount.
        bindR (int_arg argv 6) (\<lambda>timeout.
        let serverAddr = InetAddress_ip le inet_pton ip port in
        bindR (pingpong_main this tid epfd tfd tq wfd wq u newLoop serverAddr threadCount blockSize sessionCount timeout view s)
          (\<lambda>r. Inr (Runs r)))))))))"

subsection \<open>From the arguments to the loop\<close>

text \<open>A port that is printed on the command line, and the address that a server listens on for it.\<close>

definition listen_port :: "bool \<Rightarrow> int \<Rightarrow> sockaddr_in" where
  "listen_port le n = InetAddress_port le (word_of_int (n mod 65536))"

lemma ucast_port: "ucast (word_of_int n :: 16 word) = (word_of_int (n mod 65536) :: 64 word)"
  by (simp add: unsigned_of_int take_bit_eq_mod)

lemma runs_in_loop:
  "bindR m f = Inr s1 \<Longrightarrow> bindR m (\<lambda>s. bindR (f s) (\<lambda>s2. Inr (Runs s2))) = Inr (Runs s1)"
  by (cases m) simp_all

lemma echo_main_threads:
  "n \<le> 1 \<Longrightarrow> echo_main tid n lfd q addr = echo_main tid 1 lfd q addr"
  by (intro ext) (simp add: echo_main_def)

lemma sudoku_main_negative:
  "n < 0 \<Longrightarrow> \<exists>msg. sudoku_main le n tid lfd q s = Inl (AssertFailed msg)"
  by (simp add: sudoku_main_def TcpServer_setThreadNum_def)

text \<open>An argument that shows a number, with white space before it and anything that is no digit after it.\<close>

definition reads_as :: "string \<Rightarrow> int \<Rightarrow> bool" where
  "reads_as str n \<longleftrightarrow> int_fits n \<and> (\<exists>sp junk. str = sp @ show_int n @ junk \<and> (\<forall>c \<in> set sp. c_isspace c) \<and> (junk = [] \<or> \<not> c_isdigit (hd junk)))"

lemma reads_as_atoi: "reads_as str n \<Longrightarrow> atoi str = Inr n"
  using atoi_show by (auto simp: reads_as_def)

lemma reads_as_show_int: "int_fits n \<Longrightarrow> reads_as (show_int n) n"
  unfolding reads_as_def by (intro conjI exI [of _ "[]"]) simp_all

lemma reads_as_args:
  assumes "i < length argv" and "reads_as (argv ! i) n"
  shows "int_arg argv i = Inr n" "port_arg argv i = Inr (word_of_int n)"
  using assms(1) reads_as_atoi [OF assms(2)] by simp_all

lemma socks_runs:
  fixes s :: "('m) server_state_scheme"
  assumes "fresh_process s" and "0 \<le> tfd" and "0 \<le> wfd" and "0 \<le> lfd" and "distinct [tfd, wfd, lfd]" and "distinct [tq, wq, q]"
    and "1 < length argv" and "reads_as (argv ! 1) n"
  obtains s1 where "socks_program le argv this tid epfd tfd tq wfd wq u lfd q s = Inr (Runs s1)" "listening tid q s1"
    "netLog s1 = [NetReuseAddr lfd True, NetBind lfd (listen_port le n), NetListen lfd]"
proof -
  have main: "socks_main le (word_of_int n) tid lfd q s =
      TcpServer_start tid (server_config (Some mainConnection) (Some mainMessage) None 0 (TcpServer_new lfd q (listen_port le n) ''Socks4'' s))" for s
    by (simp add: socks_main_def listen_port_def ucast_port) (subst server_config_id, simp)
  obtain s1 where s1: "bindR (EventLoop_construct this tid epfd tfd tq wfd wq u s) (socks_main le (word_of_int n) tid lfd q) = Inr s1" "listening tid q s1"
    "netLog s1 = [NetReuseAddr lfd True, NetBind lfd (listen_port le n), NetListen lfd]"
    by (rule program_listens [OF assms(1-6), where ccb = "Some mainConnection" and mcb = "Some mainMessage" and wcb = None and name = "''Socks4''" and
      addr = "listen_port le n" and tid = tid, folded main]) (rule that, assumption+)
  with assms(7) show thesis by (intro that [of s1]) (simp_all add: socks_program_def reads_as_args [OF assms(7,8)] runs_in_loop del: One_nat_def)
qed

lemma relay_runs:
  fixes s :: "('m) server_state_scheme"
  assumes "fresh_process s" and "heap_ok s" and "0 \<le> tfd" and "0 \<le> wfd" and "0 \<le> lfd" and "distinct [tfd, wfd, lfd]" and "distinct [tq, wq, q]"
    and "3 < length argv" and "reads_as (argv ! 2) p" and "reads_as (argv ! 3) n"
  obtains s1 where "relay_program le inet_pton argv this tid epfd tfd tq wfd wq u lfd q s =
      Inr (Runs (InetAddress_ip le inet_pton (argv ! 1) (word_of_int p), s1))" "listening tid q s1"
    "netLog s1 = [NetReuseAddr lfd True, NetBind lfd (listen_port le n), NetListen lfd]"
    "timers s1 = [(addTime (clock s (ticks s)) 3, alloc s (numCreated s))]"
    "timerHeap s1 (alloc s (numCreated s)) = Some (Timer_new memstat (addTime (clock s (ticks s)) 3) 3 (numCreated s))"
proof -
  obtain e s1 where s1: "EventLoop_construct this tid epfd tfd tq wfd wq u s = Inr e" "relay_main le (word_of_int n) tid lfd q e = Inr s1"
    "listening tid q s1" "netLog s1 = [NetReuseAddr lfd True, NetBind lfd (listen_port le n), NetListen lfd]"
    "timers s1 = [(addTime (clock s (ticks s)) 3, alloc s (numCreated s))]"
    "timerHeap s1 (alloc s (numCreated s)) = Some (Timer_new memstat (addTime (clock s (ticks s)) 3) 3 (numCreated s))"
    by (rule relay_listens [OF assms(1-7), where acceptPort = "word_of_int n" and le = le and this = this and tid = tid and epfd = epfd and u = u])
      (simp add: listen_port_def ucast_port)
  have a: "arg argv 1 = Inr (argv ! 1)" "2 < length argv" using assms(8) by (simp_all add: arg_def)
  with s1 assms(8) show thesis
    by (intro that [of s1]) (simp_all add: relay_program_def reads_as_args [OF a(2) assms(9)] reads_as_args [OF assms(8,10)] Let_def del: One_nat_def)
qed

lemma pingpong_server_runs:
  fixes s :: "('m) server_state_scheme"
  assumes "fresh_process s" and "0 \<le> tfd" and "0 \<le> wfd" and "0 \<le> lfd" and "distinct [tfd, wfd, lfd]" and "distinct [tq, wq, q]"
    and "3 < length argv" and "reads_as (argv ! 2) p" and "reads_as (argv ! 3) n" and "n \<le> 1"
  obtains s1 where "pingpong_server_program le inet_pton argv this tid epfd tfd tq wfd wq u lfd q s = Inr (Runs s1)" "listening tid q s1"
    "netLog s1 = [NetReuseAddr lfd True, NetBind lfd (InetAddress_ip le inet_pton (argv ! 1) (word_of_int p)), NetListen lfd]"
proof -
  let ?addr = "InetAddress_ip le inet_pton (argv ! 1) (word_of_int p)"
  obtain s1 where s1: "bindR (EventLoop_construct this tid epfd tfd tq wfd wq u s) (echo_main tid n lfd q ?addr) = Inr s1" "listening tid q s1"
    "netLog s1 = [NetReuseAddr lfd True, NetBind lfd ?addr, NetListen lfd]"
    by (rule program_listens [OF assms(1-6), where ccb = "Some echoConnection" and mcb = "Some echoMessage" and wcb = None and
      name = "[]" and addr = ?addr and tid = tid, folded echo_main_config [OF assms(10)]]) (rule that, assumption+)
  have a: "arg argv 1 = Inr (argv ! 1)" "2 < length argv" using assms(7) by (simp_all add: arg_def)
  with s1 assms(7) show thesis
    by (intro that [of s1])
      (simp_all add: pingpong_server_program_def reads_as_args [OF a(2) assms(8)] reads_as_args [OF assms(7,9)] runs_in_loop Let_def del: One_nat_def)
qed

lemma sudoku_runs:
  fixes s :: "('m) server_state_scheme"
  assumes "fresh_process s" and "0 \<le> tfd" and "0 \<le> wfd" and "0 \<le> lfd" and "distinct [tfd, wfd, lfd]" and "distinct [tq, wq, q]"
    and "1 < length argv \<longrightarrow> reads_as (argv ! 1) 0"
  obtains s1 where "sudoku_program le argv this tid epfd tfd tq wfd wq u lfd q s = Inr (Runs s1)" "listening tid q s1"
    "netLog s1 = [NetReuseAddr lfd True, NetBind lfd (listen_port le 9981), NetListen lfd]"
proof -
  have main: "sudoku_main le 0 tid lfd q s =
      TcpServer_start tid (server_config (Some DefaultConnection) (Some mainMessage) None 0 (TcpServer_new lfd q (listen_port le 9981) [] s))" for s
    by (simp add: sudoku_main_def listen_port_def) (subst server_config_id, simp)
  obtain s1 where s1: "bindR (EventLoop_construct this tid epfd tfd tq wfd wq u s) (sudoku_main le 0 tid lfd q) = Inr s1" "listening tid q s1"
    "netLog s1 = [NetReuseAddr lfd True, NetBind lfd (listen_port le 9981), NetListen lfd]"
    by (rule program_listens [OF assms(1-6), where ccb = "Some DefaultConnection" and mcb = "Some mainMessage" and wcb = None and name = "[]" and
      addr = "listen_port le 9981" and tid = tid, folded main]) (rule that, assumption+)
  with assms(7) show thesis
    by (intro that [of s1]) (auto simp: sudoku_program_def runs_in_loop simp del: One_nat_def dest: reads_as_atoi)
qed

subsection \<open>Properties\<close>

text \<open>
  C40: The server programs and their command lines.  With too few arguments they return before they make anything.  Otherwise the
  SOCKS proxy and the relay come to their loop with a server that listens on the number that its argument shows, modulo
  65536 and without complaint when it is larger or negative, whatever follows the digits; the relay's tunnels lead to the
  other address, and its queue holds the timer of its statistics.  The pingpong server takes any number of threads below two
  as none, while the sudoku server fails an assertion for a negative one.  A number that no \<open>int\<close> holds is undefined.
\<close>

theorem server_arguments:
  fixes s :: "('m) server_state_scheme"
  assumes "fresh_process s" and "heap_ok s" and "0 \<le> tfd" and "0 \<le> wfd" and "0 \<le> lfd" and "distinct [tfd, wfd, lfd]" and "distinct [tq, wq, q]"
  shows "(length argv < 2 \<longrightarrow> socks_program le argv this tid epfd tfd tq wfd wq u lfd q s = Inr (Exits 0)) \<and>
    (length argv < 4 \<longrightarrow> relay_program le inet_pton argv this tid epfd tfd tq wfd wq u lfd q s = Inr (Exits 0) \<and>
      pingpong_server_program le inet_pton argv this tid epfd tfd tq wfd wq u lfd q s = Inr (Exits 0)) \<and>
    (1 < length argv \<and> reads_as (argv ! 1) n \<longrightarrow>
      (\<exists>s1. socks_program le argv this tid epfd tfd tq wfd wq u lfd q s = Inr (Runs s1) \<and> listening tid q s1 \<and>
        NetBind lfd (listen_port le n) \<in> set (netLog s1))) \<and>
    (3 < length argv \<and> reads_as (argv ! 2) p \<and> reads_as (argv ! 3) n \<longrightarrow>
      (\<exists>s1. relay_program le inet_pton argv this tid epfd tfd tq wfd wq u lfd q s =
          Inr (Runs (InetAddress_ip le inet_pton (argv ! 1) (word_of_int p), s1)) \<and> listening tid q s1 \<and>
        NetBind lfd (listen_port le n) \<in> set (netLog s1) \<and>
        (\<exists>t x. timers s1 = [(tm_expiration t, x)] \<and> timerHeap s1 x = Some t \<and> tm_callback t = memstat \<and> tm_interval t = 3 \<and> tm_repeat t)) \<and>
      (n \<le> 1 \<longrightarrow> (\<exists>s1. pingpong_server_program le inet_pton argv this tid epfd tfd tq wfd wq u lfd q s = Inr (Runs s1) \<and> listening tid q s1 \<and>
        NetBind lfd (InetAddress_ip le inet_pton (argv ! 1) (word_of_int p)) \<in> set (netLog s1)))) \<and>
    (length argv < 2 \<or> reads_as (argv ! 1) 0 \<longrightarrow>
      (\<exists>s1. sudoku_program le argv this tid epfd tfd tq wfd wq u lfd q s = Inr (Runs s1) \<and> listening tid q s1 \<and>
        NetBind lfd (listen_port le 9981) \<in> set (netLog s1))) \<and>
    (1 < length argv \<and> reads_as (argv ! 1) n \<and> n < 0 \<longrightarrow>
      sudoku_program le argv this tid epfd tfd tq wfd wq u lfd q s = Inl (AssertFailed ''0 <= numThreads'')) \<and>
    (1 < length argv \<and> argv ! 1 = show_int m \<and> \<not> int_fits m \<longrightarrow>
      socks_program le argv this tid epfd tfd tq wfd wq u lfd q s = Inl UndefinedBehaviour)"
proof (intro conjI impI)
  note net = assms(1,3-7)
  have tw: "tfd \<noteq> wfd" "tq \<noteq> wq" and ch: "chans s = (\<lambda>_. None)" using assms(1,6,7) by (simp_all add: fresh_process_def)
  show "\<exists>s1. socks_program le argv this tid epfd tfd tq wfd wq u lfd q s = Inr (Runs s1) \<and> listening tid q s1 \<and>
      NetBind lfd (listen_port le n) \<in> set (netLog s1)" if "1 < length argv \<and> reads_as (argv ! 1) n"
    by (rule socks_runs [OF net conjunct1 [OF that] conjunct2 [OF that]]) auto
  show "\<exists>s1. relay_program le inet_pton argv this tid epfd tfd tq wfd wq u lfd q s =
        Inr (Runs (InetAddress_ip le inet_pton (argv ! 1) (word_of_int p), s1)) \<and> listening tid q s1 \<and>
      NetBind lfd (listen_port le n) \<in> set (netLog s1) \<and>
      (\<exists>t x. timers s1 = [(tm_expiration t, x)] \<and> timerHeap s1 x = Some t \<and> tm_callback t = memstat \<and> tm_interval t = 3 \<and> tm_repeat t)"
    if a: "3 < length argv \<and> reads_as (argv ! 2) p \<and> reads_as (argv ! 3) n"
    by (rule relay_runs [OF assms conjunct1 [OF a] conjunct1 [OF conjunct2 [OF a]] conjunct2 [OF conjunct2 [OF a]]]) (fastforce simp: Timer_new_def)
  show "\<exists>s1. pingpong_server_program le inet_pton argv this tid epfd tfd tq wfd wq u lfd q s = Inr (Runs s1) \<and> listening tid q s1 \<and>
      NetBind lfd (InetAddress_ip le inet_pton (argv ! 1) (word_of_int p)) \<in> set (netLog s1)"
    if a: "3 < length argv \<and> reads_as (argv ! 2) p \<and> reads_as (argv ! 3) n" and n: "n \<le> 1"
    by (rule pingpong_server_runs [OF net conjunct1 [OF a] conjunct1 [OF conjunct2 [OF a]] conjunct2 [OF conjunct2 [OF a]] n]) auto
  show "\<exists>s1. sudoku_program le argv this tid epfd tfd tq wfd wq u lfd q s = Inr (Runs s1) \<and> listening tid q s1 \<and>
      NetBind lfd (listen_port le 9981) \<in> set (netLog s1)" if "length argv < 2 \<or> reads_as (argv ! 1) 0"
    by (rule sudoku_runs [OF net, of argv]) (use that in auto)
  show "sudoku_program le argv this tid epfd tfd tq wfd wq u lfd q s = Inl (AssertFailed ''0 <= numThreads'')"
    if "1 < length argv \<and> reads_as (argv ! 1) n \<and> n < 0"
    by (rule EventLoop_construct_ok [OF ch assms(3,4) tw, where this = this and tid = tid and epfd = epfd and uninit = u])
      (use that in \<open>auto simp: sudoku_program_def sudoku_main_def TcpServer_setThreadNum_def simp del: One_nat_def dest: reads_as_atoi\<close>)
  show "socks_program le argv this tid epfd tfd tq wfd wq u lfd q s = Inl UndefinedBehaviour"
    if "1 < length argv \<and> argv ! 1 = show_int m \<and> \<not> int_fits m"
    using that by (simp add: socks_program_def port_arg_def atoi_too_big)
qed (simp_all add: socks_program_def relay_program_def pingpong_server_program_def)

text \<open>
  C28: The pingpong client from its command line on.  With any other number of arguments than six it returns.  Otherwise, when the
  arguments show a number of threads above one, a size and a number \<open>n\<close> of sessions, \<open>main\<close> comes to its loop with the timeout as the
  only timer of its queue, a block of the size asked for, no session counted, and \<open>n\<close> sessions: the \<open>i\<close>-th is called
  \<open>C\<close> and its number, belongs to loop \<open>i mod threads\<close> of the pool, leads to the address of the first two
  arguments, and has asked its loop to start its connector.
\<close>

theorem client_arguments:
  assumes "chans s = (\<lambda>_. None)" and "heap_ok s" and "0 \<le> tfd" and "0 \<le> wfd" and "tfd \<noteq> wfd" and "tq \<noteq> wq"
    and "\<forall>i l. threadId (view i l) \<noteq> tid" and "1 < threads" and "0 \<le> blockSize" and "0 \<le> n"
  shows "(length argv \<noteq> 7 \<longrightarrow> pingpong_client_program le inet_pton argv this tid epfd tfd tq wfd wq u newLoop view s = Inr (Exits 0)) \<and>
    (length argv = 7 \<and> list_all2 reads_as (drop 2 argv) [port, threads, blockSize, n, timeout] \<longrightarrow>
      (\<exists>c s1. pingpong_client_program le inet_pton argv this tid epfd tfd tq wfd wq u newLoop view s = Inr (Runs (c, s1)) \<and>
        timers s1 = [(addTime (clock s (ticks s)) (of_int timeout), alloc s (numCreated s))] \<and>
        tm_callback (the (timerHeap s1 (alloc s (numCreated s)))) = clientTimeout \<and>
        int (length (pp_message (pg_client c))) = blockSize \<and> numConnected (pg_client c) = 0 \<and> int (length (pg_sessions c)) = n \<and>
        (\<forall>i < nat n. \<exists>ss. pg_sessions c ! i = (newLoop (i mod nat threads), ss) \<and> tc_name ss = session_name i \<and>
          serverAddr ss = InetAddress_ip le inet_pton (argv ! 1) (word_of_int port) \<and> cr_connect ss \<and>
          pendingFunctors ss = pendingFunctors (view i (newLoop (i mod nat threads))) @ [ConnectorStartInLoop])))"
proof (intro conjI impI)
  let ?addr = "InetAddress_ip le inet_pton (argv ! 1) (word_of_int port)"
  assume a: "length argv = 7 \<and> list_all2 reads_as (drop 2 argv) [port, threads, blockSize, n, timeout]"
  have "reads_as (drop 2 argv ! i) ([port, threads, blockSize, n, timeout] ! i)" if "i < 5" for i
    using list_all2_nthD2 [OF conjunct2 [OF a], of i] that by simp
  from this [of 0] this [of 1] this [of 2] this [of 3] this [of 4] a
  have r: "reads_as (argv ! 2) port" "reads_as (argv ! 3) threads" "reads_as (argv ! 4) blockSize" "reads_as (argv ! 5) n" "reads_as (argv ! 6) timeout"
    by simp_all
  have len: "arg argv 1 = Inr (argv ! 1)" "2 < length argv" "3 < length argv" "4 < length argv" "5 < length argv" "6 < length argv"
    using a by (simp_all add: arg_def)
  obtain e where e: "EventLoop_construct this tid epfd tfd tq wfd wq u s = Inr e" "poll_frame (loop_made this tid epfd tfd tq wfd wq s) e"
    by (rule EventLoop_construct_ok [OF assms(1,3-6)]) blast
  note tm = loop_made_timers [OF e(2) assms(2)]
  from client_constructs [OF tm(1,2) assms(8,10,7,9), of newLoop ?addr timeout] obtain c s1 where c:
    "Client_construct tid newLoop ?addr blockSize n timeout threads view e = Inr (c, s1)"
    "timers s1 = [(addTime (clock s (ticks s)) (of_int timeout), alloc s (numCreated s))]"
    "tm_callback (the (timerHeap s1 (alloc s (numCreated s)))) = clientTimeout"
    "int (length (pp_message (pg_client c))) = blockSize" "numConnected (pg_client c) = 0" "int (length (pg_sessions c)) = n"
    "\<forall>i < nat n. \<exists>ss. pg_sessions c ! i = (newLoop (i mod nat threads), ss) \<and> tc_name ss = session_name i \<and> serverAddr ss = ?addr \<and>
      cr_connect ss \<and> pendingFunctors ss = pendingFunctors (view i (newLoop (i mod nat threads))) @ [ConnectorStartInLoop]"
    unfolding tm by auto
  have "pingpong_client_program le inet_pton argv this tid epfd tfd tq wfd wq u newLoop view s = Inr (Runs (c, s1))"
    using a c(1) e(1) len(1)
    by (simp add: pingpong_client_program_def pingpong_main_def reads_as_args(2) [OF len(2) r(1)] reads_as_args(1) [OF len(3) r(2)]
        reads_as_args(1) [OF len(4) r(3)] reads_as_args(1) [OF len(5) r(4)] reads_as_args(1) [OF len(6) r(5)] Let_def del: One_nat_def)
  with c(2-7) show "\<exists>c s1. pingpong_client_program le inet_pton argv this tid epfd tfd tq wfd wq u newLoop view s = Inr (Runs (c, s1)) \<and>
        timers s1 = [(addTime (clock s (ticks s)) (of_int timeout), alloc s (numCreated s))] \<and>
        tm_callback (the (timerHeap s1 (alloc s (numCreated s)))) = clientTimeout \<and>
        int (length (pp_message (pg_client c))) = blockSize \<and> numConnected (pg_client c) = 0 \<and> int (length (pg_sessions c)) = n \<and>
        (\<forall>i < nat n. \<exists>ss. pg_sessions c ! i = (newLoop (i mod nat threads), ss) \<and> tc_name ss = session_name i \<and> serverAddr ss = ?addr \<and>
          cr_connect ss \<and> pendingFunctors ss = pendingFunctors (view i (newLoop (i mod nat threads))) @ [ConnectorStartInLoop])"
    by blast
qed (simp add: pingpong_client_program_def)

subsection \<open>Witnesses\<close>

lemma reads_as_demo:
  "reads_as ''1080x'' 1080" "reads_as ''2007'' 2007" "reads_as ''2'' 2" "reads_as ''16'' 16" "reads_as ''3'' 3" "reads_as ''10'' 10"
proof -
  have "show_int 1080 = ''1080''" "\<not> c_isdigit (CHR ''x'')" by code_simp+
  then show "reads_as ''1080x'' 1080" unfolding reads_as_def by (intro conjI exI [of _ "[]"] exI [of _ "''x''"]) (simp_all add: int_fits_def)
  have "show_int 2007 = ''2007''" "show_int 2 = ''2''" "show_int 16 = ''16''" "show_int 3 = ''3''" "show_int 10 = ''10''" by code_simp+
  then show "reads_as ''2007'' 2007" "reads_as ''2'' 2" "reads_as ''16'' 16" "reads_as ''3'' 3" "reads_as ''10'' 10"
    using reads_as_show_int [of 2007] reads_as_show_int [of 2] reads_as_show_int [of 16] reads_as_show_int [of 3] reads_as_show_int [of 10]
    by (simp_all add: int_fits_def)
qed

theorem server_arguments_witness:
  "socks_program True [''socks4a''] 0 1 3 4 2 5 3 False 6 4 pg_demo = Inr (Exits 0) \<and>
   (\<exists>s1. socks_program True [''socks4a'', ''1080x''] 0 1 3 4 2 5 3 False 6 4 pg_demo = Inr (Runs s1) \<and> listening 1 4 s1 \<and>
     NetBind 6 (listen_port True 1080) \<in> set (netLog s1))"
proof -
  have h: "(0::int) \<le> 4" "(0::int) \<le> 5" "(0::int) \<le> 6" "distinct [4, 5, 6::int]" "distinct [2, 3, 4::nat]" by simp_all
  note prog = server_arguments [OF pg_demo_process(1,4) h, of _ True 0 1 3 False "\<lambda>_. None" 1080 0 0]
  have "1 < length [''socks4a'', ''1080x''] \<and> reads_as ([''socks4a'', ''1080x''] ! 1) 1080" using reads_as_demo(1) by simp
  with prog [of "[''socks4a'', ''1080x'']"] have "\<exists>s1. socks_program True [''socks4a'', ''1080x''] 0 1 3 4 2 5 3 False 6 4 pg_demo = Inr (Runs s1) \<and>
      listening 1 4 s1 \<and> NetBind 6 (listen_port True 1080) \<in> set (netLog s1)" by blast
  moreover have "length [''socks4a''] < 2" by simp
  with prog [of "[''socks4a'']"] have "socks_program True [''socks4a''] 0 1 3 4 2 5 3 False 6 4 pg_demo = Inr (Exits 0)" by blast
  ultimately show ?thesis by blast
qed

theorem client_arguments_witness:
  "\<exists>c s1. pingpong_client_program True (\<lambda>_. None) [''client'', ''127.0.0.1'', ''2007'', ''2'', ''16'', ''3'', ''10''] 0 1 3 4 2 5 3 False (\<lambda>i. 5 + i)
      (\<lambda>_ _. pp_demo\<lparr>threadId := 2\<rparr>) (tq_demo\<lparr>chans := \<lambda>_. None\<rparr>) = Inr (Runs (c, s1)) \<and>
    length (pg_sessions c) = 3 \<and> fst (pg_sessions c ! 2) = 5"
proof -
  let ?s = "tq_demo\<lparr>chans := \<lambda>_. None\<rparr>" let ?argv = "[''client'', ''127.0.0.1'', ''2007'', ''2'', ''16'', ''3'', ''10'']"
  let ?view = "\<lambda>(_::nat) (_::nat). pp_demo\<lparr>threadId := 2\<rparr>"
  have h: "chans ?s = (\<lambda>_. None)" "heap_ok ?s" "(0::int) \<le> 4" "(0::int) \<le> 5" "(4::int) \<noteq> 5" "(2::nat) \<noteq> 3" "\<forall>i l. threadId (?view i l) \<noteq> 1"
    "(1::int) < 2" "(0::int) \<le> 16" "(0::int) \<le> 3"
    by (auto simp: tq_demo_def heap_ok_def split: if_splits)
  have "length ?argv = 7 \<and> list_all2 reads_as (drop 2 ?argv) [2007, 2, 16, 3, 10]" using reads_as_demo by simp
  with client_arguments [OF h, of ?argv True "\<lambda>_. None" 0 3 False "\<lambda>i. 5 + i" 2007 10] obtain c s1 where
    "pingpong_client_program True (\<lambda>_. None) ?argv 0 1 3 4 2 5 3 False (\<lambda>i. 5 + i) ?view ?s = Inr (Runs (c, s1))" "int (length (pg_sessions c)) = 3"
    "\<And>i. i < nat 3 \<Longrightarrow> \<exists>ss. pg_sessions c ! i = (5 + i mod nat 2, ss)" by blast
  moreover from this(3) [of 2] have "fst (pg_sessions c ! 2) = 5" by auto
  ultimately show ?thesis by auto
qed

end
