(* ===== verification/Toy.thy ===== *)
theory Toy
  imports Echo TcpClient
begin

section \<open>The protobuf toy\<close>

text \<open>
  \<open>examples/protobuftoy/server.cpp\<close> and \<open>client.cpp\<close>: the client sends one serialised \<open>Person\<close> on each connection, the
  server parses whatever a read brings and prints the person's name and number.  \<open>SerializeToString\<close> and what
  \<open>ParseFromString\<close> leaves in the object, its result being ignored, are arguments; what the server prints is \<open>toy_out\<close>.
\<close>

record person =
  p_name :: string
  p_id :: int

record toy_state = conn_state_t +
  toy_out :: "(string \<times> int) list"

definition toy_onMessage where
  "toy_onMessage ParseFromString p s =
     with_conn p s (\<lambda>k.
       if connected k then
         bindR (retrieveAsString (inputBuffer k)) (\<lambda>(message, buf).
           let p1 = ParseFromString message in
           Inr ((put_conn p (k\<lparr>inputBuffer := buf\<rparr>) s)\<lparr>toy_out := toy_out s @ [(p_name p1, p_id p1)]\<rparr>))
       else Inr s)"

definition toyConnection :: conn_cb where "toyConnection = UserCb 0"
definition toyMessage :: conn_cb where "toyMessage = UserCb 1"

definition toy_ucall :: "(string \<Rightarrow> person) \<Rightarrow> conn_cb \<Rightarrow> nat \<Rightarrow> int \<Rightarrow> 'm toy_state_scheme \<Rightarrow> 'm toy_state_scheme res" where
  "toy_ucall ParseFromString cb p arg s = (if cb = toyMessage then toy_onMessage ParseFromString p s else Inr s)"

text \<open>The client's callbacks, and \<open>main\<close> up to \<open>loop.loop()\<close>.\<close>

definition toy_person :: person where
  "toy_person = \<lparr>p_name = ''chao'', p_id = 173\<rparr>"

definition toy_onConnection where
  "toy_onConnection tid str p s = with_conn p s (\<lambda>k. if connected k then TcpConnection_send tid p str s else Inr s)"

definition toy_client_onMessage where
  "toy_client_onMessage p s =
     with_conn p s (\<lambda>k. bindR (retrieveAsString (inputBuffer k)) (\<lambda>(_, buf). Inr (put_conn p (k\<lparr>inputBuffer := buf\<rparr>) s)))"

definition toy_client_main where
  "toy_client_main tid addr s =
     TcpClient_connect tid (enableRetry (client_setMessageCallback (Some toyMessage)
       (client_setConnectionCallback (Some toyConnection) (TcpClient_new addr [] s))))"

subsection \<open>The server reads\<close>

definition toy_ready :: "int \<Rightarrow> nat \<Rightarrow> nat \<Rightarrow> connection \<Rightarrow> channel \<Rightarrow> 'm toy_state_scheme \<Rightarrow> bool" where
  "toy_ready tid p n k c s \<longleftrightarrow> up tid p k c s \<and> messageCallback k = Some toyMessage \<and> os_read_ok s \<and> buffer_inv (inputBuffer k) \<and>
     content (inputBuffer k) = [] \<and> length (storage (inputBuffer k)) + n * extrabufSize \<le> VEC_MAX"

lemma up_toy: "up tid p k c (s\<lparr>toy_out := out\<rparr>) = up tid p k c s"
  by (simp add: up_def conn_inv_def loop_inv_def own_chans_def ep_registered_def os_write_ok_def epoll_inv_def epoll_chan_ok_def)

lemma toy_read:
  fixes s :: "'m toy_state_scheme"
  assumes ready: "toy_ready tid p (Suc n) k c s"
  shows "\<exists>s' k'. TcpConnection_handleRead (toy_ucall parse) t p s = Inr s' \<and> toy_ready tid p n k' c s' \<and>
    conn_sockfd k' = conn_sockfd k \<and> osCalls s' = Suc (osCalls s) \<and> osRead s' = osRead s \<and>
    (let m = parse (received s (conn_sockfd k) (osCalls s)) in toy_out s' = toy_out s @ [(p_name m, p_id m)])"
proof -
  have up: "up tid p k c s" and buf: "buffer_inv (inputBuffer k)" "content (inputBuffer k) = []"
    "length (storage (inputBuffer k)) + Suc n * extrabufSize \<le> VEC_MAX" and cb: "messageCallback k = Some toyMessage"
    using ready by (simp_all add: toy_ready_def)
  obtain bytes where got: "osRead s (osCalls s) (conn_sockfd k) = ReadvGot bytes" "bytes \<noteq> []" "length bytes \<le> extrabufSize"
    using ready by (auto simp: toy_ready_def os_read_ok_def)
  have room: "length (storage (inputBuffer k)) + extrabufSize \<le> VEC_MAX" and fit: "length bytes \<le> writableBytes (inputBuffer k) + extrabufSize"
    using buf(3) got(3) by simp_all
  obtain b where b: "TcpConnection_handleRead (toy_ucall parse) t p s =
      call_cb (toy_ucall parse) (messageCallback k) p t (put_conn p (k\<lparr>inputBuffer := b\<rparr>) (s\<lparr>osCalls := Suc (osCalls s)\<rparr>))"
    "buffer_inv b" "content b = content (inputBuffer k) @ bytes" "length (storage b) \<le> length (storage (inputBuffer k)) + extrabufSize"
    by (rule handleRead_got [OF up buf(1) room got(1,2) fit])
  let ?k = "k\<lparr>inputBuffer := retrieveAll b\<rparr>" let ?m = "parse bytes"
  let ?s = "put_conn p (k\<lparr>inputBuffer := b\<rparr>) (s\<lparr>osCalls := Suc (osCalls s)\<rparr>)"
  let ?s' = "(put_conn p ?k ?s)\<lparr>toy_out := toy_out s @ [(p_name ?m, p_id ?m)]\<rparr>"
  have up1: "up tid p (k\<lparr>inputBuffer := b\<rparr>) c ?s" using up by (simp add: up_def conn_inv_def os_write_ok_def)
  have "connected k" using up by (simp add: up_def connected_def)
  then have "TcpConnection_handleRead (toy_ucall parse) t p s = Inr ?s'"
    using b(1,3) cb buf(2) retrieveAsString_ok [OF b(2)] by (simp add: call_cb_def toy_ucall_def toyMessage_def toy_onMessage_def connected_def put_conn_def Let_def)
  moreover have "up tid p ?k c ?s'" using up_input(1) [OF up1, of "retrieveAll b"] by (simp add: up_toy)
  moreover have "os_read_ok ?s'" using ready by (simp add: toy_ready_def os_read_ok_def put_conn_def)
  moreover have "received s (conn_sockfd k) (osCalls s) = bytes" using got(1) by (simp add: received_def)
  moreover have "length (storage (retrieveAll b)) + n * extrabufSize \<le> VEC_MAX" using buf(3) b(4) by (simp add: retrieveAll_def)
  ultimately show ?thesis
    using cb retrieveAll_inv [OF b(2)] by (intro exI [of _ ?s'] exI [of _ ?k]) (simp add: toy_ready_def put_conn_def Let_def)
qed

lemma toy_reads:
  fixes s :: "'m toy_state_scheme"
  assumes "toy_ready tid p (length ts) k c s"
  shows "\<exists>s'. foldR (\<lambda>t. TcpConnection_handleRead (toy_ucall parse) t p) ts s = Inr s' \<and>
    toy_out s' = toy_out s @ map (\<lambda>i. let m = parse (received s (conn_sockfd k) i) in (p_name m, p_id m)) [osCalls s..<osCalls s + length ts]"
  using assms
proof (induction ts arbitrary: s k)
  case (Cons t ts)
  then have "toy_ready tid p (Suc (length ts)) k c s" by simp
  from toy_read [OF this, of parse t] obtain s1 k1 where s1: "TcpConnection_handleRead (toy_ucall parse) t p s = Inr s1"
    "toy_ready tid p (length ts) k1 c s1" "conn_sockfd k1 = conn_sockfd k" "osCalls s1 = Suc (osCalls s)" "osRead s1 = osRead s"
    "toy_out s1 = toy_out s @ [let m = parse (received s (conn_sockfd k) (osCalls s)) in (p_name m, p_id m)]"
    by (auto simp: Let_def)
  have "received s1 = received s" using s1(5) by (simp add: received_def fun_eq_iff)
  moreover have "[osCalls s..<osCalls s + length (t # ts)] = osCalls s # [Suc (osCalls s)..<Suc (osCalls s) + length ts]"
    by (subst upt_conv_Cons) (simp_all del: upt_Suc)
  ultimately show ?case using Cons.IH [OF s1(2)] s1(1,3,4,6) by simp
qed simp

subsection \<open>Properties\<close>

text \<open>
  The toy has no framing.  The client puts exactly its serialised person into the bytes of its connection.  The server
  prints one line for every read, of whatever a parser makes of the bytes of that read alone; so the person is printed, once,
  if its bytes arrive in one read, and otherwise each piece is taken for a person.
\<close>

theorem toy_prints_reads:
  fixes s :: "'m toy_state_scheme"
  assumes "up tid q kq cq u" and "writerIndex (outputBuffer kq) + length str \<le> VEC_MAX" and "toy_ready tid p (length ts) k c s"
  shows "(\<exists>u' kq' cq'. toy_onConnection tid str q u = Inr u' \<and> up tid q kq' cq' u' \<and> stream kq' u' = stream kq u @ str) \<and>
    (\<exists>s'. foldR (\<lambda>t. TcpConnection_handleRead (toy_ucall parse) t p) ts s = Inr s' \<and>
      toy_out s' = toy_out s @ map (\<lambda>i. let m = parse (received s (conn_sockfd k) i) in (p_name m, p_id m)) [osCalls s..<osCalls s + length ts] \<and>
      (length ts = 1 \<and> received s (conn_sockfd k) (osCalls s) = str \<and> parse str = toy_person \<longrightarrow> toy_out s' = toy_out s @ [(''chao'', 173)]))"
proof (rule conjI)
  have "conns u q = Some kq" "connected kq" using assms(1) by (simp_all add: up_def conn_inv_def connected_def)
  then have "toy_onConnection tid str q u = TcpConnection_send tid q str u" by (simp add: toy_onConnection_def)
  with sends_send [of tid q str, unfolded sends_def, rule_format, OF conjI [OF assms(1,2)]]
  show "\<exists>u' kq' cq'. toy_onConnection tid str q u = Inr u' \<and> up tid q kq' cq' u' \<and> stream kq' u' = stream kq u @ str" by auto
next
  from toy_reads [OF assms(3), of parse] show "\<exists>s'. foldR (\<lambda>t. TcpConnection_handleRead (toy_ucall parse) t p) ts s = Inr s' \<and>
      toy_out s' = toy_out s @ map (\<lambda>i. let m = parse (received s (conn_sockfd k) i) in (p_name m, p_id m)) [osCalls s..<osCalls s + length ts] \<and>
      (length ts = 1 \<and> received s (conn_sockfd k) (osCalls s) = str \<and> parse str = toy_person \<longrightarrow> toy_out s' = toy_out s @ [(''chao'', 173)])"
    by (auto simp: toy_person_def)
qed

subsection \<open>Witness\<close>

text \<open>A person is its name; the first read of the server brings the name, as any other would.\<close>

definition toy_demo :: toy_state where
  "toy_demo = conn_state_t.extend (cn_demo kConnected\<lparr>osRead := (\<lambda>_ _. ReadvGot ''chao''),
     conns := [1 \<mapsto> (cn_demo_conn kConnected Buffer_new)\<lparr>messageCallback := Some toyMessage\<rparr>]\<rparr>) \<lparr>toy_out = []\<rparr>"

lemma toy_demo_ready:
  "toy_ready 1 1 1 ((cn_demo_conn kConnected Buffer_new)\<lparr>messageCallback := Some toyMessage\<rparr>) cn_demo_chan toy_demo"
proof -
  have "loop_inv toy_demo" "ep_registered 1 toy_demo" by (rule demo_loop; simp add: toy_demo_def conn_state_t.defs cn_demo_defs)+
  with cn_demo_up show ?thesis
    by (simp add: toy_ready_def up_def conn_inv_def os_write_ok_def os_read_ok_def toy_demo_def conn_state_t.defs cn_demo_defs buffer_inv_new
        extrabufSize_def)
qed

theorem toy_prints_reads_witness:
  "\<exists>s'. foldR (\<lambda>t. TcpConnection_handleRead (toy_ucall (\<lambda>m. \<lparr>p_name = m, p_id = 173\<rparr>)) t 1) [5] toy_demo = Inr s' \<and> toy_out s' = [(''chao'', 173)]"
proof -
  let ?k = "(cn_demo_conn kConnected Buffer_new)\<lparr>messageCallback := Some toyMessage\<rparr>"
  have room: "writerIndex (outputBuffer ?k) + length ''chao'' \<le> VEC_MAX" by (simp add: cn_demo_conn_def)
  have r: "toy_ready 1 1 (length [5::int]) ?k cn_demo_chan toy_demo" using toy_demo_ready by simp
  have up: "up 1 1 ?k cn_demo_chan toy_demo" using toy_demo_ready by (simp add: toy_ready_def)
  have f: "received toy_demo (conn_sockfd ?k) (osCalls toy_demo) = ''chao''" "toy_out toy_demo = []"
    by (simp_all add: received_def toy_demo_def conn_state_t.defs cn_demo_defs)
  from toy_prints_reads [OF up room r, of "\<lambda>m. \<lparr>p_name = m, p_id = 173\<rparr>"] f show ?thesis by (auto simp: toy_person_def)
qed

end
