(* ===== verification/Clients.thy ===== *)
theory Clients
  imports Toy Discard
begin

section \<open>The example clients\<close>

text \<open>
  The clients of the discard and protobuf examples from the construction of their loop to the first connection: the
  connector, the client and the connection meet in one loop.
\<close>

definition client_config where
  "client_config ccb mcb wcb retry addr name s =
     (TcpClient_new addr name s)\<lparr>tc_connectionCallback := ccb, tc_messageCallback := mcb, tc_writeCompleteCallback := wcb, tc_retry := retry\<rparr>"

definition discardConnection :: conn_cb where "discardConnection = UserCb 0"
definition discardMessage :: conn_cb where "discardMessage = UserCb 1"
definition discardWriteComplete :: nat where "discardWriteComplete = 0"

text \<open>The constructor of \<open>DiscardClient\<close> and its \<open>connect\<close>, the rest of whose \<open>main\<close> is the address.\<close>

definition DiscardClient_construct where
  "DiscardClient_construct listenAddr s =
     client_setWriteCompleteCallback (Some discardWriteComplete) (client_setMessageCallback (Some discardMessage)
       (client_setConnectionCallback (Some discardConnection) (TcpClient_new listenAddr [] s)))"

definition discard_client_main where
  "discard_client_main tid addr s = TcpClient_connect tid (DiscardClient_construct addr s)"

lemma client_mains:
  "toy_client_main tid addr s = TcpClient_connect tid (client_config (Some toyConnection) (Some toyMessage) None True addr [] s)"
  "discard_client_main tid addr s =
     TcpClient_connect tid (client_config (Some discardConnection) (Some discardMessage) (Some discardWriteComplete) False addr [] s)"
  by (cases s; simp add: toy_client_main_def discard_client_main_def DiscardClient_construct_def client_config_def TcpClient_new_def
      Connector_new_def setNewConnectionCallback_def client_setConnectionCallback_def client_setMessageCallback_def
      client_setWriteCompleteCallback_def enableRetry_def)+

text \<open>A process whose kernel answers one \<open>connect\<close> with \<open>fd\<close>, in progress, and lets it succeed.\<close>

definition connects_to :: "int \<Rightarrow> nat \<Rightarrow> nat \<Rightarrow> nat \<Rightarrow> ('m) client_state_scheme \<Rightarrow> bool" where
  "connects_to fd q p cq s \<longleftrightarrow> chans s = (\<lambda>_. None) \<and> netLog s = [] \<and> osConnect s (attempts s) = (fd, EINPROGRESS) \<and>
     newChannel s (attempts s) = q \<and> \<not> channelGarbage s \<and> osSocketError s fd = 0 \<and> \<not> osSelfConnect s fd \<and>
     newConn s (connsMade s) = (p, cq) \<and> os_write_ok s"

lemma client_starts:
  fixes s :: "('m) client_state_scheme"
  assumes s: "connects_to fd q p cq s" and fds: "0 \<le> tfd" "0 \<le> wfd" "0 \<le> fd" "distinct [tfd, wfd, fd]" and ptrs: "distinct [tq, wq, q, cq]"
  obtains s1 where "bindR (EventLoop_construct this tid epfd tfd tq wfd wq u s)
      (\<lambda>s. TcpClient_connect tid (client_config ccb mcb wcb retry addr name s)) = Inr s1" "waiting q fd s1" "cr_connect s1"
    "cr_callback s1 = Some clientNewConnection" "osSocketError s1 = osSocketError s" "osSelfConnect s1 = osSelfConnect s" "pendingFunctors s1 = []"
    "netLog s1 = []" "osWrite s1 = osWrite s" "threadId s1 = tid" "chans s1 cq = None"
    "newConn s1 = newConn s" "connsMade s1 = connsMade s" "tc_connectionCallback s1 = ccb" "tc_messageCallback s1 = mcb"
    "tc_writeCompleteCallback s1 = wcb" "tc_retry s1 = retry" "serverAddr s1 = addr"
proof -
  have tw: "tfd \<noteq> wfd" "tq \<noteq> wq" and ch: "chans s = (\<lambda>_. None)" using s fds ptrs by (simp_all add: connects_to_def)
  obtain a where a: "EventLoop_construct this tid epfd tfd tq wfd wq u s = Inr a" "loop_inv a"
    "poll_frame (loop_made this tid epfd tfd tq wfd wq s) a"
    "dom (chans a) = {tq, wq}" "\<And>x. ep_free_fd x a \<longleftrightarrow> x \<noteq> tfd \<and> x \<noteq> wfd"
    by (rule EventLoop_construct_ok [OF ch fds(1,2) tw]) blast
  have fa: "threadId a = tid" "netLog a = []" "osConnect a = osConnect s" "attempts a = attempts s" "newChannel a = newChannel s"
    "channelGarbage a = channelGarbage s" "osSocketError a = osSocketError s" "osSelfConnect a = osSelfConnect s" "newConn a = newConn s"
    "connsMade a = connsMade s" "osWrite a = osWrite s" "pendingFunctors a = []"
    using a(3) s by (cases s; cases a; simp add: poll_frame_def connects_to_def)+
  let ?b = "(client_config ccb mcb wcb retry addr name a)\<lparr>tc_connect := True, cr_connect := True\<rparr>"
  have b: "?b = a\<lparr>serverAddr := addr, cr_connect := True, cr_state := CDisconnected, cr_channel := None, cr_callback := Some clientNewConnection,
      retryDelayMs := kInitRetryDelayMs, cr_timerId := (0, 0), tc_connectionCallback := ccb, tc_messageCallback := mcb,
      tc_writeCompleteCallback := wcb, tc_retry := retry, tc_connect := True, tc_nextConnId := 1, tc_connection := None, tc_name := name\<rparr>"
    by (cases a) (simp add: client_config_def TcpClient_new_def Connector_new_def setNewConnectionCallback_def)
  have "q \<notin> dom (chans a)" "cq \<notin> dom (chans a)" using a(4) ptrs by auto
  then have new: "chans a q = None" "chans a cq = None" by auto
  have cong: "loop_inv ?b = loop_inv a" "ep_free_fd x ?b = ep_free_fd x a" for x unfolding b by (rule loop_inv_cong; simp)+
  have free: "ep_free_fd fd a" using a(5) fds(4) by auto
  have hb: "loop_inv ?b" "cr_state ?b = CDisconnected" "cr_connect ?b" "cr_channel ?b = None" "osConnect ?b (attempts ?b) = (fd, EINPROGRESS)"
    "ep_free_fd fd ?b" "q = newChannel ?b (attempts ?b)" "chans ?b q = None" "\<not> channelGarbage ?b"
    using a(2) free cong(1) cong(2) [of fd] s fa new by (simp_all add: connects_to_def b)
  obtain s1 where s1: "startInLoop tid ?b = Inr s1" "waiting q fd s1" "cr_connect s1" "cr_callback s1 = cr_callback ?b"
    "osSocketError s1 = osSocketError ?b" "osSelfConnect s1 = osSelfConnect ?b" "pendingFunctors s1 = pendingFunctors ?b"
    "conn_state_t.more s1 = conn_state_t.more (?b\<lparr>cr_state := CConnecting, cr_channel := Some q, attempts := Suc (attempts ?b)\<rparr>)"
    "conns s1 = conns ?b" "netLog s1 = netLog ?b" "osWrite s1 = osWrite ?b" "threadId s1 = threadId ?b"
    "\<And>r. r \<noteq> q \<Longrightarrow> chans ?b r = None \<Longrightarrow> chans s1 r = None"
    by (rule start_waits [OF hb(1-5) fds(3) hb(6-9)]) blast
  have run: "TcpClient_connect tid (client_config ccb mcb wcb retry addr name a) = Inr s1"
    using s1(1) fa(1) by (simp add: TcpClient_connect_def Connector_start_def runInLoop_def isInLoopThread_def b client_config_def TcpClient_new_def
        Connector_new_def setNewConnectionCallback_def)
  have "newConn s1 = newConn s" "connsMade s1 = connsMade s" "tc_connectionCallback s1 = ccb" "tc_messageCallback s1 = mcb"
    "tc_writeCompleteCallback s1 = wcb" "tc_retry s1 = retry" "serverAddr s1 = addr"
    using s1(8) fa(9,10) unfolding b by (cases s1; cases a; simp)+
  moreover have "chans s1 cq = None" using s1(13) [of cq] new(2) ptrs by (simp add: b)
  ultimately show thesis using a(1) run s1(2-7,10-12) fa by (intro that [of s1]) (simp_all add: b)
qed

lemma client_program:
  fixes s :: "('m) client_state_scheme"
  assumes s: "connects_to fd q p cq s" and fds: "0 \<le> tfd" "0 \<le> wfd" "0 \<le> fd" "distinct [tfd, wfd, fd]" and ptrs: "distinct [tq, wq, q, cq]"
  obtains s1 s2 c where "bindR (EventLoop_construct this tid epfd tfd tq wfd wq u s)
      (\<lambda>s. TcpClient_connect tid (client_config ccb mcb wcb retry addr name s)) = Inr s1" "waiting q fd s1" "serverAddr s1 = addr"
    "Connector_handleWrite (client_ncall tid user) tid s1 = call_cb (client_ucall tid user) ccb p 0 s2"
    "tc_connection s2 = Some p" "up tid p (client_conn s1 cq fd) c s2" "netLog s2 = []" "tc_retry s2 = retry" "pendingFunctors s2 = [ConnectorResetChannel]"
    "tc_connectionCallback s1 = ccb" "tc_messageCallback s1 = mcb" "tc_writeCompleteCallback s1 = wcb"
proof -
  obtain s1 where s1: "bindR (EventLoop_construct this tid epfd tfd tq wfd wq u s)
      (\<lambda>s. TcpClient_connect tid (client_config ccb mcb wcb retry addr name s)) = Inr s1" "waiting q fd s1" "cr_connect s1"
    "cr_callback s1 = Some clientNewConnection" "osSocketError s1 = osSocketError s" "osSelfConnect s1 = osSelfConnect s" "pendingFunctors s1 = []"
    "netLog s1 = []" "osWrite s1 = osWrite s" "threadId s1 = tid" "chans s1 cq = None"
    and m1: "newConn s1 = newConn s" "connsMade s1 = connsMade s" "tc_connectionCallback s1 = ccb" "tc_messageCallback s1 = mcb"
    "tc_writeCompleteCallback s1 = wcb" "tc_retry s1 = retry" "serverAddr s1 = addr"
    by (rule client_starts [OF s fds ptrs])
  have cb: "cr_callback s1 = Some clientNewConnection" "osSocketError s1 fd = 0" "\<not> osSelfConnect s1 fd"
    using s1(4-6) s by (simp_all add: connects_to_def)
  obtain v where v: "Connector_handleWrite (client_ncall tid user) tid s1 = client_ncall tid user clientNewConnection fd (v\<lparr>cr_state := CConnected\<rparr>)"
    "loop_inv v" "ep_free_fd fd v" "\<exists>u. poll_frame s1 u \<and> v = queueInLoop tid ConnectorResetChannel u" "cr_channel v = Some q"
    "\<And>r. chans s1 r = None \<Longrightarrow> chans v r = None"
    by (rule write_completes [OF s1(2,3) cb, where ncall = "client_ncall tid user" and tid = tid]) blast
  then obtain w where w: "poll_frame s1 w" "v = queueInLoop tid ConnectorResetChannel w" by blast
  let ?v = "v\<lparr>cr_state := CConnected\<rparr>"
  have fw: "conns w = conns s1" "newConn w = newConn s1" "connsMade w = connsMade s1" "tc_connectionCallback w = tc_connectionCallback s1"
    "tc_messageCallback w = tc_messageCallback s1" "tc_writeCompleteCallback w = tc_writeCompleteCallback s1" "tc_retry w = tc_retry s1"
    "netLog w = netLog s1" "osWrite w = osWrite s1" "threadId w = threadId s1" "osLocal w = osLocal s1" "osPeer w = osPeer s1" "osNtop w = osNtop s1"
    "osLittleEndian w = osLittleEndian s1" "tc_nextConnId w = tc_nextConnId s1"
    using w(1) by (cases s1; cases w; simp add: poll_frame_def)+
  have fv: "conns ?v = conns s1" "newConn ?v = newConn s1" "connsMade ?v = connsMade s1" "tc_connectionCallback ?v = tc_connectionCallback s1"
    "tc_messageCallback ?v = tc_messageCallback s1" "tc_writeCompleteCallback ?v = tc_writeCompleteCallback s1" "tc_retry ?v = tc_retry s1"
    "netLog ?v = netLog s1" "osWrite ?v = osWrite s1" "threadId ?v = threadId s1"
    using fw by (simp_all add: w(2) queueInLoop_def wakeup_def Let_def)
  have cc: "client_conn ?v = client_conn s1"
    using fw by (intro ext) (simp add: w(2) queueInLoop_def wakeup_def Let_def client_conn_def connName_def)
  have iv: "loop_inv ?v" "ep_free_fd fd ?v" using v(2,3) loop_inv_cong [of ?v v] by simp_all
  have "chans ?v cq = None" using s1(11) v(6) [of cq] by simp
  moreover have "newConn ?v (connsMade ?v) = (p, cq)" using fv(2,3) m1(1,2) s by (simp add: connects_to_def)
  ultimately obtain s2 where s2: "TcpClient_newConnection (client_ucall tid user) fd ?v = call_cb (client_ucall tid user) (tc_connectionCallback ?v) p 0 s2"
    "loop_inv s2" "poll_frame (?v\<lparr>connsMade := Suc (connsMade ?v), tc_connection := Some p, conns := (conns ?v)(p \<mapsto> client_conn ?v cq fd)\<rparr>) s2"
    "ep_registered cq s2" "chans s2 = (chans ?v)(cq \<mapsto> (conn_chan p (lp_this ?v) fd (channelGarbage ?v))\<lparr>ch_events := kReadEvent, ch_index := kAdded\<rparr>)"
    using newConnection_up [OF iv(1) _ _ fds(3) iv(2), where ucall = "client_ucall tid user" and p = p and q = cq] by metis
  have f2: "tc_connection s2 = Some p" "conns s2 p = Some (client_conn s1 cq fd)" "netLog s2 = []" "osWrite s2 = osWrite s" "threadId s2 = tid"
    "tc_retry s2 = retry" "lp_this s2 = lp_this ?v" "pendingFunctors s2 = pendingFunctors ?v"
    using s2(3) fv cc m1(6) s1(8-10) by (cases ?v; cases s2; simp add: poll_frame_def)+
  have "pendingFunctors w = pendingFunctors s1" using poll_frame_conn(7) [OF w(1)] .
  then have pend: "pendingFunctors s2 = [ConnectorResetChannel]" using f2(8) s1(7) by (simp add: w(2))
  have up: "up tid p (client_conn s1 cq fd) ((conn_chan p (lp_this ?v) fd (channelGarbage ?v))\<lparr>ch_events := kReadEvent, ch_index := kAdded\<rparr>) s2"
    using s2(2,4,5) f2 s
    by (simp add: up_def conn_inv_def client_conn_def buffer_inv_new isWriting_def masks_disjoint os_write_ok_def connects_to_def)
  have "Connector_handleWrite (client_ncall tid user) tid s1 = call_cb (client_ucall tid user) ccb p 0 s2"
    using v(1) s2(1) fv(4) m1(3) by (simp add: client_ncall_def)
  then show thesis using s1(1,2) m1 f2(1,3,6) pend up
    by (intro that [of s1 s2 "(conn_chan p (lp_this ?v) fd (channelGarbage ?v))\<lparr>ch_events := kReadEvent, ch_index := kAdded\<rparr>"]) simp_all
qed

text \<open>The callbacks of the two clients.\<close>

definition toy_client_ucall where
  "toy_client_ucall tid str cb p (arg :: int) s =
     (if cb = toyConnection then toy_onConnection tid str p s else if cb = toyMessage then toy_client_onMessage p s else Inr s)"

definition discard_client_ucall where
  "discard_client_ucall tid d cb p (arg :: int) s =
     (if cb = discardConnection then discard_onConnection tid d p s
      else if cb = discardMessage then discard_client_onMessage p s else Inr s)"

lemma client_quit: "tc_connection (EventLoop_quit tid s) = tc_connection s"
  by (simp add: EventLoop_quit_def wakeup_def Let_def)

text \<open>What their connection callbacks do for a closed connection leaves the client its hold on it: one does nothing, the other asks the loop to quit.\<close>

lemma clients_let_close:
  "connectionCallback k = Some toyConnection \<Longrightarrow> conn_state k = kDisconnected \<Longrightarrow>
    callback_lets_close keeps_connection (client_ucall tid (toy_client_ucall tid str)) p k"
  "connectionCallback k = Some discardConnection \<Longrightarrow> conn_state k = kDisconnected \<Longrightarrow>
    callback_lets_close keeps_connection (client_ucall tid (discard_client_ucall tid d)) p k"
  by (auto simp: callback_lets_close_def call_cb_def client_ucall_def toyConnection_def toy_client_ucall_def toy_onConnection_def
      discardConnection_def discard_client_ucall_def discard_onConnection_def connected_def lets_close_refl quit_lets_close client_quit keeps_connection_def)

lemma new_client_sends:
  assumes "up tid p (client_conn s1 cq fd) c s" "netLog s = []" "8 + length msg \<le> VEC_MAX"
  shows "\<exists>s' k c'. TcpConnection_send tid p msg s = Inr s' \<and> up tid p k c' s' \<and> conn_same (client_conn s1 cq fd) k \<and> stream k s' = msg"
proof -
  have "up tid p (client_conn s1 cq fd) c s \<and> writerIndex (outputBuffer (client_conn s1 cq fd)) + length msg \<le> VEC_MAX"
    using assms(1,3) by (simp add: client_conn_def)
  from sends_send [of tid p msg, unfolded sends_def, rule_format, OF this] obtain k c' s' where "TcpConnection_send tid p msg s = Inr s'"
    "up tid p k c' s'" "conn_same (client_conn s1 cq fd) k" "stream k s' = stream (client_conn s1 cq fd) s @ msg" by blast
  moreover have "stream (client_conn s1 cq fd) s = []" using assms(2) by (simp add: stream_def client_conn_def)
  ultimately show ?thesis by auto
qed

subsection \<open>Properties\<close>

text \<open>
  C16: The two example clients, from the construction of their loop on.  Each reaches \<open>loop.loop()\<close> with a connector that waits
  for its socket; when the socket becomes writable the connection is up, with the callbacks of the client, and its connection
  callback has put exactly the client's message into the bytes of the connection: the serialised person, or the
  discard client's bytes, after switching off Nagle's algorithm.
\<close>

theorem example_clients_send:
  fixes s :: "('m) client_state_scheme"
  assumes "connects_to fd q p cq s" and "0 \<le> tfd" and "0 \<le> wfd" and "0 \<le> fd" and "distinct [tfd, wfd, fd]" and "distinct [tq, wq, q, cq]"
    and "8 + length str \<le> VEC_MAX" and "8 + sz \<le> VEC_MAX"
  shows "(\<exists>s1 s2 k c. bindR (EventLoop_construct this tid epfd tfd tq wfd wq u s) (toy_client_main tid addr) = Inr s1 \<and> waiting q fd s1 \<and>
      serverAddr s1 = addr \<and> Connector_handleWrite (client_ncall tid (toy_client_ucall tid str)) tid s1 = Inr s2 \<and>
      up tid p k c s2 \<and> conn_sockfd k = fd \<and> messageCallback k = Some toyMessage \<and> stream k s2 = str) \<and>
    (\<exists>s1 s2 k c. bindR (EventLoop_construct this tid epfd tfd tq wfd wq u s) (discard_client_main tid addr) = Inr s1 \<and> waiting q fd s1 \<and>
      serverAddr s1 = addr \<and> Connector_handleWrite (client_ncall tid (discard_client_ucall tid (DiscardClient_new sz))) tid s1 = Inr s2 \<and>
      up tid p k c s2 \<and> conn_sockfd k = fd \<and> messageCallback k = Some discardMessage \<and>
      writeCompleteCallback k = Some discardWriteComplete \<and> stream k s2 = replicate sz (CHR ''H''))"
proof (rule conjI)
  let ?u = "toy_client_ucall tid str :: conn_cb \<Rightarrow> nat \<Rightarrow> int \<Rightarrow> 'm client_state_scheme \<Rightarrow> 'm client_state_scheme res"
  obtain s1 s2 c where s: "bindR (EventLoop_construct this tid epfd tfd tq wfd wq u s) (toy_client_main tid addr) = Inr s1" "waiting q fd s1" "serverAddr s1 = addr"
    "Connector_handleWrite (client_ncall tid ?u) tid s1 = call_cb (client_ucall tid ?u) (Some toyConnection) p 0 s2"
    "up tid p (client_conn s1 cq fd) c s2" "netLog s2 = []" "tc_messageCallback s1 = Some toyMessage"
    by (rule client_program [OF assms(1-6), where user = ?u and ccb = "Some toyConnection" and mcb = "Some toyMessage" and wcb = None and
      retry = True and name = "[]" and addr = addr and tid = tid, folded client_mains(1)]) blast
  from new_client_sends [OF s(5,6) assms(7)] obtain s' k c' where s': "TcpConnection_send tid p str s2 = Inr s'" "up tid p k c' s'"
    "conn_same (client_conn s1 cq fd) k" "stream k s' = str" by blast
  have "conns s2 p = Some (client_conn s1 cq fd)" using s(5) by (simp add: up_def conn_inv_def)
  then have "call_cb (client_ucall tid ?u) (Some toyConnection) p 0 s2 = Inr s'"
    using s'(1) by (simp add: call_cb_def client_ucall_def toyConnection_def toy_client_ucall_def toy_onConnection_def connected_def client_conn_def)
  moreover have "conn_sockfd k = fd" "messageCallback k = Some toyMessage"
    using s'(3) s(7) by (cases k; simp add: conn_same_def client_conn_def)+
  ultimately show "\<exists>s1 s2 k c. bindR (EventLoop_construct this tid epfd tfd tq wfd wq u s) (toy_client_main tid addr) = Inr s1 \<and> waiting q fd s1 \<and>
      serverAddr s1 = addr \<and> Connector_handleWrite (client_ncall tid (toy_client_ucall tid str)) tid s1 = Inr s2 \<and>
      up tid p k c s2 \<and> conn_sockfd k = fd \<and> messageCallback k = Some toyMessage \<and> stream k s2 = str"
    using s(1-4) s'(2,4) by auto
next
  let ?u = "discard_client_ucall tid (DiscardClient_new sz) :: conn_cb \<Rightarrow> nat \<Rightarrow> int \<Rightarrow> 'm client_state_scheme \<Rightarrow> 'm client_state_scheme res"
  obtain s1 s2 c where s: "bindR (EventLoop_construct this tid epfd tfd tq wfd wq u s) (discard_client_main tid addr) = Inr s1" "waiting q fd s1"
    "serverAddr s1 = addr" "Connector_handleWrite (client_ncall tid ?u) tid s1 = call_cb (client_ucall tid ?u) (Some discardConnection) p 0 s2"
    "up tid p (client_conn s1 cq fd) c s2" "netLog s2 = []" "tc_messageCallback s1 = Some discardMessage"
    "tc_writeCompleteCallback s1 = Some discardWriteComplete"
    by (rule client_program [OF assms(1-6), where user = ?u and ccb = "Some discardConnection" and mcb = "Some discardMessage" and
      wcb = "Some discardWriteComplete" and retry = False and name = "[]" and addr = addr and tid = tid, folded client_mains(2)]) blast
  let ?s = "net (NetNoDelay fd True) s2"
  have up: "up tid p (client_conn s1 cq fd) c ?s" using s(5) by (simp add: up_def os_write_ok_def)
  from sends_send [of tid p "replicate sz (CHR ''H'')", unfolded sends_def, rule_format, OF conjI [OF up]] assms(8)
  obtain k c' s' where s': "TcpConnection_send tid p (replicate sz (CHR ''H'')) ?s = Inr s'" "up tid p k c' s'"
    "conn_same (client_conn s1 cq fd) k" "stream k s' = stream (client_conn s1 cq fd) ?s @ replicate sz (CHR ''H'')"
    by (auto simp: client_conn_def)
  have st: "stream (client_conn s1 cq fd) ?s = []" using s(6) by (simp add: stream_def client_conn_def net_def)
  have conn: "conns s2 p = Some (client_conn s1 cq fd)" using s(5) by (simp add: up_def conn_inv_def)
  then have "call_cb (client_ucall tid ?u) (Some discardConnection) p 0 s2 = Inr s'"
    using s'(1) by (simp add: call_cb_def client_ucall_def discardConnection_def discard_client_ucall_def discard_onConnection_def connected_def
        client_conn_def TcpConnection_setTcpNoDelay_def Socket_setTcpNoDelay_def DiscardClient_new_def)
  moreover have "conn_sockfd k = fd" "messageCallback k = Some discardMessage" "writeCompleteCallback k = Some discardWriteComplete"
    using s'(3) s(7,8) by (cases k; simp add: conn_same_def client_conn_def)+
  ultimately show "\<exists>s1 s2 k c. bindR (EventLoop_construct this tid epfd tfd tq wfd wq u s) (discard_client_main tid addr) = Inr s1 \<and> waiting q fd s1 \<and>
      serverAddr s1 = addr \<and> Connector_handleWrite (client_ncall tid (discard_client_ucall tid (DiscardClient_new sz))) tid s1 = Inr s2 \<and>
      up tid p k c s2 \<and> conn_sockfd k = fd \<and> messageCallback k = Some discardMessage \<and>
      writeCompleteCallback k = Some discardWriteComplete \<and> stream k s2 = replicate sz (CHR ''H'')"
    using s(1-4) s'(2,4) st by auto
qed

subsection \<open>Witness\<close>

definition cl_demo :: client_state where
  "cl_demo = tc_demo\<lparr>chans := (\<lambda>_. None), osWrite := (\<lambda>i fd data. int (length data)), newChannel := (\<lambda>_. 5), newConn := (\<lambda>_. (10, 20))\<rparr>"

lemma cl_demo_connects: "connects_to 9 5 10 20 cl_demo"
  by (simp add: connects_to_def cl_demo_def tc_demo_defs os_write_ok_def)

theorem example_clients_send_witness:
  "\<exists>s1 s2 k c. bindR (EventLoop_construct 0 1 3 4 2 6 3 False cl_demo) (toy_client_main 1 zero_addr) = Inr s1 \<and>
     Connector_handleWrite (client_ncall 1 (toy_client_ucall 1 ''chao'')) 1 s1 = Inr s2 \<and> up 1 10 k c s2 \<and> stream k s2 = ''chao''"
proof -
  have n: "(0::int) \<le> 4" "(0::int) \<le> 6" "(0::int) \<le> 9" "distinct [4, 6, 9::int]" "distinct [2, 3, 5, 20::nat]"
    "8 + length ''chao'' \<le> VEC_MAX" "8 + 256 \<le> VEC_MAX" by simp_all
  from example_clients_send [OF cl_demo_connects n, of 0 1 3 False zero_addr] show ?thesis by blast
qed

end
